(* ===== verification/Nv_Prelude.thy ===== *)
theory Nv_Prelude
  imports Main "HOL-Library.Word" "HOL-Library.Multiset"
begin

text \<open>
  What every component of the development shares: C strings as character lists
  without a terminating NUL, the character classes of the C locale, the
  truncation done by bounded string copies, folds over bytes, and facts on lists
  that several components use.
\<close>

unbundle bit_operations_syntax

named_theorems cstr_simps \<open>facts on C strings, their truncation and their comparison\<close>
named_theorems byte_simps \<open>facts on bytes and on folds over bytes\<close>

type_synonym byte = "8 word"
type_synonym cstring = "string"

section \<open>Return codes\<close>

definition NV_OK :: int where "NV_OK = 0"
definition NV_ERROR :: int where "NV_ERROR = -1"
definition NV_BUSY :: int where "NV_BUSY = -3"
definition NV_DECLINED :: int where "NV_DECLINED = -5"

lemmas nv_codes = NV_OK_def NV_ERROR_def NV_BUSY_def NV_DECLINED_def

section \<open>C strings\<close>

text \<open>A C string holds the characters before the NUL, so none of them is NUL.\<close>

definition cstr :: "cstring \<Rightarrow> bool" where
  "cstr s \<longleftrightarrow> CHR 0x00 \<notin> set s"

text \<open>The conversion of a \<open>char\<close> to \<open>unsigned char\<close>.\<close>

definition uchar :: "char \<Rightarrow> byte" where
  "uchar c = word_of_nat (of_char c)"

text \<open>The value of a plain \<open>char\<close>, which is signed on the targets of the library.\<close>

definition schar :: "char \<Rightarrow> int" where
  "schar c = (let n = int (of_char c) in if n < 128 then n else n - 256)"

text \<open>What a bounded copy into a buffer of \<open>n\<close> bytes keeps: at most \<open>n - 1\<close> characters.\<close>

definition ctrunc :: "nat \<Rightarrow> cstring \<Rightarrow> cstring" where
  "ctrunc n s = take (n - 1) s"

text \<open>Character classes and case conversion of the C locale.\<close>

definition is_space :: "char \<Rightarrow> bool" where
  "is_space c \<longleftrightarrow> c \<in> {CHR '' '', CHR 0x09, CHR 0x0A, CHR 0x0B, CHR 0x0C, CHR 0x0D}"

definition to_lower :: "char \<Rightarrow> char" where
  "to_lower c = (let n = (of_char c :: nat) in if 65 \<le> n \<and> n \<le> 90 then char_of (n + 32) else c)"

definition to_upper :: "char \<Rightarrow> char" where
  "to_upper c = (let n = (of_char c :: nat) in if 97 \<le> n \<and> n \<le> 122 then char_of (n - 32) else c)"

text \<open>The result of \<open>strcasecmp\<close> compared with zero.\<close>

definition strcaseeq :: "cstring \<Rightarrow> cstring \<Rightarrow> bool" where
  "strcaseeq a b \<longleftrightarrow> map to_lower a = map to_lower b"

lemma unat_uchar [byte_simps]: "unat (uchar c) = of_char c"
proof -
  have "(of_char c :: nat) < 256" by (rule nat_of_char_less_256)
  then show ?thesis by (simp add: uchar_def unat_of_nat)
qed

lemma uchar_eq_iff [byte_simps]: "uchar a = uchar b \<longleftrightarrow> a = b"
  by (metis unat_uchar char_of_char)

lemma uchar_eq_0_iff [byte_simps]: "uchar a = 0 \<longleftrightarrow> a = CHR 0x00"
proof -
  have "uchar (CHR 0x00) = 0" by (simp add: uchar_def)
  then show ?thesis by (metis uchar_eq_iff)
qed

lemma ctrunc_id [cstr_simps]: "length s < n \<Longrightarrow> ctrunc n s = s"
  by (simp add: ctrunc_def)

lemma length_ctrunc [cstr_simps]: "0 < n \<Longrightarrow> length (ctrunc n s) < n"
  by (simp add: ctrunc_def)

lemma ctrunc_idem [cstr_simps]: "ctrunc n (ctrunc n s) = ctrunc n s"
  by (simp add: ctrunc_def)

lemma cstr_ctrunc [cstr_simps]: "cstr s \<Longrightarrow> cstr (ctrunc n s)"
  by (auto simp: cstr_def ctrunc_def dest: in_set_takeD)

lemma strcaseeq_refl [simp]: "strcaseeq a a"
  by (simp add: strcaseeq_def)

lemma strcaseeq_sym: "strcaseeq a b \<longleftrightarrow> strcaseeq b a"
  by (auto simp: strcaseeq_def)

lemma strcaseeq_trans: "strcaseeq a b \<Longrightarrow> strcaseeq b c \<Longrightarrow> strcaseeq a c"
  by (simp add: strcaseeq_def)

text \<open>The C string that an array of bytes holds.\<close>

definition cstr_of :: "char list \<Rightarrow> cstring" where
  "cstr_of buf = takeWhile (\<lambda>c. c \<noteq> CHR 0x00) buf"

lemma cstr_of_cstr [simp]: "cstr (cstr_of buf)"
  by (auto simp: cstr_def cstr_of_def dest: set_takeWhileD)

lemma length_cstr_of: "length (cstr_of buf) \<le> length buf"
  by (simp add: cstr_of_def length_takeWhile_le)

lemma takeWhile_stop: "(\<forall>x \<in> set xs. P x) \<Longrightarrow> \<not> P y \<Longrightarrow> takeWhile P (xs @ y # ys) = xs"
  by (induction xs) auto

section \<open>Lists\<close>

lemma find_append: "find P (xs @ ys) = (case find P xs of None \<Rightarrow> find P ys | Some x \<Rightarrow> Some x)"
  by (induction xs) auto

section \<open>Folds over bytes\<close>

lemma or_eq_0_iff [byte_simps]: "(a :: 'a::len word) OR b = 0 \<longleftrightarrow> a = 0 \<and> b = 0"
  by (auto simp: bit_eq_iff bit_or_iff)

lemma xor_eq_0_iff [byte_simps]: "(a :: 'a::len word) XOR b = 0 \<longleftrightarrow> a = b"
  by (auto simp: bit_eq_iff bit_xor_iff)

lemma xor_cancel [byte_simps]:
  "(a :: 'a::len word) XOR c = b XOR c \<longleftrightarrow> a = b" "c XOR a = c XOR b \<longleftrightarrow> a = b"
  by (auto simp: bit_eq_iff bit_xor_iff)

lemma fold_skip [simp]: "fold (\<lambda>i d. d) xs d0 = d0"
  by (induction xs) auto

lemma fold_or_eq_0_iff [byte_simps]:
  "fold (\<lambda>i d. d OR f i) xs (d0 :: 'a::len word) = 0 \<longleftrightarrow> d0 = 0 \<and> (\<forall>i\<in>set xs. f i = 0)"
  by (induction xs arbitrary: d0) (auto simp: byte_simps)

section \<open>Low bits and shifts of words\<close>

lemma unat_and_3F: "unat ((w :: 32 word) AND 0x3F) = unat w mod 64"
proof -
  have "unat (w AND 0x3F) = unat w AND 63" by (simp add: unsigned_and_eq)
  also have "\<dots> = take_bit 6 (unat w)" by (simp add: take_bit_eq_mask mask_eq_exp_minus_1)
  finally show ?thesis by (simp add: take_bit_eq_mod)
qed

lemma unat_and_FF: "unat ((w :: 32 word) AND 0xFF) = unat w mod 256"
proof -
  have "unat (w AND 0xFF) = unat w AND 255" by (simp add: unsigned_and_eq)
  also have "\<dots> = take_bit 8 (unat w)" by (simp add: take_bit_eq_mask mask_eq_exp_minus_1)
  finally show ?thesis by (simp add: take_bit_eq_mod)
qed

lemma unat_drop: "unat (drop_bit k (w :: 32 word)) = unat w div 2 ^ k"
  unfolding unat_drop_bit_eq by (simp add: drop_bit_eq_div)

lemma unat_byte_less: "unat (a :: byte) < 256"
  using unsigned_less[of a] by simp

lemma set_updateD: "x \<in> set (xs[i := v]) \<Longrightarrow> x = v \<or> x \<in> set xs"
  by (auto dest: subsetD[OF set_update_subset_insert])

lemma set_update_keep: "y \<in> set xs \<Longrightarrow> xs ! i \<noteq> y \<Longrightarrow> y \<in> set (xs[i := x])"
  by (metis in_set_conv_nth length_list_update nth_list_update_neq)

lemma set_update_new: "i < length xs \<Longrightarrow> x \<in> set (xs[i := x])"
  by (simp add: set_update_memI)

end
