(* ===== verification/Nv_Secure.thy ===== *)
theory Nv_Secure
  imports Nv_Prelude
begin

text \<open>
  The constant-time comparisons and the weak-password test of
  \<open>base/sys/nv_secure.c\<close>.  A pointer argument is an option: \<open>None\<close> is NULL.
\<close>

section \<open>Operations\<close>

definition nv_secure_mem_equal :: "byte list option \<Rightarrow> byte list option \<Rightarrow> nat \<Rightarrow> bool" where
  "nv_secure_mem_equal a b len =
     (case (a, b) of
        (Some pa, Some pb) \<Rightarrow> fold (\<lambda>i diff. diff OR (pa ! i XOR pb ! i)) [0..<len] 0 = 0
      | (None, None) \<Rightarrow> True
      | _ \<Rightarrow> False)"

definition char_at :: "cstring \<Rightarrow> nat \<Rightarrow> byte" where
  "char_at s i = (if i < length s then uchar (s ! i) else 0)"

definition nv_secure_str_equal :: "cstring option \<Rightarrow> cstring option \<Rightarrow> bool" where
  "nv_secure_str_equal pa pb =
     (case (pa, pb) of
        (Some a, Some b) \<Rightarrow>
          (let la = length a; lb = length b; len = (if la > lb then la else lb);
               diff = (ucast ((word_of_nat la :: 64 word) XOR word_of_nat lb) :: byte)
           in fold (\<lambda>i diff. diff OR (char_at a i XOR char_at b i)) [0..<len] diff = 0)
      | (None, None) \<Rightarrow> True
      | _ \<Rightarrow> False)"

definition weak :: "cstring list" where
  "weak = ['''', ''123456'', ''nvadmin'', ''admin'', ''password'', ''12345678'', ''root'']"

definition nv_secure_is_weak_password :: "cstring option \<Rightarrow> bool" where
  "nv_secure_is_weak_password password =
     (case password of
        None \<Rightarrow> True
      | Some p \<Rightarrow> list_ex (\<lambda>w. nv_secure_str_equal (Some p) (Some w)) weak \<or> length p < 8)"

section \<open>Correctness\<close>

lemma char_at_xor_0: "cstr a \<Longrightarrow> cstr b \<Longrightarrow>
    char_at a i XOR char_at b i = 0 \<longleftrightarrow>
    (i < length a \<longleftrightarrow> i < length b) \<and> (i < length a \<longrightarrow> a ! i = b ! i)"
  by (auto simp: char_at_def byte_simps cstr_def dest: nth_mem)

lemma cstr_eq_by_chars:
  assumes "\<And>i. i < max (length a) (length b) \<Longrightarrow>
             (i < length a \<longleftrightarrow> i < length b) \<and> (i < length a \<longrightarrow> a ! i = b ! i)"
  shows "a = b"
proof -
  have "\<not> length a < length b" using assms[of "length a"] by auto
  moreover have "\<not> length b < length a" using assms[of "length b"] by auto
  ultimately have "length a = length b" by simp
  then show ?thesis using assms by (intro nth_equalityI) auto
qed

lemma weak_cstr: "w \<in> set weak \<Longrightarrow> cstr w"
  by (auto simp: weak_def cstr_def)

lemma str_equal_iff:
  assumes "cstr a" "cstr b"
  shows "nv_secure_str_equal (Some a) (Some b) \<longleftrightarrow> a = b"
proof
  assume "nv_secure_str_equal (Some a) (Some b)"
  then have "\<forall>i<max (length a) (length b). char_at a i XOR char_at b i = 0"
    by (auto simp: nv_secure_str_equal_def Let_def byte_simps max_def split: if_splits)
  then show "a = b"
    using cstr_eq_by_chars[of a b] char_at_xor_0[OF assms] by blast
next
  assume "a = b"
  then show "nv_secure_str_equal (Some a) (Some b)"
    by (simp add: nv_secure_str_equal_def Let_def byte_simps)
qed

text \<open>The constant-time string comparison returns true exactly on equal C strings, although
  the difference of the lengths is truncated to one byte before it is accumulated.\<close>
theorem nv_secure_str_equal_correct:
  assumes "cstr a" "cstr b"
  shows "nv_secure_str_equal (Some a) (Some b) \<longleftrightarrow> a = b"
  using assms by (rule str_equal_iff)

theorem nv_secure_str_equal_witness:
  "cstr ''secret'' \<and> cstr ''secreT'' \<and> \<not> nv_secure_str_equal (Some ''secret'') (Some ''secreT'')"
proof -
  have "cstr ''secret''" "cstr ''secreT''" by (simp_all add: cstr_def)
  then show ?thesis using nv_secure_str_equal_correct[of "''secret''" "''secreT''"] by simp
qed

text \<open>A password passes the weakness check only if it is given, has at least eight characters and is
  none of the listed ones; every such password passes.\<close>
theorem nv_secure_strong_password:
  assumes "cstr p"
  shows "\<not> nv_secure_is_weak_password (Some p) \<longleftrightarrow> 8 \<le> length p \<and> p \<notin> {''password'', ''12345678''}"
proof -
  have "list_ex (\<lambda>w. nv_secure_str_equal (Some p) (Some w)) weak \<longleftrightarrow> p \<in> set weak"
    unfolding list_ex_iff using str_equal_iff[OF assms weak_cstr] by blast
  then have weak: "nv_secure_is_weak_password (Some p) \<longleftrightarrow> p \<in> set weak \<or> length p < 8"
    by (simp add: nv_secure_is_weak_password_def)
  have "p \<in> set weak \<and> 8 \<le> length p \<longleftrightarrow> p \<in> set (filter (\<lambda>w. 8 \<le> length w) weak)" by simp
  also have "filter (\<lambda>w. 8 \<le> length w) weak = [''password'', ''12345678'']" by (simp add: weak_def)
  finally have "p \<in> set weak \<and> 8 \<le> length p \<longleftrightarrow> p \<in> {''password'', ''12345678''}" by simp
  then show ?thesis unfolding weak using not_less by blast
qed

theorem nv_secure_strong_password_witness: "\<not> nv_secure_is_weak_password (Some ''correct horse'')"
proof -
  have "cstr ''correct horse''" by (simp add: cstr_def)
  then show ?thesis using nv_secure_strong_password[of "''correct horse''"] by simp
qed

end
