(* ===== verification/Nv_Store.thy ===== *)
theory Nv_Store
  imports Nv_Prelude
begin

text \<open>
  An explicit store for the pointer structures of the library: addresses are
  naturals, 0 is NULL, and the store maps the addresses of live objects to
  their contents.  Reading through NULL or through a freed address is the
  value \<open>None\<close>.  The theory defines segments of singly and doubly linked lists
  over any record with a next (and a previous) link, and the lemmas on
  splitting, extending and framing segments that the components use.
\<close>

type_synonym addr = nat
type_synonym 'n store = "addr \<Rightarrow> 'n option"

abbreviation (input) NULL :: addr where "NULL \<equiv> 0"

text \<open>What \<open>malloc\<close> may return: NULL, or an address that holds no live object.\<close>

definition fresh :: "'n store \<Rightarrow> addr \<Rightarrow> bool" where
  "fresh h p \<longleftrightarrow> p \<noteq> NULL \<and> h p = None"

text \<open>An assignment through a pointer fails when the pointer is not live.\<close>

definition store_upd :: "addr \<Rightarrow> ('n \<Rightarrow> 'n) \<Rightarrow> 'n store \<Rightarrow> 'n store option" where
  "store_upd p f h = (if p = NULL then None else map_option (\<lambda>n. h(p \<mapsto> f n)) (h p))"

text \<open>The effect of \<open>if (p) p->field = x\<close> when \<open>p\<close> is live or NULL.\<close>

definition upd_at :: "addr \<Rightarrow> ('n \<Rightarrow> 'n) \<Rightarrow> 'n store \<Rightarrow> 'n store" where
  "upd_at p f h = (if p = NULL then h else h(p := map_option f (h p)))"

lemma upd_at_apply: "upd_at p f h b = (if p \<noteq> NULL \<and> b = p then map_option f (h b) else h b)"
  by (simp add: upd_at_def)

lemma store_upd_live:
  "p = NULL \<or> h p \<noteq> None \<Longrightarrow> (if p \<noteq> NULL then store_upd p f h else Some h) = Some (upd_at p f h)"
  by (auto simp: store_upd_def upd_at_def)

definition store_free :: "addr \<Rightarrow> 'n store \<Rightarrow> 'n store" where
  "store_free p h = h(p := None)"

named_theorems seg_simps \<open>segments of linked lists: splitting, framing and extension\<close>

section \<open>Singly linked segments\<close>

fun sseg :: "('n \<Rightarrow> addr) \<Rightarrow> 'n store \<Rightarrow> addr \<Rightarrow> addr list \<Rightarrow> addr \<Rightarrow> bool" where
  "sseg nxt h p [] q \<longleftrightarrow> p = q"
| "sseg nxt h p (a # as) q \<longleftrightarrow>
     p = a \<and> a \<noteq> NULL \<and> (case h a of None \<Rightarrow> False | Some n \<Rightarrow> sseg nxt h (nxt n) as q)"

lemma sseg_append [seg_simps]:
  "sseg nxt h p (xs @ ys) q \<longleftrightarrow> (\<exists>r. sseg nxt h p xs r \<and> sseg nxt h r ys q)"
  by (induction xs arbitrary: p) (auto split: option.splits)

lemma sseg_upd_other [seg_simps]: "a \<notin> set as \<Longrightarrow> sseg nxt (h(a := v)) p as q = sseg nxt h p as q"
  by (induction as arbitrary: p) (auto split: option.splits)

lemma sseg_live: "sseg nxt h p as q \<Longrightarrow> a \<in> set as \<Longrightarrow> a \<noteq> NULL \<and> h a \<noteq> None"
  by (induction as arbitrary: p) (auto split: option.splits)

lemma sseg_fresh: "sseg nxt h p as q \<Longrightarrow> fresh h a \<Longrightarrow> a \<notin> set as"
  using sseg_live by (fastforce simp: fresh_def)

lemma sseg_null_iff: "sseg nxt h p as NULL \<Longrightarrow> p = NULL \<longleftrightarrow> as = []"
  by (cases as) auto

lemma sseg_det: "sseg nxt h p as NULL \<Longrightarrow> sseg nxt h p bs NULL \<Longrightarrow> as = bs"
proof (induction as arbitrary: p bs)
  case Nil
  then show ?case by (cases bs) auto
next
  case (Cons a as)
  then show ?case by (cases bs) (auto split: option.splits)
qed

lemma sseg_distinct: "sseg nxt h p as NULL \<Longrightarrow> distinct as"
proof (induction as arbitrary: p)
  case Nil
  then show ?case by simp
next
  case (Cons a as)
  then obtain n where n: "h a = Some n" "sseg nxt h (nxt n) as NULL" "a \<noteq> NULL"
    by (auto split: option.splits)
  have "a \<notin> set as"
  proof
    assume "a \<in> set as"
    then obtain us vs where uv: "as = us @ a # vs" by (auto simp: in_set_conv_decomp)
    then have "sseg nxt h a (a # vs) NULL" using n(2) by (auto simp: seg_simps)
    then have "sseg nxt h (nxt n) vs NULL" using n(1) by simp
    then have "as = vs" using sseg_det n(2) by metis
    then show False using arg_cong[OF uv, of length] by simp
  qed
  then show ?case using Cons.IH n(2) by simp
qed

section \<open>Doubly linked segments\<close>

text \<open>\<open>dseg prv nxt h l p as l' q\<close>: from \<open>p\<close>, whose predecessor is \<open>l\<close>, the nodes \<open>as\<close>
  follow one another; the last of them is \<open>l'\<close> and its successor is \<open>q\<close>.\<close>

fun dseg :: "('n \<Rightarrow> addr) \<Rightarrow> ('n \<Rightarrow> addr) \<Rightarrow> 'n store \<Rightarrow> addr \<Rightarrow> addr \<Rightarrow> addr list \<Rightarrow> addr \<Rightarrow> addr \<Rightarrow> bool" where
  "dseg prv nxt h l p [] l' q \<longleftrightarrow> p = q \<and> l = l'"
| "dseg prv nxt h l p (a # as) l' q \<longleftrightarrow>
     p = a \<and> a \<noteq> NULL \<and>
     (case h a of None \<Rightarrow> False | Some n \<Rightarrow> prv n = l \<and> dseg prv nxt h a (nxt n) as l' q)"

lemma dseg_append [seg_simps]:
  "dseg prv nxt h l p (xs @ ys) l' q \<longleftrightarrow>
     (\<exists>m r. dseg prv nxt h l p xs m r \<and> dseg prv nxt h m r ys l' q)"
  by (induction xs arbitrary: l p) (auto split: option.splits)

lemma dseg_upd_other [seg_simps]:
  "a \<notin> set as \<Longrightarrow> dseg prv nxt (h(a := v)) l p as l' q = dseg prv nxt h l p as l' q"
  by (induction as arbitrary: l p) (auto split: option.splits)

lemma dseg_sseg: "dseg prv nxt h l p as l' q \<Longrightarrow> sseg nxt h p as q"
  by (induction as arbitrary: l p) (auto split: option.splits)

lemma dseg_last: "dseg prv nxt h l p as l' q \<Longrightarrow> l' = (if as = [] then l else last as)"
  by (induction as arbitrary: l p) (auto split: option.splits)

lemmas dseg_live = sseg_live[OF dseg_sseg]
lemmas dseg_fresh = sseg_fresh[OF dseg_sseg]
lemmas dseg_null_iff = sseg_null_iff[OF dseg_sseg]
lemmas dseg_distinct = sseg_distinct[OF dseg_sseg]
lemmas dseg_det = sseg_det[OF dseg_sseg dseg_sseg]

lemma dseg_split:
  assumes "dseg prv nxt h l p as l' q" "a \<in> set as"
  obtains us vs n where "as = us @ a # vs" "h a = Some n" "a \<noteq> NULL"
    "dseg prv nxt h l p us (prv n) a" "dseg prv nxt h a (nxt n) vs l' q"
proof -
  obtain us vs where uv: "as = us @ a # vs" using assms(2) by (auto simp: in_set_conv_decomp)
  then obtain m r where "dseg prv nxt h l p us m r" "dseg prv nxt h m r (a # vs) l' q"
    using assms(1) by (auto simp: seg_simps)
  then show thesis using that[OF uv] by (auto split: option.splits)
qed

section \<open>Link fields\<close>

text \<open>What a node type with a previous and a next link promises, and how an append at the
  tail and the unlinking of a node act on segments.\<close>

locale dlinks =
  fixes prv nxt :: "'n \<Rightarrow> addr"
    and set_prv set_nxt :: "addr \<Rightarrow> 'n \<Rightarrow> 'n"
  assumes prv_set_prv: "prv (set_prv x n) = x"
    and nxt_set_prv: "nxt (set_prv x n) = nxt n"
    and prv_set_nxt: "prv (set_nxt x n) = prv n"
    and nxt_set_nxt: "nxt (set_nxt x n) = x"
begin

lemmas link_laws = prv_set_prv nxt_set_prv prv_set_nxt nxt_set_nxt

lemma set_last_next:
  assumes "dseg prv nxt h l p (us @ [m]) m' r" "h m = Some n" "m \<notin> set us"
  shows "dseg prv nxt (h(m \<mapsto> set_nxt q n)) l p (us @ [m]) m q"
  using assms by (auto simp: seg_simps link_laws split: option.splits)

lemma set_first_prev:
  assumes "dseg prv nxt h l p (a # vs) l' q" "h a = Some n" "a \<notin> set vs"
  shows "dseg prv nxt (h(a \<mapsto> set_prv m n)) m p (a # vs) l' q"
  using assms by (auto simp: seg_simps link_laws split: option.splits)

lemma dseg_frame:
  assumes "dseg prv nxt h l p as l' q" "\<And>b. b \<in> set as \<Longrightarrow> h1 b = h b"
  shows "dseg prv nxt h1 l p as l' q"
  using assms by (induction as arbitrary: l p) (auto split: option.splits)

lemma unlink_left:
  assumes us: "dseg prv nxt h NULL p us l a" and nd: "distinct us"
  shows "dseg prv nxt (upd_at l (set_nxt q) h) NULL (if us = [] then q else p) us l q"
proof (cases us rule: rev_cases)
  case Nil
  then show ?thesis using us by auto
next
  case (snoc ys m)
  then obtain n where n: "l = m" "h m = Some n" "m \<noteq> NULL"
    using us by (auto simp: seg_simps split: option.splits)
  have "dseg prv nxt (h(m \<mapsto> set_nxt q n)) NULL p (ys @ [m]) m q"
    by (rule set_last_next[where m' = l and r = a]) (use us nd n(2) snoc in auto)
  then show ?thesis using n snoc by (simp add: upd_at_def)
qed

lemma unlink_right:
  assumes vs: "dseg prv nxt h a q vs l' NULL" and nd: "distinct vs"
  shows "dseg prv nxt (upd_at q (set_prv l) h) l q vs (if vs = [] then l else l') NULL"
proof (cases vs)
  case Nil
  then show ?thesis using vs by simp
next
  case (Cons b vs')
  then obtain n where n: "q = b" "h b = Some n" "b \<noteq> NULL"
    using vs by (auto split: option.splits)
  have "dseg prv nxt (h(b \<mapsto> set_prv l n)) l q (b # vs') l' NULL"
    by (rule set_first_prev[where l = a]) (use vs nd n(2) Cons in auto)
  then show ?thesis using n Cons by (simp add: upd_at_def)
qed

text \<open>The store after the two assignments that take a node out of its list.\<close>

lemma unlink:
  assumes seg: "dseg prv nxt h NULL p (us @ a # vs) l' NULL" and n: "h a = Some n"
  shows "\<exists>m. dseg prv nxt (upd_at (nxt n) (set_prv (prv n)) (upd_at (prv n) (set_nxt (nxt n)) h))
           NULL (if us = [] then nxt n else p) (us @ vs) m NULL"
    and "us = [] \<longleftrightarrow> prv n = NULL" and "vs = [] \<longleftrightarrow> nxt n = NULL"
    and "prv n \<noteq> NULL \<Longrightarrow> prv n \<in> set us" and "nxt n \<noteq> NULL \<Longrightarrow> nxt n \<in> set vs"
proof -
  let ?h1 = "upd_at (prv n) (set_nxt (nxt n)) h"
  let ?h2 = "upd_at (nxt n) (set_prv (prv n)) ?h1"
  have dist: "distinct (us @ a # vs)" using dseg_distinct[OF seg] .
  from seg n have us: "dseg prv nxt h NULL p us (prv n) a" and a0: "a \<noteq> NULL"
    and vs: "dseg prv nxt h a (nxt n) vs l' NULL"
    by (auto simp: seg_simps split: option.splits)
  show ul: "us = [] \<longleftrightarrow> prv n = NULL"
    using dseg_last[OF us] sseg_live[OF dseg_sseg[OF us], of "last us"] by auto
  show vl: "vs = [] \<longleftrightarrow> nxt n = NULL" using dseg_null_iff[OF vs] by simp
  show pin: "prv n \<noteq> NULL \<Longrightarrow> prv n \<in> set us" using dseg_last[OF us] ul by (metis last_in_set)
  show nin: "nxt n \<noteq> NULL \<Longrightarrow> nxt n \<in> set vs" using vs by (cases vs) auto
  have us1: "dseg prv nxt ?h1 NULL (if us = [] then nxt n else p) us (prv n) (nxt n)"
    using unlink_left[OF us] dist by simp
  have "dseg prv nxt ?h1 a (nxt n) vs l' NULL"
    by (rule dseg_frame[OF vs]) (use dist pin in \<open>auto simp: upd_at_apply\<close>)
  then have vs2: "dseg prv nxt ?h2 (prv n) (nxt n) vs (if vs = [] then prv n else l') NULL"
    using unlink_right dist by simp
  have "dseg prv nxt ?h2 NULL (if us = [] then nxt n else p) us (prv n) (nxt n)"
    by (rule dseg_frame[OF us1]) (use dist nin in \<open>auto simp: upd_at_apply[of "nxt n"]\<close>)
  then show "\<exists>m. dseg prv nxt ?h2 NULL (if us = [] then nxt n else p) (us @ vs) m NULL"
    unfolding dseg_append using vs2 by blast
qed

end

end
