(* ===== verification/Nv_Interfaces.thy ===== *)
theory Nv_Interfaces
  imports Nv_Prelude
begin

text \<open>
  The interfaces that several components of the library implement, as locales:
  a first-in first-out buffer (linked queue, thread-pool ring, log ring, socket
  buffers), a keyed store (dictionary, hash table, ini file, command registry)
  and a labelled step system with an invariant (thread pool, telnet session,
  event bus).  A representation relation links the code's state to the abstract
  value, so that pointer structures and rings fit the same interface.
\<close>

section \<open>First-in first-out buffers\<close>

inductive fifo_run :: "('a \<Rightarrow> 's \<Rightarrow> 's \<Rightarrow> bool) \<Rightarrow> ('s \<Rightarrow> ('a \<times> 's) option) \<Rightarrow>
    's \<Rightarrow> 'a list \<Rightarrow> 'a list \<Rightarrow> 's \<Rightarrow> bool" for enq deq where
  fifo_done: "fifo_run enq deq s [] [] s"
| fifo_enq: "enq x s s' \<Longrightarrow> fifo_run enq deq s' ins outs t \<Longrightarrow> fifo_run enq deq s (x # ins) outs t"
| fifo_deq: "deq s = Some (y, s') \<Longrightarrow> fifo_run enq deq s' ins outs t \<Longrightarrow>
    fifo_run enq deq s ins (y # outs) t"
| fifo_none: "deq s = None \<Longrightarrow> fifo_run enq deq s ins outs t \<Longrightarrow> fifo_run enq deq s ins outs t"

fun drain :: "('s \<Rightarrow> ('a \<times> 's) option) \<Rightarrow> nat \<Rightarrow> 's \<Rightarrow> 'a list \<times> 's" where
  "drain deq 0 s = ([], s)"
| "drain deq (Suc n) s =
     (case deq s of None \<Rightarrow> ([], s)
      | Some (x, s') \<Rightarrow> (let (xs, t) = drain deq n s' in (x # xs, t)))"

locale fifo =
  fixes rep :: "'s \<Rightarrow> 'a list \<Rightarrow> bool"
    and enq :: "'a \<Rightarrow> 's \<Rightarrow> 's \<Rightarrow> bool"
    and deq :: "'s \<Rightarrow> ('a \<times> 's) option"
  assumes enq_rep: "rep s xs \<Longrightarrow> enq x s s' \<Longrightarrow> rep s' (xs @ [x])"
    and deq_rep: "rep s (x # xs) \<Longrightarrow> \<exists>s'. deq s = Some (x, s') \<and> rep s' xs"
    and deq_empty: "rep s [] \<Longrightarrow> deq s = None"
begin

lemma deq_cases:
  assumes "rep s xs" "deq s = Some (y, s')"
  shows "\<exists>ys. xs = y # ys \<and> rep s' ys"
  using assms deq_empty deq_rep by (cases xs) fastforce+

lemma run_conserves:
  assumes "fifo_run enq deq s ins outs t" "rep s xs"
  shows "\<exists>ys. rep t ys \<and> xs @ ins = outs @ ys"
  using assms
proof (induction arbitrary: xs rule: fifo_run.induct)
  case (fifo_done s)
  then show ?case by simp
next
  case (fifo_enq x s s' ins outs t)
  then have "rep s' (xs @ [x])" by (simp add: enq_rep)
  then show ?case using fifo_enq.IH by fastforce
next
  case (fifo_deq s y s' ins outs t)
  then obtain ys where "xs = y # ys" "rep s' ys" using deq_cases by blast
  then show ?case using fifo_deq.IH by fastforce
next
  case (fifo_none s ins outs t)
  then show ?case by blast
qed

lemma drain_all: "rep s xs \<Longrightarrow> length xs \<le> n \<Longrightarrow> \<exists>t. drain deq n s = (xs, t) \<and> rep t []"
proof (induction n arbitrary: s xs)
  case 0
  then show ?case by simp
next
  case (Suc n)
  show ?case
  proof (cases xs)
    case Nil
    then show ?thesis using Suc.prems deq_empty by simp
  next
    case (Cons x xs')
    then obtain s' where "deq s = Some (x, s')" "rep s' xs'" using Suc.prems deq_rep by blast
    then show ?thesis using Suc.IH[of s' xs'] Suc.prems Cons by auto
  qed
qed

end

text \<open>A buffer of bounded capacity accepts exactly while it is not full.\<close>

locale bounded_fifo = fifo +
  fixes cap :: "'a \<Rightarrow> nat"
  assumes cap_deq: "rep s xs \<Longrightarrow> deq s = Some (y, s') \<Longrightarrow> cap s' = cap s"
    and cap_enq: "rep s xs \<Longrightarrow> enq x s s' \<Longrightarrow> cap s' = cap s"
    and rep_cap: "rep s xs \<Longrightarrow> length xs \<le> cap s"
    and enq_iff: "rep s xs \<Longrightarrow> (\<exists>s'. enq x s s') \<longleftrightarrow> length xs < cap s"
begin

lemma run_bounded:
  assumes "fifo_run enq deq s ins outs t" "rep s xs"
  shows "length ins + length xs \<le> length outs + cap s"
  using assms
proof (induction arbitrary: xs rule: fifo_run.induct)
  case (fifo_done s)
  then show ?case using rep_cap by simp
next
  case (fifo_enq x s s' ins outs t)
  then show ?case using enq_rep[OF fifo_enq.prems fifo_enq.hyps(1)] cap_enq fifo_enq.IH by fastforce
next
  case (fifo_deq s y s' ins outs t)
  then obtain ys where "xs = y # ys" "rep s' ys" using deq_cases by blast
  then show ?case using fifo_deq.IH cap_deq[OF fifo_deq.prems fifo_deq.hyps(1)] by fastforce
next
  case (fifo_none s ins outs t)
  then show ?case by blast
qed

end

section \<open>Keyed stores\<close>

text \<open>Keys are compared by a normal form, so that case-insensitive lookups fit as well.\<close>

locale keyed_store =
  fixes norm :: "'k \<Rightarrow> 'n"
    and inv :: "'s \<Rightarrow> bool"
    and lookup :: "'s \<Rightarrow> 'k \<Rightarrow> 'v option"
    and upd :: "'k \<Rightarrow> 'v \<Rightarrow> 's \<Rightarrow> 's"
  assumes inv_upd: "inv s \<Longrightarrow> inv (upd k v s)"
    and lookup_upd: "inv s \<Longrightarrow>
      lookup (upd k v s) k' = (if norm k' = norm k then Some v else lookup s k')"
begin

fun upds :: "('k \<times> 'v) list \<Rightarrow> 's \<Rightarrow> 's" where
  "upds [] s = s"
| "upds ((k, v) # kvs) s = upds kvs (upd k v s)"

lemma inv_upds: "inv s \<Longrightarrow> inv (upds kvs s)"
  by (induction kvs s rule: upds.induct) (auto simp: inv_upd)

text \<open>After any sequence of updates a lookup returns the last value written for the key.\<close>

lemma lookup_upds: "inv s \<Longrightarrow> lookup (upds kvs s) k =
    (case map_of (rev (map (\<lambda>(k, v). (norm k, v)) kvs)) (norm k) of
       Some v \<Rightarrow> Some v | None \<Rightarrow> lookup s k)"
  by (induction kvs s rule: upds.induct)
     (auto simp: inv_upd lookup_upd map_add_def split: option.splits)

lemma upd_commute_lookup: "inv s \<Longrightarrow> norm k \<noteq> norm k' \<Longrightarrow>
    lookup (upd k v (upd k' v' s)) = lookup (upd k' v' (upd k v s))"
  by (rule ext) (auto simp: inv_upd lookup_upd)

end

locale keyed_store_del = keyed_store +
  fixes del :: "'a \<Rightarrow> 'c \<Rightarrow> 'c"
  assumes inv_del: "inv s \<Longrightarrow> inv (del k s)"
    and lookup_del: "inv s \<Longrightarrow>
      lookup (del k s) k' = (if norm k' = norm k then None else lookup s k')"
begin

lemma del_upd_lookup: "inv s \<Longrightarrow> lookup (del k (upd k v s)) = lookup (del k s)"
  by (rule ext) (simp add: inv_upd inv_del lookup_upd lookup_del)

lemma del_idem_lookup: "inv s \<Longrightarrow> lookup (del k (del k s)) = lookup (del k s)"
  by (rule ext) (simp add: inv_del lookup_del)

end

section \<open>Registries\<close>

text \<open>A registry refuses to add a key that is there and to remove one that is not.  Its specification is a map that
  is updated by the same operations, with their return values.\<close>

datatype ('k, 'v) registry_op = Add_key 'k 'v | Remove_key 'k

fun spec_run :: "('k \<Rightarrow> 'n) \<Rightarrow> ('k, 'v) registry_op list \<Rightarrow> ('n \<Rightarrow> 'v option) \<Rightarrow> bool list \<times> ('n \<Rightarrow> 'v option)" where
  "spec_run norm [] m = ([], m)"
| "spec_run norm (Add_key k v # ops) m =
     (case spec_run norm ops (if m (norm k) = None then m(norm k \<mapsto> v) else m) of (bs, m') \<Rightarrow> ((m (norm k) = None) # bs, m'))"
| "spec_run norm (Remove_key k # ops) m =
     (case spec_run norm ops (m(norm k := None)) of (bs, m') \<Rightarrow> ((m (norm k) \<noteq> None) # bs, m'))"

fun op_key :: "('k, 'v) registry_op \<Rightarrow> 'k" where
  "op_key (Add_key k v) = k"
| "op_key (Remove_key k) = k"

locale registry =
  fixes norm :: "'k \<Rightarrow> 'n"
    and inv :: "'s \<Rightarrow> bool"
    and valid :: "'k \<Rightarrow> bool"
    and lookup :: "'s \<Rightarrow> 'k \<Rightarrow> 'v option"
    and reg :: "'k \<Rightarrow> 'v \<Rightarrow> 's \<Rightarrow> bool \<times> 's"
    and unreg :: "'k \<Rightarrow> 's \<Rightarrow> bool \<times> 's"
  assumes inv_reg: "inv s \<Longrightarrow> valid k \<Longrightarrow> inv (snd (reg k v s))"
    and reg_ok: "inv s \<Longrightarrow> valid k \<Longrightarrow> fst (reg k v s) \<longleftrightarrow> lookup s k = None"
    and lookup_reg: "inv s \<Longrightarrow> valid k \<Longrightarrow>
      lookup (snd (reg k v s)) k' = (if lookup s k = None \<and> norm k' = norm k then Some v else lookup s k')"
    and inv_unreg: "inv s \<Longrightarrow> inv (snd (unreg k s))"
    and unreg_ok: "inv s \<Longrightarrow> fst (unreg k s) \<longleftrightarrow> lookup s k \<noteq> None"
    and lookup_unreg: "inv s \<Longrightarrow> lookup (snd (unreg k s)) k' = (if norm k' = norm k then None else lookup s k')"
begin

fun run_op :: "('k, 'v) registry_op \<Rightarrow> 's \<Rightarrow> bool \<times> 's" where
  "run_op (Add_key k v) s = reg k v s"
| "run_op (Remove_key k) s = unreg k s"

fun run_ops :: "('k, 'v) registry_op list \<Rightarrow> 's \<Rightarrow> bool list \<times> 's" where
  "run_ops [] s = ([], s)"
| "run_ops (op # ops) s = (case run_op op s of (b, s) \<Rightarrow> case run_ops ops s of (bs, s) \<Rightarrow> (b # bs, s))"

lemma run_refines:
  assumes "inv s" "\<forall>op\<in>set ops. valid (op_key op)" "\<And>k. lookup s k = m (norm k)"
  shows "fst (run_ops ops s) = fst (spec_run norm ops m) \<and>
         inv (snd (run_ops ops s)) \<and> (\<forall>k. lookup (snd (run_ops ops s)) k = snd (spec_run norm ops m) (norm k))"
  using assms
proof (induction ops arbitrary: s m)
  case (Cons op ops)
  show ?case
  proof (cases op)
    case (Add_key k v)
    let ?s = "snd (reg k v s)" and ?m = "if m (norm k) = None then m(norm k \<mapsto> v) else m"
    have "lookup ?s k' = ?m (norm k')" for k'
      using lookup_reg[of s k v k'] Cons.prems Add_key by auto
    with Cons.IH[of ?s ?m] show ?thesis
      using Cons.prems inv_reg[of s k v] reg_ok[of s k v] Add_key by (auto split: prod.splits)
  next
    case (Remove_key k)
    let ?s = "snd (unreg k s)" and ?m = "m(norm k := None)"
    have "lookup ?s k' = ?m (norm k')" for k'
      using lookup_unreg[of s k k'] Cons.prems Remove_key by auto
    with Cons.IH[of ?s ?m] show ?thesis
      using Cons.prems inv_unreg[of s k] unreg_ok[of s k] Remove_key by (auto simp del: fun_upd_apply split: prod.splits)
  qed
qed auto

end

section \<open>Step systems with an invariant\<close>

inductive reach :: "('s \<Rightarrow> bool) \<Rightarrow> ('s \<Rightarrow> 'l \<Rightarrow> 's \<Rightarrow> bool) \<Rightarrow> 's \<Rightarrow> bool" for start step where
  reach_start: "start s \<Longrightarrow> reach start step s"
| reach_step: "reach start step s \<Longrightarrow> step s l s' \<Longrightarrow> reach start step s'"

inductive steps :: "('s \<Rightarrow> 'l \<Rightarrow> 's \<Rightarrow> bool) \<Rightarrow> 's \<Rightarrow> 'l list \<Rightarrow> 's \<Rightarrow> bool" for step where
  steps_nil: "steps step s [] s"
| steps_cons: "step s l s' \<Longrightarrow> steps step s' ls t \<Longrightarrow> steps step s (l # ls) t"

inductive_cases steps_nilE [elim!]: "steps step s [] t"
inductive_cases steps_consE [elim]: "steps step s (l # ls) t"

locale step_invariant =
  fixes start :: "'s \<Rightarrow> bool"
    and step :: "'s \<Rightarrow> 'l \<Rightarrow> 's \<Rightarrow> bool"
    and inv :: "'s \<Rightarrow> bool"
  assumes start_inv: "start s \<Longrightarrow> inv s"
    and step_inv: "inv s \<Longrightarrow> step s l s' \<Longrightarrow> inv s'"
begin

lemma reach_inv: "reach start step s \<Longrightarrow> inv s"
  by (induction rule: reach.induct) (auto intro: start_inv step_inv)

lemma steps_inv: "steps step s ls t \<Longrightarrow> inv s \<Longrightarrow> inv t"
  by (induction rule: steps.induct) (auto intro: step_inv)

end

section \<open>Byte streams\<close>

text \<open>A stream takes blocks at one end and gives up to a number of items at the other.  A run is a list of such
  operations with what they were given and what they returned.\<close>

datatype 'a stream_op = Put "'a list" | Get nat

fun stream_run :: "('a list \<Rightarrow> 's \<Rightarrow> 's option) \<Rightarrow> (nat \<Rightarrow> 's \<Rightarrow> 'a list \<times> 's) \<Rightarrow> 'a stream_op list \<Rightarrow> 's \<Rightarrow> ('a list \<times> 's) option" where
  "stream_run wr rd [] s = Some ([], s)"
| "stream_run wr rd (Put ys # ops) s = (case wr ys s of None \<Rightarrow> None | Some s \<Rightarrow> stream_run wr rd ops s)"
| "stream_run wr rd (Get n # ops) s =
     (case rd n s of (ys, s) \<Rightarrow> map_option (\<lambda>(zs, s). (ys @ zs, s)) (stream_run wr rd ops s))"

fun stream_input :: "'a stream_op list \<Rightarrow> 'a list" where
  "stream_input [] = []"
| "stream_input (Put ys # ops) = ys @ stream_input ops"
| "stream_input (Get n # ops) = stream_input ops"

locale byte_stream =
  fixes rep :: "'s \<Rightarrow> 'a list \<Rightarrow> bool"
    and wr :: "'a list \<Rightarrow> 's \<Rightarrow> 's option"
    and rd :: "nat \<Rightarrow> 's \<Rightarrow> 'a list \<times> 's"
  assumes wr_rep: "rep s xs \<Longrightarrow> wr ys s = Some s' \<Longrightarrow> rep s' (xs @ ys)"
    and rd_rep: "rep s xs \<Longrightarrow> rd n s = (ys, s') \<Longrightarrow> ys = take n xs \<and> rep s' (drop n xs)"
begin

lemma run_conserved:
  "rep s xs \<Longrightarrow> stream_run wr rd ops s = Some (out, t) \<Longrightarrow> \<exists>rest. rep t rest \<and> xs @ stream_input ops = out @ rest"
proof (induction ops arbitrary: s xs out)
  case Nil
  then show ?case by auto
next
  case (Cons op ops)
  show ?case
  proof (cases op)
    case (Put ys)
    then obtain s' where "wr ys s = Some s'" "stream_run wr rd ops s' = Some (out, t)"
      using Cons.prems(2) by (auto split: option.splits)
    then show ?thesis using Cons.IH wr_rep Cons.prems(1) Put by fastforce
  next
    case (Get n)
    obtain ys s' where r: "rd n s = (ys, s')" by force
    then obtain zs where z: "stream_run wr rd ops s' = Some (zs, t)" "out = ys @ zs"
      using Cons.prems(2) Get by (auto split: prod.splits)
    have "ys = take n xs" "rep s' (drop n xs)" using rd_rep[OF Cons.prems(1) r] by auto
    then show ?thesis using Cons.IH[OF _ z(1)] z(2) Get append_take_drop_id[of n xs] by (metis append.assoc stream_input.simps(3))
  qed
qed

end

text \<open>What a run delivers and leaves, when every write is accepted.\<close>

fun stream_spec :: "'a stream_op list \<Rightarrow> 'a list \<Rightarrow> 'a list \<times> 'a list" where
  "stream_spec [] xs = ([], xs)"
| "stream_spec (Put ys # ops) xs = stream_spec ops (xs @ ys)"
| "stream_spec (Get n # ops) xs = (case stream_spec ops (drop n xs) of (out, rest) \<Rightarrow> (take n xs @ out, rest))"

locale bounded_stream = byte_stream +
  fixes bound :: nat
  assumes wr_total: "rep s xs \<Longrightarrow> length xs + length ys < bound \<Longrightarrow> \<exists>s'. wr ys s = Some s'"
begin

lemma run_exact:
  "rep s xs \<Longrightarrow> length xs + length (stream_input ops) < bound \<Longrightarrow>
     \<exists>out t rest. stream_run wr rd ops s = Some (out, t) \<and> stream_spec ops xs = (out, rest) \<and> rep t rest"
proof (induction ops arbitrary: s xs)
  case Nil
  then show ?case by auto
next
  case (Cons op ops)
  show ?case
  proof (cases op)
    case (Put ys)
    then obtain s' where s': "wr ys s = Some s'" using wr_total[OF Cons.prems(1), of ys] Cons.prems(2) by auto
    show ?thesis using Cons.IH[OF wr_rep[OF Cons.prems(1) s']] Cons.prems(2) Put s' by simp
  next
    case (Get n)
    obtain ys s' where r: "rd n s = (ys, s')" by force
    then have "ys = take n xs" "rep s' (drop n xs)" using rd_rep[OF Cons.prems(1) r] by auto
    moreover have "length (drop n xs) + length (stream_input ops) < bound" using Cons.prems(2) Get by simp
    moreover from Cons.IH[OF calculation(2) this] obtain out t rest where
      "stream_run wr rd ops s' = Some (out, t)" "stream_spec ops (drop n xs) = (out, rest)" "rep t rest" by blast
    ultimately show ?thesis using Get r by simp
  qed
qed

end

end
