(* ===== verification/Nv_Linear.thy ===== *)
theory Nv_Linear
  imports Nv_Store Nv_Interfaces
begin

text \<open>
  The linear containers of \<open>base/data\<close>: the doubly linked list of integers
  (\<open>nv_list.c\<close>), the linked queue (\<open>nv_queue.c\<close>) and the linked stack
  (\<open>nv_stack.c\<close>), over the explicit store.  The address that \<open>malloc\<close> returns is
  an argument of the allocating operations; NULL is a failed allocation.  An
  operation returns \<open>None\<close> where the C code dereferences a pointer that is not
  live.  Loops over the links are partial functions, proved to return on the
  segments the operations build.
\<close>

section \<open>The doubly linked list\<close>

record nv_list_Node =
  nl_data :: int
  nl_prev :: addr
  nl_next :: addr

definition nv_list_createNode :: "addr \<Rightarrow> int \<Rightarrow> nv_list_Node store \<Rightarrow> addr \<times> nv_list_Node store" where
  "nv_list_createNode p d h =
     (if p = NULL then (NULL, h)
      else (p, h(p \<mapsto> \<lparr>nl_data = d, nl_prev = NULL, nl_next = NULL\<rparr>)))"

partial_function (option) list_last :: "nv_list_Node store \<Rightarrow> addr \<Rightarrow> addr option" where
  "list_last h temp =
     (case h temp of None \<Rightarrow> None
      | Some n \<Rightarrow> if nl_next n \<noteq> NULL then list_last h (nl_next n) else Some temp)"

definition nv_list_insertEnd ::
    "addr \<Rightarrow> addr \<Rightarrow> int \<Rightarrow> nv_list_Node store \<Rightarrow> (addr \<times> nv_list_Node store) option" where
  "nv_list_insertEnd p head d h =
     (let (newNode, h) = nv_list_createNode p d h in
      if newNode = NULL then Some (head, h)
      else if head = NULL then Some (newNode, h)
      else
        (case list_last h head of None \<Rightarrow> None
         | Some temp \<Rightarrow>
            (case store_upd temp (\<lambda>n. n\<lparr>nl_next := newNode\<rparr>) h of None \<Rightarrow> None
             | Some h1 \<Rightarrow>
                (case store_upd newNode (\<lambda>n. n\<lparr>nl_prev := temp\<rparr>) h1 of None \<Rightarrow> None
                 | Some h2 \<Rightarrow> Some (head, h2)))))"

partial_function (option) list_find :: "nv_list_Node store \<Rightarrow> int \<Rightarrow> addr \<Rightarrow> addr option" where
  "list_find h key temp =
     (if temp = NULL then Some NULL
      else (case h temp of None \<Rightarrow> None
            | Some n \<Rightarrow> if nl_data n \<noteq> key then list_find h key (nl_next n) else Some temp))"

definition nv_list_deleteNode ::
    "addr \<Rightarrow> int \<Rightarrow> nv_list_Node store \<Rightarrow> (addr \<times> nv_list_Node store) option" where
  "nv_list_deleteNode head key h =
     (if head = NULL then Some (NULL, h)
      else
        (case list_find h key head of None \<Rightarrow> None
         | Some temp \<Rightarrow>
            if temp = NULL then Some (head, h)
            else
              (case h temp of None \<Rightarrow> None
               | Some t \<Rightarrow>
                  (case (if nl_prev t \<noteq> NULL
                         then store_upd (nl_prev t) (\<lambda>n. n\<lparr>nl_next := nl_next t\<rparr>) h
                         else Some h) of None \<Rightarrow> None
                   | Some h1 \<Rightarrow>
                      (case (if nl_next t \<noteq> NULL
                             then store_upd (nl_next t) (\<lambda>n. n\<lparr>nl_prev := nl_prev t\<rparr>) h1
                             else Some h1) of None \<Rightarrow> None
                       | Some h2 \<Rightarrow>
                          Some (if temp = head then nl_next t else head, store_free temp h2))))))"

partial_function (option) nv_list_printList :: "nv_list_Node store \<Rightarrow> addr \<Rightarrow> int list option" where
  "nv_list_printList h temp =
     (if temp = NULL then Some []
      else (case h temp of None \<Rightarrow> None
            | Some n \<Rightarrow> Option.bind (nv_list_printList h (nl_next n)) (\<lambda>ys. Some (nl_data n # ys))))"

text \<open>The list from \<open>head\<close> holds the values \<open>xs\<close> at the addresses \<open>as\<close>.\<close>

abbreviation list_seg where "list_seg \<equiv> dseg nl_prev nl_next"

definition list_rep :: "nv_list_Node store \<Rightarrow> addr \<Rightarrow> addr list \<Rightarrow> int list \<Rightarrow> bool" where
  "list_rep h head as xs \<longleftrightarrow>
     list_seg h NULL head as (if as = [] then NULL else last as) NULL \<and>
     map (\<lambda>a. map_option nl_data (h a)) as = map Some xs"

lemma list_last_seg:
  "list_seg h l p as l' NULL \<Longrightarrow> as \<noteq> [] \<Longrightarrow> list_last h p = Some (last as)"
proof (induction as arbitrary: l p)
  case (Cons a as)
  then obtain n where n: "p = a" "h a = Some n" "list_seg h a (nl_next n) as l' NULL"
    by (auto split: option.splits)
  then show ?case using Cons.IH[OF n(3)] dseg_null_iff[OF n(3)]
    by (subst list_last.simps) auto
qed simp

lemma list_find_seg:
  "list_seg h l p as l' NULL \<Longrightarrow> map (\<lambda>a. map_option nl_data (h a)) as = map Some xs \<Longrightarrow>
   list_find h key p = Some (case find (\<lambda>(a, x). x = key) (zip as xs) of None \<Rightarrow> NULL | Some (a, x) \<Rightarrow> a)"
proof (induction as arbitrary: l p xs)
  case Nil
  then show ?case by (subst list_find.simps) auto
next
  case (Cons a as)
  then obtain n y ys where n: "p = a" "a \<noteq> NULL" "h a = Some n" "list_seg h a (nl_next n) as l' NULL"
    and xs: "xs = y # ys" "nl_data n = y" "map (\<lambda>a. map_option nl_data (h a)) as = map Some ys"
    by (auto split: option.splits simp: Cons_eq_map_conv)
  show ?case using n xs Cons.IH[OF n(4) xs(3)] by (subst list_find.simps) auto
qed

lemma printList_seg:
  "list_seg h l p as l' NULL \<Longrightarrow> map (\<lambda>a. map_option nl_data (h a)) as = map Some xs \<Longrightarrow>
   nv_list_printList h p = Some xs"
proof (induction as arbitrary: l p xs)
  case Nil
  then show ?case by (subst nv_list_printList.simps) auto
next
  case (Cons a as)
  then obtain n y ys where "p = a" "a \<noteq> NULL" "h a = Some n" "list_seg h a (nl_next n) as l' NULL"
    "xs = y # ys" "nl_data n = y" "map (\<lambda>a. map_option nl_data (h a)) as = map Some ys"
    by (auto split: option.splits simp: Cons_eq_map_conv)
  then show ?case using Cons.IH by (subst nv_list_printList.simps) auto
qed

interpretation nl: dlinks nl_prev nl_next "\<lambda>x n. n\<lparr>nl_prev := x\<rparr>" "\<lambda>x n. n\<lparr>nl_next := x\<rparr>"
  by unfold_locales simp_all

lemma list_rep_distinct: "list_rep h head as xs \<Longrightarrow> distinct as"
  using dseg_distinct by (fastforce simp: list_rep_def)

lemma list_repI: "list_seg h NULL head as m NULL \<Longrightarrow>
    map (\<lambda>a. map_option nl_data (h a)) as = map Some xs \<Longrightarrow> list_rep h head as xs"
  using dseg_last[of nl_prev nl_next h NULL head as m NULL] by (simp add: list_rep_def)

lemma insertEnd_rep:
  assumes rep: "list_rep h head as xs" and fr: "fresh h p"
  shows "\<exists>head' h'. nv_list_insertEnd p head d h = Some (head', h') \<and>
           list_rep h' head' (as @ [p]) (xs @ [d])"
proof (cases as rule: rev_cases)
  case Nil
  then show ?thesis using rep fr
    by (auto simp: list_rep_def nv_list_insertEnd_def nv_list_createNode_def fresh_def)
next
  case (snoc us m)
  let ?n = "\<lparr>nl_data = d, nl_prev = NULL, nl_next = NULL\<rparr>"
  let ?h = "h(p \<mapsto> ?n)"
  have p: "p \<notin> set as" "p \<noteq> NULL" using rep fr dseg_fresh by (fastforce simp: list_rep_def fresh_def)+
  have seg: "list_seg ?h NULL head (us @ [m]) m NULL"
    using rep p snoc by (auto simp: list_rep_def dseg_upd_other)
  then obtain k where k: "?h m = Some k" "m \<noteq> NULL" by (auto simp: seg_simps split: option.splits)
  have m: "m \<noteq> p" "m \<notin> set us" using p snoc list_rep_distinct[OF rep] by auto
  have head: "head \<noteq> NULL" using dseg_null_iff[OF seg] by simp
  have last: "list_last ?h head = Some m" using list_last_seg[OF seg] by simp
  let ?h2 = "?h(m \<mapsto> k\<lparr>nl_next := p\<rparr>, p \<mapsto> ?n\<lparr>nl_prev := m\<rparr>)"
  have op: "nv_list_insertEnd p head d h = Some (head, ?h2)"
    using p head last k m by (simp add: nv_list_insertEnd_def nv_list_createNode_def store_upd_def)
  have "list_seg (?h(m \<mapsto> k\<lparr>nl_next := p\<rparr>)) NULL head (us @ [m]) m p"
    by (rule nl.set_last_next[OF seg k(1) m(2)])
  then have "list_seg ?h2 NULL head (us @ [m]) m p"
    by (rule nl.dseg_frame) (use p snoc in auto)
  then have "list_seg ?h2 NULL head (as @ [p]) p NULL"
    using p snoc unfolding dseg_append[where xs = as and ys = "[p]"]
    by (intro exI[of _ m] exI[of _ p]) simp
  moreover have "map (\<lambda>a. map_option nl_data (?h2 a)) as = map (\<lambda>a. map_option nl_data (h a)) as"
    by (rule map_cong[OF refl]) (use p k m in auto)
  then have "map (\<lambda>a. map_option nl_data (?h2 a)) (as @ [p]) = map Some (xs @ [d])"
    using rep by (simp add: list_rep_def del: map_eq_conv)
  ultimately show ?thesis using op list_repI by blast
qed

lemma find_zip_cases:
  assumes "length as = length xs"
  obtains "key \<notin> set xs" "find (\<lambda>(a, x). x = key) (zip as xs) = None"
  | us a vs ys zs where "as = us @ a # vs" "xs = ys @ key # zs" "length us = length ys"
      "key \<notin> set ys" "find (\<lambda>(a, x). x = key) (zip as xs) = Some (a, key)"
proof (cases "key \<in> set xs")
  case True
  then obtain ys zs where yz: "xs = ys @ key # zs" "key \<notin> set ys" using split_list_first by metis
  obtain us a vs where u: "as = us @ a # vs" "length us = length ys"
    using assms yz(1) id_take_nth_drop[of "length ys" as] by (metis length_append length_Cons
      less_add_Suc1 add_Suc_right length_take min.absorb2 min.commute less_imp_le)
  have "find (\<lambda>(a, x). x = key) (zip us ys) = None"
    using yz(2) by (auto simp: find_None_iff dest: set_zip_rightD)
  then have "find (\<lambda>(a, x). x = key) (zip as xs) = Some (a, key)"
    using u yz by (simp add: find_append)
  then show thesis using that(2) u yz by blast
next
  case False
  then have "find (\<lambda>(a, x). x = key) (zip as xs) = None"
    by (auto simp: find_None_iff dest: set_zip_rightD)
  then show thesis using that(1) False by blast
qed

lemma deleteNode_rep:
  assumes rep: "list_rep h head as xs"
  shows "\<exists>head' h' bs. nv_list_deleteNode head key h = Some (head', h') \<and>
           list_rep h' head' bs (remove1 key xs) \<and> set bs \<subseteq> set as \<and>
           (\<forall>a. a \<notin> set as \<longrightarrow> h' a = h a) \<and> (key \<in> set xs \<longrightarrow> (\<exists>a\<in>set as. h' a = None))"
proof (cases "as = []")
  case True
  then show ?thesis using rep by (auto simp: list_rep_def nv_list_deleteNode_def)
next
  case False
  have seg: "list_seg h NULL head as (last as) NULL"
    and dat: "map (\<lambda>a. map_option nl_data (h a)) as = map Some xs"
    using rep False by (auto simp: list_rep_def)
  have head: "head \<noteq> NULL" using dseg_null_iff[OF seg] False by simp
  have len: "length as = length xs" using map_eq_imp_length_eq[OF dat] .
  show ?thesis
  proof (cases rule: find_zip_cases[OF len, of key])
    case 1
    then show ?thesis using rep head list_find_seg[OF seg dat, of key]
      by (auto simp: nv_list_deleteNode_def remove1_idem)
  next
    case (2 us a vs ys zs)
    obtain t where t: "h a = Some t" "a \<noteq> NULL"
      using dseg_live[OF seg, of a] 2(1) by auto
    have seg': "list_seg h NULL head (us @ a # vs) (last as) NULL" using seg 2(1) by simp
    note un = nl.unlink[OF seg' t(1)]
    let ?h1 = "upd_at (nl_prev t) (\<lambda>n. n\<lparr>nl_next := nl_next t\<rparr>) h"
    let ?h2 = "upd_at (nl_next t) (\<lambda>n. n\<lparr>nl_prev := nl_prev t\<rparr>) ?h1"
    have live: "nl_prev t = NULL \<or> h (nl_prev t) \<noteq> None" "nl_next t = NULL \<or> ?h1 (nl_next t) \<noteq> None"
      using un(4,5) dseg_live[OF seg'] by (auto simp: upd_at_apply)
    have eqh: "a = head \<longleftrightarrow> us = []"
      using seg' dseg_distinct[OF seg'] by (cases us) auto
    have find: "list_find h key head = Some a" using list_find_seg[OF seg dat, of key] 2(5) by simp
    have op: "nv_list_deleteNode head key h = Some (if a = head then nl_next t else head, store_free a ?h2)"
      using head t find store_upd_live[where p = "nl_prev t" and h = h, OF live(1)]
        store_upd_live[where p = "nl_next t" and h = ?h1, OF live(2)]
      by (simp add: nv_list_deleteNode_def)
    have data: "map_option nl_data (?h2 b) = map_option nl_data (h b)" for b
      by (cases "h b") (auto simp: upd_at_apply)
    have anot: "a \<notin> set (us @ vs)" using dseg_distinct[OF seg'] by auto
    obtain m where "list_seg ?h2 NULL (if us = [] then nl_next t else head) (us @ vs) m NULL"
      using un(1) by blast
    then have "list_seg (store_free a ?h2) NULL (if a = head then nl_next t else head) (us @ vs) m NULL"
      using anot eqh by (simp add: store_free_def dseg_upd_other)
    moreover have "map (\<lambda>b. map_option nl_data (store_free a ?h2 b)) (us @ vs) =
        map (\<lambda>b. map_option nl_data (h b)) (us @ vs)"
      by (rule map_cong[OF refl]) (use anot data in \<open>auto simp: store_free_def\<close>)
    then have "map (\<lambda>b. map_option nl_data (store_free a ?h2 b)) (us @ vs) = map Some (ys @ zs)"
      by (rule trans) (use dat 2(1-3) in \<open>simp del: map_eq_conv\<close>)
    ultimately have "list_rep (store_free a ?h2) (if a = head then nl_next t else head) (us @ vs) (ys @ zs)"
      by (rule list_repI)
    moreover have "remove1 key xs = ys @ zs" using 2 by (simp add: remove1_append)
    moreover have "b \<notin> set as \<Longrightarrow> store_free a ?h2 b = h b" for b
      using un(4,5) 2(1) by (auto simp: store_free_def upd_at_apply)
    moreover have "store_free a ?h2 a = None" by (simp add: store_free_def)
    ultimately show ?thesis using op 2(1) by (intro exI[of _ "us @ vs"] exI conjI) auto
  qed
qed

section \<open>The linked queue\<close>

record 'a nv_queue_node_t =
  qn_data :: 'a
  qn_next :: addr

record 'a nv_queue_t =
  q_front :: addr
  q_rear :: addr
  q_mem :: "'a nv_queue_node_t store"

definition nv_queue_init :: "'a nv_queue_node_t store \<Rightarrow> 'a nv_queue_t" where
  "nv_queue_init h = \<lparr>q_front = NULL, q_rear = NULL, q_mem = h\<rparr>"

partial_function (option) nv_queue_destroy :: "'a nv_queue_node_t store \<Rightarrow> addr \<Rightarrow> 'a nv_queue_node_t store option" where
  "nv_queue_destroy h current =
     (if current = NULL then Some h
      else (case h current of None \<Rightarrow> None
            | Some n \<Rightarrow> nv_queue_destroy (store_free current h) (qn_next n)))"

definition nv_queue_enqueue :: "addr \<Rightarrow> 'a \<Rightarrow> 'a nv_queue_t \<Rightarrow> 'a nv_queue_t option" where
  "nv_queue_enqueue new_node d queue =
     (if new_node = NULL then None
      else
        (let h = (q_mem queue)(new_node \<mapsto> \<lparr>qn_data = d, qn_next = NULL\<rparr>) in
         if q_rear queue \<noteq> NULL then
           map_option (\<lambda>h'. queue\<lparr>q_mem := h', q_rear := new_node\<rparr>)
             (store_upd (q_rear queue) (\<lambda>n. n\<lparr>qn_next := new_node\<rparr>) h)
         else Some (queue\<lparr>q_mem := h, q_front := new_node, q_rear := new_node\<rparr>)))"

definition nv_queue_dequeue :: "'a nv_queue_t \<Rightarrow> ('a option \<times> 'a nv_queue_t) option" where
  "nv_queue_dequeue queue =
     (if q_front queue = NULL then Some (None, queue)
      else
        (case q_mem queue (q_front queue) of None \<Rightarrow> None
         | Some temp \<Rightarrow>
            Some (Some (qn_data temp),
              queue\<lparr>q_front := qn_next temp,
                    q_rear := (if qn_next temp = NULL then NULL else q_rear queue),
                    q_mem := store_free (q_front queue) (q_mem queue)\<rparr>)))"

definition nv_queue_is_empty :: "'a nv_queue_t \<Rightarrow> bool" where
  "nv_queue_is_empty queue \<longleftrightarrow> q_front queue = NULL"

definition queue_rep :: "'a nv_queue_t \<Rightarrow> 'a list \<Rightarrow> bool" where
  "queue_rep q xs \<longleftrightarrow> (\<exists>as. sseg qn_next (q_mem q) (q_front q) as NULL \<and>
     q_rear q = (if as = [] then NULL else last as) \<and>
     map (\<lambda>a. map_option qn_data (q_mem q a)) as = map Some xs)"

text \<open>The operations as the buffer interface sees them: an enqueue with a successful
  allocation, and a dequeue that yields an element.\<close>

definition queue_enq :: "'a \<Rightarrow> 'a nv_queue_t \<Rightarrow> 'a nv_queue_t \<Rightarrow> bool" where
  "queue_enq x q q' \<longleftrightarrow> (\<exists>p. fresh (q_mem q) p \<and> nv_queue_enqueue p x q = Some q')"

definition queue_deq :: "'a nv_queue_t \<Rightarrow> ('a \<times> 'a nv_queue_t) option" where
  "queue_deq q = (case nv_queue_dequeue q of Some (Some x, q') \<Rightarrow> Some (x, q') | _ \<Rightarrow> None)"

lemma sseg_frame:
  assumes "sseg nxt h p as q" "\<And>b. b \<in> set as \<Longrightarrow> h1 b = h b"
  shows "sseg nxt h1 p as q"
  using assms by (induction as arbitrary: p) (auto split: option.splits)

lemma queue_enqueue_rep:
  assumes rep: "queue_rep q xs" and fr: "fresh (q_mem q) p"
  shows "\<exists>q'. nv_queue_enqueue p x q = Some q' \<and> queue_rep q' (xs @ [x])"
proof -
  obtain as where seg: "sseg qn_next (q_mem q) (q_front q) as NULL"
    and rear: "q_rear q = (if as = [] then NULL else last as)"
    and dat: "map (\<lambda>a. map_option qn_data (q_mem q a)) as = map Some xs"
    using rep by (auto simp: queue_rep_def)
  have p: "p \<notin> set as" "p \<noteq> NULL" using sseg_fresh[OF seg fr] fr by (auto simp: fresh_def)
  show ?thesis
  proof (cases as rule: rev_cases)
    case Nil
    then show ?thesis using seg rear dat p by (auto simp: queue_rep_def nv_queue_enqueue_def intro!: exI[of _ "[p]"])
  next
    case (snoc us m)
    then obtain k where k: "q_mem q m = Some k" "m \<noteq> NULL" "sseg qn_next (q_mem q) (q_front q) us m"
      using seg by (auto simp: seg_simps split: option.splits)
    have m: "m \<noteq> p" "m \<notin> set us" using p snoc sseg_distinct[OF seg] by auto
    let ?h = "(q_mem q)(p \<mapsto> \<lparr>qn_data = x, qn_next = NULL\<rparr>, m \<mapsto> k\<lparr>qn_next := p\<rparr>)"
    have op: "nv_queue_enqueue p x q = Some (q\<lparr>q_mem := ?h, q_rear := p\<rparr>)"
      using p rear snoc k m by (simp add: nv_queue_enqueue_def store_upd_def)
    have "sseg qn_next ?h (q_front q) us m" by (rule sseg_frame[OF k(3)]) (use p snoc m in auto)
    then have "sseg qn_next ?h (q_front q) (as @ [p]) NULL" using snoc k m p by (auto simp: seg_simps)
    moreover have "map (\<lambda>a. map_option qn_data (?h a)) as = map (\<lambda>a. map_option qn_data (q_mem q a)) as"
      by (rule map_cong[OF refl]) (use p k m in auto)
    then have "map (\<lambda>a. map_option qn_data (?h a)) (as @ [p]) = map Some (xs @ [x])"
      using dat m by (simp del: map_eq_conv)
    ultimately show ?thesis using op by (auto simp: queue_rep_def intro!: exI[of _ "as @ [p]"] simp del: map_eq_conv)
  qed
qed

lemma queue_dequeue_rep:
  assumes rep: "queue_rep q (x # xs)"
  shows "\<exists>q'. nv_queue_dequeue q = Some (Some x, q') \<and> queue_rep q' xs"
proof -
  obtain a as n where seg: "sseg qn_next (q_mem q) (qn_next n) as NULL"
    and a: "q_front q = a" "a \<noteq> NULL" "q_mem q a = Some n" "qn_data n = x"
    and dist: "distinct (a # as)" and rear: "q_rear q = last (a # as)"
    and dat: "map (\<lambda>a. map_option qn_data (q_mem q a)) as = map Some xs"
    using rep sseg_distinct by (fastforce simp: queue_rep_def map_eq_Cons_conv split: option.splits)
  let ?h = "store_free a (q_mem q)"
  have "sseg qn_next ?h (qn_next n) as NULL" using dist seg by (simp add: store_free_def sseg_upd_other)
  moreover have "map (\<lambda>a. map_option qn_data (?h a)) as = map Some xs"
    by (rule trans[OF map_cong[OF refl] dat]) (use dist in \<open>auto simp: store_free_def\<close>)
  moreover have "(if qn_next n = NULL then NULL else q_rear q) = (if as = [] then NULL else last as)"
    using sseg_null_iff[OF seg] rear by simp
  ultimately show ?thesis using a
    by (auto simp: nv_queue_dequeue_def queue_rep_def intro!: exI[of _ as] simp del: map_eq_conv)
qed

lemma queue_dequeue_empty: "queue_rep q [] \<Longrightarrow> nv_queue_dequeue q = Some (None, q)"
  by (auto simp: queue_rep_def nv_queue_dequeue_def)

lemma queue_is_empty_rep: "queue_rep q xs \<Longrightarrow> nv_queue_is_empty q \<longleftrightarrow> xs = []"
  using sseg_null_iff by (fastforce simp: queue_rep_def nv_queue_is_empty_def)

lemma queue_destroy_seg:
  "sseg qn_next h p as NULL \<Longrightarrow>
   nv_queue_destroy h p = Some (\<lambda>b. if b \<in> set as then None else h b)"
proof (induction as arbitrary: h p)
  case Nil
  then show ?case by (subst nv_queue_destroy.simps) simp
next
  case (Cons a as)
  then obtain n where n: "p = a" "a \<noteq> NULL" "h a = Some n" "sseg qn_next h (qn_next n) as NULL"
    by (auto split: option.splits)
  have "a \<notin> set as" using sseg_distinct[OF Cons.prems] by simp
  then have "sseg qn_next (store_free a h) (qn_next n) as NULL"
    using n(4) by (simp add: store_free_def sseg_upd_other)
  then have "nv_queue_destroy h p = Some (\<lambda>b. if b \<in> set as then None else store_free a h b)"
    using Cons.IH n by (subst nv_queue_destroy.simps) simp
  also have "\<dots> = Some (\<lambda>b. if b \<in> set (a # as) then None else h b)"
    by (auto simp: store_free_def)
  finally show ?case .
qed

interpretation nvq: fifo queue_rep queue_enq queue_deq
proof unfold_locales
  show "queue_rep q' (xs @ [x])" if rep: "queue_rep q xs" and enq: "queue_enq x q q'" for q xs and x :: 'a and q'
  proof -
    obtain p where "fresh (q_mem q) p" "nv_queue_enqueue p x q = Some q'"
      using enq by (auto simp: queue_enq_def)
    then show ?thesis using queue_enqueue_rep[OF rep, of p x] by simp
  qed
  show "\<exists>q'. queue_deq q = Some (x, q') \<and> queue_rep q' xs" if "queue_rep q (x # xs)" for q and x :: 'a and xs
    using queue_dequeue_rep[OF that] by (auto simp: queue_deq_def)
  show "queue_deq q = None" if "queue_rep q []" for q :: "'a nv_queue_t"
    using queue_dequeue_empty[OF that] by (simp add: queue_deq_def)
qed

section \<open>The linked stack\<close>

record 'a nv_stack_node_t =
  sn_data :: 'a
  sn_next :: addr

record 'a nv_stack_t =
  st_top :: addr
  st_mem :: "'a nv_stack_node_t store"

definition nv_stack_init :: "'a nv_stack_node_t store \<Rightarrow> 'a nv_stack_t" where
  "nv_stack_init h = \<lparr>st_top = NULL, st_mem = h\<rparr>"

partial_function (option) nv_stack_destroy :: "'a nv_stack_node_t store \<Rightarrow> addr \<Rightarrow> 'a nv_stack_node_t store option" where
  "nv_stack_destroy h current =
     (if current = NULL then Some h
      else (case h current of None \<Rightarrow> None
            | Some n \<Rightarrow> nv_stack_destroy (store_free current h) (sn_next n)))"

definition nv_stack_push :: "addr \<Rightarrow> 'a \<Rightarrow> 'a nv_stack_t \<Rightarrow> 'a nv_stack_t option" where
  "nv_stack_push new_node d stack =
     (if new_node = NULL then None
      else Some (stack\<lparr>st_mem := (st_mem stack)(new_node \<mapsto> \<lparr>sn_data = d, sn_next = st_top stack\<rparr>),
                       st_top := new_node\<rparr>))"

definition nv_stack_pop :: "'a nv_stack_t \<Rightarrow> ('a option \<times> 'a nv_stack_t) option" where
  "nv_stack_pop stack =
     (if st_top stack = NULL then Some (None, stack)
      else
        (case st_mem stack (st_top stack) of None \<Rightarrow> None
         | Some temp \<Rightarrow>
            Some (Some (sn_data temp),
              stack\<lparr>st_top := sn_next temp, st_mem := store_free (st_top stack) (st_mem stack)\<rparr>)))"

definition nv_stack_is_empty :: "'a nv_stack_t \<Rightarrow> bool" where
  "nv_stack_is_empty stack \<longleftrightarrow> st_top stack = NULL"

definition stack_rep :: "'a nv_stack_t \<Rightarrow> 'a list \<Rightarrow> bool" where
  "stack_rep s xs \<longleftrightarrow> (\<exists>as. sseg sn_next (st_mem s) (st_top s) as NULL \<and>
     map (\<lambda>a. map_option sn_data (st_mem s a)) as = map Some xs)"

lemma stack_push_rep:
  assumes rep: "stack_rep s xs" and fr: "fresh (st_mem s) p"
  shows "\<exists>s'. nv_stack_push p x s = Some s' \<and> stack_rep s' (x # xs)"
proof -
  obtain as where seg: "sseg sn_next (st_mem s) (st_top s) as NULL"
    and dat: "map (\<lambda>a. map_option sn_data (st_mem s a)) as = map Some xs"
    using rep by (auto simp: stack_rep_def)
  have p: "p \<notin> set as" "p \<noteq> NULL" using sseg_fresh[OF seg fr] fr by (auto simp: fresh_def)
  let ?h = "(st_mem s)(p \<mapsto> \<lparr>sn_data = x, sn_next = st_top s\<rparr>)"
  have "sseg sn_next ?h p (p # as) NULL" using seg p by (simp add: sseg_upd_other)
  moreover have "map (\<lambda>a. map_option sn_data (?h a)) as = map Some xs"
    by (rule trans[OF map_cong[OF refl] dat]) (use p in auto)
  ultimately show ?thesis using p
    by (auto simp: nv_stack_push_def stack_rep_def intro!: exI[of _ "p # as"] simp del: map_eq_conv)
qed

lemma stack_pop_rep:
  assumes rep: "stack_rep s (x # xs)"
  shows "\<exists>s'. nv_stack_pop s = Some (Some x, s') \<and> stack_rep s' xs"
proof -
  obtain a as n where seg: "sseg sn_next (st_mem s) (sn_next n) as NULL"
    and a: "st_top s = a" "a \<noteq> NULL" "st_mem s a = Some n" "sn_data n = x"
    and dist: "distinct (a # as)"
    and dat: "map (\<lambda>a. map_option sn_data (st_mem s a)) as = map Some xs"
    using rep sseg_distinct by (fastforce simp: stack_rep_def map_eq_Cons_conv split: option.splits)
  let ?h = "store_free a (st_mem s)"
  have "sseg sn_next ?h (sn_next n) as NULL" using dist seg by (simp add: store_free_def sseg_upd_other)
  moreover have "map (\<lambda>a. map_option sn_data (?h a)) as = map Some xs"
    by (rule trans[OF map_cong[OF refl] dat]) (use dist in \<open>auto simp: store_free_def\<close>)
  ultimately show ?thesis using a
    by (auto simp: nv_stack_pop_def stack_rep_def intro!: exI[of _ as] simp del: map_eq_conv)
qed

section \<open>Properties\<close>

text \<open>C24.  Under any interleaving of enqueues and dequeues, what the queue has delivered followed
  by what it still holds is what it held at first followed by what was enqueued: nothing is
  lost, duplicated or reordered.\<close>
theorem nv_queue_fifo:
  assumes "queue_rep q xs" "fifo_run queue_enq queue_deq q ins outs q'"
  shows "\<exists>ys. queue_rep q' ys \<and> xs @ ins = outs @ ys"
  using nvq.run_conserves[OF assms(2,1)] .

definition queue_sample :: "nat nv_queue_t" where
  "queue_sample = \<lparr>q_front = 4, q_rear = 9,
     q_mem = [4 \<mapsto> \<lparr>qn_data = 10, qn_next = 9\<rparr>, 9 \<mapsto> \<lparr>qn_data = 20, qn_next = 0\<rparr>]\<rparr>"

lemma queue_sample_rep: "queue_rep queue_sample [10, 20]"
  by (auto simp: queue_rep_def queue_sample_def intro!: exI[of _ "[4, 9]"])

lemma queue_sample_run:
  "fifo_run queue_enq queue_deq queue_sample [30] [10]
     \<lparr>q_front = 9, q_rear = 5,
      q_mem = [9 \<mapsto> \<lparr>qn_data = 20, qn_next = 5\<rparr>, 5 \<mapsto> \<lparr>qn_data = 30, qn_next = 0\<rparr>]\<rparr>"
proof (rule fifo_enq, unfold queue_enq_def, intro exI[of _ 5] conjI)
  show "nv_queue_enqueue 5 30 queue_sample = Some (queue_sample\<lparr>q_rear := 5,
     q_mem := [4 \<mapsto> \<lparr>qn_data = 10, qn_next = 9\<rparr>, 9 \<mapsto> \<lparr>qn_data = 20, qn_next = 5\<rparr>,
       5 \<mapsto> \<lparr>qn_data = 30, qn_next = 0\<rparr>]\<rparr>)"
    by (simp add: queue_sample_def nv_queue_enqueue_def store_upd_def) auto
qed (auto simp: queue_sample_def fresh_def queue_deq_def nv_queue_dequeue_def store_free_def
      intro!: fifo_deq fifo_done)

theorem nv_queue_fifo_witness:
  "\<exists>q'. fifo_run queue_enq queue_deq queue_sample [30] [10] q' \<and> queue_rep q' [20, 30]"
  using nv_queue_fifo[OF queue_sample_rep queue_sample_run] queue_sample_run by auto

end
