(* ===== verification/Nv_Hashed.thy ===== *)
theory Nv_Hashed
  imports Nv_Interfaces
begin

text \<open>
  The keyed containers of \<open>base/data\<close>: the dictionary (\<open>nv_dict.c\<close>), the hash
  table (\<open>nv_hash_table.c\<close>), the string set (\<open>nv_set.c\<close>) and the adjacency
  list graph (\<open>nv_graph.c\<close>).  A bucket's chain of nodes is the list of its
  nodes from the head; no node is shared, so the chains are values.  A destroy
  operation is the list of the nodes it frees, in order.
\<close>

section \<open>Chains\<close>

fun chain_find :: "('k \<times> 'v) list \<Rightarrow> 'k \<Rightarrow> 'v option" where
  "chain_find [] key = None"
| "chain_find ((k, v) # rest) key = (if k = key then Some v else chain_find rest key)"

fun chain_unlink :: "('k \<times> 'v) list \<Rightarrow> 'k \<Rightarrow> ('k \<times> 'v) list" where
  "chain_unlink [] key = []"
| "chain_unlink ((k, v) # rest) key = (if k = key then rest else (k, v) # chain_unlink rest key)"

fun chain_set :: "('k \<times> 'v) list \<Rightarrow> 'k \<Rightarrow> 'v \<Rightarrow> ('k \<times> 'v) list option" where
  "chain_set [] key value = None"
| "chain_set ((k, v) # rest) key value =
     (if k = key then Some ((k, value) # rest)
      else map_option (Cons (k, v)) (chain_set rest key value))"

lemma chain_find_map_of: "chain_find c = map_of c"
proof
  show "chain_find c k = map_of c k" for k by (induction c) auto
qed

lemma chain_set_None: "chain_set c k v = None \<longleftrightarrow> chain_find c k = None"
  by (induction c k v rule: chain_set.induct) auto

lemma chain_set_find: "chain_set c k v = Some c' \<Longrightarrow>
    chain_find c' k' = (if k' = k then Some v else chain_find c k')"
  by (induction c k v arbitrary: c' rule: chain_set.induct) (auto split: if_splits)

lemma chain_set_keys: "chain_set c k v = Some c' \<Longrightarrow> map fst c' = map fst c"
  by (induction c k v arbitrary: c' rule: chain_set.induct) (auto split: if_splits)

lemma chain_unlink_find_other: "k' \<noteq> k \<Longrightarrow> chain_find (chain_unlink c k) k' = chain_find c k'"
  by (induction c k rule: chain_unlink.induct) auto

lemma chain_unlink_keys: "set (map fst (chain_unlink c k)) \<subseteq> set (map fst c)"
  by (induction c k rule: chain_unlink.induct) auto

lemma chain_unlink_distinct: "distinct (map fst c) \<Longrightarrow>
    distinct (map fst (chain_unlink c k)) \<and> chain_find (chain_unlink c k) k = None"
proof (induction c k rule: chain_unlink.induct)
  case (2 k v rest key)
  have "set (map fst (chain_unlink rest key)) \<subseteq> set (map fst rest)" by (rule chain_unlink_keys)
  then show ?case using 2 by (auto simp: chain_find_map_of map_of_eq_None_iff)
qed simp

text \<open>The hash of both tables: shift left by five, add the (signed) character, wrap at 32 bits.\<close>

definition hash_key :: "cstring \<Rightarrow> 32 word" where
  "hash_key key = fold (\<lambda>c h. push_bit 5 h + word_of_int (schar c)) key 0"

section \<open>The dictionary\<close>

definition TABLE_SIZE :: nat where "TABLE_SIZE = 100"

record 'v nv_dict_t =
  buckets :: "(cstring \<times> 'v) list list"

definition dict_hash :: "cstring \<Rightarrow> nat" where
  "dict_hash key = unat (hash_key key) mod TABLE_SIZE"

definition nv_dict_init :: "'v nv_dict_t" where
  "nv_dict_init = \<lparr>buckets = replicate TABLE_SIZE []\<rparr>"

definition nv_dict_destroy :: "'v nv_dict_t \<Rightarrow> (cstring \<times> 'v) list" where
  "nv_dict_destroy dict = concat (buckets dict)"

definition nv_dict_insert :: "'v nv_dict_t \<Rightarrow> cstring \<Rightarrow> 'v \<Rightarrow> 'v nv_dict_t" where
  "nv_dict_insert dict key value =
     (let index = dict_hash key in
      dict\<lparr>buckets := (buckets dict)[index := (key, value) # buckets dict ! index]\<rparr>)"

definition nv_dict_lookup :: "'v nv_dict_t \<Rightarrow> cstring \<Rightarrow> 'v option" where
  "nv_dict_lookup dict key = chain_find (buckets dict ! dict_hash key) key"

definition nv_dict_remove :: "'v nv_dict_t \<Rightarrow> cstring \<Rightarrow> 'v nv_dict_t" where
  "nv_dict_remove dict key =
     (let index = dict_hash key in
      dict\<lparr>buckets := (buckets dict)[index := chain_unlink (buckets dict ! index) key]\<rparr>)"

definition nv_dict_is_empty :: "'v nv_dict_t \<Rightarrow> bool" where
  "nv_dict_is_empty dict = list_all (\<lambda>b. b = []) (buckets dict)"

definition dict_inv :: "'v nv_dict_t \<Rightarrow> bool" where
  "dict_inv d \<longleftrightarrow> length (buckets d) = TABLE_SIZE"

lemma dict_hash_bound: "dict_hash key < TABLE_SIZE"
  by (simp add: dict_hash_def TABLE_SIZE_def)

lemma dict_inv_ops [simp]:
  "dict_inv nv_dict_init" "dict_inv d \<Longrightarrow> dict_inv (nv_dict_insert d k v)"
  "dict_inv d \<Longrightarrow> dict_inv (nv_dict_remove d k)"
  by (simp_all add: dict_inv_def nv_dict_init_def nv_dict_insert_def nv_dict_remove_def Let_def)

lemma dict_lookup_init: "nv_dict_lookup nv_dict_init k = None"
  by (simp add: nv_dict_lookup_def nv_dict_init_def dict_hash_bound)

lemma dict_lookup_insert: "dict_inv d \<Longrightarrow>
    nv_dict_lookup (nv_dict_insert d k v) k' = (if k' = k then Some v else nv_dict_lookup d k')"
  using dict_hash_bound[of k]
  by (cases "dict_hash k = dict_hash k'")
     (auto simp: nv_dict_lookup_def nv_dict_insert_def Let_def dict_inv_def)

lemma dict_remove_insert: "dict_inv d \<Longrightarrow> nv_dict_remove (nv_dict_insert d k v) k = d"
  using dict_hash_bound[of k]
  by (simp add: nv_dict_remove_def nv_dict_insert_def Let_def dict_inv_def)

lemma dict_lookup_remove_other: "dict_inv d \<Longrightarrow> k' \<noteq> k \<Longrightarrow>
    nv_dict_lookup (nv_dict_remove d k) k' = nv_dict_lookup d k'"
  using dict_hash_bound[of k]
  by (cases "dict_hash k = dict_hash k'")
     (auto simp: nv_dict_lookup_def nv_dict_remove_def Let_def dict_inv_def chain_unlink_find_other)

interpretation dict: keyed_store "\<lambda>k. k" dict_inv nv_dict_lookup "\<lambda>k v d. nv_dict_insert d k v"
  by unfold_locales (simp_all add: dict_lookup_insert)

section \<open>The hash table\<close>

record HashTable =
  ht_nodes :: "(cstring \<times> cstring) list list"
  ht_size :: nat

definition ht_hash :: "cstring \<Rightarrow> nat \<Rightarrow> nat" where
  "ht_hash key sz = unat (hash_key key) mod sz"

definition nv_hash_table_create :: "nat \<Rightarrow> HashTable" where
  "nv_hash_table_create sz = \<lparr>ht_nodes = replicate sz [], ht_size = sz\<rparr>"

definition nv_hash_table_insert :: "HashTable \<Rightarrow> cstring \<Rightarrow> cstring \<Rightarrow> HashTable" where
  "nv_hash_table_insert table key value =
     (let index = ht_hash key (ht_size table); list = ht_nodes table ! index in
      case chain_set list key value of
        Some list' \<Rightarrow> table\<lparr>ht_nodes := (ht_nodes table)[index := list']\<rparr>
      | None \<Rightarrow> table\<lparr>ht_nodes := (ht_nodes table)[index := (key, value) # list]\<rparr>)"

definition nv_hash_table_find :: "HashTable \<Rightarrow> cstring \<Rightarrow> cstring option" where
  "nv_hash_table_find table key = chain_find (ht_nodes table ! ht_hash key (ht_size table)) key"

definition nv_hash_table_delete :: "HashTable \<Rightarrow> cstring \<Rightarrow> HashTable" where
  "nv_hash_table_delete table key =
     (let index = ht_hash key (ht_size table) in
      table\<lparr>ht_nodes := (ht_nodes table)[index := chain_unlink (ht_nodes table ! index) key]\<rparr>)"

definition nv_hash_table_destroy :: "HashTable \<Rightarrow> (cstring \<times> cstring) list" where
  "nv_hash_table_destroy table = concat (ht_nodes table)"

definition ht_inv :: "HashTable \<Rightarrow> bool" where
  "ht_inv t \<longleftrightarrow> 0 < ht_size t \<and> length (ht_nodes t) = ht_size t \<and>
     list_all (\<lambda>c. distinct (map fst c)) (ht_nodes t)"

lemma ht_hash_bound: "ht_inv t \<Longrightarrow> ht_hash k (ht_size t) < length (ht_nodes t)"
  by (simp add: ht_inv_def ht_hash_def)

lemma ht_chain_distinct: "ht_inv t \<Longrightarrow> distinct (map fst (ht_nodes t ! ht_hash k (ht_size t)))"
  using ht_hash_bound[of t k] by (simp add: ht_inv_def list_all_length)

lemma ht_inv_create: "0 < n \<Longrightarrow> ht_inv (nv_hash_table_create n)"
  by (simp add: ht_inv_def nv_hash_table_create_def list_all_iff)

lemma list_all_update: "list_all P xs \<Longrightarrow> P x \<Longrightarrow> list_all P (xs[i := x])"
  by (auto simp: list_all_iff dest: subsetD[OF set_update_subset_insert])

lemma ht_inv_set_chain:
  "ht_inv t \<Longrightarrow> distinct (map fst c) \<Longrightarrow> ht_inv (t\<lparr>ht_nodes := (ht_nodes t)[i := c]\<rparr>)"
  by (simp add: ht_inv_def list_all_update)

lemma ht_inv_insert: "ht_inv t \<Longrightarrow> ht_inv (nv_hash_table_insert t k v)"
proof (cases "chain_set (ht_nodes t ! ht_hash k (ht_size t)) k v")
  case None
  assume inv: "ht_inv t"
  have "k \<notin> fst ` set (ht_nodes t ! ht_hash k (ht_size t))"
    using None by (simp add: chain_set_None chain_find_map_of map_of_eq_None_iff)
  then show ?thesis using None inv ht_chain_distinct[OF inv, of k]
    by (simp add: nv_hash_table_insert_def Let_def ht_inv_set_chain)
next
  case (Some c)
  assume inv: "ht_inv t"
  show ?thesis using Some inv ht_chain_distinct[OF inv, of k] chain_set_keys[OF Some]
    by (simp add: nv_hash_table_insert_def Let_def ht_inv_set_chain)
qed

lemma ht_inv_delete: "ht_inv t \<Longrightarrow> ht_inv (nv_hash_table_delete t k)"
  using ht_chain_distinct[of t k]
  by (simp add: nv_hash_table_delete_def Let_def chain_unlink_distinct ht_inv_set_chain)

lemma ht_find_set_chain: "ht_inv t \<Longrightarrow>
    nv_hash_table_find (t\<lparr>ht_nodes := (ht_nodes t)[ht_hash k (ht_size t) := c]\<rparr>) k' =
      (if ht_hash k' (ht_size t) = ht_hash k (ht_size t) then chain_find c k' else nv_hash_table_find t k')"
  using ht_hash_bound[of t k] by (simp add: nv_hash_table_find_def)

lemma ht_find_insert:
  assumes inv: "ht_inv t"
  shows "nv_hash_table_find (nv_hash_table_insert t k v) k' = (if k' = k then Some v else nv_hash_table_find t k')"
proof (cases "chain_set (ht_nodes t ! ht_hash k (ht_size t)) k v")
  case None
  then show ?thesis
    by (simp add: nv_hash_table_insert_def Let_def ht_find_set_chain[OF inv]) (simp add: nv_hash_table_find_def)
next
  case (Some c)
  then show ?thesis using chain_set_find[OF Some, of k']
    by (simp add: nv_hash_table_insert_def Let_def ht_find_set_chain[OF inv])
       (auto simp: nv_hash_table_find_def)
qed

lemma ht_find_delete:
  assumes inv: "ht_inv t"
  shows "nv_hash_table_find (nv_hash_table_delete t k) k' = (if k' = k then None else nv_hash_table_find t k')"
  using chain_unlink_distinct[OF ht_chain_distinct[OF inv, of k], of k]
  by (simp add: nv_hash_table_delete_def Let_def ht_find_set_chain[OF inv])
     (simp add: nv_hash_table_find_def chain_unlink_find_other)

interpretation ht: keyed_store_del "\<lambda>k. k" ht_inv nv_hash_table_find
    "\<lambda>k v t. nv_hash_table_insert t k v" "\<lambda>k t. nv_hash_table_delete t k"
  by unfold_locales (simp_all add: ht_inv_insert ht_inv_delete ht_find_insert ht_find_delete)

section \<open>The string set\<close>

record nv_set_t =
  set_nodes :: "cstring list"
  set_size :: int

definition nv_set_init :: nv_set_t where
  "nv_set_init = \<lparr>set_nodes = [], set_size = 0\<rparr>"

definition nv_set_destroy :: "nv_set_t \<Rightarrow> cstring list" where
  "nv_set_destroy s = set_nodes s"

definition nv_set_contains :: "nv_set_t \<Rightarrow> cstring \<Rightarrow> bool" where
  "nv_set_contains s d = list_ex (\<lambda>x. x = d) (set_nodes s)"

definition nv_set_add :: "nv_set_t \<Rightarrow> cstring \<Rightarrow> nv_set_t" where
  "nv_set_add s d =
     (if nv_set_contains s d then s
      else s\<lparr>set_nodes := d # set_nodes s, set_size := set_size s + 1\<rparr>)"

fun set_unlink :: "cstring list \<Rightarrow> cstring \<Rightarrow> cstring list option" where
  "set_unlink [] d = None"
| "set_unlink (x # xs) d = (if x = d then Some xs else map_option (Cons x) (set_unlink xs d))"

definition nv_set_remove :: "nv_set_t \<Rightarrow> cstring \<Rightarrow> nv_set_t" where
  "nv_set_remove s d =
     (case set_unlink (set_nodes s) d of
        None \<Rightarrow> s
      | Some xs \<Rightarrow> s\<lparr>set_nodes := xs, set_size := set_size s - 1\<rparr>)"

definition nv_set_size :: "nv_set_t \<Rightarrow> int" where
  "nv_set_size s = set_size s"

definition set_abs :: "nv_set_t \<Rightarrow> cstring set" where
  "set_abs s = set (set_nodes s)"

definition set_inv :: "nv_set_t \<Rightarrow> bool" where
  "set_inv s \<longleftrightarrow> distinct (set_nodes s) \<and> set_size s = int (length (set_nodes s))"

lemma set_unlink_remove1: "set_unlink xs d = (if d \<in> set xs then Some (remove1 d xs) else None)"
  by (induction xs) auto

lemma nv_set_contains_iff: "nv_set_contains s d \<longleftrightarrow> d \<in> set_abs s"
  by (auto simp: nv_set_contains_def set_abs_def list_ex_iff)

lemma set_abs_add: "set_abs (nv_set_add s d) = insert d (set_abs s)"
  by (auto simp: nv_set_add_def nv_set_contains_iff) (auto simp: set_abs_def)

lemma set_abs_remove: "set_inv s \<Longrightarrow> set_abs (nv_set_remove s d) = set_abs s - {d}"
  by (auto simp: nv_set_remove_def set_unlink_remove1 set_abs_def set_inv_def)

lemma set_inv_add: "set_inv s \<Longrightarrow> set_inv (nv_set_add s d)"
  by (auto simp: set_inv_def nv_set_add_def nv_set_contains_iff set_abs_def)

lemma set_inv_remove: "set_inv s \<Longrightarrow> set_inv (nv_set_remove s d)"
proof -
  assume inv: "set_inv s"
  have "d \<in> set (set_nodes s) \<Longrightarrow> int (length (set_nodes s) - Suc 0) = int (length (set_nodes s)) - 1"
    by (cases "set_nodes s") auto
  then show ?thesis using inv
    by (auto simp: set_inv_def nv_set_remove_def set_unlink_remove1 length_remove1)
qed

lemma set_size_card: "set_inv s \<Longrightarrow> nv_set_size s = int (card (set_abs s))"
  by (simp add: set_inv_def nv_set_size_def set_abs_def distinct_card)

section \<open>The adjacency-list graph\<close>

record nv_vertex_t =
  v_id :: int
  v_edges :: "int list"

record nv_graph_t =
  g_vertices :: "nv_vertex_t list"

definition nv_graph_init :: nv_graph_t where
  "nv_graph_init = \<lparr>g_vertices = []\<rparr>"

definition nv_graph_destroy :: "nv_graph_t \<Rightarrow> (int \<times> int list) list" where
  "nv_graph_destroy graph = map (\<lambda>v. (v_id v, v_edges v)) (g_vertices graph)"

definition nv_graph_add_vertex :: "nv_graph_t \<Rightarrow> int \<Rightarrow> nv_graph_t" where
  "nv_graph_add_vertex graph id' =
     graph\<lparr>g_vertices := \<lparr>v_id = id', v_edges = []\<rparr> # g_vertices graph\<rparr>"

text \<open>The first vertex with the given id is the one an operation works on.\<close>

fun at_vertex :: "(nv_vertex_t \<Rightarrow> nv_vertex_t) \<Rightarrow> int \<Rightarrow> nv_vertex_t list \<Rightarrow> nv_vertex_t list" where
  "at_vertex f src [] = []"
| "at_vertex f src (v # vs) = (if v_id v \<noteq> src then v # at_vertex f src vs else f v # vs)"

definition nv_graph_add_edge :: "nv_graph_t \<Rightarrow> int \<Rightarrow> int \<Rightarrow> nv_graph_t" where
  "nv_graph_add_edge graph src dest =
     graph\<lparr>g_vertices := at_vertex (\<lambda>v. v\<lparr>v_edges := dest # v_edges v\<rparr>) src (g_vertices graph)\<rparr>"

fun drop_vertex :: "int \<Rightarrow> nv_vertex_t list \<Rightarrow> nv_vertex_t list" where
  "drop_vertex id' [] = []"
| "drop_vertex id' (v # vs) = (if v_id v \<noteq> id' then v # drop_vertex id' vs else vs)"

definition nv_graph_remove_vertex :: "nv_graph_t \<Rightarrow> int \<Rightarrow> nv_graph_t" where
  "nv_graph_remove_vertex graph id' = graph\<lparr>g_vertices := drop_vertex id' (g_vertices graph)\<rparr>"

fun drop_edge :: "int \<Rightarrow> int list \<Rightarrow> int list" where
  "drop_edge dest [] = []"
| "drop_edge dest (e # es) = (if e \<noteq> dest then e # drop_edge dest es else es)"

definition nv_graph_remove_edge :: "nv_graph_t \<Rightarrow> int \<Rightarrow> int \<Rightarrow> nv_graph_t" where
  "nv_graph_remove_edge graph src dest =
     graph\<lparr>g_vertices := at_vertex (\<lambda>v. v\<lparr>v_edges := drop_edge dest (v_edges v)\<rparr>) src (g_vertices graph)\<rparr>"

datatype graph_line = GVertex int | GEdge int

definition nv_graph_traverse :: "nv_graph_t \<Rightarrow> graph_line list" where
  "nv_graph_traverse graph =
     concat (map (\<lambda>v. GVertex (v_id v) # map GEdge (v_edges v)) (g_vertices graph))"

lemma at_vertex_undo: "(\<And>v. v_id (f v) = v_id v) \<Longrightarrow> (\<And>v. g (f v) = v) \<Longrightarrow>
    at_vertex g src (at_vertex f src vs) = vs"
  by (induction vs) auto

lemma graph_remove_edge_add_edge:
  "nv_graph_remove_edge (nv_graph_add_edge graph src dest) src dest = graph"
  by (simp add: nv_graph_remove_edge_def nv_graph_add_edge_def at_vertex_undo)

lemma graph_remove_vertex_add_vertex:
  "nv_graph_remove_vertex (nv_graph_add_vertex graph id') id' = graph"
  by (simp add: nv_graph_remove_vertex_def nv_graph_add_vertex_def)

lemma drop_vertex_keeps: "v \<in> set vs \<Longrightarrow> v_id v \<noteq> id' \<Longrightarrow> v \<in> set (drop_vertex id' vs)"
  by (induction vs) auto

section \<open>What the containers promise\<close>

datatype 'v table_op = Put cstring 'v | Del cstring

primrec ht_exec :: "cstring table_op \<Rightarrow> HashTable \<Rightarrow> HashTable" where
  "ht_exec (Put k v) t = nv_hash_table_insert t k v"
| "ht_exec (Del k) t = nv_hash_table_delete t k"

primrec map_exec :: "'v table_op \<Rightarrow> (cstring \<rightharpoonup> 'v) \<Rightarrow> (cstring \<rightharpoonup> 'v)" where
  "map_exec (Put k v) m = m(k \<mapsto> v)"
| "map_exec (Del k) m = m(k := None)"

primrec dict_exec :: "'v table_op \<Rightarrow> 'v nv_dict_t \<Rightarrow> 'v nv_dict_t" where
  "dict_exec (Put k v) d = nv_dict_insert d k v"
| "dict_exec (Del k) d = nv_dict_remove d k"

primrec stack_exec :: "'v table_op \<Rightarrow> (cstring \<Rightarrow> 'v list) \<Rightarrow> (cstring \<Rightarrow> 'v list)" where
  "stack_exec (Put k v) m = m(k := v # m k)"
| "stack_exec (Del k) m = m(k := tl (m k))"

lemma ht_exec_refines:
  "ht_inv t \<Longrightarrow> ht_inv (fold ht_exec ops t) \<and>
     nv_hash_table_find (fold ht_exec ops t) = fold map_exec ops (nv_hash_table_find t)"
proof (induction ops arbitrary: t)
  case (Cons op ops)
  have "ht_inv (ht_exec op t) \<and> nv_hash_table_find (ht_exec op t) = map_exec op (nv_hash_table_find t)"
    using Cons.prems by (cases op) (auto simp: fun_eq_iff ht.inv_upd ht.inv_del ht.lookup_upd ht.lookup_del)
  then show ?case using Cons.IH[of "ht_exec op t"] by simp
qed simp

text \<open>C34.  A hash table of any positive size behaves as a finite map: after any sequence of insertions and
  deletions on a new table a lookup returns what the same sequence leaves in the map.\<close>
theorem nv_hash_table_refines_map:
  assumes "0 < n"
  shows "nv_hash_table_find (fold ht_exec ops (nv_hash_table_create n)) = fold map_exec ops Map.empty"
proof -
  have "nv_hash_table_find (nv_hash_table_create n) = Map.empty"
    using assms by (auto simp: nv_hash_table_find_def nv_hash_table_create_def ht_hash_def)
  then show ?thesis using ht_exec_refines[OF ht_inv_create[OF assms], of ops] by simp
qed

theorem nv_hash_table_refines_map_witness:
  "nv_hash_table_find (fold ht_exec [Put ''ab'' ''1'', Put ''cd'' ''2'', Put ''ab'' ''3'', Del ''cd'']
     (nv_hash_table_create 1)) ''ab'' = Some ''3''"
  unfolding nv_hash_table_refines_map[OF zero_less_one] by simp

text \<open>The values bound to a key in a dictionary, newest first.\<close>

definition dict_stack :: "'v nv_dict_t \<Rightarrow> cstring \<Rightarrow> 'v list" where
  "dict_stack d k = map snd (filter (\<lambda>(k', _). k' = k) (buckets d ! dict_hash k))"

lemma chain_find_stack: "chain_find c k = (case map snd (filter (\<lambda>(k', _). k' = k) c) of [] \<Rightarrow> None | v # _ \<Rightarrow> Some v)"
  by (induction c) auto

lemma chain_unlink_stack: "map snd (filter (\<lambda>(k', _). k' = j) (chain_unlink c k)) =
    (if j = k then tl (map snd (filter (\<lambda>(k', _). k' = j) c)) else map snd (filter (\<lambda>(k', _). k' = j) c))"
  by (induction c) auto

lemma dict_exec_stack: "dict_inv d \<Longrightarrow> dict_inv (dict_exec op d) \<and> dict_stack (dict_exec op d) = stack_exec op (dict_stack d)"
proof (cases op)
  case (Put k v)
  assume "dict_inv d"
  then show ?thesis using Put dict_hash_bound[of k]
    by (auto simp: fun_eq_iff dict_stack_def nv_dict_insert_def Let_def dict_inv_def nth_list_update)
next
  case (Del k)
  assume "dict_inv d"
  then show ?thesis using Del dict_hash_bound[of k]
    by (auto simp: fun_eq_iff dict_stack_def nv_dict_remove_def Let_def dict_inv_def nth_list_update chain_unlink_stack)
qed

text \<open>A dictionary keeps a stack of values for every key: an insertion pushes even when the key is present,
  a lookup returns the newest value, and a removal uncovers the value that was bound before.\<close>
theorem nv_dict_is_stack_per_key:
  "nv_dict_lookup (fold dict_exec ops nv_dict_init) k =
     (case fold stack_exec ops (\<lambda>_. []) k of [] \<Rightarrow> None | v # _ \<Rightarrow> Some v)"
proof -
  have "dict_inv d \<Longrightarrow> dict_stack (fold dict_exec ops d) = fold stack_exec ops (dict_stack d)" for d :: "'a nv_dict_t"
    by (induction ops arbitrary: d) (simp_all add: dict_exec_stack)
  moreover have "dict_stack (nv_dict_init :: 'a nv_dict_t) = (\<lambda>_. [])"
    by (rule ext) (simp add: dict_stack_def nv_dict_init_def dict_hash_bound)
  moreover have "nv_dict_lookup d k = (case dict_stack d k of [] \<Rightarrow> None | v # _ \<Rightarrow> Some v)" for d :: "'a nv_dict_t"
    by (simp only: nv_dict_lookup_def dict_stack_def chain_find_stack)
  ultimately show ?thesis by simp
qed

datatype set_op = SetAdd cstring | SetRemove cstring

primrec set_exec :: "set_op \<Rightarrow> nv_set_t \<Rightarrow> nv_set_t" where
  "set_exec (SetAdd d) s = nv_set_add s d"
| "set_exec (SetRemove d) s = nv_set_remove s d"

primrec set_spec :: "set_op \<Rightarrow> cstring set \<Rightarrow> cstring set" where
  "set_spec (SetAdd d) A = insert d A"
| "set_spec (SetRemove d) A = A - {d}"

text \<open>After any sequence of additions and removals on a new set, membership is that of the mathematical set
  the sequence builds, and the size is its cardinality.\<close>
theorem nv_set_refines_set:
  "(nv_set_contains (fold set_exec ops nv_set_init) d \<longleftrightarrow> d \<in> fold set_spec ops {}) \<and>
   nv_set_size (fold set_exec ops nv_set_init) = int (card (fold set_spec ops {}))"
proof -
  have step: "set_inv s \<Longrightarrow> set_inv (set_exec op s) \<and> set_abs (set_exec op s) = set_spec op (set_abs s)" for op s
    by (cases op) (simp_all add: set_inv_add set_inv_remove set_abs_add set_abs_remove)
  have "set_inv s \<Longrightarrow> set_inv (fold set_exec ops s) \<and> set_abs (fold set_exec ops s) = fold set_spec ops (set_abs s)" for s
    using step by (induction ops arbitrary: s) auto
  moreover have "set_inv nv_set_init" "set_abs nv_set_init = {}"
    by (simp_all add: set_inv_def set_abs_def nv_set_init_def)
  ultimately show ?thesis by (metis nv_set_contains_iff set_size_card)
qed

text \<open>Removing a vertex leaves the edges of the other vertices that lead to it: a traversal still reports them.\<close>
theorem nv_graph_remove_vertex_keeps_incoming:
  assumes "v \<in> set (g_vertices g)" "v_id v \<noteq> x" "x \<in> set (v_edges v)"
  shows "GEdge x \<in> set (nv_graph_traverse (nv_graph_remove_vertex g x))"
  using assms drop_vertex_keeps[OF assms(1,2)]
  by (force simp: nv_graph_traverse_def nv_graph_remove_vertex_def)

theorem nv_graph_remove_vertex_keeps_incoming_witness:
  "GEdge 2 \<in> set (nv_graph_traverse (nv_graph_remove_vertex \<lparr>g_vertices =
     [\<lparr>v_id = 2, v_edges = []\<rparr>, \<lparr>v_id = 1, v_edges = [2]\<rparr>]\<rparr> 2))"
  by (rule nv_graph_remove_vertex_keeps_incoming[of "\<lparr>v_id = 1, v_edges = [2]\<rparr>"]) simp_all

end
