(* ===== verification/Nv_Heap.thy ===== *)
theory Nv_Heap
  imports Nv_Interfaces
begin

text \<open>
  The array max-heap of \<open>base/data/nv_heap.c\<close>.  The array holds \<open>capacity\<close> cells
  of which the first \<open>size\<close> are in use; the contents that \<open>malloc\<close> and \<open>realloc\<close>
  leave in fresh cells are an argument.  The operations that call
  \<open>exit(EXIT_FAILURE)\<close> on an empty heap return \<open>None\<close> there.
\<close>

section \<open>Priority queues\<close>

locale max_priority_queue =
  fixes inv :: "'s \<Rightarrow> bool"
    and elems :: "'s \<Rightarrow> int multiset"
    and ins :: "int \<Rightarrow> 's \<Rightarrow> 's"
    and remove_max :: "'s \<Rightarrow> (int \<times> 's) option"
  assumes inv_ins: "inv s \<Longrightarrow> inv (ins x s)"
    and elems_ins: "inv s \<Longrightarrow> elems (ins x s) = add_mset x (elems s)"
    and remove_empty: "inv s \<Longrightarrow> remove_max s = None \<longleftrightarrow> elems s = {#}"
    and remove_some: "inv s \<Longrightarrow> remove_max s = Some (x, s') \<Longrightarrow>
      inv s' \<and> x \<in># elems s \<and> elems s' = elems s - {#x#} \<and> (\<forall>y\<in>#elems s. y \<le> x)"
begin

lemma drain_sorted:
  assumes "inv s" "size (elems s) \<le> n"
  shows "mset (fst (drain remove_max n s)) = elems s \<and>
         sorted_wrt (\<ge>) (fst (drain remove_max n s))"
  using assms
proof (induction n arbitrary: s)
  case 0
  then show ?case by simp
next
  case (Suc n)
  show ?case
  proof (cases "remove_max s")
    case None
    then have "elems s = {#}" using Suc.prems remove_empty by blast
    then show ?thesis using None by simp
  next
    case (Some r)
    obtain x s' where r: "remove_max s = Some (x, s')" using Some by (cases r) auto
    note R = remove_some[OF Suc.prems(1) r]
    have "size (elems s') \<le> n" using R Suc.prems(2) by (simp add: size_Diff_singleton)
    then have IH: "mset (fst (drain remove_max n s')) = elems s'"
      "sorted_wrt (\<ge>) (fst (drain remove_max n s'))" using Suc.IH R by blast+
    have "\<forall>y\<in>set (fst (drain remove_max n s')). y \<le> x"
      using R IH(1) by (metis in_diffD set_mset_mset)
    then show ?thesis using r R IH by (auto simp: split_beta)
  qed
qed

end

section \<open>The heap's operations\<close>

record nv_heap_t =
  hp_data :: "int list"
  hp_size :: nat
  hp_capacity :: nat

definition INITIAL_CAPACITY :: nat where "INITIAL_CAPACITY = 10"

definition nv_heap_init :: "int list \<Rightarrow> nv_heap_t" where
  "nv_heap_init cells = \<lparr>hp_data = cells, hp_size = 0, hp_capacity = INITIAL_CAPACITY\<rparr>"

definition nv_heap_is_empty :: "nv_heap_t \<Rightarrow> bool" where
  "nv_heap_is_empty heap \<longleftrightarrow> hp_size heap = 0"

definition nv_heap_peek :: "nv_heap_t \<Rightarrow> int option" where
  "nv_heap_peek heap = (if nv_heap_is_empty heap then None else Some (hp_data heap ! 0))"

definition swap_cells :: "nat \<Rightarrow> nat \<Rightarrow> int list \<Rightarrow> int list" where
  "swap_cells i j xs = xs[i := xs ! j, j := xs ! i]"

fun nv_heap_sift_up :: "int list \<Rightarrow> nat \<Rightarrow> int list" where
  "nv_heap_sift_up d index =
     (if index > 0 then
        (let parent = (index - 1) div 2 in
         if d ! index \<le> d ! parent then d
         else nv_heap_sift_up (swap_cells index parent d) parent)
      else d)"

function nv_heap_sift_down :: "int list \<Rightarrow> nat \<Rightarrow> nat \<Rightarrow> int list" where
  "nv_heap_sift_down d sz index =
     (if 2 * index + 1 < sz then
        (let left = 2 * index + 1; right = 2 * index + 2;
             largest = (if right < sz \<and> d ! right > d ! left then right else left) in
         if d ! index \<ge> d ! largest then d
         else nv_heap_sift_down (swap_cells index largest d) sz largest)
      else d)"
  by pat_completeness auto
termination
  by (relation "measure (\<lambda>(d, sz, index). sz - index)") (auto simp: Let_def split: if_splits)

declare nv_heap_sift_up.simps [simp del] nv_heap_sift_down.simps [simp del]

definition nv_heap_insert :: "int list \<Rightarrow> int \<Rightarrow> nv_heap_t \<Rightarrow> nv_heap_t" where
  "nv_heap_insert cells value heap =
     (let heap = (if hp_size heap = hp_capacity heap
                  then heap\<lparr>hp_capacity := hp_capacity heap * 2, hp_data := hp_data heap @ cells\<rparr>
                  else heap) in
      heap\<lparr>hp_data := nv_heap_sift_up ((hp_data heap)[hp_size heap := value]) (hp_size heap),
           hp_size := hp_size heap + 1\<rparr>)"

definition nv_heap_remove :: "nv_heap_t \<Rightarrow> (int \<times> nv_heap_t) option" where
  "nv_heap_remove heap =
     (if nv_heap_is_empty heap then None
      else
        (let root = hp_data heap ! 0;
             d = (hp_data heap)[0 := hp_data heap ! (hp_size heap - 1)];
             sz = hp_size heap - 1 in
         Some (root, heap\<lparr>hp_data := nv_heap_sift_down d sz 0, hp_size := sz\<rparr>)))"

definition nv_heap_destroy :: "nv_heap_t \<Rightarrow> int list" where
  "nv_heap_destroy heap = hp_data heap"

section \<open>Heap order\<close>

definition par :: "nat \<Rightarrow> nat" where "par j = (j - 1) div 2"

lemma sift_up_unfold: "nv_heap_sift_up d i =
    (if 0 < i then if d ! i \<le> d ! par i then d else nv_heap_sift_up (swap_cells i (par i) d) (par i) else d)"
  by (subst nv_heap_sift_up.simps) (simp only: Let_def par_def)

definition heap_order :: "int list \<Rightarrow> nat \<Rightarrow> bool" where
  "heap_order d n \<longleftrightarrow> (\<forall>j. 0 < j \<and> j < n \<longrightarrow> d ! j \<le> d ! par j)"

definition heap_up :: "int list \<Rightarrow> nat \<Rightarrow> nat \<Rightarrow> bool" where
  "heap_up d n i \<longleftrightarrow> (\<forall>j. 0 < j \<and> j < n \<and> j \<noteq> i \<longrightarrow> d ! j \<le> d ! par j) \<and>
     (\<forall>j. 0 < j \<and> j < n \<and> par j = i \<and> 0 < i \<longrightarrow> d ! j \<le> d ! par i)"

definition heap_down :: "int list \<Rightarrow> nat \<Rightarrow> nat \<Rightarrow> bool" where
  "heap_down d n i \<longleftrightarrow> (\<forall>j. 0 < j \<and> j < n \<and> par j \<noteq> i \<longrightarrow> d ! j \<le> d ! par j) \<and>
     (\<forall>j. 0 < j \<and> j < n \<and> par j = i \<and> 0 < i \<longrightarrow> d ! j \<le> d ! par i)"

lemma nth_swap: "i < length d \<Longrightarrow> j < length d \<Longrightarrow>
    swap_cells i j d ! k = (if k = j then d ! i else if k = i then d ! j else d ! k)"
  by (auto simp: swap_cells_def nth_list_update)

lemma length_swap [simp]: "length (swap_cells i j d) = length d"
  by (simp add: swap_cells_def)

lemma mset_take_swap: "i < n \<Longrightarrow> j < n \<Longrightarrow> n \<le> length d \<Longrightarrow>
    mset (take n (swap_cells i j d)) = mset (take n d)"
proof -
  assume a: "i < n" "j < n" "n \<le> length d"
  have "take n (swap_cells i j d) = (take n d)[i := take n d ! j, j := take n d ! i]"
    using a by (simp add: swap_cells_def take_update_swap)
  then show ?thesis using a by (simp add: mset_swap del: nth_take)
qed

lemma length_sift_up [simp]: "length (nv_heap_sift_up d i) = length d"
  by (induction d i rule: nv_heap_sift_up.induct)
     (subst nv_heap_sift_up.simps, simp add: Let_def)

lemma length_sift_down [simp]: "length (nv_heap_sift_down d n i) = length d"
  by (induction d n i rule: nv_heap_sift_down.induct)
     (subst nv_heap_sift_down.simps, simp add: Let_def)

lemma mset_sift_up: "i < n \<Longrightarrow> n \<le> length d \<Longrightarrow>
    mset (take n (nv_heap_sift_up d i)) = mset (take n d)"
proof (induction d i rule: nv_heap_sift_up.induct)
  case (1 d i)
  then show ?case by (subst nv_heap_sift_up.simps) (auto simp: Let_def mset_take_swap)
qed

lemma mset_sift_down: "i < n \<Longrightarrow> n \<le> length d \<Longrightarrow>
    mset (take n (nv_heap_sift_down d n i)) = mset (take n d)"
proof (induction d n i rule: nv_heap_sift_down.induct)
  case (1 d n i)
  then show ?case by (subst nv_heap_sift_down.simps) (auto simp: Let_def mset_take_swap)
qed

lemma par_facts:
  "0 < j \<Longrightarrow> par j < j" "0 < j \<Longrightarrow> par j = i \<Longrightarrow> j = 2 * i + 1 \<or> j = 2 * i + 2"
  "par (2 * i + 1) = i" "par (2 * i + 2) = i"
  by (auto simp: par_def)

lemma heap_up_step:
  assumes h: "heap_up d n i" and i: "0 < i" "i < n" "n \<le> length d" and lt: "d ! par i < d ! i"
  shows "heap_up (swap_cells i (par i) d) n (par i)"
proof -
  let ?p = "par i" and ?e = "swap_cells i (par i) d"
  have p: "?p < i" using i par_facts(1) by blast
  have e: "?e ! k = (if k = ?p then d ! i else if k = i then d ! ?p else d ! k)" for k
    using i p by (simp add: nth_swap)
  have le: "d ! j \<le> d ! par j" if "0 < j" "j < n" "j \<noteq> i" for j using h that by (simp add: heap_up_def)
  have ch: "d ! j \<le> d ! ?p" if "0 < j" "j < n" "par j = i" for j using h that i by (simp add: heap_up_def)
  have "?e ! j \<le> ?e ! par j" if j: "0 < j" "j < n" "j \<noteq> ?p" for j
  proof (cases "j = i")
    case True
    then show ?thesis using e p lt by simp
  next
    case False
    have "par j < j" using par_facts(1) j by blast
    then show ?thesis using e p lt le[OF j(1,2) False] ch[OF j(1,2)] j False by auto
  qed
  moreover have "?e ! j \<le> ?e ! par ?p" if j: "0 < j" "j < n" "par j = ?p" "0 < ?p" for j
  proof -
    have pp: "par ?p < ?p" by (rule par_facts(1)[OF j(4)])
    have dp: "d ! ?p \<le> d ! par ?p" by (rule le[OF j(4)]) (use p i(2) in linarith)+
    show ?thesis
    proof (cases "j = i")
      case True
      then show ?thesis using e[of i] e[of "par ?p"] pp dp p by simp
    next
      case False
      then have "d ! j \<le> d ! ?p" using le[OF j(1,2)] j by simp
      moreover have "j \<noteq> ?p" using j(3,4) par_facts(1)[of j] j by auto
      ultimately show ?thesis using e[of j] e[of "par ?p"] pp dp p False by simp
    qed
  qed
  ultimately show ?thesis by (simp add: heap_up_def)
qed

lemma sift_up_order:
  "heap_up d n i \<Longrightarrow> i < n \<Longrightarrow> n \<le> length d \<Longrightarrow> heap_order (nv_heap_sift_up d i) n"
proof (induction i arbitrary: d rule: less_induct)
  case (less i)
  show ?case
  proof (cases "0 < i \<and> d ! par i < d ! i")
    case True
    then have "heap_up (swap_cells i (par i) d) n (par i)" using heap_up_step less.prems by blast
    then have "heap_order (nv_heap_sift_up (swap_cells i (par i) d) (par i)) n"
      using less.IH[of "par i"] par_facts(1)[of i] True less.prems by simp
    then show ?thesis using True by (subst sift_up_unfold) simp
  next
    case False
    then have "nv_heap_sift_up d i = d" by (subst sift_up_unfold) auto
    moreover have "d ! j \<le> d ! par j" if "0 < j" "j < n" for j
      using less.prems False that by (cases "j = i") (auto simp: heap_up_def)
    ultimately show ?thesis by (simp add: heap_order_def)
  qed
qed

lemma heap_down_step:
  assumes h: "heap_down d n i" and n: "n \<le> length d"
    and m: "m < n" "0 < m" "par m = i" "d ! i < d ! m"
    and best: "\<And>j. 0 < j \<Longrightarrow> j < n \<Longrightarrow> par j = i \<Longrightarrow> d ! j \<le> d ! m"
  shows "heap_down (swap_cells i m d) n m"
proof -
  let ?e = "swap_cells i m d"
  have im: "i < m" using par_facts(1)[OF m(2)] m(3) by simp
  have e: "?e ! k = (if k = m then d ! i else if k = i then d ! m else d ! k)" for k
    using n m(1) im by (simp add: nth_swap)
  have le: "d ! j \<le> d ! par j" if "0 < j" "j < n" "par j \<noteq> i" for j using h that by (simp add: heap_down_def)
  have up: "d ! m \<le> d ! par i" if "0 < i" using h that m by (simp add: heap_down_def)
  have "?e ! j \<le> ?e ! par j" if j: "0 < j" "j < n" "par j \<noteq> m" for j
  proof -
    consider "j = m" | "j = i" | "par j = i" "j \<noteq> m" "j \<noteq> i" | "par j \<noteq> i" "j \<noteq> m" "j \<noteq> i" by blast
    then show ?thesis
    proof cases
      case 1
      then show ?thesis using e[of m] e[of i] m im by simp
    next
      case 2
      then have "par i \<noteq> i" "par i \<noteq> m" using par_facts(1)[of i] j im by auto
      then show ?thesis using 2 e[of i] e[of "par i"] up j im by simp
    next
      case 3
      then show ?thesis using e[of j] e[of i] best[OF j(1,2)] im by simp
    next
      case 4
      then show ?thesis using e[of j] e[of "par j"] le[OF j(1,2)] j by simp
    qed
  qed
  moreover have "?e ! j \<le> ?e ! par m" if j: "0 < j" "j < n" "par j = m" for j
  proof -
    have "par j \<noteq> i" "j \<noteq> m" "j \<noteq> i" using j im par_facts(1)[of j] by auto
    then show ?thesis using e[of j] e[of i] le[OF j(1,2)] j(3) m(3) im by simp
  qed
  ultimately show ?thesis by (simp add: heap_down_def)
qed

lemma sift_down_order:
  "heap_down d n i \<Longrightarrow> n \<le> length d \<Longrightarrow> heap_order (nv_heap_sift_down d n i) n"
proof (induction d n i rule: nv_heap_sift_down.induct)
  case (1 d n i)
  let ?l = "2 * i + 1" and ?r = "2 * i + 2"
  let ?m = "if ?r < n \<and> d ! ?r > d ! ?l then ?r else ?l"
  have best: "d ! j \<le> d ! ?m" if "0 < j" "j < n" "par j = i" for j
    using par_facts(2)[OF that(1,3)] that(2) by auto
  have m: "par ?m = i" "0 < ?m" using par_facts(3,4) by auto
  have unf: "nv_heap_sift_down d n i =
      (if ?l < n then (if d ! i \<ge> d ! ?m then d else nv_heap_sift_down (swap_cells i ?m d) n ?m) else d)"
    by (subst nv_heap_sift_down.simps) (simp only: Let_def)
  show ?case
  proof (cases "?l < n")
    case False
    then have "par j \<noteq> i" if "0 < j" "j < n" for j using par_facts(2)[OF that(1)] that(2) by fastforce
    then show ?thesis using False 1(2) unf by (simp add: heap_down_def heap_order_def)
  next
    case lt: True
    then have mn: "?m < n" by auto
    show ?thesis
    proof (cases "d ! i \<ge> d ! ?m")
      case True
      have "d ! j \<le> d ! par j" if j: "0 < j" "j < n" for j
        using best[OF j] True 1(2) j by (cases "par j = i") (auto simp: heap_down_def)
      moreover have "nv_heap_sift_down d n i = d"
        unfolding unf using True by (simp only: if_True if_cancel)
      ultimately show ?thesis by (simp add: heap_order_def)
    next
      case False
      then have down: "heap_down (swap_cells i ?m d) n ?m"
        using heap_down_step[OF 1(2,3) mn m(2,1)] best by (simp add: not_le)
      have "heap_order (nv_heap_sift_down (swap_cells i ?m d) n ?m) n"
        by (rule 1(1)[OF lt refl refl refl False down]) (use 1(3) in simp)
      then show ?thesis unfolding unf using lt False by (simp only: if_True if_False)
    qed
  qed
qed

section \<open>The operations implement a priority queue\<close>

definition heap_inv :: "nv_heap_t \<Rightarrow> bool" where
  "heap_inv h \<longleftrightarrow> heap_order (hp_data h) (hp_size h) \<and> hp_size h \<le> hp_capacity h \<and>
     length (hp_data h) = hp_capacity h \<and> 0 < hp_capacity h"

definition heap_elems :: "nv_heap_t \<Rightarrow> int multiset" where
  "heap_elems h = mset (take (hp_size h) (hp_data h))"

text \<open>What \<open>realloc\<close> may leave in the new cells: as many of them as the array had, any contents.\<close>

definition cells_for :: "nv_heap_t \<Rightarrow> int list \<Rightarrow> bool" where
  "cells_for h cells \<longleftrightarrow> length cells = hp_capacity h"

definition grow_cells :: "nv_heap_t \<Rightarrow> int list" where
  "grow_cells h = replicate (hp_capacity h) 0"

lemma heap_order_root: "heap_order d n \<Longrightarrow> j < n \<Longrightarrow> d ! j \<le> d ! 0"
proof (induction j rule: less_induct)
  case (less j)
  show ?case
  proof (cases "j = 0")
    case False
    then have "d ! j \<le> d ! par j" "d ! par j \<le> d ! 0"
      using less par_facts(1)[of j] by (auto simp: heap_order_def)
    then show ?thesis by simp
  qed simp
qed

lemma heap_insert_cells:
  fixes v :: int and d :: "int list"
  assumes inv: "heap_inv h" and d: "length d = c" "hp_size h < c" "take (hp_size h) d = take (hp_size h) (hp_data h)"
  defines "d' \<equiv> nv_heap_sift_up (d[hp_size h := v]) (hp_size h)"
  shows "heap_order d' (hp_size h + 1)" "mset (take (hp_size h + 1) d') = add_mset v (heap_elems h)"
proof -
  let ?n = "hp_size h" and ?e = "d[hp_size h := v]"
  have same: "?e ! j = hp_data h ! j" if "j < ?n" for j
    using that d(3) by (metis nth_list_update_neq nth_take less_irrefl)
  have "heap_up ?e (?n + 1) ?n"
    unfolding heap_up_def
  proof (intro conjI allI impI)
    fix j assume j: "0 < j \<and> j < ?n + 1 \<and> j \<noteq> ?n"
    then have "j < ?n" "par j < ?n" using par_facts(1)[of j] by linarith+
    then show "?e ! j \<le> ?e ! par j" using inv j same by (simp add: heap_inv_def heap_order_def)
  next
    fix j assume j: "0 < j \<and> j < ?n + 1 \<and> par j = ?n \<and> 0 < ?n"
    then show "?e ! j \<le> ?e ! par ?n" using par_facts(1)[of j] by linarith
  qed
  then show "heap_order d' (?n + 1)" unfolding d'_def by (rule sift_up_order) (use d in auto)
  have "mset (take (?n + 1) d') = mset (take (?n + 1) ?e)"
    unfolding d'_def by (rule mset_sift_up) (use d in auto)
  also have "take (?n + 1) ?e = take ?n (hp_data h) @ [v]"
    using d by (simp add: take_Suc_conv_app_nth)
  finally show "mset (take (?n + 1) d') = add_mset v (heap_elems h)" by (simp add: heap_elems_def)
qed

lemma heap_insert_correct:
  assumes inv: "heap_inv h" and c: "cells_for h cells"
  shows "heap_inv (nv_heap_insert cells v h)"
    and "heap_elems (nv_heap_insert cells v h) = add_mset v (heap_elems h)"
proof -
  have len: "length (hp_data h) = hp_capacity h" "hp_size h \<le> hp_capacity h" "0 < hp_capacity h"
    using inv by (auto simp: heap_inv_def)
  show "heap_inv (nv_heap_insert cells v h)"
  proof (cases "hp_size h = hp_capacity h")
    case True
    then show ?thesis using heap_insert_cells[OF inv, of "hp_data h @ cells" "2 * hp_capacity h" v] len c
      by (simp add: nv_heap_insert_def Let_def heap_inv_def cells_for_def)
  next
    case False
    then show ?thesis using heap_insert_cells[OF inv len(1), of v] len
      by (simp add: nv_heap_insert_def Let_def heap_inv_def)
  qed
  show "heap_elems (nv_heap_insert cells v h) = add_mset v (heap_elems h)"
  proof (cases "hp_size h = hp_capacity h")
    case True
    then show ?thesis using heap_insert_cells[OF inv, of "hp_data h @ cells" "2 * hp_capacity h" v] len c
      by (simp add: nv_heap_insert_def Let_def heap_elems_def cells_for_def)
  next
    case False
    then show ?thesis using heap_insert_cells[OF inv len(1), of v] len
      by (simp add: nv_heap_insert_def Let_def) (simp add: heap_elems_def)
  qed
qed

lemma heap_remove_correct:
  assumes inv: "heap_inv h" and r: "nv_heap_remove h = Some (x, h')"
  shows "heap_inv h'" "x \<in># heap_elems h" "heap_elems h' = heap_elems h - {#x#}" "\<forall>y\<in>#heap_elems h. y \<le> x"
proof -
  let ?n = "hp_size h" and ?a = "hp_data h"
  let ?d = "?a[0 := ?a ! (?n - 1)]"
  have n: "0 < ?n" "?n \<le> length ?a" "heap_order ?a ?n" using inv r
    by (auto simp: heap_inv_def nv_heap_remove_def nv_heap_is_empty_def split: if_splits)
  have h': "h' = h\<lparr>hp_data := nv_heap_sift_down ?d (?n - 1) 0, hp_size := ?n - 1\<rparr>" and x: "x = ?a ! 0"
    using r n by (auto simp: nv_heap_remove_def nv_heap_is_empty_def Let_def)
  have "heap_down ?d (?n - 1) 0"
    using n by (auto simp: heap_down_def heap_order_def nth_list_update)
  then have ord: "heap_order (nv_heap_sift_down ?d (?n - 1) 0) (?n - 1)"
    by (rule sift_down_order) (use n in auto)
  then show "heap_inv h'" using inv h' by (auto simp: heap_inv_def)
  have in_elems: "y \<in># heap_elems h \<longleftrightarrow> (\<exists>j<?n. y = ?a ! j)" for y
    using n(2) by (auto simp: heap_elems_def in_set_conv_nth)
  show "x \<in># heap_elems h" using in_elems n x by blast
  show "\<forall>y\<in>#heap_elems h. y \<le> x" using in_elems heap_order_root[OF n(3)] x by auto
  have split: "take ?n ?a = take (?n - 1) ?a @ [?a ! (?n - 1)]"
    using n take_Suc_conv_app_nth[of "?n - 1" ?a] by simp
  have "mset (take (?n - 1) (nv_heap_sift_down ?d (?n - 1) 0)) = mset (take (?n - 1) ?d)"
  proof (cases "?n = 1")
    case False
    then show ?thesis by (intro mset_sift_down) (use n in auto)
  qed simp
  also have "\<dots> = heap_elems h - {#x#}"
  proof (cases "?n = 1")
    case True
    then show ?thesis using n x by (cases ?a) (auto simp: heap_elems_def)
  next
    case False
    then obtain b bs where b: "take (?n - 1) ?a = b # bs"
      using n by (cases "take (?n - 1) ?a") auto
    have "(b # bs) ! 0 = ?a ! 0" unfolding b[symmetric] using False n by simp
    with b show ?thesis using n x split by (simp add: heap_elems_def take_update_swap)
  qed
  finally show "heap_elems h' = heap_elems h - {#x#}" using h' by (simp add: heap_elems_def)
qed

interpretation hq: max_priority_queue heap_inv heap_elems "\<lambda>x h. nv_heap_insert (grow_cells h) x h" nv_heap_remove
proof unfold_locales
  fix h :: nv_heap_t assume inv: "heap_inv h"
  have g: "cells_for h (grow_cells h)" by (simp add: cells_for_def grow_cells_def)
  show "heap_inv (nv_heap_insert (grow_cells h) x h)" for x by (rule heap_insert_correct[OF inv g])
  show "heap_elems (nv_heap_insert (grow_cells h) x h) = add_mset x (heap_elems h)" for x
    by (rule heap_insert_correct[OF inv g])
  show "nv_heap_remove h = None \<longleftrightarrow> heap_elems h = {#}"
    using inv by (auto simp: nv_heap_remove_def nv_heap_is_empty_def heap_elems_def heap_inv_def Let_def)
  show "heap_inv h' \<and> x \<in># heap_elems h \<and> heap_elems h' = heap_elems h - {#x#} \<and> (\<forall>y\<in>#heap_elems h. y \<le> x)"
    if "nv_heap_remove h = Some (x, h')" for x h'
    using heap_remove_correct[OF inv that] by blast
qed

section \<open>Properties\<close>

text \<open>C15.  Removing until the heap is empty returns every element it held, in descending order.\<close>
theorem nv_heap_drain_sorted:
  assumes "heap_inv h" "hp_size h \<le> n"
  shows "mset (fst (drain nv_heap_remove n h)) = heap_elems h \<and>
         sorted_wrt (\<ge>) (fst (drain nv_heap_remove n h))"
  by (rule hq.drain_sorted) (use assms in \<open>auto simp: heap_elems_def heap_inv_def\<close>)

definition heap_sample :: nv_heap_t where
  "heap_sample = \<lparr>hp_data = [9, 5, 7, 1, 0, 0, 0, 0, 0, 0], hp_size = 4, hp_capacity = 10\<rparr>"

lemma heap_sample_inv: "heap_inv heap_sample"
  by (auto simp: heap_inv_def heap_sample_def heap_order_def par_def less_Suc_eq numeral_eq_Suc)

theorem nv_heap_drain_sorted_witness:
  "heap_inv heap_sample \<and> hp_size heap_sample \<le> 4 \<and>
   mset (fst (drain nv_heap_remove 4 heap_sample)) = {#1, 5, 7, 9#} \<and>
   sorted_wrt (\<ge>) (fst (drain nv_heap_remove 4 heap_sample))"
  using nv_heap_drain_sorted[OF heap_sample_inv, of 4] heap_sample_inv
  by (simp add: heap_sample_def heap_elems_def)

end
