(* ===== verification/Nv_Codec.thy ===== *)
theory Nv_Codec
  imports Nv_Prelude
begin

text \<open>
  The byte codecs of \<open>base/algo\<close>: the base64 encoder and decoder
  (\<open>nv_base64.c\<close>) and the bitwise CRC-16 (\<open>nv_crc16.c\<close>).  Intermediate values
  are 32-bit and 16-bit words as in the code.  Whether \<open>malloc\<close> succeeds is an
  argument of the decoder, and reading before the start of the input, which the
  decoder does on inputs of fewer than two characters, is the result \<open>B64Undef\<close>.
\<close>

section \<open>Base64\<close>

definition base64_chars :: cstring where
  "base64_chars = ''ABCDEFGHIJKLMNOPQRSTUVWXYZabcdefghijklmnopqrstuvwxyz0123456789+/''"

definition sextet_char :: "32 word \<Rightarrow> nat \<Rightarrow> char" where
  "sextet_char triple k = base64_chars ! unat (drop_bit (k * 6) triple AND 0x3F)"

definition octets :: "byte \<Rightarrow> byte \<Rightarrow> byte \<Rightarrow> 32 word" where
  "octets a b c = push_bit 16 (ucast a) + push_bit 8 (ucast b) + ucast c"

definition encode_triple :: "byte \<Rightarrow> byte \<Rightarrow> byte \<Rightarrow> cstring" where
  "encode_triple a b c = (let triple = octets a b c in map (sextet_char triple) [3, 2, 1, 0])"

fun encode_loop :: "byte list \<Rightarrow> cstring" where
  "encode_loop [] = ''''"
| "encode_loop [a] = encode_triple a 0 0"
| "encode_loop [a, b] = encode_triple a b 0"
| "encode_loop (a # b # c # rest) = encode_triple a b c @ encode_loop rest"

text \<open>The padding loop runs while \<open>i % 3\<close> is not zero and stores at the same place each time.\<close>

function pad_loop :: "nat \<Rightarrow> nat \<Rightarrow> cstring \<Rightarrow> cstring" where
  "pad_loop i j encoded =
     (if i mod 3 \<noteq> 0 then pad_loop (i + 1) j (encoded[j - 1 := CHR ''='']) else encoded)"
  by pat_completeness auto
termination
  by (relation "measure (\<lambda>(i, j, e). (3 - i mod 3) mod 3)") (auto simp: mod_Suc)

definition nv_base64_encode :: "byte list option \<Rightarrow> cstring option" where
  "nv_base64_encode input =
     (case input of None \<Rightarrow> None
      | Some bs \<Rightarrow>
         if length bs = 0 then None
         else (let encoded = encode_loop bs in Some (pad_loop (length bs) (length encoded) encoded)))"

definition base64_index :: "byte \<Rightarrow> int" where
  "base64_index c =
     (let n = int (unat c) in
      if 65 \<le> n \<and> n \<le> 90 then n - 65
      else if 97 \<le> n \<and> n \<le> 122 then n - 71
      else if 48 \<le> n \<and> n \<le> 57 then n + 4
      else if n = 43 then 62
      else if n = 47 then 63
      else -1)"

datatype b64_result = B64Undef | B64Err | B64Ok "byte list"

definition sextets :: "int \<Rightarrow> int \<Rightarrow> int \<Rightarrow> int \<Rightarrow> 32 word" where
  "sextets a b c d = word_of_int (a * 2 ^ 18 + b * 2 ^ 12 + c * 2 ^ 6 + d)"

definition triple_bytes :: "32 word \<Rightarrow> byte list" where
  "triple_bytes triple = map (\<lambda>k. ucast (drop_bit (k * 8) triple AND 0xFF)) [2, 1, 0]"

text \<open>One round of the decoder reads up to four characters; the second one may be the
  terminating NUL, and the stores stop at \<open>decoded_length\<close>.\<close>

fun decode_loop :: "cstring \<Rightarrow> nat \<Rightarrow> byte list" where
  "decode_loop [] left = []"
| "decode_loop (a # rest) left =
     (let b = (case rest of [] \<Rightarrow> base64_index 0 | x # _ \<Rightarrow> base64_index (uchar x));
          r1 = drop 1 rest;
          c = (case r1 of [] \<Rightarrow> 0 | x # _ \<Rightarrow> base64_index (uchar x));
          r2 = drop 1 r1;
          d = (case r2 of [] \<Rightarrow> 0 | x # _ \<Rightarrow> base64_index (uchar x));
          r3 = drop 1 r2;
          out = take left (triple_bytes (sextets (base64_index (uchar a)) b c d))
      in out @ decode_loop r3 (left - length out))"

definition nv_base64_decode :: "(nat \<Rightarrow> bool) \<Rightarrow> cstring option \<Rightarrow> b64_result" where
  "nv_base64_decode malloc_ok input =
     (case input of None \<Rightarrow> B64Err
      | Some s \<Rightarrow>
         if length s < 2 then B64Undef
         else
           (let n = length s;
                padding = (if s ! (n - 1) = CHR ''='' then 1 else 0) + (if s ! (n - 2) = CHR ''='' then 1 else 0);
                decoded_length = nat ((int (n div 4) * 3 - padding) mod 2 ^ 64) in
            if \<not> malloc_ok decoded_length then B64Err
            else B64Ok (decode_loop s decoded_length)))"

declare pad_loop.simps [simp del]

section \<open>Base64 round trip\<close>

lemma length_base64_chars: "length base64_chars = 64"
  by (simp add: base64_chars_def)

lemma index_chars: "map (\<lambda>c. base64_index (uchar c)) base64_chars = map int [0..<64]"
  by (simp add: base64_chars_def base64_index_def unat_uchar Let_def upt_rec)

lemma index_char: "k < 64 \<Longrightarrow> base64_index (uchar (base64_chars ! k)) = int k"
  using arg_cong[OF index_chars, of "\<lambda>xs. xs ! k"] length_base64_chars by simp

lemma char_no_pad: "k < 64 \<Longrightarrow> base64_chars ! k \<noteq> CHR ''=''"
proof -
  assume "k < 64"
  then have "base64_chars ! k \<in> set base64_chars" by (simp add: length_base64_chars)
  moreover have "CHR ''='' \<notin> set base64_chars" by (simp add: base64_chars_def)
  ultimately show ?thesis by metis
qed

lemma unat_octets: "unat (octets a b c) = unat a * 65536 + unat b * 256 + unat c"
proof -
  have "octets a b c = word_of_nat (unat a * 65536 + unat b * 256 + unat c)"
    unfolding octets_def push_bit_eq_mult by simp
  then have "unat (octets a b c) = (unat a * 65536 + unat b * 256 + unat c) mod 2 ^ 32"
    by (simp only: unat_of_nat) simp
  then show ?thesis using unat_byte_less[of a] unat_byte_less[of b] unat_byte_less[of c] by simp
qed

lemma octets_less: "unat (octets a b c) < 2 ^ 24"
  using unat_byte_less[of a] unat_byte_less[of b] unat_byte_less[of c] by (simp add: unat_octets)

definition sextet_at :: "32 word \<Rightarrow> nat \<Rightarrow> nat" where
  "sextet_at t k = unat t div 2 ^ (k * 6) mod 64"

lemma sextet_char_eq: "sextet_char t k = base64_chars ! sextet_at t k"
  by (simp add: sextet_char_def sextet_at_def unat_and_3F unat_drop)

lemma sextet_at_less [simp]: "sextet_at t k < 64"
  by (simp add: sextet_at_def)

lemma index_sextet [simp]: "base64_index (uchar (sextet_char t k)) = int (sextet_at t k)"
  by (simp add: sextet_char_eq index_char)

lemma sextet_char_no_pad [simp]: "sextet_char t k \<noteq> CHR ''=''"
  by (simp add: sextet_char_eq char_no_pad)

lemma sextets_join:
  assumes "t < (2 :: nat) ^ 24"
  shows "t div 2 ^ (3 * 6) mod 64 * 2 ^ 18 + t div 2 ^ (2 * 6) mod 64 * 2 ^ 12 +
         t div 2 ^ (1 * 6) mod 64 * 2 ^ 6 + t div 2 ^ (0 * 6) mod 64 = t"
proof -
  define q1 where "q1 = t div 64"
  define q2 where "q2 = q1 div 64"
  define q3 where "q3 = q2 div 64"
  have q: "t div 2 ^ (1 * 6) = q1" "t div 2 ^ (2 * 6) = q2" "t div 2 ^ (3 * 6) = q3" "t div 2 ^ (0 * 6) = t"
    by (simp_all add: q1_def q2_def q3_def flip: div_mult2_eq)
  have "t = q1 * 64 + t mod 64" "q1 = q2 * 64 + q1 mod 64" "q2 = q3 * 64 + q2 mod 64"
    by (simp_all add: q1_def q2_def q3_def)
  moreover have "q3 < 64" using assms by (simp add: q1_def q2_def q3_def flip: div_mult2_eq)
  ultimately show ?thesis unfolding q by simp
qed

lemma sextets_octets:
  assumes "unat t < 2 ^ 24"
  shows "sextets (int (sextet_at t 3)) (int (sextet_at t 2)) (int (sextet_at t 1)) (int (sextet_at t 0)) = t"
proof -
  have eq: "sextet_at t 3 * 2 ^ 18 + sextet_at t 2 * 2 ^ 12 + sextet_at t 1 * 2 ^ 6 + sextet_at t 0 = unat t"
    unfolding sextet_at_def by (rule sextets_join[OF assms])
  have "int (sextet_at t 3) * 2 ^ 18 + int (sextet_at t 2) * 2 ^ 12 + int (sextet_at t 1) * 2 ^ 6 + int (sextet_at t 0)
      = int (sextet_at t 3 * 2 ^ 18 + sextet_at t 2 * 2 ^ 12 + sextet_at t 1 * 2 ^ 6 + sextet_at t 0)" by simp
  also have "\<dots> = int (unat t)" using eq by (simp only:)
  finally show ?thesis by (simp add: sextets_def)
qed

lemma triple_byte_eq: "(ucast (drop_bit k (t :: 32 word) AND 0xFF) :: byte) = word_of_nat (unat t div 2 ^ k mod 256)"
proof -
  have "(ucast (drop_bit k t AND 0xFF) :: byte) = word_of_nat (unat (drop_bit k t AND 0xFF))" by simp
  then show ?thesis by (simp only: unat_and_FF unat_drop)
qed

lemma bytes_split:
  assumes "a < 256" "b < 256" "c < (256 :: nat)"
  defines "t \<equiv> (a * 256 + b) * 256 + c"
  shows "t div 2 ^ (2 * 8) mod 256 = a" "t div 2 ^ (1 * 8) mod 256 = b" "t div 2 ^ (0 * 8) mod 256 = c"
proof -
  have d: "t div 256 = a * 256 + b" using assms by simp
  have "t div 2 ^ (2 * 8) = t div 256 div 256" by (simp flip: div_mult2_eq)
  then show "t div 2 ^ (2 * 8) mod 256 = a" unfolding d using assms by simp
  show "t div 2 ^ (1 * 8) mod 256 = b" using d assms by simp
  have "t mod 256 = c" unfolding t_def mod_mult_self3 using assms(3) by simp
  then show "t div 2 ^ (0 * 8) mod 256 = c" by simp
qed

lemma triple_bytes_octets: "triple_bytes (octets a b c) = [a, b, c]"
proof -
  have t: "unat (octets a b c) = (unat a * 256 + unat b) * 256 + unat c" by (simp add: unat_octets)
  show ?thesis unfolding triple_bytes_def triple_byte_eq t
    by (simp only: list.map bytes_split[OF unat_byte_less unat_byte_less unat_byte_less] of_nat_unat ucast_id)
qed

lemma decode_encode_triple:
  "decode_loop (encode_triple a b c @ rest) left =
     take left [a, b, c] @ decode_loop rest (left - min left 3)"
  by (simp add: encode_triple_def Let_def sextets_octets[OF octets_less, unfolded One_nat_def] triple_bytes_octets min.commute)
     (simp add: numeral_3_eq_3)

lemma length_encode_triple [simp]: "length (encode_triple a b c) = 4"
  by (simp add: encode_triple_def Let_def)

lemma encode_loop_append: "length xs mod 3 = 0 \<Longrightarrow> encode_loop (xs @ ys) = encode_loop xs @ encode_loop ys"
  by (induction xs rule: encode_loop.induct) auto

lemma length_encode_loop: "length xs mod 3 = 0 \<Longrightarrow> length (encode_loop xs) = 4 * (length xs div 3)"
  by (induction xs rule: encode_loop.induct) auto

lemma decode_encode_loop: "length xs mod 3 = 0 \<Longrightarrow>
    decode_loop (encode_loop xs @ rest) (length xs + left) = xs @ decode_loop rest left"
  by (induction xs rule: encode_loop.induct) (auto simp: decode_encode_triple)

lemma pad_loop_eq: "pad_loop i j e = (if i mod 3 = 0 then e else e[j - 1 := CHR ''=''])"
proof -
  consider "i mod 3 = 0" | "i mod 3 = 1" | "i mod 3 = 2" by linarith
  then show ?thesis
  proof cases
    case 1
    then show ?thesis by (subst pad_loop.simps) simp
  next
    case 2
    then have "(i + 1) mod 3 = 2" "(i + 2) mod 3 = 0" by presburger+
    then show ?thesis using 2
      by (subst pad_loop.simps, subst pad_loop.simps, subst pad_loop.simps) simp
  next
    case 3
    then have "(i + 1) mod 3 = 0" by presburger
    then show ?thesis using 3 by (subst pad_loop.simps, subst pad_loop.simps) simp
  qed
qed

lemma list_thirds:
  obtains "length (bs :: 'a list) mod 3 = 0"
  | xs a where "bs = xs @ [a]" "length xs mod 3 = 0" "length bs mod 3 = 1"
  | xs a b where "bs = xs @ [a, b]" "length xs mod 3 = 0" "length bs mod 3 = 2"
proof -
  consider "length bs mod 3 = 0" | "length bs mod 3 = 1" | "length bs mod 3 = 2" by linarith
  then show thesis
  proof cases
    case 1
    then show thesis by (rule that(1))
  next
    case 2
    then obtain xs a where "bs = xs @ [a]" by (cases bs rule: rev_cases) auto
    then show thesis using that(2) 2 by (auto simp: mod_Suc split: if_splits)
  next
    case 3
    then obtain ys b where y: "bs = ys @ [b]" by (cases bs rule: rev_cases) auto
    then obtain xs a where "ys = xs @ [a]" using 3 by (cases ys rule: rev_cases) auto
    then show thesis using that(3) 3 y by (auto simp: mod_Suc split: if_splits)
  qed
qed

text \<open>The encoder's output on a list cut at its last incomplete group.\<close>

lemma encode_cut:
  assumes "length xs mod 3 = 0" "length (encode_loop ys) = 4" "length (xs @ ys) mod 3 \<noteq> 0"
  shows "nv_base64_encode (Some (xs @ ys)) = Some (encode_loop xs @ butlast (encode_loop ys) @ ''='')"
proof -
  obtain u c where u: "encode_loop ys = u @ [c]" using assms(2) by (cases "encode_loop ys" rule: rev_cases) auto
  have "ys \<noteq> []" using assms(1,3) by auto
  then show ?thesis using assms u
    by (simp add: nv_base64_encode_def Let_def encode_loop_append pad_loop_eq list_update_append)
qed

lemma decoded_length_mod: "n < 2 ^ 62 \<Longrightarrow> k \<le> n \<Longrightarrow> nat ((int n - int k) mod 2 ^ 64) = n - k"
  by (simp add: mod_pos_pos_trivial nat_diff_distrib)

lemma decode_whole:
  assumes m: "\<And>n. ok n" and l: "length bs mod 3 = 0" "bs \<noteq> []" "length bs < 2 ^ 62"
  shows "nv_base64_decode ok (Some (encode_loop bs)) = B64Ok bs"
proof -
  obtain xs a b c where bs: "bs = xs @ [a, b, c]" "length xs mod 3 = 0"
  proof (cases bs rule: rev_cases)
    case (snoc ys c)
    then obtain zs b where "ys = zs @ [b]" using l by (cases ys rule: rev_cases) auto
    moreover then obtain ws a where "zs = ws @ [a]" using l snoc by (cases zs rule: rev_cases) auto
    ultimately show thesis using that[of ws a b c] snoc l by (auto simp: mod_Suc split: if_splits)
  qed (use l in simp)
  let ?e = "encode_loop bs"
  have e: "?e = encode_loop xs @ encode_triple a b c" using bs by (simp add: encode_loop_append)
  have len: "length ?e = 4 * (length bs div 3)" "length bs = length bs div 3 * 3" "4 \<le> length ?e"
    using length_encode_loop[OF l(1)] l(1) e by auto
  have np: "?e ! (length ?e - 1) \<noteq> CHR ''=''" "?e ! (length ?e - 2) \<noteq> CHR ''=''"
    unfolding e by (auto simp: nth_append encode_triple_def Let_def)
  have dl: "nat (int (length ?e div 4) * 3 mod 2 ^ 64) = length bs"
    using decoded_length_mod[of "length bs" 0] l(3) len by simp
  have "decode_loop ?e (length bs) = bs" using decode_encode_loop[OF l(1), of "[]" 0] by simp
  then show ?thesis using np dl len(3) m by (simp add: nv_base64_decode_def Let_def)
qed

lemma sextets_cut:
  "sextets (int (sextet_at (octets a b 0) 3)) (int (sextet_at (octets a b 0) 2)) (int (sextet_at (octets a b 0) 1)) (-1)
     = octets a b 0 - 1"
proof -
  let ?t = "octets a b 0"
  have z: "sextet_at ?t 0 = 0" by (simp add: sextet_at_def unat_octets)
  have "sextets (int (sextet_at ?t 3)) (int (sextet_at ?t 2)) (int (sextet_at ?t 1)) (-1) =
      sextets (int (sextet_at ?t 3)) (int (sextet_at ?t 2)) (int (sextet_at ?t 1)) (int (sextet_at ?t 0)) - 1"
    unfolding z by (simp add: sextets_def)
  then show ?thesis by (simp only: sextets_octets[OF octets_less])
qed

lemma decode_cut:
  assumes m: "\<And>n. ok n" and l: "length xs mod 3 = 0" "length xs < 2 ^ 61"
  shows "nv_base64_decode ok (Some (encode_loop xs @ butlast (encode_triple a b 0) @ ''='')) =
         B64Ok (xs @ take 2 (triple_bytes (octets a b 0 - 1)))"
proof -
  let ?tl = "butlast (encode_triple a b 0) @ ''=''"
  let ?e = "encode_loop xs @ ?tl"
  have tl: "?tl = [sextet_char (octets a b 0) 3, sextet_char (octets a b 0) 2, sextet_char (octets a b 0) 1, CHR ''='']"
    by (simp add: encode_triple_def Let_def)
  have len: "length ?e = 4 * (length xs div 3 + 1)" "length xs = length xs div 3 * 3"
    using length_encode_loop[OF l(1)] l(1) tl by auto
  have pad: "?e ! (length ?e - 1) = CHR ''=''" "?e ! (length ?e - 2) \<noteq> CHR ''=''"
    unfolding tl by (auto simp: nth_append)
  have "int (length ?e div 4) * 3 = int (length xs + 3)" using len by simp
  then have dl: "nat ((int (length ?e div 4) * 3 - 1) mod 2 ^ 64) = length xs + 2"
    using decoded_length_mod[of "length xs + 3" 1] l(2) by simp
  have eqi: "base64_index (uchar (CHR ''='')) = -1" by (simp add: base64_index_def unat_uchar Let_def)
  have "decode_loop ?tl 2 = take 2 (triple_bytes (octets a b 0 - 1))"
    unfolding tl by (simp add: eqi sextets_cut[unfolded One_nat_def])
  then have "decode_loop ?e (length xs + 2) = xs @ take 2 (triple_bytes (octets a b 0 - 1))"
    using decode_encode_loop[OF l(1), of ?tl 2] by simp
  moreover have "\<not> length ?e < 2" using len(1) by simp
  ultimately show ?thesis using pad dl m by (simp only: nv_base64_decode_def Let_def option.case if_False if_True) simp
qed

lemma cut_second_byte: "triple_bytes (octets a b 0 - 1) ! 1 \<noteq> b"
proof -
  let ?t = "octets a b 0"
  have t: "unat ?t = (unat a * 256 + unat b) * 256" by (simp add: unat_octets)
  have val: "triple_bytes (?t - 1) ! 1 = word_of_nat (unat (?t - 1) div 256 mod 256)"
    by (simp add: triple_bytes_def triple_byte_eq)
  have neq: "unat (?t - 1) div 256 mod 256 \<noteq> unat b"
  proof (cases "?t = 0")
    case True
    then have "unat b = 0" using t by simp
    moreover have "unat (?t - 1) = 2 ^ 32 - 1" using True by (simp add: unsigned_minus_1_eq_mask mask_eq_exp_minus_1)
    ultimately show ?thesis by simp
  next
    case False
    have q: "0 < unat a * 256 + unat b" using False t unat_gt_0[of ?t] by (metis mult_0 gr0I)
    obtain r where r: "unat a * 256 + unat b = Suc r" using gr0_implies_Suc[OF q] by metis
    have "unat (?t - 1) = r * 256 + 255" using unat_minus_one[OF False] t unfolding r by simp
    then have d: "unat (?t - 1) div 256 = r" by simp
    show ?thesis
    proof
      assume b: "unat (?t - 1) div 256 mod 256 = unat b"
      have sr: "Suc r mod 256 = unat b" unfolding r[symmetric] mod_mult_self3 using unat_byte_less[of b] by simp
      have rb: "r mod 256 = unat b" using b unfolding d .
      show False using sr rb mod_Suc[of r 256] by (simp split: if_splits)
    qed
  qed
  have "unat (word_of_nat (unat (?t - 1) div 256 mod 256) :: byte) = unat (?t - 1) div 256 mod 256"
    by (simp add: unat_of_nat)
  then show ?thesis using val neq by metis
qed

text \<open>C35.  Decoding what the encoder produced gives the input back exactly when the input's length is
  a multiple of three: on every other input the encoder stores only one padding character and the
  decoder takes the value -1 for it, so that the last bytes come out wrong.\<close>
theorem nv_base64_roundtrip:
  assumes "\<And>n. malloc_ok n" "bs \<noteq> []" "length bs < 2 ^ 61"
  shows "nv_base64_decode malloc_ok (nv_base64_encode (Some bs)) = B64Ok bs \<longleftrightarrow> length bs mod 3 = 0"
proof (cases rule: list_thirds[of bs])
  case 1
  then have "nv_base64_encode (Some bs) = Some (encode_loop bs)"
    using assms(2) by (simp add: nv_base64_encode_def Let_def pad_loop_eq)
  then show ?thesis using decode_whole[of malloc_ok bs] assms 1 by simp
next
  case (2 xs a)
  then have "nv_base64_encode (Some bs) = Some (encode_loop xs @ butlast (encode_triple a 0 0) @ ''='')"
    using encode_cut[of xs "[a]"] by simp
  then have "nv_base64_decode malloc_ok (nv_base64_encode (Some bs)) =
      B64Ok (xs @ take 2 (triple_bytes (octets a 0 0 - 1)))"
    using decode_cut[of malloc_ok xs a 0] assms 2 by simp
  moreover have "take 2 (triple_bytes (octets a 0 0 - 1)) \<noteq> [a]"
    by (simp add: triple_bytes_def numeral_2_eq_2)
  ultimately show ?thesis using 2 by simp
next
  case (3 xs a b)
  then have "nv_base64_encode (Some bs) = Some (encode_loop xs @ butlast (encode_triple a b 0) @ ''='')"
    using encode_cut[of xs "[a, b]"] by simp
  then have "nv_base64_decode malloc_ok (nv_base64_encode (Some bs)) =
      B64Ok (xs @ take 2 (triple_bytes (octets a b 0 - 1)))"
    using decode_cut[of malloc_ok xs a b] assms 3 by simp
  moreover have "take 2 (triple_bytes (octets a b 0 - 1)) \<noteq> [a, b]"
  proof
    assume "take 2 (triple_bytes (octets a b 0 - 1)) = [a, b]"
    from arg_cong[OF this, of "\<lambda>l. l ! 1"] show False using cut_second_byte[of a b] by simp
  qed
  ultimately show ?thesis using 3 by simp
qed

theorem nv_base64_roundtrip_witness:
  "nv_base64_decode (\<lambda>_. True) (nv_base64_encode (Some [77, 97, 110])) = B64Ok [77, 97, 110] \<and>
   nv_base64_decode (\<lambda>_. True) (nv_base64_encode (Some [65, 66])) \<noteq> B64Ok [65, 66]"
  using nv_base64_roundtrip[of "\<lambda>_. True" "[77, 97, 110]"] nv_base64_roundtrip[of "\<lambda>_. True" "[65, 66]"]
  by simp

section \<open>CRC-16\<close>

definition crc_bit :: "16 word \<Rightarrow> 16 word" where
  "crc_bit crc = (if crc AND 0x0001 \<noteq> 0 then drop_bit 1 crc XOR 0x8408 else drop_bit 1 crc)"

definition crc_byte :: "byte \<Rightarrow> 16 word \<Rightarrow> 16 word" where
  "crc_byte b crc = (crc_bit ^^ 8) (crc XOR ucast b)"

definition nv_crc16_compute :: "byte list \<Rightarrow> 16 word" where
  "nv_crc16_compute bs = fold crc_byte bs 0xFFFF"

lemma crc_bit_low: "(crc :: 16 word) AND 1 \<noteq> 0 \<longleftrightarrow> bit crc 0"
  by (simp add: and_one_eq bit_0 mod_2_eq_odd)

lemma crc_bit_top: "bit (crc_bit x) 15 \<longleftrightarrow> bit x 0"
proof -
  have "\<not> bit (drop_bit 1 x) 15" using bit_imp_le_length[of x 16] by (auto simp: bit_drop_bit_eq)
  moreover have "bit (0x8408 :: 16 word) 15" by simp
  ultimately show ?thesis by (simp add: crc_bit_def crc_bit_low bit_xor_iff)
qed

lemma crc_bit_inj: "crc_bit x = crc_bit y \<Longrightarrow> x = y"
proof -
  assume eq: "crc_bit x = crc_bit y"
  then have b0: "bit x 0 = bit y 0" using crc_bit_top by metis
  then have "drop_bit 1 x = drop_bit 1 y"
    using eq by (cases "bit x 0") (auto simp: crc_bit_def crc_bit_low byte_simps)
  then have "bit x (Suc n) = bit y (Suc n)" for n
    by (metis bit_drop_bit_eq plus_1_eq_Suc comp_apply)
  then show "x = y" using b0 by (intro bit_word_eqI) (metis not0_implies_Suc)
qed

lemma crc_bits_inj: "(crc_bit ^^ n) x = (crc_bit ^^ n) y \<Longrightarrow> x = y"
  by (induction n) (auto dest: crc_bit_inj)

lemma crc_byte_inj: "crc_byte b x = crc_byte b y \<Longrightarrow> x = y"
  unfolding crc_byte_def by (drule crc_bits_inj) (simp add: byte_simps)

lemma crc_fold_inj: "fold crc_byte zs x = fold crc_byte zs y \<Longrightarrow> x = y"
  by (induction zs arbitrary: x y) (auto dest: crc_byte_inj)

lemma crc_byte_data_inj: "crc_byte a x = crc_byte b x \<Longrightarrow> a = b"
proof -
  assume "crc_byte a x = crc_byte b x"
  then have "x XOR ucast a = x XOR ucast b" unfolding crc_byte_def by (rule crc_bits_inj)
  then have "(ucast a :: 16 word) = ucast b" by (simp add: byte_simps)
  then have "(ucast (ucast a :: 16 word) :: byte) = ucast (ucast b :: 16 word)" by simp
  then show ?thesis by (simp add: ucast_up_ucast_id is_up)
qed

lemma crc_bit_even: "\<not> bit x 0 \<Longrightarrow> crc_bit x = drop_bit 1 x"
  by (simp add: crc_bit_def crc_bit_low)

lemma crc_bits_zero: "(\<And>i. i < n \<Longrightarrow> \<not> bit x i) \<Longrightarrow> (crc_bit ^^ n) x = drop_bit n x"
proof (induction n)
  case (Suc n)
  then have "(crc_bit ^^ n) x = drop_bit n x" by simp
  moreover have "\<not> bit (drop_bit n x) 0" using Suc.prems[of n] by (simp add: bit_drop_bit_eq)
  ultimately show ?case by (simp add: crc_bit_even)
qed simp

lemma crc_absorb: "crc_byte (ucast (drop_bit 8 c)) (crc_byte (ucast c) c) = 0"
proof -
  define h where "h = c XOR ucast (ucast c :: byte)"
  have hb: "bit h i \<longleftrightarrow> 8 \<le> i \<and> bit c i" for i
    by (auto simp: h_def bit_xor_iff bit_ucast_iff dest: bit_imp_le_length)
  have "crc_byte (ucast c) c = drop_bit 8 h"
    unfolding crc_byte_def h_def[symmetric] by (rule crc_bits_zero) (simp add: hb)
  also have "\<dots> = ucast (ucast (drop_bit 8 c) :: byte)"
    by (rule bit_word_eqI) (auto simp: bit_drop_bit_eq hb bit_ucast_iff dest: bit_imp_le_length)
  finally have "crc_byte (ucast c) c = ucast (ucast (drop_bit 8 c) :: byte)" .
  then show ?thesis unfolding crc_byte_def[of "ucast (drop_bit 8 c)"]
    by (simp add: crc_bits_zero)
qed

text \<open>C36.  Two messages that differ in exactly one byte never have the same CRC.\<close>
theorem nv_crc16_detects_byte_error:
  "nv_crc16_compute (xs @ a # zs) = nv_crc16_compute (xs @ b # zs) \<longleftrightarrow> a = b"
  by (auto simp: nv_crc16_compute_def dest!: crc_fold_inj crc_byte_data_inj)

text \<open>A message followed by its CRC, low byte first, has the CRC zero, which is how a receiver
  checks a frame.\<close>
theorem nv_crc16_residue:
  "nv_crc16_compute (bs @ [ucast (nv_crc16_compute bs), ucast (drop_bit 8 (nv_crc16_compute bs))]) = 0"
  by (simp add: nv_crc16_compute_def crc_absorb)

end
