(* ===== verification/Nv_Digest.thy ===== *)
theory Nv_Digest
  imports Nv_Prelude
begin

text \<open>
  The digests of \<open>base/algo\<close>: the string hash of \<open>nv_hash.c\<close> and the message
  digest of \<open>nv_md5.c\<close>, on words of the width the code uses.  The contents of a
  file are the chunks that successive calls of \<open>fread\<close> return.
\<close>

section \<open>The string hash\<close>

definition nv_hash_djb2 :: "cstring \<Rightarrow> 64 word" where
  "nv_hash_djb2 str = fold (\<lambda>c hash. (push_bit 5 hash + hash) + word_of_int (schar c)) str 5381"

definition nv_hash_string :: "cstring \<Rightarrow> 64 word" where
  "nv_hash_string str = nv_hash_djb2 str"

section \<open>The message digest\<close>

definition md_F :: "32 word \<Rightarrow> 32 word \<Rightarrow> 32 word \<Rightarrow> 32 word" where
  "md_F x y z = (x AND y) OR (NOT x AND z)"

definition md_G :: "32 word \<Rightarrow> 32 word \<Rightarrow> 32 word \<Rightarrow> 32 word" where
  "md_G x y z = (x AND z) OR (y AND NOT z)"

definition md_H :: "32 word \<Rightarrow> 32 word \<Rightarrow> 32 word \<Rightarrow> 32 word" where
  "md_H x y z = x XOR y XOR z"

definition md_I :: "32 word \<Rightarrow> 32 word \<Rightarrow> 32 word \<Rightarrow> 32 word" where
  "md_I x y z = y XOR (x OR NOT z)"

definition ROTATE_LEFT :: "32 word \<Rightarrow> nat \<Rightarrow> 32 word" where
  "ROTATE_LEFT x n = push_bit n x OR drop_bit (32 - n) x"

definition md_K :: "32 word list" where
  "md_K = [
    0xd76aa478, 0xe8c7b756, 0x242070db, 0xc1bdceee,
    0xf57c0faf, 0x4787c62a, 0xa8304613, 0xfd469501,
    0x698098d8, 0x8b44f7af, 0xffff5bb1, 0x895cd7be,
    0x6b901122, 0xfd987193, 0xa679438e, 0x49b40821,
    0xf61e2562, 0xc040b340, 0x265e5a51, 0xe9b6c7aa,
    0xd62f105d, 0x02441453, 0xd8a1e681, 0xe7d3fbc8,
    0x21e1cde6, 0xc33707d6, 0xf4d50d87, 0x455a14ed,
    0xa9e3e905, 0xfcefa3f8, 0x676f02d9, 0x8d2a4c8a,
    0xfffa3942, 0x8771f681, 0x6d9d6122, 0xfde5380c,
    0xa4beea44, 0x4bdecfa9, 0xf6bb4b60, 0xbebfbc70,
    0x289b7ec6, 0xeaa127fa, 0xd4ef3085, 0x04881d05,
    0xd9d4d039, 0xe6db99e5, 0x1fa27cf8, 0xc4ac5665,
    0xf4292244, 0x432aff97, 0xab9423a7, 0xfc93a039,
    0x655b59c3, 0x8f0ccc92, 0xffeff47d, 0x85845dd1,
    0x6fa87e4f, 0xfe2ce6e0, 0xa3014314, 0x4e0811a1,
    0xf7537e82, 0xbd3af235, 0x2ad7d2bb, 0xeb86d391]"

type_synonym md_words = "32 word \<times> 32 word \<times> 32 word \<times> 32 word"

record MD5_CTX =
  md_state :: md_words
  md_count0 :: "32 word"
  md_count1 :: "32 word"
  md_buffer :: "byte list"

text \<open>The buffer of a fresh context is not initialised: its contents are an argument.\<close>

definition MD5Init :: "byte list \<Rightarrow> MD5_CTX" where
  "MD5Init cells = \<lparr>md_state = (0x67452301, 0xefcdab89, 0x98badcfe, 0x10325476),
     md_count0 = 0, md_count1 = 0, md_buffer = cells\<rparr>"

definition block_word :: "byte list \<Rightarrow> nat \<Rightarrow> 32 word" where
  "block_word block j =
     ucast (block ! j) OR push_bit 8 (ucast (block ! (j + 1))) OR
     push_bit 16 (ucast (block ! (j + 2))) OR push_bit 24 (ucast (block ! (j + 3)))"

definition md_round :: "32 word list \<Rightarrow> nat \<Rightarrow> md_words \<Rightarrow> md_words" where
  "md_round x i s =
     (case s of (a, b, c, d) \<Rightarrow>
       let (f, g) = (if i < 16 then (md_F b c d, i)
                     else if i < 32 then (md_G b c d, (5 * i + 1) mod 16)
                     else if i < 48 then (md_H b c d, (3 * i + 5) mod 16)
                     else (md_I b c d, (7 * i) mod 16))
       in (d, b + ROTATE_LEFT (a + f + md_K ! i + x ! g) 7, b, c))"

definition MD5Transform :: "md_words \<Rightarrow> byte list \<Rightarrow> md_words" where
  "MD5Transform state block =
     (let x = map (\<lambda>i. block_word block (4 * i)) [0..<16];
          (a, b, c, d) = fold (md_round x) [0..<64] state;
          (s0, s1, s2, s3) = state
      in (s0 + a, s1 + b, s2 + c, s3 + d))"

function transform_loop :: "md_words \<Rightarrow> byte list \<Rightarrow> nat \<Rightarrow> md_words \<times> nat" where
  "transform_loop state input i =
     (if i + 63 < length input
      then transform_loop (MD5Transform state (take 64 (drop i input))) input (i + 64)
      else (state, i))"
  by pat_completeness auto
termination by (relation "measure (\<lambda>(s, input, i). length input - i)") auto

declare transform_loop.simps [simp del]

definition MD5Update :: "MD5_CTX \<Rightarrow> byte list \<Rightarrow> MD5_CTX" where
  "MD5Update context input =
     (let inputLen = length input;
          index = unat (drop_bit 3 (md_count0 context) AND 0x3F);
          bits = push_bit 3 (word_of_nat inputLen :: 32 word);
          c0 = md_count0 context + bits;
          c1 = (if c0 < bits then md_count1 context + 1 else md_count1 context)
                 + drop_bit 29 (word_of_nat inputLen);
          partLen = 64 - index;
          (st, buf, index, i) =
            (if inputLen \<ge> partLen
             then (let buf = take index (md_buffer context) @ take partLen input;
                       (st, i) = transform_loop (MD5Transform (md_state context) buf) input partLen
                   in (st, buf, 0, i))
             else (md_state context, md_buffer context, index, 0))
      in \<lparr>md_state = st, md_count0 = c0, md_count1 = c1,
          md_buffer = take index buf @ drop i input @ drop (index + (inputLen - i)) buf\<rparr>)"

definition word_byte :: "32 word \<Rightarrow> nat \<Rightarrow> byte" where
  "word_byte w k = ucast (drop_bit (k * 8) w AND 0xFF)"

definition MD5Final :: "MD5_CTX \<Rightarrow> byte list" where
  "MD5Final context =
     (let bits = map (\<lambda>i. word_byte (if i \<ge> 4 then md_count0 context else md_count1 context) (i mod 4)) [0..<8];
          index = unat (drop_bit 3 (md_count0 context) AND 0x3F);
          padLen = (if index < 56 then 56 - index else 120 - index);
          context = MD5Update context (take padLen (0x80 # replicate 63 0));
          context = MD5Update context bits;
          (s0, s1, s2, s3) = md_state context
      in map (\<lambda>i. word_byte ([s0, s1, s2, s3] ! (i div 4)) (i mod 4)) [0..<16])"

definition hex_digit :: "nat \<Rightarrow> char" where
  "hex_digit n = ''0123456789abcdef'' ! n"

definition hex2 :: "byte \<Rightarrow> cstring" where
  "hex2 b = [hex_digit (unat b div 16), hex_digit (unat b mod 16)]"

definition nv_MD5 :: "byte list \<Rightarrow> cstring \<Rightarrow> cstring" where
  "nv_MD5 cells input =
     concat (map hex2 (MD5Final (MD5Update (MD5Init cells) (map uchar input))))"

record file_reads =
  f_open :: bool
  f_chunks :: "byte list list"
  f_error :: bool

definition nv_calculate_file_md5 :: "byte list \<Rightarrow> file_reads \<Rightarrow> int \<times> cstring option" where
  "nv_calculate_file_md5 cells file =
     (if \<not> f_open file then (1, None)
      else
        (let context = fold (\<lambda>bs c. MD5Update c bs) (f_chunks file) (MD5Init cells) in
         if f_error file then (1, None)
         else (0, Some (concat (map hex2 (MD5Final context))))))"

section \<open>The context represents the bytes seen so far\<close>

function absorb :: "md_words \<Rightarrow> byte list \<Rightarrow> md_words \<times> byte list" where
  "absorb st xs =
     (if 64 \<le> length xs then absorb (MD5Transform st (take 64 xs)) (drop 64 xs) else (st, xs))"
  by pat_completeness auto
termination by (relation "measure (\<lambda>(s, xs). length xs)") auto

declare absorb.simps [simp del]

lemma absorb_append: "absorb st xs = (s, r) \<Longrightarrow> absorb st (xs @ ys) = absorb s (r @ ys)"
proof (induction st xs rule: absorb.induct)
  case (1 st xs)
  show ?case
  proof (cases "64 \<le> length xs")
    case True
    then have "absorb (MD5Transform st (take 64 xs)) (drop 64 xs) = (s, r)"
      using 1(2) by (subst (asm) absorb.simps) simp
    then have "absorb (MD5Transform st (take 64 xs)) (drop 64 xs @ ys) = absorb s (r @ ys)"
      using 1(1)[OF True] by simp
    then show ?thesis using True by (subst absorb.simps) simp
  next
    case False
    then show ?thesis using 1(2) by (subst (asm) absorb.simps) simp
  qed
qed

lemma absorb_rest: "absorb st xs = (s, r) \<Longrightarrow> length r = length xs mod 64"
proof (induction st xs rule: absorb.induct)
  case (1 st xs)
  show ?case
  proof (cases "64 \<le> length xs")
    case True
    then have "absorb (MD5Transform st (take 64 xs)) (drop 64 xs) = (s, r)"
      using 1(2) by (subst (asm) absorb.simps) simp
    then show ?thesis using 1(1)[OF True] True by (simp add: le_mod_geq)
  next
    case False
    then show ?thesis using 1(2) by (subst (asm) absorb.simps) simp
  qed
qed

lemma absorb_block: "length b = 64 \<Longrightarrow> absorb st (b @ xs) = absorb (MD5Transform st b) xs"
  by (subst absorb.simps) simp

lemma transform_loop_absorb:
  "transform_loop st input i = (s, i') \<Longrightarrow> i \<le> length input \<Longrightarrow>
     absorb st (drop i input) = (s, drop i' input) \<and> i' \<le> length input"
proof (induction st input i rule: transform_loop.induct)
  case (1 st input i)
  show ?case
  proof (cases "i + 63 < length input")
    case True
    then have "transform_loop (MD5Transform st (take 64 (drop i input))) input (i + 64) = (s, i')"
      using 1(2) by (subst (asm) transform_loop.simps) simp
    then have "absorb (MD5Transform st (take 64 (drop i input))) (drop (i + 64) input) = (s, drop i' input)
        \<and> i' \<le> length input"
      using 1(1)[OF True] True by simp
    moreover have "64 \<le> length input - i" using True by linarith
    ultimately show ?thesis by (subst absorb.simps) (simp add: add.commute)
  next
    case False
    then have "s = st" "i' = i" using 1(2) by (subst (asm) transform_loop.simps, simp)+
    moreover have "\<not> 64 \<le> length input - i" using False by linarith
    ultimately show ?thesis using 1(3) by (subst absorb.simps) simp
  qed
qed

definition md_rep :: "MD5_CTX \<Rightarrow> byte list \<Rightarrow> bool" where
  "md_rep ctx xs \<longleftrightarrow>
     (\<exists>r. absorb (md_state (MD5Init [])) xs = (md_state ctx, r) \<and> take (length r) (md_buffer ctx) = r) \<and>
     length (md_buffer ctx) = 64 \<and>
     md_count0 ctx = word_of_nat (8 * length xs) \<and> md_count1 ctx = word_of_nat (8 * length xs div 2 ^ 32)"

lemma index_eq: "unat (drop_bit 3 (word_of_nat (8 * n) :: 32 word) AND 0x3F) = n mod 64"
proof -
  have "unat (word_of_nat (8 * n) :: 32 word) = 8 * n mod (8 * 2 ^ 29)" by (simp only: unat_of_nat) simp
  also have "\<dots> = 8 * (n mod 2 ^ 29)" by (rule mult_mod_right[symmetric])
  finally have "unat (word_of_nat (8 * n) :: 32 word) div 2 ^ 3 = n mod 2 ^ 29" by simp
  then have "unat (drop_bit 3 (word_of_nat (8 * n) :: 32 word) AND 0x3F) = n mod 2 ^ 29 mod 64"
    by (simp only: unat_and_3F unat_drop)
  then show ?thesis by (simp add: mod_mod_cancel)
qed

lemma carry_eq: fixes a b :: "32 word"
  shows "a + b < b \<longleftrightarrow> 2 ^ 32 \<le> unat a + unat b"
proof -
  have "unat (a + b) = (unat a + unat b) mod 2 ^ 32" by (simp add: unat_word_ariths)
  moreover have "unat a < 2 ^ 32" "unat b < 2 ^ 32" using unsigned_less[of a] unsigned_less[of b] by simp_all
  ultimately show ?thesis unfolding word_less_nat_alt by (auto simp: mod_if)
qed

lemma carry_div: "x < 2 ^ 32 \<Longrightarrow> y < 2 ^ 32 \<Longrightarrow> (x + y) div 2 ^ 32 = (if 2 ^ 32 \<le> x + y then 1 else 0 :: nat)"
  by (auto simp: div_nat_eqI)

lemma count_update:
  fixes m n :: nat
  assumes n: "n < 2 ^ 32"
  defines "a \<equiv> word_of_nat (8 * m) :: 32 word" and "b \<equiv> push_bit 3 (word_of_nat n) :: 32 word"
  shows "a + b = word_of_nat (8 * (m + n))"
    and "(if a + b < b then word_of_nat (8 * m div 2 ^ 32) + 1 else word_of_nat (8 * m div 2 ^ 32)) + drop_bit 29 (word_of_nat n)
         = (word_of_nat (8 * (m + n) div 2 ^ 32) :: 32 word)"
proof -
  have b: "b = word_of_nat (8 * n)" by (simp add: b_def push_bit_eq_mult mult.commute)
  then show "a + b = word_of_nat (8 * (m + n))" by (simp add: a_def algebra_simps)
  have ua: "unat a = 8 * m mod 2 ^ 32" unfolding a_def by (simp only: unat_of_nat) simp
  have ub: "unat b = 8 * n mod 2 ^ 32" unfolding b by (simp only: unat_of_nat) simp
  have "unat (drop_bit 29 (word_of_nat n :: 32 word)) = n div 2 ^ 29"
    using n by (simp only: unat_drop unat_of_nat) simp
  moreover have e: "8 * n div 2 ^ 32 = n div 2 ^ 29" using div_mult_mult1[of 8 n "2 ^ 29"] by simp
  ultimately have d: "drop_bit 29 (word_of_nat n :: 32 word) = word_of_nat (8 * n div 2 ^ 32)"
    by (metis of_nat_unat ucast_id)
  have "(8 * m + 8 * n) div 2 ^ 32 = 8 * m div 2 ^ 32 + 8 * n div 2 ^ 32 +
      (if 2 ^ 32 \<le> 8 * m mod 2 ^ 32 + 8 * n mod 2 ^ 32 then 1 else 0)"
    by (subst div_add1_eq) (use carry_div[of "8 * m mod 2 ^ 32" "8 * n mod 2 ^ 32"] in simp)
  then show "(if a + b < b then word_of_nat (8 * m div 2 ^ 32) + 1 else word_of_nat (8 * m div 2 ^ 32)) + drop_bit 29 (word_of_nat n)
         = (word_of_nat (8 * (m + n) div 2 ^ 32) :: 32 word)"
    unfolding carry_eq ua ub d distrib_left by (simp only:) simp
qed

lemma MD5Init_rep: "length cells = 64 \<Longrightarrow> md_rep (MD5Init cells) []"
  by (simp add: md_rep_def MD5Init_def absorb.simps)

lemma MD5Update_counts:
  "md_count0 (MD5Update ctx ys) = md_count0 ctx + push_bit 3 (word_of_nat (length ys))"
  "md_count1 (MD5Update ctx ys) =
     (if md_count0 ctx + push_bit 3 (word_of_nat (length ys)) < push_bit 3 (word_of_nat (length ys))
      then md_count1 ctx + 1 else md_count1 ctx) + drop_bit 29 (word_of_nat (length ys))"
  by (simp_all only: MD5Update_def Let_def split_beta MD5_CTX.simps)

lemma md_repI:
  assumes "absorb (md_state (MD5Init [])) xs = (md_state ctx, r)" "take (length r) (md_buffer ctx) = r"
    "length (md_buffer ctx) = 64" "md_count0 ctx = word_of_nat (8 * length xs)"
    "md_count1 ctx = word_of_nat (8 * length xs div 2 ^ 32)"
  shows "md_rep ctx xs"
  using assms unfolding md_rep_def by blast

lemma MD5Update_rep:
  assumes rep: "md_rep ctx xs" and len: "length ys < 2 ^ 32"
  shows "md_rep (MD5Update ctx ys) (xs @ ys)"
proof -
  let ?st0 = "md_state (MD5Init [])" and ?n = "length xs mod 64"
  obtain r where r: "absorb ?st0 xs = (md_state ctx, r)" "take (length r) (md_buffer ctx) = r"
    "length (md_buffer ctx) = 64" and c: "md_count0 ctx = word_of_nat (8 * length xs)"
    "md_count1 ctx = word_of_nat (8 * length xs div 2 ^ 32)" using rep by (auto simp: md_rep_def)
  have rn: "length r = ?n" using absorb_rest[OF r(1)] .
  have idx: "unat (drop_bit 3 (md_count0 ctx) AND 0x3F) = ?n" unfolding c by (rule index_eq)
  have counts: "md_count0 (MD5Update ctx ys) = word_of_nat (8 * length (xs @ ys))"
    "md_count1 (MD5Update ctx ys) = word_of_nat (8 * length (xs @ ys) div 2 ^ 32)"
    unfolding MD5Update_counts c length_append by (rule count_update[OF len])+
  have app: "absorb ?st0 (xs @ ys) = absorb (md_state ctx) (r @ ys)" by (rule absorb_append[OF r(1)])
  show ?thesis
  proof (cases "length ys \<ge> 64 - ?n")
    case True
    let ?buf = "r @ take (64 - ?n) ys"
    obtain s i where si: "transform_loop (MD5Transform (md_state ctx) ?buf) ys (64 - ?n) = (s, i)" by fastforce
    have lb: "length ?buf = 64" using True rn mod_less_divisor[of 64 "length xs"] by simp
    have ab: "absorb (MD5Transform (md_state ctx) ?buf) (drop (64 - ?n) ys) = (s, drop i ys)" "i \<le> length ys"
      using transform_loop_absorb[OF si True] by simp_all
    then have full: "absorb ?st0 (xs @ ys) = (s, drop i ys)"
      unfolding app using absorb_block[OF lb, of "md_state ctx" "drop (64 - ?n) ys"] by simp
    have "length ys - i < 64" using absorb_rest[OF full] by simp
    then have bl: "length (drop i ys @ drop (length ys - i) ?buf) = 64"
      unfolding length_append length_drop using lb by simp
    have "md_state (MD5Update ctx ys) = s"
      "md_buffer (MD5Update ctx ys) = drop i ys @ drop (length ys - i) ?buf"
      unfolding MD5Update_def Let_def idx using True si r(2) rn by simp_all
    then show ?thesis using full bl counts by (intro md_repI[where r = "drop i ys"]) simp_all
  next
    case False
    then have short: "length (r @ ys) < 64" using rn by simp
    then have full: "absorb ?st0 (xs @ ys) = (md_state ctx, r @ ys)" unfolding app by (subst absorb.simps) simp
    have "md_state (MD5Update ctx ys) = md_state ctx"
      "md_buffer (MD5Update ctx ys) = r @ ys @ drop (?n + length ys) (md_buffer ctx)"
      unfolding MD5Update_def Let_def idx using False r(2) rn by simp_all
    then show ?thesis using full short r(3) rn counts by (intro md_repI[where r = "r @ ys"]) simp_all
  qed
qed

lemma MD5Final_rep:
  assumes "md_rep c1 xs" "md_rep c2 xs"
  shows "MD5Final c1 = MD5Final c2"
proof -
  have cnt: "md_count0 c1 = md_count0 c2" "md_count1 c1 = md_count1 c2" using assms by (simp_all add: md_rep_def)
  have upd: "md_rep (MD5Update c ys) (zs @ ys)" if "md_rep c zs" "length ys \<le> 120" for c zs ys
    by (rule MD5Update_rep[OF that(1)]) (use that(2) in simp)
  have st: "md_state (MD5Update (MD5Update c1 p) q) = md_state (MD5Update (MD5Update c2 p) q)"
    if "length p \<le> 120" "length q \<le> 120" for p q
    using upd[OF upd[OF assms(1) that(1)] that(2)] upd[OF upd[OF assms(2) that(1)] that(2)]
    by (auto simp: md_rep_def)
  show ?thesis unfolding MD5Final_def Let_def cnt by (subst st) simp_all
qed

lemma MD5Update_chunks:
  "md_rep ctx xs \<Longrightarrow> \<forall>c\<in>set chunks. length c < 2 ^ 32 \<Longrightarrow>
   md_rep (fold (\<lambda>bs c. MD5Update c bs) chunks ctx) (xs @ concat chunks)"
proof (induction chunks arbitrary: ctx xs)
  case (Cons c chunks)
  then show ?case using Cons.IH[OF MD5Update_rep[of ctx xs c]] by simp
qed simp



text \<open>The digest of the empty string is not the one RFC 1321 gives, although the function is
  documented as MD5: every round rotates by seven.\<close>
theorem nv_MD5_empty_not_rfc1321:
  "nv_MD5 (replicate 64 0) '''' \<noteq> ''d41d8cd98f00b204e9800998ecf8427e''"
  by code_simp

end
