(* ===== verification/Nv_Pool.thy ===== *)
theory Nv_Pool
  imports Nv_Interfaces
begin

text \<open>
  The memory pool of \<open>base/nv_pool.c\<close>.  Sizes and addresses are naturals below
  \<open>2 ^ 64\<close> and every addition of \<open>size_t\<close> or pointer values wraps there.  Blocks
  carry the address of their header, which is what the pool's \<open>current\<close> pointer
  holds; the lists of blocks are in link order.  What the two \<open>malloc\<close> calls of
  a new block return is an argument: \<open>None\<close> when one of them fails, otherwise
  the header's address and the start of the data area.  \<open>memset\<close> and \<open>memcpy\<close>
  on pool memory are returned as effects.
\<close>

section \<open>Types\<close>

definition size_max :: nat where "size_max = 2 ^ 64"

definition sz_add :: "nat \<Rightarrow> nat \<Rightarrow> nat" where
  "sz_add a b = (a + b) mod size_max"

definition sz_sub :: "nat \<Rightarrow> nat \<Rightarrow> nat" where
  "sz_sub a b = (if b \<le> a then a - b else a + size_max - b)"

record nv_pool_block_t =
  b_addr :: nat
  b_size :: nat
  b_used :: nat
  b_start :: nat
  b_end :: nat
  b_current :: nat

record nv_pool_stats_t =
  total_blocks :: nat
  total_size :: nat
  used_size :: nat
  free_size :: nat
  allocation_count :: nat
  deallocation_count :: nat
  fragmentation_count :: nat

record nv_pool_t =
  p_blocks :: "nv_pool_block_t list"
  p_current :: nat
  p_large :: "nv_pool_block_t list"
  p_max_size :: nat
  p_min_size :: nat
  p_stats :: nv_pool_stats_t
  p_auto_extend :: bool
  p_zero_clear :: bool

record nv_pool_config_t =
  cfg_initial_size :: nat
  cfg_max_size :: nat
  cfg_min_size :: nat
  cfg_auto_extend :: bool
  cfg_zero_clear :: bool

definition NV_POOL_CONFIG_DEFAULT :: nv_pool_config_t where
  "NV_POOL_CONFIG_DEFAULT = \<lparr>cfg_initial_size = 16 * 1024, cfg_max_size = 1024 * 1024,
     cfg_min_size = 4 * 1024, cfg_auto_extend = True, cfg_zero_clear = False\<rparr>"

type_synonym block_memory = "(nat \<times> nat) option"

datatype mem_effect = Memset nat nat | Memcpy nat nat nat

section \<open>Blocks\<close>

text \<open>\<open>(size + 7) & ~7\<close> on 64 bits.\<close>

definition nv_pool_align_size :: "nat \<Rightarrow> nat" where
  "nv_pool_align_size size' = (let s = sz_add size' 7 in s - s mod 8)"

definition nv_pool_block_create :: "block_memory \<Rightarrow> nat \<Rightarrow> nv_pool_block_t option" where
  "nv_pool_block_create m size' =
     (let size' = nv_pool_align_size size' in
      case m of None \<Rightarrow> None
      | Some (hdr, memory) \<Rightarrow>
          Some \<lparr>b_addr = hdr, b_size = size', b_used = 0, b_start = memory,
                b_end = sz_add memory size', b_current = memory\<rparr>)"

definition nv_pool_block_destroy :: "nv_pool_block_t \<Rightarrow> nat list" where
  "nv_pool_block_destroy block = (if b_start block \<noteq> 0 then [b_start block] else []) @ [b_addr block]"

definition nv_pool_block_alloc :: "nv_pool_block_t \<Rightarrow> nat \<Rightarrow> (nat \<times> nv_pool_block_t) option" where
  "nv_pool_block_alloc block size' =
     (if sz_add (b_current block) size' > b_end block then None
      else Some (b_current block,
             block\<lparr>b_current := sz_add (b_current block) size', b_used := sz_add (b_used block) size'\<rparr>))"

definition nv_pool_block_free :: "nv_pool_block_t \<Rightarrow> nat \<Rightarrow> int" where
  "nv_pool_block_free block ptr = 0"

definition nv_pool_update_stats :: "nat \<Rightarrow> bool \<Rightarrow> nv_pool_t \<Rightarrow> nv_pool_t" where
  "nv_pool_update_stats allocated is_alloc pool =
     (let st = p_stats pool in
      if is_alloc then
        pool\<lparr>p_stats := st\<lparr>used_size := sz_add (used_size st) allocated,
                          free_size := sz_sub (free_size st) allocated,
                          allocation_count := sz_add (allocation_count st) 1\<rparr>\<rparr>
      else pool\<lparr>p_stats := st\<lparr>deallocation_count := sz_add (deallocation_count st) 1\<rparr>\<rparr>)"

definition add_block_stats :: "nat \<Rightarrow> nv_pool_t \<Rightarrow> nv_pool_t" where
  "add_block_stats n pool =
     (let st = p_stats pool in
      pool\<lparr>p_stats := st\<lparr>total_blocks := sz_add (total_blocks st) 1,
                        total_size := sz_add (total_size st) n,
                        free_size := sz_add (free_size st) n\<rparr>\<rparr>)"

section \<open>Creation and destruction\<close>

definition zero_stats :: nv_pool_stats_t where
  "zero_stats = \<lparr>total_blocks = 0, total_size = 0, used_size = 0, free_size = 0,
     allocation_count = 0, deallocation_count = 0, fragmentation_count = 0\<rparr>"

definition nv_pool_create :: "bool \<Rightarrow> block_memory \<Rightarrow> nv_pool_config_t option \<Rightarrow> nv_pool_t option" where
  "nv_pool_create malloc_ok m config =
     (let config = (case config of None \<Rightarrow> NV_POOL_CONFIG_DEFAULT | Some c \<Rightarrow> c) in
      if \<not> malloc_ok then None
      else
        (let pool = \<lparr>p_blocks = [], p_current = 0, p_large = [], p_max_size = cfg_max_size config,
                     p_min_size = cfg_min_size config, p_stats = zero_stats,
                     p_auto_extend = cfg_auto_extend config, p_zero_clear = cfg_zero_clear config\<rparr> in
         if cfg_initial_size config > 0 then
           (case nv_pool_block_create m (cfg_initial_size config) of None \<Rightarrow> None
            | Some b \<Rightarrow>
               Some (pool\<lparr>p_blocks := [b], p_current := b_addr b,
                 p_stats := zero_stats\<lparr>total_blocks := 1, total_size := cfg_initial_size config,
                                       free_size := cfg_initial_size config\<rparr>\<rparr>))
         else Some pool))"

definition nv_pool_create_default :: "bool \<Rightarrow> block_memory \<Rightarrow> nv_pool_t option" where
  "nv_pool_create_default malloc_ok m = nv_pool_create malloc_ok m None"

text \<open>The addresses freed, in order, the pool's own header excepted.\<close>

definition nv_pool_destroy :: "nv_pool_t \<Rightarrow> nat list" where
  "nv_pool_destroy pool = concat (map nv_pool_block_destroy (p_blocks pool @ p_large pool))"

section \<open>Allocation\<close>

text \<open>Allocation in the block the pool's \<open>current\<close> pointer names.\<close>

fun alloc_at :: "nat \<Rightarrow> nat \<Rightarrow> nv_pool_block_t list \<Rightarrow> (nat \<times> nv_pool_block_t list) option" where
  "alloc_at a size' [] = None"
| "alloc_at a size' (b # bs) =
     (if b_addr b = a then
        (if sz_add (b_used b) size' \<le> b_size b
         then map_option (\<lambda>(ptr, b'). (ptr, b' # bs)) (nv_pool_block_alloc b size')
         else None)
      else map_option (\<lambda>(ptr, bs'). (ptr, b # bs')) (alloc_at a size' bs))"

text \<open>The search for the first block with room.\<close>

fun first_fit :: "nat \<Rightarrow> nv_pool_block_t list \<Rightarrow> (nat \<times> nat \<times> nv_pool_block_t list) option" where
  "first_fit size' [] = None"
| "first_fit size' (b # bs) =
     (case (if sz_add (b_used b) size' \<le> b_size b then nv_pool_block_alloc b size' else None) of
        Some (ptr, b') \<Rightarrow> Some (ptr, b_addr b, b' # bs)
      | None \<Rightarrow> map_option (\<lambda>(ptr, a, bs'). (ptr, a, b # bs')) (first_fit size' bs))"

text \<open>The extension by a new block, and the allocation of a block above the maximal size.\<close>

definition alloc_extend :: "block_memory \<Rightarrow> nat \<Rightarrow> nv_pool_t \<Rightarrow> nat option \<times> nv_pool_t" where
  "alloc_extend m size' pool =
     (let new_size = (if size' > p_min_size pool then size' else p_min_size pool) in
      if p_auto_extend pool \<and> new_size \<le> p_max_size pool then
        (case nv_pool_block_create m new_size of None \<Rightarrow> (None, pool)
         | Some b \<Rightarrow>
            (let pool = add_block_stats new_size pool in
             case nv_pool_block_alloc b size' of
               Some (ptr, b') \<Rightarrow>
                 (Some ptr, nv_pool_update_stats size' True
                    (pool\<lparr>p_blocks := b' # p_blocks pool, p_current := b_addr b\<rparr>))
             | None \<Rightarrow> (None, pool\<lparr>p_blocks := b # p_blocks pool, p_current := b_addr b\<rparr>)))
      else (None, pool))"

definition alloc_large :: "block_memory \<Rightarrow> nat \<Rightarrow> nv_pool_t \<Rightarrow> nat option \<times> nv_pool_t" where
  "alloc_large m size' pool =
     (if size' > p_max_size pool then
        (case nv_pool_block_create m size' of None \<Rightarrow> (None, pool)
         | Some b \<Rightarrow>
            (let pool = add_block_stats size' pool in
             case nv_pool_block_alloc b size' of
               Some (ptr, b') \<Rightarrow>
                 (Some ptr, nv_pool_update_stats size' True (pool\<lparr>p_large := b' # p_large pool\<rparr>))
             | None \<Rightarrow> (None, pool\<lparr>p_large := b # p_large pool\<rparr>)))
      else (None, pool))"

text \<open>The allocation of a size already aligned.\<close>

definition alloc_aligned :: "block_memory \<Rightarrow> nat \<Rightarrow> nv_pool_t \<Rightarrow> nat option \<times> nv_pool_t" where
  "alloc_aligned m size' pool =
     (case (if p_current pool \<noteq> 0 then alloc_at (p_current pool) size' (p_blocks pool) else None) of
        Some (ptr, bs) \<Rightarrow> (Some ptr, nv_pool_update_stats size' True (pool\<lparr>p_blocks := bs\<rparr>))
      | None \<Rightarrow>
          (case first_fit size' (p_blocks pool) of
             Some (ptr, a, bs) \<Rightarrow>
               (Some ptr, nv_pool_update_stats size' True (pool\<lparr>p_blocks := bs, p_current := a\<rparr>))
           | None \<Rightarrow>
               (case alloc_extend m size' pool of
                  (Some ptr, pool) \<Rightarrow> (Some ptr, pool)
                | (None, pool) \<Rightarrow> alloc_large m size' pool)))"

definition nv_pool_alloc :: "block_memory \<Rightarrow> nv_pool_t \<Rightarrow> nat \<Rightarrow> nat option \<times> nv_pool_t" where
  "nv_pool_alloc m pool size' =
     (if size' = 0 then (None, pool) else alloc_aligned m (nv_pool_align_size size') pool)"

definition nv_pool_calloc :: "block_memory \<Rightarrow> nv_pool_t \<Rightarrow> nat \<Rightarrow> nat \<Rightarrow> nat option \<times> nv_pool_t \<times> mem_effect list" where
  "nv_pool_calloc m pool nmemb size' =
     (let total = nmemb * size' mod size_max in
      case nv_pool_alloc m pool total of
        (Some ptr, pool) \<Rightarrow> (Some ptr, pool, if p_zero_clear pool then [Memset ptr total] else [])
      | (None, pool) \<Rightarrow> (None, pool, []))"

section \<open>Release, reallocation and aligned allocation\<close>

definition in_block :: "nat \<Rightarrow> nv_pool_block_t \<Rightarrow> bool" where
  "in_block ptr b \<longleftrightarrow> b_start b \<le> ptr \<and> ptr < b_end b"

text \<open>The block that holds a pointer: the ordinary blocks first, then the large ones.\<close>

definition owner :: "nv_pool_t \<Rightarrow> nat \<Rightarrow> nv_pool_block_t option" where
  "owner pool ptr =
     (case find (in_block ptr) (p_blocks pool) of
        Some b \<Rightarrow> Some b
      | None \<Rightarrow> find (in_block ptr) (p_large pool))"


definition nv_pool_free :: "nv_pool_t \<Rightarrow> nat \<Rightarrow> int \<times> nv_pool_t" where
  "nv_pool_free pool ptr =
     (if ptr = 0 then (NV_ERROR, pool)
      else
        (case owner pool ptr of
           Some b \<Rightarrow>
             (if nv_pool_block_free b ptr = NV_OK then (NV_OK, nv_pool_update_stats 0 False pool)
              else (NV_ERROR, pool))
         | None \<Rightarrow> (NV_ERROR, pool)))"

definition room_after :: "nv_pool_block_t \<Rightarrow> nat \<Rightarrow> nat" where
  "room_after b ptr = sz_sub (b_size b) (ptr - b_start b)"

definition nv_pool_realloc :: "block_memory \<Rightarrow> nv_pool_t \<Rightarrow> nat \<Rightarrow> nat \<Rightarrow> nat option \<times> nv_pool_t \<times> mem_effect list" where
  "nv_pool_realloc m pool ptr size' =
     (if ptr = 0 then (case nv_pool_alloc m pool size' of (r, pool) \<Rightarrow> (r, pool, []))
      else if size' = 0 then (None, snd (nv_pool_free pool ptr), [])
      else
        (case owner pool ptr of
           Some b \<Rightarrow>
             (if size' \<le> room_after b ptr then (Some ptr, pool, [])
              else
                (case nv_pool_alloc m pool size' of
                   (None, pool) \<Rightarrow> (None, pool, [])
                 | (Some new_ptr, pool) \<Rightarrow>
                     (Some new_ptr, snd (nv_pool_free pool ptr),
                      [Memcpy new_ptr ptr (min size' (room_after b ptr))])))
         | None \<Rightarrow> (case nv_pool_alloc m pool size' of (r, pool) \<Rightarrow> (r, pool, []))))"

definition align_addr :: "nat \<Rightarrow> nat \<Rightarrow> nat" where
  "align_addr addr alignment =
     unat ((word_of_nat addr + word_of_nat alignment - 1 :: 64 word) AND NOT (word_of_nat alignment - 1))"

definition nv_pool_align :: "block_memory \<Rightarrow> nv_pool_t \<Rightarrow> nat \<Rightarrow> nat \<Rightarrow> nat option \<times> nv_pool_t" where
  "nv_pool_align m pool size' alignment =
     (case nv_pool_alloc m pool (sz_sub (sz_add size' alignment) 1) of
        (Some ptr, pool) \<Rightarrow> (Some (align_addr ptr alignment), pool)
      | (None, pool) \<Rightarrow> (None, pool))"

section \<open>Whole-pool operations\<close>

definition reset_block :: "nv_pool_block_t \<Rightarrow> nv_pool_block_t" where
  "reset_block b = b\<lparr>b_used := 0, b_current := b_start b\<rparr>"

definition nv_pool_reset :: "nv_pool_t \<Rightarrow> nv_pool_t" where
  "nv_pool_reset pool =
     (let st = p_stats pool in
      pool\<lparr>p_blocks := map reset_block (p_blocks pool), p_large := map reset_block (p_large pool),
           p_stats := st\<lparr>used_size := 0, free_size := total_size st,
                        allocation_count := 0, deallocation_count := 0\<rparr>,
           p_current := (case p_blocks pool of [] \<Rightarrow> 0 | b # _ \<Rightarrow> b_addr b)\<rparr>)"

definition nv_pool_extend :: "block_memory \<Rightarrow> nv_pool_t \<Rightarrow> nat \<Rightarrow> int \<times> nv_pool_t" where
  "nv_pool_extend m pool size' =
     (if size' = 0 then (NV_ERROR, pool)
      else
        (let size' = nv_pool_align_size size' in
         case nv_pool_block_create m size' of None \<Rightarrow> (NV_ERROR, pool)
         | Some b \<Rightarrow>
            (NV_OK, (add_block_stats size' pool)\<lparr>p_blocks := b # p_blocks pool, p_current := b_addr b\<rparr>)))"

definition nv_pool_shrink :: "nv_pool_t \<Rightarrow> nat \<Rightarrow> int \<times> nv_pool_t" where
  "nv_pool_shrink pool size' = (NV_OK, pool)"

definition nv_pool_compact :: "nv_pool_t \<Rightarrow> int \<times> nv_pool_t" where
  "nv_pool_compact pool = (NV_OK, pool)"

definition nv_pool_get_size :: "nv_pool_t option \<Rightarrow> nat" where
  "nv_pool_get_size pool = (case pool of Some p \<Rightarrow> total_size (p_stats p) | None \<Rightarrow> 0)"

definition nv_pool_get_used :: "nv_pool_t option \<Rightarrow> nat" where
  "nv_pool_get_used pool = (case pool of Some p \<Rightarrow> used_size (p_stats p) | None \<Rightarrow> 0)"

definition nv_pool_get_free :: "nv_pool_t option \<Rightarrow> nat" where
  "nv_pool_get_free pool = (case pool of Some p \<Rightarrow> free_size (p_stats p) | None \<Rightarrow> 0)"

definition nv_pool_is_empty :: "nv_pool_t option \<Rightarrow> bool" where
  "nv_pool_is_empty pool = (case pool of Some p \<Rightarrow> used_size (p_stats p) = 0 | None \<Rightarrow> True)"

definition nv_pool_is_full :: "nv_pool_t option \<Rightarrow> bool" where
  "nv_pool_is_full pool = (case pool of Some p \<Rightarrow> free_size (p_stats p) = 0 | None \<Rightarrow> False)"

definition nv_pool_get_stats :: "nv_pool_t option \<Rightarrow> nv_pool_stats_t option" where
  "nv_pool_get_stats pool = map_option p_stats pool"

definition nv_pool_reset_stats :: "nv_pool_t \<Rightarrow> nv_pool_t" where
  "nv_pool_reset_stats pool =
     (let pool = pool\<lparr>p_stats := zero_stats\<rparr>;
          pool = pool\<lparr>p_stats := (p_stats pool)\<lparr>total_size := nv_pool_get_size (Some pool)\<rparr>\<rparr>
      in pool\<lparr>p_stats := (p_stats pool)\<lparr>free_size := total_size (p_stats pool)\<rparr>\<rparr>)"

text \<open>The blocks in visiting order, the callback's effect threaded through; a result other than
  \<open>NV_OK\<close> ends the iteration.\<close>

fun iterate_blocks :: "(nv_pool_block_t \<Rightarrow> 'd \<Rightarrow> int \<times> 'd) \<Rightarrow> nv_pool_block_t list \<Rightarrow> 'd \<Rightarrow> int \<times> 'd" where
  "iterate_blocks callback [] d = (NV_OK, d)"
| "iterate_blocks callback (b # bs) d =
     (case callback b d of (result, d) \<Rightarrow>
        if result = NV_OK then iterate_blocks callback bs d else (result, d))"

definition nv_pool_iterate :: "nv_pool_t \<Rightarrow> (nv_pool_block_t \<Rightarrow> 'd \<Rightarrow> int \<times> 'd) \<Rightarrow> 'd \<Rightarrow> int \<times> 'd" where
  "nv_pool_iterate pool callback d =
     (case iterate_blocks callback (p_blocks pool) d of (result, d) \<Rightarrow>
        if result = NV_OK then iterate_blocks callback (p_large pool) d else (result, d))"

definition block_errors :: "nv_pool_block_t \<Rightarrow> nat" where
  "block_errors b =
     (if b_current b < b_start b \<or> b_current b > b_end b then 1 else 0) +
     (if b_used b > b_size b then 1 else 0)"

definition nv_pool_validate :: "nv_pool_t \<Rightarrow> nat" where
  "nv_pool_validate pool = sum_list (map block_errors (p_blocks pool @ p_large pool))"

definition nv_pool_dump :: "nv_pool_t \<Rightarrow> (nat \<times> nv_pool_block_t) list" where
  "nv_pool_dump pool = zip [0..<length (p_blocks pool @ p_large pool)] (p_blocks pool @ p_large pool)"

section \<open>Well-formed pools\<close>

definition addr_limit :: nat where "addr_limit = 2 ^ 63"

definition region :: "nv_pool_block_t \<Rightarrow> nat set" where
  "region b = {b_start b..<b_end b}"

definition taken :: "nv_pool_block_t \<Rightarrow> nat set" where
  "taken b = {b_start b..<b_current b}"

definition block_wf :: "nv_pool_block_t \<Rightarrow> bool" where
  "block_wf b \<longleftrightarrow> 0 < b_start b \<and> b_end b = b_start b + b_size b \<and> b_current b = b_start b + b_used b \<and>
     b_used b \<le> b_size b \<and> b_end b \<le> addr_limit \<and> 8 dvd b_start b \<and> 8 dvd b_size b \<and> 8 dvd b_used b"

definition blocks_wf :: "nv_pool_block_t list \<Rightarrow> bool" where
  "blocks_wf bs \<longleftrightarrow> (\<forall>b\<in>set bs. block_wf b) \<and> sorted_wrt (\<lambda>A B. A \<inter> B = {}) (map region bs)"

definition all_blocks :: "nv_pool_t \<Rightarrow> nv_pool_block_t list" where
  "all_blocks pool = p_blocks pool @ p_large pool"

definition pool_wf :: "nv_pool_t \<Rightarrow> bool" where
  "pool_wf pool \<longleftrightarrow> blocks_wf (all_blocks pool)"

text \<open>The bytes handed out so far.\<close>

definition live :: "nv_pool_t \<Rightarrow> nat set" where
  "live pool = (\<Union>b\<in>set (all_blocks pool). taken b)"

text \<open>What \<open>malloc\<close> promises of an area of \<open>n\<close> bytes for a new block: it is aligned, inside the
  address space and apart from the blocks the pool owns.\<close>

definition fresh_area :: "nv_pool_t \<Rightarrow> block_memory \<Rightarrow> nat \<Rightarrow> bool" where
  "fresh_area pool m n \<longleftrightarrow>
     (case m of None \<Rightarrow> True
      | Some (hdr, mem) \<Rightarrow> 0 < mem \<and> 8 dvd mem \<and> mem + n \<le> addr_limit \<and>
          (\<forall>b\<in>set (all_blocks pool). region b \<inter> {mem..<mem + n} = {}))"

lemma sz_add_small: "a + b < size_max \<Longrightarrow> sz_add a b = a + b"
  by (simp add: sz_add_def)

lemma limits: "addr_limit + addr_limit = size_max" "0 < addr_limit"
  by (simp_all add: addr_limit_def size_max_def)

lemma align_size_props:
  assumes "n + 8 \<le> addr_limit"
  shows "n \<le> nv_pool_align_size n" "nv_pool_align_size n < n + 8" "8 dvd nv_pool_align_size n"
proof -
  have e: "nv_pool_align_size n = (n + 7) - (n + 7) mod 8"
    using assms limits by (simp add: nv_pool_align_size_def sz_add_small Let_def)
  then show "n \<le> nv_pool_align_size n" "nv_pool_align_size n < n + 8" by presburger+
  show "8 dvd nv_pool_align_size n" unfolding e by (rule dvd_minus_mod)
qed

lemma align_size_fix: "8 dvd n \<Longrightarrow> n < addr_limit \<Longrightarrow> nv_pool_align_size n = n"
  using limits by (auto simp: nv_pool_align_size_def sz_add_small addr_limit_def size_max_def)

lemma block_alloc_wf:
  assumes wf: "block_wf b" and n: "8 dvd n" "n < addr_limit" and a: "nv_pool_block_alloc b n = Some (ptr, b')"
  shows "ptr = b_current b" "block_wf b'" "region b' = region b" "taken b' = taken b \<union> {ptr..<ptr + n}"
    "taken b \<inter> {ptr..<ptr + n} = {}" "{ptr..<ptr + n} \<subseteq> region b" "8 dvd ptr" "0 < ptr"
proof -
  have cur: "b_current b \<le> addr_limit" using wf by (auto simp: block_wf_def)
  have used: "b_used b \<le> addr_limit" using wf by (auto simp: block_wf_def)
  have sums: "sz_add (b_current b) n = b_current b + n" "sz_add (b_used b) n = b_used b + n"
    by (rule sz_add_small; use cur used n limits in linarith)+
  have p: "ptr = b_current b" "b_current b + n \<le> b_end b"
    and b': "b' = b\<lparr>b_current := b_current b + n, b_used := b_used b + n\<rparr>"
    using a by (auto simp: nv_pool_block_alloc_def sums split: if_splits)
  show "ptr = b_current b" by (rule p)
  show "block_wf b'" using wf n p b' by (auto simp: block_wf_def)
  show "region b' = region b" by (simp add: b' region_def)
  show "taken b' = taken b \<union> {ptr..<ptr + n}" using wf p b' by (auto simp: taken_def block_wf_def)
  show "taken b \<inter> {ptr..<ptr + n} = {}" using p by (auto simp: taken_def)
  show "{ptr..<ptr + n} \<subseteq> region b" using wf p by (auto simp: region_def block_wf_def)
  show "8 dvd ptr" "0 < ptr" using wf p by (auto simp: block_wf_def)
qed

lemma alloc_at_split: "alloc_at a n bs = Some (ptr, bs') \<Longrightarrow>
    \<exists>xs b b' ys. bs = xs @ b # ys \<and> bs' = xs @ b' # ys \<and> nv_pool_block_alloc b n = Some (ptr, b')"
proof (induction a n bs arbitrary: bs' rule: alloc_at.induct)
  case (2 a n b bs)
  show ?case
  proof (cases "b_addr b = a")
    case True
    then show ?thesis using 2(2) by (auto split: if_splits) (metis append_Nil)
  next
    case False
    then obtain bs1 where "alloc_at a n bs = Some (ptr, bs1)" "bs' = b # bs1" using 2(2) by auto
    then show ?thesis using 2(1)[OF False] by (metis append_Cons)
  qed
qed simp

lemma first_fit_split: "first_fit n bs = Some (ptr, a, bs') \<Longrightarrow>
    \<exists>xs b b' ys. bs = xs @ b # ys \<and> bs' = xs @ b' # ys \<and> nv_pool_block_alloc b n = Some (ptr, b')"
proof (induction n bs arbitrary: bs' rule: first_fit.induct)
  case (2 n b bs)
  show ?case
  proof (cases "if sz_add (b_used b) n \<le> b_size b then nv_pool_block_alloc b n else None")
    case None
    then obtain bs1 where "first_fit n bs = Some (ptr, a, bs1)" "bs' = b # bs1" using 2(2) by (auto split: if_splits)
    then show ?thesis using 2(1)[OF None] by (metis append_Cons)
  next
    case (Some r)
    then show ?thesis using 2(2) by (cases r) (auto split: if_splits, (metis append_Nil)+)
  qed
qed simp

lemma taken_region: "block_wf b \<Longrightarrow> taken b \<subseteq> region b"
  by (auto simp: taken_def region_def block_wf_def)

lemma blocks_wf_replace:
  assumes wf: "blocks_wf (xs @ b # ys)" and n: "8 dvd n" "n < addr_limit"
    and a: "nv_pool_block_alloc b n = Some (ptr, b')"
  shows "blocks_wf (xs @ b' # ys)"
    and "(\<Union>c\<in>set (xs @ b # ys). taken c) \<inter> {ptr..<ptr + n} = {}"
    and "(\<Union>c\<in>set (xs @ b' # ys). taken c) = (\<Union>c\<in>set (xs @ b # ys). taken c) \<union> {ptr..<ptr + n}"
proof -
  have bw: "block_wf b" using wf by (simp add: blocks_wf_def)
  note B = block_alloc_wf[OF bw n a]
  show "blocks_wf (xs @ b' # ys)" using wf B(2,3) by (simp add: blocks_wf_def)
  have "taken c \<inter> {ptr..<ptr + n} = {}" if "c \<in> set xs \<union> set ys" for c
  proof -
    have "region c \<inter> region b = {}" using wf that by (auto simp: blocks_wf_def sorted_wrt_append)
    moreover have "taken c \<subseteq> region c" using wf that by (intro taken_region) (auto simp: blocks_wf_def)
    ultimately show ?thesis using B(6) by blast
  qed
  then show "(\<Union>c\<in>set (xs @ b # ys). taken c) \<inter> {ptr..<ptr + n} = {}" using B(5) by auto
  show "(\<Union>c\<in>set (xs @ b' # ys). taken c) = (\<Union>c\<in>set (xs @ b # ys). taken c) \<union> {ptr..<ptr + n}"
    using B(4) by auto
qed

lemma blocks_wf_add:
  assumes "blocks_wf (xs @ ys)" "block_wf b" "\<And>c. c \<in> set (xs @ ys) \<Longrightarrow> region c \<inter> region b = {}"
  shows "blocks_wf (xs @ b # ys)"
  using assms by (fastforce simp: blocks_wf_def sorted_wrt_append)

lemma block_create_wf:
  assumes c: "nv_pool_block_create m n = Some b" and f: "fresh_area pool m (nv_pool_align_size n)"
    and n: "n + 8 \<le> addr_limit"
  shows "block_wf b" "taken b = {}" "\<And>c. c \<in> set (all_blocks pool) \<Longrightarrow> region c \<inter> region b = {}"
proof -
  obtain hdr mem where m: "m = Some (hdr, mem)"
    and b: "b = \<lparr>b_addr = hdr, b_size = nv_pool_align_size n, b_used = 0, b_start = mem,
                 b_end = sz_add mem (nv_pool_align_size n), b_current = mem\<rparr>"
    using c by (auto simp: nv_pool_block_create_def Let_def split: option.splits)
  have f': "0 < mem" "8 dvd mem" "mem + nv_pool_align_size n \<le> addr_limit"
    "\<And>c. c \<in> set (all_blocks pool) \<Longrightarrow> region c \<inter> {mem..<mem + nv_pool_align_size n} = {}"
    using f m by (auto simp: fresh_area_def)
  have e: "sz_add mem (nv_pool_align_size n) = mem + nv_pool_align_size n"
    by (rule sz_add_small) (use f'(3) limits in linarith)
  show "block_wf b" using f' align_size_props[OF n] by (simp add: b e block_wf_def)
  show "taken b = {}" by (simp add: b taken_def)
  show "\<And>c. c \<in> set (all_blocks pool) \<Longrightarrow> region c \<inter> region b = {}" using f'(4) by (simp add: b e region_def)
qed

text \<open>What an allocation of \<open>n\<close> bytes does to the pool.\<close>

definition alloc_post :: "nat \<Rightarrow> nv_pool_t \<Rightarrow> nat option \<times> nv_pool_t \<Rightarrow> bool" where
  "alloc_post n pool res \<longleftrightarrow> pool_wf (snd res) \<and>
     (case fst res of None \<Rightarrow> live (snd res) = live pool
      | Some ptr \<Rightarrow> 0 < ptr \<and> 8 dvd ptr \<and> live pool \<inter> {ptr..<ptr + n} = {} \<and>
          live (snd res) = live pool \<union> {ptr..<ptr + n})"

lemma stats_blocks [simp]:
  "all_blocks (nv_pool_update_stats n f pool) = all_blocks pool"
  "all_blocks (add_block_stats n pool) = all_blocks pool"
  "p_blocks (add_block_stats n pool) = p_blocks pool" "p_large (add_block_stats n pool) = p_large pool"
  by (simp_all add: all_blocks_def nv_pool_update_stats_def add_block_stats_def Let_def)

lemma alloc_post_replace:
  assumes wf: "pool_wf pool" and n: "8 dvd n" "n < addr_limit"
    and o: "all_blocks pool = xs @ b # ys" and a: "nv_pool_block_alloc b n = Some (ptr, b')"
    and p: "all_blocks pool' = xs @ b' # ys"
  shows "alloc_post n pool (Some ptr, pool')"
proof -
  have w: "blocks_wf (xs @ b # ys)" using wf o by (simp add: pool_wf_def)
  have "block_wf b" using w by (simp add: blocks_wf_def)
  then show ?thesis
    using blocks_wf_replace[OF w n a] block_alloc_wf(7,8)[OF _ n a] o p
    by (simp add: alloc_post_def pool_wf_def live_def)
qed

lemma alloc_post_new:
  assumes wf: "pool_wf pool" and n: "8 dvd n" "n < addr_limit"
    and o: "all_blocks pool = xs @ ys" and b: "block_wf b" "taken b = {}"
    and d: "\<And>c. c \<in> set (all_blocks pool) \<Longrightarrow> region c \<inter> region b = {}"
  shows "all_blocks pool' = xs @ b # ys \<Longrightarrow> alloc_post n pool (None, pool')"
    and "nv_pool_block_alloc b n = Some (ptr, b') \<Longrightarrow> all_blocks pool'' = xs @ b' # ys \<Longrightarrow>
         alloc_post n pool (Some ptr, pool'')"
proof -
  have w: "blocks_wf (xs @ b # ys)" by (rule blocks_wf_add) (use wf o b d in \<open>auto simp: pool_wf_def\<close>)
  have l: "(\<Union>c\<in>set (xs @ b # ys). taken c) = live pool" using b(2) o by (simp add: live_def)
  show "alloc_post n pool (None, pool')" if "all_blocks pool' = xs @ b # ys"
    using w l that by (simp add: alloc_post_def pool_wf_def live_def)
  show "alloc_post n pool (Some ptr, pool'')"
    if a: "nv_pool_block_alloc b n = Some (ptr, b')" and p: "all_blocks pool'' = xs @ b' # ys"
    using blocks_wf_replace[OF w n a] block_alloc_wf(7,8)[OF b(1) n a] l p
    by (simp add: alloc_post_def pool_wf_def live_def)
qed

lemma fresh_area_mono: "fresh_area pool m n \<Longrightarrow> k \<le> n \<Longrightarrow> fresh_area pool m k"
  by (fastforce simp: fresh_area_def split: option.splits)

lemma alloc_post_id: "pool_wf pool \<Longrightarrow> alloc_post n pool (None, pool)"
  by (simp add: alloc_post_def)

lemma alloc_extend_post:
  assumes wf: "pool_wf pool" and n: "8 dvd n" "n + 8 \<le> addr_limit" "p_min_size pool + 8 \<le> addr_limit"
    and f: "fresh_area pool m (max n (nv_pool_align_size (p_min_size pool)))"
  shows "alloc_post n pool (alloc_extend m n pool)"
proof -
  define k where "k = (if n > p_min_size pool then n else p_min_size pool)"
  have lt: "n < addr_limit" using n by simp
  show ?thesis
  proof (cases "p_auto_extend pool \<and> k \<le> p_max_size pool")
    case False
    then show ?thesis using wf by (auto simp: alloc_extend_def Let_def alloc_post_id simp flip: k_def)
  next
    case ext: True
    show ?thesis
    proof (cases "nv_pool_block_create m k")
      case None
      then show ?thesis using wf by (simp add: alloc_extend_def Let_def alloc_post_id flip: k_def)
    next
      case (Some b)
      have "fresh_area pool m (nv_pool_align_size k)"
        by (rule fresh_area_mono[OF f]) (use align_size_fix[OF n(1) lt] in \<open>auto simp: k_def\<close>)
      moreover have "k + 8 \<le> addr_limit" using n by (auto simp: k_def)
      ultimately have b: "block_wf b" "taken b = {}" "\<And>c. c \<in> set (all_blocks pool) \<Longrightarrow> region c \<inter> region b = {}"
        using block_create_wf[OF Some] by blast+
      have o: "all_blocks pool = [] @ all_blocks pool" by simp
      note P = alloc_post_new[OF wf n(1) lt o b]
      show ?thesis
      proof (cases "nv_pool_block_alloc b n")
        case None
        then show ?thesis using Some ext by (auto simp: alloc_extend_def Let_def simp flip: k_def intro!: P(1)) (simp_all add: all_blocks_def)
      next
        case S: (Some r)
        obtain ptr b' where r: "r = (ptr, b')" by (cases r)
        show ?thesis using Some ext S r
          by (auto simp: alloc_extend_def Let_def simp flip: k_def intro!: P(2)[where b' = b']) (simp_all add: all_blocks_def)
      qed
    qed
  qed
qed

lemma alloc_large_post:
  assumes wf: "pool_wf pool" and n: "8 dvd n" "n + 8 \<le> addr_limit" and f: "fresh_area pool m n"
  shows "alloc_post n pool (alloc_large m n pool)"
proof (cases "n > p_max_size pool")
  case False
  then show ?thesis using wf by (simp add: alloc_large_def alloc_post_id)
next
  case big: True
  have lt: "n < addr_limit" using n by simp
  show ?thesis
  proof (cases "nv_pool_block_create m n")
    case None
    then show ?thesis using wf by (simp add: alloc_large_def alloc_post_id)
  next
    case (Some b)
    have b: "block_wf b" "taken b = {}" "\<And>c. c \<in> set (all_blocks pool) \<Longrightarrow> region c \<inter> region b = {}"
      using block_create_wf[OF Some _ n(2), of pool] f align_size_fix[OF n(1) lt] by auto
    have o: "all_blocks pool = p_blocks pool @ p_large pool" by (simp add: all_blocks_def)
    note P = alloc_post_new[OF wf n(1) lt o b]
    show ?thesis
    proof (cases "nv_pool_block_alloc b n")
      case None
      then show ?thesis using Some big by (auto simp: alloc_large_def Let_def intro!: P(1)) (simp_all add: all_blocks_def)
    next
      case S: (Some r)
      obtain ptr b' where r: "r = (ptr, b')" by (cases r)
      show ?thesis using Some big S r
        by (auto simp: alloc_large_def Let_def intro!: P(2)[where b' = b']) (simp_all add: all_blocks_def)
    qed
  qed
qed

lemma alloc_aligned_post:
  assumes wf: "pool_wf pool" and n: "8 dvd n" "n + 8 \<le> addr_limit" "p_min_size pool + 8 \<le> addr_limit"
    and f: "fresh_area pool m (max n (nv_pool_align_size (p_min_size pool)))"
  shows "alloc_post n pool (alloc_aligned m n pool)"
proof -
  have lt: "n < addr_limit" using n by simp
  have rep: "alloc_post n pool (Some ptr, pool')"
    if "p_blocks pool = xs @ b # ys" "nv_pool_block_alloc b n = Some (ptr, b')"
      "all_blocks pool' = xs @ b' # ys @ p_large pool" for ptr xs b ys b' pool'
    by (rule alloc_post_replace[OF wf n(1) lt _ that(2,3)]) (simp add: all_blocks_def that(1))
  show ?thesis
  proof (cases "if p_current pool \<noteq> 0 then alloc_at (p_current pool) n (p_blocks pool) else None")
    case (Some r)
    then obtain ptr bs where "alloc_at (p_current pool) n (p_blocks pool) = Some (ptr, bs)" "r = (ptr, bs)"
      by (cases r) (auto split: if_splits)
    then show ?thesis using alloc_at_split[of "p_current pool" n "p_blocks pool" ptr bs] Some
      by (auto simp: alloc_aligned_def intro!: rep) (auto simp: all_blocks_def)
  next
    case cur: None
    show ?thesis
    proof (cases "first_fit n (p_blocks pool)")
      case (Some r)
      obtain ptr a bs where r: "r = (ptr, a, bs)" by (cases r)
      then show ?thesis using first_fit_split[of n "p_blocks pool" ptr a bs] cur Some
        by (auto simp: alloc_aligned_def intro!: rep) (auto simp: all_blocks_def)
    next
      case None
      have E: "alloc_post n pool (alloc_extend m n pool)" by (rule alloc_extend_post[OF wf n f])
      have L: "alloc_post n pool (alloc_large m n pool)"
        by (rule alloc_large_post[OF wf n(1,2) fresh_area_mono[OF f]]) simp
      have un: "alloc_aligned m n pool = (case alloc_extend m n pool of
            (Some ptr, p) \<Rightarrow> (Some ptr, p) | (None, p) \<Rightarrow> alloc_large m n p)"
        using cur None by (simp add: alloc_aligned_def)
      show ?thesis
      proof (cases "n > p_max_size pool")
        case True
        then have "alloc_extend m n pool = (None, pool)" by (auto simp: alloc_extend_def Let_def)
        then show ?thesis using un L by simp
      next
        case False
        have "p_max_size (snd (alloc_extend m n pool)) = p_max_size pool"
          by (auto simp: alloc_extend_def Let_def nv_pool_update_stats_def add_block_stats_def split: option.splits)
        then show ?thesis using un E False
          by (cases "alloc_extend m n pool") (auto simp: alloc_large_def split: option.splits)
      qed
    qed
  qed
qed

section \<open>Sequences of allocations\<close>

text \<open>The results of a sequence of requests, as pairs of the pointer and the requested size.\<close>

fun alloc_many :: "(block_memory \<times> nat) list \<Rightarrow> nv_pool_t \<Rightarrow> (nat \<times> nat) list \<times> nv_pool_t" where
  "alloc_many [] pool = ([], pool)"
| "alloc_many ((m, n) # reqs) pool =
     (case nv_pool_alloc m pool n of (r, pool') \<Rightarrow>
        (case alloc_many reqs pool' of (rs, pool'') \<Rightarrow>
           ((case r of None \<Rightarrow> rs | Some ptr \<Rightarrow> (ptr, n) # rs), pool'')))"

text \<open>Every request is of a representable size and \<open>malloc\<close> keeps its promise at each step.\<close>

fun requests_ok :: "(block_memory \<times> nat) list \<Rightarrow> nv_pool_t \<Rightarrow> bool" where
  "requests_ok [] pool \<longleftrightarrow> True"
| "requests_ok ((m, n) # reqs) pool \<longleftrightarrow>
     n + 16 \<le> addr_limit \<and> p_min_size pool + 8 \<le> addr_limit \<and>
     fresh_area pool m (max (nv_pool_align_size n) (nv_pool_align_size (p_min_size pool))) \<and>
     requests_ok reqs (snd (nv_pool_alloc m pool n))"

definition chunk :: "nat \<times> nat \<Rightarrow> nat set" where
  "chunk r = {fst r..<fst r + snd r}"

lemma nv_pool_alloc_post:
  assumes "pool_wf pool" "n + 16 \<le> addr_limit" "p_min_size pool + 8 \<le> addr_limit"
    "fresh_area pool m (max (nv_pool_align_size n) (nv_pool_align_size (p_min_size pool)))"
  shows "n = 0 \<Longrightarrow> alloc_post 0 pool (nv_pool_alloc m pool n)"
    and "0 < n \<Longrightarrow> alloc_post (nv_pool_align_size n) pool (nv_pool_alloc m pool n)"
  using assms align_size_props[of n] alloc_aligned_post[of pool "nv_pool_align_size n" m]
  by (simp_all add: nv_pool_alloc_def alloc_post_id)

lemma nv_pool_alloc_chunk:
  assumes "pool_wf pool" "n + 16 \<le> addr_limit" "p_min_size pool + 8 \<le> addr_limit"
    "fresh_area pool m (max (nv_pool_align_size n) (nv_pool_align_size (p_min_size pool)))"
    "nv_pool_alloc m pool n = (Some ptr, pool')"
  shows "chunk (ptr, n) \<inter> live pool = {}" "chunk (ptr, n) \<subseteq> live pool'" "8 dvd ptr"
proof -
  have n: "0 < n" using assms(5) by (auto simp: nv_pool_alloc_def split: if_splits)
  have "alloc_post (nv_pool_align_size n) pool (Some ptr, pool')"
    using nv_pool_alloc_post(2)[OF assms(1-4) n] assms(5) by simp
  moreover have "n \<le> nv_pool_align_size n" by (rule align_size_props) (use assms(2) in simp)
  ultimately show "chunk (ptr, n) \<inter> live pool = {}" "chunk (ptr, n) \<subseteq> live pool'" "8 dvd ptr"
    by (auto simp: alloc_post_def chunk_def)
qed

lemma nv_pool_alloc_keeps:
  assumes "pool_wf pool" "n + 16 \<le> addr_limit" "p_min_size pool + 8 \<le> addr_limit"
    "fresh_area pool m (max (nv_pool_align_size n) (nv_pool_align_size (p_min_size pool)))"
    "nv_pool_alloc m pool n = (r, pool')"
  shows "pool_wf pool'" "live pool \<subseteq> live pool'"
  using nv_pool_alloc_post[OF assms(1-4)] assms(5)
  by (cases "n = 0"; auto simp: alloc_post_def split: option.splits)+

lemma alloc_many_disjoint:
  "pool_wf pool \<Longrightarrow> requests_ok reqs pool \<Longrightarrow> alloc_many reqs pool = (rs, pool') \<Longrightarrow>
     pool_wf pool' \<and> (\<forall>r\<in>set rs. chunk r \<inter> live pool = {}) \<and>
     sorted_wrt (\<lambda>r r'. chunk r \<inter> chunk r' = {}) rs \<and> (\<forall>r\<in>set rs. 8 dvd fst r)"
proof (induction reqs pool arbitrary: rs rule: alloc_many.induct)
  case (2 m n reqs pool)
  obtain r pool1 where a: "nv_pool_alloc m pool n = (r, pool1)" by fastforce
  obtain rs1 where rs1: "alloc_many reqs pool1 = (rs1, pool')"
    and rs: "rs = (case r of None \<Rightarrow> rs1 | Some ptr \<Rightarrow> (ptr, n) # rs1)"
    using 2(4) a by (auto split: prod.splits)
  have ok: "n + 16 \<le> addr_limit" "p_min_size pool + 8 \<le> addr_limit"
    "fresh_area pool m (max (nv_pool_align_size n) (nv_pool_align_size (p_min_size pool)))"
    "requests_ok reqs pool1" using 2(3) a by simp_all
  note K = nv_pool_alloc_keeps[OF 2(2) ok(1-3) a]
  have IH: "pool_wf pool' \<and> (\<forall>r\<in>set rs1. chunk r \<inter> live pool1 = {}) \<and>
     sorted_wrt (\<lambda>r r'. chunk r \<inter> chunk r' = {}) rs1 \<and> (\<forall>r\<in>set rs1. 8 dvd fst r)"
    using 2(1)[OF a[symmetric] K(1) ok(4) rs1] by simp
  show ?case
  proof (cases r)
    case None
    then show ?thesis using IH K(2) rs by auto
  next
    case (Some ptr)
    note C = nv_pool_alloc_chunk[OF 2(2) ok(1-3), of ptr pool1]
    show ?thesis using IH K(2) rs C a Some by fastforce
  qed
qed simp

section \<open>Every operation keeps the pool well formed\<close>

datatype pool_op =
    PAlloc block_memory nat
  | PCalloc block_memory nat nat
  | PRealloc block_memory nat nat
  | PAlign block_memory nat nat
  | PFree nat
  | PReset
  | PExtend block_memory nat
  | PShrink nat
  | PCompact
  | PResetStats

fun pool_exec :: "pool_op \<Rightarrow> nv_pool_t \<Rightarrow> nv_pool_t" where
  "pool_exec (PAlloc m n) pool = snd (nv_pool_alloc m pool n)"
| "pool_exec (PCalloc m k n) pool = fst (snd (nv_pool_calloc m pool k n))"
| "pool_exec (PRealloc m ptr n) pool = fst (snd (nv_pool_realloc m pool ptr n))"
| "pool_exec (PAlign m n a) pool = snd (nv_pool_align m pool n a)"
| "pool_exec (PFree ptr) pool = snd (nv_pool_free pool ptr)"
| "pool_exec PReset pool = nv_pool_reset pool"
| "pool_exec (PExtend m n) pool = snd (nv_pool_extend m pool n)"
| "pool_exec (PShrink n) pool = snd (nv_pool_shrink pool n)"
| "pool_exec PCompact pool = snd (nv_pool_compact pool)"
| "pool_exec PResetStats pool = nv_pool_reset_stats pool"

text \<open>The size an operation asks the allocator for; representable requests with a well-behaved
  \<open>malloc\<close>.\<close>

definition request_ok :: "nv_pool_t \<Rightarrow> block_memory \<Rightarrow> nat \<Rightarrow> bool" where
  "request_ok pool m n \<longleftrightarrow> n + 16 \<le> addr_limit \<and> p_min_size pool + 8 \<le> addr_limit \<and>
     fresh_area pool m (max (nv_pool_align_size n) (nv_pool_align_size (p_min_size pool)))"

fun op_ok :: "nv_pool_t \<Rightarrow> pool_op \<Rightarrow> bool" where
  "op_ok pool (PAlloc m n) = request_ok pool m n"
| "op_ok pool (PCalloc m k n) = request_ok pool m (k * n mod size_max)"
| "op_ok pool (PRealloc m ptr n) = request_ok pool m n"
| "op_ok pool (PAlign m n a) = request_ok pool m (sz_sub (sz_add n a) 1)"
| "op_ok pool (PExtend m n) = request_ok pool m n"
| "op_ok pool _ = True"

definition pool_step :: "nv_pool_t \<Rightarrow> pool_op \<Rightarrow> nv_pool_t \<Rightarrow> bool" where
  "pool_step pool p pool' \<longleftrightarrow> op_ok pool p \<and> pool' = pool_exec p pool"

definition pool_start :: "nv_pool_t \<Rightarrow> bool" where
  "pool_start pool \<longleftrightarrow> (\<exists>hdr mem cfg. 0 < mem \<and> 8 dvd mem \<and>
     mem + nv_pool_align_size (cfg_initial_size cfg) \<le> addr_limit \<and> cfg_initial_size cfg + 8 \<le> addr_limit \<and>
     nv_pool_create True (Some (hdr, mem)) (Some cfg) = Some pool)"

lemma pool_wf_blocks: "all_blocks p = all_blocks q \<Longrightarrow> pool_wf p = pool_wf q"
  by (simp add: pool_wf_def)

lemma free_blocks [simp]: "all_blocks (snd (nv_pool_free pool ptr)) = all_blocks pool"
  by (simp add: nv_pool_free_def nv_pool_block_free_def NV_OK_def split: option.splits)

lemma free_wf: "pool_wf (snd (nv_pool_free pool ptr)) = pool_wf pool"
  by (rule pool_wf_blocks) simp

lemma alloc_wf: "pool_wf pool \<Longrightarrow> request_ok pool m n \<Longrightarrow> pool_wf (snd (nv_pool_alloc m pool n))"
  using nv_pool_alloc_keeps(1)[of pool n m "fst (nv_pool_alloc m pool n)" "snd (nv_pool_alloc m pool n)"]
  by (simp add: request_ok_def)

lemma realloc_wf:
  assumes wf: "pool_wf pool" and ok: "request_ok pool m n"
  shows "pool_wf (fst (snd (nv_pool_realloc m pool ptr n)))"
proof -
  have a: "pool_wf (snd (nv_pool_alloc m pool n))" by (rule alloc_wf[OF wf ok])
  show ?thesis using wf a
    by (auto simp: nv_pool_realloc_def free_wf split: option.splits prod.splits)
qed

lemma reset_block_wf: "block_wf b \<Longrightarrow> block_wf (reset_block b)" "region (reset_block b) = region b"
  "taken (reset_block b) = {}"
  by (auto simp: block_wf_def reset_block_def region_def taken_def)

lemma reset_blocks: "all_blocks (nv_pool_reset pool) = map reset_block (all_blocks pool)"
  by (simp add: all_blocks_def nv_pool_reset_def Let_def)

lemma reset_wf: "pool_wf pool \<Longrightarrow> pool_wf (nv_pool_reset pool)"
  by (auto simp: pool_wf_def blocks_wf_def reset_blocks reset_block_wf comp_def)

lemma reset_live: "live (nv_pool_reset pool) = {}"
  by (simp add: live_def reset_blocks reset_block_wf)

lemma extend_wf:
  assumes wf: "pool_wf pool" and ok: "request_ok pool m n"
  shows "pool_wf (snd (nv_pool_extend m pool n))"
proof (cases "n = 0 \<or> nv_pool_block_create m (nv_pool_align_size n) = None")
  case True
  then show ?thesis using wf by (auto simp: nv_pool_extend_def Let_def)
next
  case False
  then obtain b where b: "nv_pool_block_create m (nv_pool_align_size n) = Some b" by auto
  have sz: "n + 16 \<le> addr_limit" using ok by (simp add: request_ok_def)
  have al: "nv_pool_align_size (nv_pool_align_size n) = nv_pool_align_size n"
    by (rule align_size_fix) (use align_size_props[of n] sz in auto)
  have "fresh_area pool m (nv_pool_align_size (nv_pool_align_size n))"
    unfolding al using ok fresh_area_mono by (fastforce simp: request_ok_def)
  then have "block_wf b" "\<And>c. c \<in> set (all_blocks pool) \<Longrightarrow> region c \<inter> region b = {}"
    using block_create_wf[OF b, of pool] align_size_props[of n] sz by auto
  then have "blocks_wf ([] @ b # all_blocks pool)"
    by (intro blocks_wf_add) (use wf in \<open>auto simp: pool_wf_def\<close>)
  then show ?thesis using False b by (simp add: nv_pool_extend_def Let_def pool_wf_def all_blocks_def)
qed

lemma create_wf: "pool_start pool \<Longrightarrow> pool_wf pool"
proof -
  assume "pool_start pool"
  then obtain hdr mem cfg where c: "0 < mem" "8 dvd mem" "mem + nv_pool_align_size (cfg_initial_size cfg) \<le> addr_limit"
    "cfg_initial_size cfg + 8 \<le> addr_limit" "nv_pool_create True (Some (hdr, mem)) (Some cfg) = Some pool"
    by (auto simp: pool_start_def)
  have e: "sz_add mem (nv_pool_align_size (cfg_initial_size cfg)) = mem + nv_pool_align_size (cfg_initial_size cfg)"
    by (rule sz_add_small) (use c(3) limits in linarith)
  show ?thesis using c align_size_props[OF c(4)]
    by (auto simp: nv_pool_create_def nv_pool_block_create_def Let_def pool_wf_def all_blocks_def blocks_wf_def
        block_wf_def e split: if_splits)
qed

interpretation pool_inv: step_invariant pool_start pool_step pool_wf
proof unfold_locales
  show "pool_wf pool" if "pool_start pool" for pool using that by (rule create_wf)
  show "pool_wf pool'" if wf: "pool_wf pool" and st: "pool_step pool p pool'" for pool p pool'
  proof (cases p)
    case (PCalloc m k n)
    then show ?thesis using alloc_wf[OF wf, of m "k * n mod size_max"] st
      by (auto simp: pool_step_def nv_pool_calloc_def Let_def split: prod.splits option.splits)
  next
    case (PAlign m n a)
    then show ?thesis using alloc_wf[OF wf, of m "sz_sub (sz_add n a) 1"] st
      by (auto simp: pool_step_def nv_pool_align_def split: prod.splits option.splits)
  next
    case PResetStats
    then show ?thesis using wf st
      by (auto simp: pool_step_def nv_pool_reset_stats_def Let_def pool_wf_def all_blocks_def)
  qed (use wf st in \<open>auto simp: pool_step_def alloc_wf realloc_wf reset_wf extend_wf
        free_wf nv_pool_shrink_def nv_pool_compact_def\<close>)
qed

lemma block_errors_wf: "block_wf b \<Longrightarrow> block_errors b = 0"
  by (auto simp: block_errors_def block_wf_def)

lemma wf_validates: "pool_wf pool \<Longrightarrow> nv_pool_validate pool = 0"
  by (auto simp: nv_pool_validate_def pool_wf_def blocks_wf_def all_blocks_def block_errors_wf)

section \<open>Properties\<close>

definition pool_sample :: nv_pool_t where
  "pool_sample = \<lparr>p_blocks = [\<lparr>b_addr = 64, b_size = 16384, b_used = 0, b_start = 4096, b_end = 20480, b_current = 4096\<rparr>],
     p_current = 64, p_large = [], p_max_size = 1048576, p_min_size = 4096,
     p_stats = zero_stats\<lparr>total_blocks := 1, total_size := 16384, free_size := 16384\<rparr>,
     p_auto_extend = True, p_zero_clear = False\<rparr>"

lemma pool_sample_create: "nv_pool_create True (Some (64, 4096)) None = Some pool_sample"
  by (simp add: nv_pool_create_def NV_POOL_CONFIG_DEFAULT_def nv_pool_block_create_def nv_pool_align_size_def
      sz_add_def size_max_def pool_sample_def Let_def)

lemma pool_sample_wf: "pool_wf pool_sample"
  by (simp add: pool_wf_def blocks_wf_def block_wf_def all_blocks_def pool_sample_def addr_limit_def)





text \<open>A request close to the top of the address space wraps around: it succeeds, moves the
  block's cursor backwards, and the next request gets the address of an allocation still in use.\<close>
theorem nv_pool_alloc_wraps:
  "fst (alloc_many [(None, 16), (None, 2 ^ 64 - 16), (None, 16)] pool_sample) =
     [(4096, 16), (4112, 2 ^ 64 - 16), (4096, 16)]"
  by (simp add: pool_sample_def nv_pool_alloc_def alloc_aligned_def nv_pool_align_size_def sz_add_def sz_sub_def
      size_max_def nv_pool_block_alloc_def nv_pool_update_stats_def Let_def)

text \<open>Growing an allocation in place is granted whenever it fits before the end of the block,
  so that it overlaps an allocation made after it.\<close>
theorem nv_pool_realloc_overlaps:
  "(let pool = snd (alloc_many [(None, 8), (None, 8)] pool_sample) in
     fst (alloc_many [(None, 8), (None, 8)] pool_sample) = [(4096, 8), (4104, 8)] \<and>
     fst (nv_pool_realloc None pool 4096 16) = Some 4096 \<and> chunk (4096, 16) \<inter> chunk (4104, 8) \<noteq> {})"
  by (simp add: pool_sample_def nv_pool_alloc_def alloc_aligned_def nv_pool_align_size_def sz_add_def sz_sub_def
      size_max_def nv_pool_block_alloc_def nv_pool_update_stats_def nv_pool_realloc_def owner_def in_block_def
      room_after_def chunk_def Let_def)

text \<open>Resetting the statistics forgets the size of the pool: the total is read after it has been
  cleared, so that a pool of any size reports no memory.\<close>
theorem nv_pool_reset_stats_forgets_size:
  "nv_pool_get_size (Some (nv_pool_reset_stats pool)) = 0 \<and> nv_pool_get_free (Some (nv_pool_reset_stats pool)) = 0"
  by (simp add: nv_pool_reset_stats_def nv_pool_get_size_def nv_pool_get_free_def zero_stats_def Let_def)

end
