(* ===== verification/Nv_Ini.thy ===== *)
theory Nv_Ini
  imports Nv_Interfaces
begin

text \<open>
  The ini reader of \<open>base/nv_ini.c\<close>.  A buffer holds a C string; trimming in
  place is modelled both by the pointer it returns and by what it leaves in the
  buffer, since one caller ignores the pointer.  The lines of a file are what
  \<open>fgets\<close> with a buffer of 1024 bytes returns.  The integer conversions are
  \<open>strtol\<close> with base 0 on 64 bits; \<open>strtod\<close> is an argument.
\<close>

section \<open>Strings\<close>

definition trim :: "cstring \<Rightarrow> cstring" where
  "trim s = rev (dropWhile is_space (rev (dropWhile is_space s)))"

text \<open>The pointer \<open>nv_ini_trim_inplace\<close> returns, and the buffer it leaves behind.\<close>

definition nv_ini_trim_inplace :: "cstring \<Rightarrow> cstring \<times> cstring" where
  "nv_ini_trim_inplace s =
     (let r = dropWhile is_space s in
      if r = [] then (r, s)
      else (rev (dropWhile is_space (rev r)),
            takeWhile is_space s @ rev (dropWhile is_space (rev r))))"

definition nv_ini_strip_comment :: "cstring \<Rightarrow> cstring" where
  "nv_ini_strip_comment line =
     (if CHR '';'' \<in> set line
      then snd (nv_ini_trim_inplace (takeWhile (\<lambda>c. c \<noteq> CHR '';'') line))
      else line)"

section \<open>Entries\<close>

record nv_ini_entry_t =
  e_section :: cstring
  e_key :: cstring
  e_value :: cstring

record nv_ini_t =
  ini_head :: "nv_ini_entry_t list"
  ini_count :: int

definition ini_empty :: nv_ini_t where
  "ini_empty = \<lparr>ini_head = [], ini_count = 0\<rparr>"

definition nv_ini_add_entry :: "bool \<Rightarrow> cstring \<Rightarrow> cstring \<Rightarrow> cstring \<Rightarrow> nv_ini_t \<Rightarrow> int \<times> nv_ini_t" where
  "nv_ini_add_entry alloc_ok sec key value ini =
     (if \<not> alloc_ok then (-1, ini)
      else (0, ini\<lparr>ini_head := \<lparr>e_section = sec, e_key = key, e_value = value\<rparr> # ini_head ini,
                   ini_count := ini_count ini + 1\<rparr>))"

definition nv_ini_find :: "nv_ini_t option \<Rightarrow> cstring option \<Rightarrow> cstring \<Rightarrow> nv_ini_entry_t option" where
  "nv_ini_find ini sec key =
     (let sec = (case sec of Some s \<Rightarrow> s | None \<Rightarrow> '''') in
      case ini of None \<Rightarrow> None
      | Some i \<Rightarrow> find (\<lambda>e. strcaseeq (e_section e) sec \<and> e_key e = key) (ini_head i))"

section \<open>Loading\<close>

text \<open>What successive calls of \<open>fgets\<close> with a buffer of \<open>n + 1\<close> bytes return.\<close>

function fgets_lines :: "nat \<Rightarrow> cstring \<Rightarrow> cstring list" where
  "fgets_lines n s =
     (if s = [] \<or> n = 0 then []
      else
        (let before = takeWhile (\<lambda>c. c \<noteq> CHR 0x0A) s;
             line = (if length before < n then take (length before + 1) s else take n s)
         in line # fgets_lines n (drop (length line) s)))"
  by pat_completeness auto
termination
  by (relation "measure (\<lambda>(n, s). length s)") (auto simp: Let_def split: if_splits)

datatype ini_line =
    Skip
  | SetSection cstring
  | Assign cstring cstring

text \<open>One round of the loop over the lines.\<close>

definition ini_line :: "cstring \<Rightarrow> ini_line" where
  "ini_line line =
     (let p = fst (nv_ini_trim_inplace (nv_ini_strip_comment line)) in
      if p = '''' then Skip
      else if hd p = CHR ''['' then
        (if CHR '']'' \<in> set p
         then (let section = ctrunc 128 (takeWhile (\<lambda>c. c \<noteq> CHR '']'') (tl p))
               in SetSection (snd (nv_ini_trim_inplace section)))
         else Skip)
      else if CHR ''='' \<in> set p then
        (let key = fst (nv_ini_trim_inplace (takeWhile (\<lambda>c. c \<noteq> CHR ''='') p));
             val = fst (nv_ini_trim_inplace (tl (dropWhile (\<lambda>c. c \<noteq> CHR ''='') p)))
         in if key = '''' then Skip else Assign key val)
      else Skip)"

fun load_lines :: "(nat \<Rightarrow> bool) \<Rightarrow> nat \<Rightarrow> cstring list \<Rightarrow> cstring \<Rightarrow> nv_ini_t \<Rightarrow> nv_ini_t" where
  "load_lines alloc_ok n [] section ini = ini"
| "load_lines alloc_ok n (l # ls) section ini =
     (case ini_line l of
        Skip \<Rightarrow> load_lines alloc_ok (n + 1) ls section ini
      | SetSection s \<Rightarrow> load_lines alloc_ok (n + 1) ls s ini
      | Assign key val \<Rightarrow>
          load_lines alloc_ok (n + 1) ls section (snd (nv_ini_add_entry (alloc_ok n) section key val ini)))"

text \<open>\<open>None\<close> is a file that cannot be opened; \<open>alloc_ok n\<close> tells whether the allocations for line
  \<open>n\<close> succeed.\<close>

definition nv_ini_load :: "(nat \<Rightarrow> bool) \<Rightarrow> cstring option \<Rightarrow> nv_ini_t option" where
  "nv_ini_load alloc_ok contents =
     map_option (\<lambda>s. load_lines alloc_ok 0 (fgets_lines 1023 s) '''' ini_empty) contents"

definition nv_ini_free :: "nv_ini_t option \<Rightarrow> nv_ini_entry_t list" where
  "nv_ini_free ini = (case ini of None \<Rightarrow> [] | Some i \<Rightarrow> ini_head i)"

section \<open>Typed access\<close>

definition nv_ini_has_key :: "nv_ini_t option \<Rightarrow> cstring option \<Rightarrow> cstring \<Rightarrow> bool" where
  "nv_ini_has_key ini sec key \<longleftrightarrow> nv_ini_find ini sec key \<noteq> None"

definition nv_ini_get_string :: "nv_ini_t option \<Rightarrow> cstring option \<Rightarrow> cstring \<Rightarrow> cstring option \<Rightarrow> cstring option" where
  "nv_ini_get_string ini sec key dflt =
     (case nv_ini_find ini sec key of Some e \<Rightarrow> Some (e_value e) | None \<Rightarrow> dflt)"

definition nv_ini_get_bool :: "nv_ini_t option \<Rightarrow> cstring option \<Rightarrow> cstring \<Rightarrow> int \<Rightarrow> int" where
  "nv_ini_get_bool ini sec key dflt =
     (case nv_ini_get_string ini sec key None of None \<Rightarrow> dflt
      | Some v \<Rightarrow>
         if strcaseeq v ''true'' \<or> strcaseeq v ''yes'' \<or> strcaseeq v ''on'' \<or> v = ''1'' then 1
         else if strcaseeq v ''false'' \<or> strcaseeq v ''no'' \<or> strcaseeq v ''off'' \<or> v = ''0'' then 0
         else dflt)"

definition digit_val :: "char \<Rightarrow> nat option" where
  "digit_val c =
     (let n = (of_char c :: nat) in
      if 48 \<le> n \<and> n \<le> 57 then Some (n - 48)
      else if 97 \<le> n \<and> n \<le> 122 then Some (n - 87)
      else if 65 \<le> n \<and> n \<le> 90 then Some (n - 55)
      else None)"

fun digits_val :: "nat \<Rightarrow> cstring \<Rightarrow> nat \<Rightarrow> nat" where
  "digits_val base [] acc = acc"
| "digits_val base (c # cs) acc =
     (case digit_val c of
        Some d \<Rightarrow> if d < base then digits_val base cs (acc * base + d) else acc
      | None \<Rightarrow> acc)"

text \<open>\<open>strtol(value, &end, 0)\<close> with a 64-bit \<open>long\<close>: the prefix selects the base and the result
  saturates.\<close>

definition c_strtol :: "cstring \<Rightarrow> int" where
  "c_strtol s =
     (let s = dropWhile is_space s;
          neg = (s \<noteq> [] \<and> hd s = CHR ''-'');
          s = (if s \<noteq> [] \<and> (hd s = CHR ''-'' \<or> hd s = CHR ''+'') then tl s else s);
          hex = (case s of z # x # d # _ \<Rightarrow> z = CHR ''0'' \<and> (x = CHR ''x'' \<or> x = CHR ''X'') \<and>
                             (case digit_val d of Some k \<Rightarrow> k < 16 | None \<Rightarrow> False)
                 | _ \<Rightarrow> False);
          base = (if hex then 16 else if s \<noteq> [] \<and> hd s = CHR ''0'' then 8 else 10);
          v = int (digits_val base (if hex then drop 2 s else s) 0);
          v = (if neg then - v else v)
      in max (- (2 ^ 63)) (min (2 ^ 63 - 1) v))"

text \<open>The conversion of a \<open>long\<close> to \<open>int\<close>.\<close>

definition to_int :: "int \<Rightarrow> int" where
  "to_int v = (v + 2 ^ 31) mod 2 ^ 32 - 2 ^ 31"

definition nv_ini_get_int :: "nv_ini_t option \<Rightarrow> cstring option \<Rightarrow> cstring \<Rightarrow> int \<Rightarrow> int" where
  "nv_ini_get_int ini sec key dflt =
     (case nv_ini_get_string ini sec key None of None \<Rightarrow> dflt | Some v \<Rightarrow> to_int (c_strtol v))"

definition nv_ini_get_int64 :: "nv_ini_t option \<Rightarrow> cstring option \<Rightarrow> cstring \<Rightarrow> int \<Rightarrow> int" where
  "nv_ini_get_int64 ini sec key dflt =
     (case nv_ini_get_string ini sec key None of None \<Rightarrow> dflt | Some v \<Rightarrow> c_strtol v)"

definition nv_ini_get_double :: "(cstring \<Rightarrow> 'd) \<Rightarrow> nv_ini_t option \<Rightarrow> cstring option \<Rightarrow> cstring \<Rightarrow> 'd \<Rightarrow> 'd" where
  "nv_ini_get_double strtod ini sec key dflt =
     (case nv_ini_get_string ini sec key None of None \<Rightarrow> dflt | Some v \<Rightarrow> strtod v)"

declare fgets_lines.simps [simp del]

section \<open>The file as a keyed store\<close>

definition ini_norm :: "cstring \<times> cstring \<Rightarrow> cstring \<times> cstring" where
  "ini_norm k = (map to_lower (fst k), snd k)"

definition ini_lookup :: "nv_ini_t \<Rightarrow> cstring \<times> cstring \<Rightarrow> cstring option" where
  "ini_lookup i k = nv_ini_get_string (Some i) (Some (fst k)) (snd k) None"

definition ini_upd :: "cstring \<times> cstring \<Rightarrow> cstring \<Rightarrow> nv_ini_t \<Rightarrow> nv_ini_t" where
  "ini_upd k v i = snd (nv_ini_add_entry True (fst k) (snd k) v i)"

definition ini_inv :: "nv_ini_t \<Rightarrow> bool" where
  "ini_inv i \<longleftrightarrow> ini_count i = int (length (ini_head i))"

lemma ini_lookup_upd: "ini_lookup (ini_upd k v i) k' = (if ini_norm k' = ini_norm k then Some v else ini_lookup i k')"
  by (cases k; cases k')
     (auto simp: ini_lookup_def ini_upd_def ini_norm_def nv_ini_get_string_def nv_ini_find_def
       nv_ini_add_entry_def strcaseeq_def split: option.splits)

lemma ini_upd_head:
  "ini_head (ini_upd k v i) = \<lparr>e_section = fst k, e_key = snd k, e_value = v\<rparr> # ini_head i"
  by (simp add: ini_upd_def nv_ini_add_entry_def)

lemma ini_inv_upd: "ini_inv i \<Longrightarrow> ini_inv (ini_upd k v i)"
  by (simp add: ini_inv_def ini_upd_def nv_ini_add_entry_def)

interpretation ini: keyed_store ini_norm ini_inv ini_lookup ini_upd
  by unfold_locales (simp_all add: ini_lookup_upd ini_inv_upd)

text \<open>The assignments of a file in order, each under the section in force.\<close>

fun ini_events :: "cstring list \<Rightarrow> cstring \<Rightarrow> ((cstring \<times> cstring) \<times> cstring) list" where
  "ini_events [] section = []"
| "ini_events (l # ls) section =
     (case ini_line l of
        Skip \<Rightarrow> ini_events ls section
      | SetSection s \<Rightarrow> ini_events ls s
      | Assign key val \<Rightarrow> ((section, key), val) # ini_events ls section)"

lemma load_lines_upds: "load_lines (\<lambda>_. True) n ls sec i = ini.upds (ini_events ls sec) i"
  by (induction ls arbitrary: n sec i) (auto simp: ini_upd_def split: ini_line.split)

lemma ini_inv_empty: "ini_inv ini_empty" "ini_lookup ini_empty k = None"
  by (auto simp: ini_inv_def ini_empty_def ini_lookup_def nv_ini_get_string_def nv_ini_find_def Let_def)

lemma get_string_lookup: "nv_ini_get_string (Some i) (Some sec) key dflt =
    (case ini_lookup i (sec, key) of Some v \<Rightarrow> Some v | None \<Rightarrow> dflt)"
  by (auto simp: ini_lookup_def nv_ini_get_string_def split: option.splits)

section \<open>Well-formed lines\<close>

definition trimmed :: "cstring \<Rightarrow> bool" where
  "trimmed s \<longleftrightarrow> s = '''' \<or> (\<not> is_space (hd s) \<and> \<not> is_space (last s))"

lemma dropWhile_hd: "s \<noteq> [] \<Longrightarrow> \<not> P (hd s) \<Longrightarrow> dropWhile P s = s"
  by (cases s) auto

lemma trim_id: "trimmed s \<Longrightarrow> nv_ini_trim_inplace s = (s, s)"
proof (cases "s = ''''")
  case False
  assume "trimmed s"
  with False have h: "\<not> is_space (hd s)" "\<not> is_space (last s)" by (auto simp: trimmed_def)
  have "dropWhile is_space (rev s) = rev s" by (rule dropWhile_hd) (use False h in \<open>auto simp: hd_rev\<close>)
  moreover have "takeWhile is_space s = []" using False h by (simp add: takeWhile_eq_Nil_iff)
  moreover have "dropWhile is_space s = s" by (rule dropWhile_hd) (use False h in auto)
  ultimately show ?thesis using False by (simp add: nv_ini_trim_inplace_def Let_def)
qed (simp add: nv_ini_trim_inplace_def)

lemma trim_newline: "trimmed s \<Longrightarrow> s \<noteq> '''' \<Longrightarrow> fst (nv_ini_trim_inplace (s @ [CHR 0x0A])) = s"
proof -
  assume t: "trimmed s" "s \<noteq> ''''"
  have "dropWhile is_space (s @ [CHR 0x0A]) = s @ [CHR 0x0A]"
    by (rule dropWhile_hd) (use t in \<open>auto simp: trimmed_def\<close>)
  moreover have "dropWhile is_space (rev s) = rev s"
    by (rule dropWhile_hd) (use t in \<open>auto simp: trimmed_def hd_rev\<close>)
  ultimately show ?thesis by (simp add: nv_ini_trim_inplace_def Let_def) (simp add: is_space_def)
qed

lemma strip_no_comment: "CHR '';'' \<notin> set s \<Longrightarrow> nv_ini_strip_comment s = s"
  by (simp add: nv_ini_strip_comment_def)

lemma takeWhile_sep: "c \<notin> set a \<Longrightarrow> takeWhile (\<lambda>x. x \<noteq> c) (a @ c # b) = a"
  "c \<notin> set a \<Longrightarrow> dropWhile (\<lambda>x. x \<noteq> c) (a @ c # b) = c # b"
  by (induction a) auto

definition key_ok :: "cstring \<Rightarrow> bool" where
  "key_ok k \<longleftrightarrow> k \<noteq> '''' \<and> trimmed k \<and> hd k \<noteq> CHR ''['' \<and>
     set k \<inter> {CHR ''='', CHR '';'', CHR 0x0A} = {} \<and> length k < 400"

definition value_ok :: "cstring \<Rightarrow> bool" where
  "value_ok v \<longleftrightarrow> trimmed v \<and> set v \<inter> {CHR '';'', CHR 0x0A} = {} \<and> length v < 400"

definition section_ok :: "cstring \<Rightarrow> bool" where
  "section_ok s \<longleftrightarrow> trimmed s \<and> set s \<inter> {CHR '']'', CHR '';'', CHR 0x0A} = {} \<and> length s < 127"

lemma ini_line_assign:
  assumes "key_ok k" "value_ok v"
  shows "ini_line (k @ ''='' @ v @ [CHR 0x0A]) = Assign k v"
proof -
  let ?p = "k @ ''='' @ v"
  have t: "trimmed ?p" "?p \<noteq> ''''"
    using assms by (auto simp: key_ok_def value_ok_def trimmed_def is_space_def)
  have p: "fst (nv_ini_trim_inplace (nv_ini_strip_comment (?p @ [CHR 0x0A]))) = ?p"
    using trim_newline[OF t] assms by (subst strip_no_comment) (auto simp: key_ok_def value_ok_def)
  have kv: "takeWhile (\<lambda>c. c \<noteq> CHR ''='') ?p = k" "tl (dropWhile (\<lambda>c. c \<noteq> CHR ''='') ?p) = v"
    using assms takeWhile_sep[of "CHR ''=''" k v] by (auto simp: key_ok_def)
  have "hd ?p \<noteq> CHR ''[''" using assms by (auto simp: key_ok_def)
  then show ?thesis using p t(2) kv trim_id[of k] trim_id[of v] assms
    by (auto simp: ini_line_def Let_def key_ok_def value_ok_def)
qed

lemma ini_line_section:
  assumes "section_ok s"
  shows "ini_line (''['' @ s @ '']'' @ [CHR 0x0A]) = SetSection s"
proof -
  let ?p = "''['' @ s @ '']''"
  have t: "trimmed ?p" "?p \<noteq> ''''" by (auto simp: trimmed_def is_space_def)
  have p: "fst (nv_ini_trim_inplace (nv_ini_strip_comment (?p @ [CHR 0x0A]))) = ?p"
    using trim_newline[OF t] assms by (subst strip_no_comment) (auto simp: section_ok_def)
  have "takeWhile (\<lambda>c. c \<noteq> CHR '']'') (s @ '']'') = s"
    using assms takeWhile_sep[of "CHR '']''" s "[]"] by (auto simp: section_ok_def)
  then show ?thesis using p trim_id[of s] assms
    by (auto simp: ini_line_def Let_def section_ok_def ctrunc_id)
qed

lemma fgets_line: "CHR 0x0A \<notin> set l \<Longrightarrow> length l < n \<Longrightarrow>
    fgets_lines n (l @ CHR 0x0A # rest) = (l @ [CHR 0x0A]) # fgets_lines n rest"
  by (subst fgets_lines.simps) (simp add: takeWhile_sep Let_def)

section \<open>Properties\<close>

definition ini_value :: "cstring \<Rightarrow> cstring \<Rightarrow> cstring \<Rightarrow> cstring option" where
  "ini_value s sec key = map_of (rev (map (\<lambda>(k, v). (ini_norm k, v)) (ini_events (fgets_lines 1023 s) ''''))) (ini_norm (sec, key))"

lemma get_string_loaded:
  "nv_ini_get_string (nv_ini_load (\<lambda>_. True) (Some s)) (Some sec) key dflt =
     (case ini_value s sec key of Some v \<Rightarrow> Some v | None \<Rightarrow> dflt)"
  using ini.lookup_upds[OF ini_inv_empty(1), of "ini_events (fgets_lines 1023 s) ''''" "(sec, key)"]
  by (simp add: ini_value_def nv_ini_load_def load_lines_upds get_string_lookup ini_inv_empty(2) split: option.splits)

text \<open>C25.  A lookup in a loaded file returns the value of the last assignment to that key in that
  section, the section compared without case, and the default when there is none.\<close>
theorem nv_ini_last_assignment_wins:
  "nv_ini_get_string (nv_ini_load (\<lambda>_. True) (Some s)) (Some sec) key dflt =
     (case map_of (rev (map (\<lambda>(k, v). (ini_norm k, v)) (ini_events (fgets_lines 1023 s) ''''))) (ini_norm (sec, key)) of
        Some v \<Rightarrow> Some v | None \<Rightarrow> dflt)"
  by (simp add: get_string_loaded ini_value_def)

text \<open>The text of a list of assignments, each under its own section header.\<close>

fun ini_render :: "((cstring \<times> cstring) \<times> cstring) list \<Rightarrow> cstring" where
  "ini_render [] = ''''"
| "ini_render (((sec, key), v) # es) =
     (''['' @ sec @ '']'') @ CHR 0x0A # (key @ ''='' @ v) @ CHR 0x0A # ini_render es"

definition entry_ok :: "(cstring \<times> cstring) \<times> cstring \<Rightarrow> bool" where
  "entry_ok e \<longleftrightarrow> section_ok (fst (fst e)) \<and> key_ok (snd (fst e)) \<and> value_ok (snd e)"

lemma ini_events_render: "list_all entry_ok es \<Longrightarrow> ini_events (fgets_lines 1023 (ini_render es)) sec = es"
proof (induction es arbitrary: sec rule: ini_render.induct)
  case 1
  then show ?case by (simp add: fgets_lines.simps)
next
  case (2 s k v es)
  then have ok: "section_ok s" "key_ok k" "value_ok v" by (auto simp: entry_ok_def)
  have a: "CHR 0x0A \<notin> set (''['' @ s @ '']'')" "length (''['' @ s @ '']'') < 1023"
    using ok by (auto simp: section_ok_def)
  have b: "CHR 0x0A \<notin> set (k @ ''='' @ v)" "length (k @ ''='' @ v) < 1023"
    using ok by (auto simp: key_ok_def value_ok_def)
  have "fgets_lines 1023 (ini_render (((s, k), v) # es)) =
      ((''['' @ s @ '']'') @ [CHR 0x0A]) # ((k @ ''='' @ v) @ [CHR 0x0A]) # fgets_lines 1023 (ini_render es)"
    unfolding ini_render.simps fgets_line[OF a] fgets_line[OF b] by (rule refl)
  then show ?case using ini_line_section[OF ok(1)] ini_line_assign[OF ok(2,3)] 2 by simp
qed

text \<open>C26.  Reading back a rendered list of assignments yields exactly these assignments, in order:
  every well-formed section, key and value survives the round trip.\<close>
theorem nv_ini_render_roundtrip:
  assumes "list_all entry_ok es"
  shows "map (\<lambda>e. ((e_section e, e_key e), e_value e)) (nv_ini_free (nv_ini_load (\<lambda>_. True) (Some (ini_render es)))) = rev es"
proof -
  have "map (\<lambda>e. ((e_section e, e_key e), e_value e)) (ini_head (ini.upds es i)) =
      rev es @ map (\<lambda>e. ((e_section e, e_key e), e_value e)) (ini_head i)" for i
    by (induction es i rule: ini.upds.induct) (auto simp: ini_upd_head)
  then show ?thesis using ini_events_render[OF assms, of "''''"]
    by (simp add: nv_ini_load_def nv_ini_free_def load_lines_upds ini_empty_def)
qed

theorem nv_ini_render_roundtrip_witness:
  "list_all entry_ok [((''net'', ''port''), ''8080''), ((''net'', ''host''), ''a=b'')] \<and>
   map (\<lambda>e. ((e_section e, e_key e), e_value e))
     (nv_ini_free (nv_ini_load (\<lambda>_. True) (Some (ini_render [((''net'', ''port''), ''8080''), ((''net'', ''host''), ''a=b'')])))) =
   [((''net'', ''host''), ''a=b''), ((''net'', ''port''), ''8080'')]"
proof -
  have "list_all entry_ok [((''net'', ''port''), ''8080''), ((''net'', ''host''), ''a=b'')]"
    by (simp add: entry_ok_def section_ok_def key_ok_def value_ok_def trimmed_def is_space_def)
  then show ?thesis using nv_ini_render_roundtrip by fastforce
qed

text \<open>A blank after the opening bracket becomes part of the section's name, because the pointer
  that trimming returns is dropped there: the keys of the section are then not found under its name.\<close>
theorem nv_ini_section_blank_kept:
  "nv_ini_get_string (nv_ini_load (\<lambda>_. True) (Some (''[ net]'' @ [CHR 0x0A] @ ''port=1''))) (Some ''net'') ''port'' None = None \<and>
   nv_ini_get_string (nv_ini_load (\<lambda>_. True) (Some (''[ net]'' @ [CHR 0x0A] @ ''port=1''))) (Some '' net'') ''port'' None = Some ''1''"
  by code_simp

end
