(* ===== verification/Nv_Event.thy ===== *)
theory Nv_Event
  imports Nv_Store
begin

text \<open>
  Events (\<open>event/nv_event.c\<close>) and the state of an event loop
  (\<open>event/nv_loop.h\<close>).  Events live in the store, linked through their \<open>next\<close> and
  \<open>prev\<close> fields; \<open>ev_loop\<close> tells whether the event's loop pointer is set.  A handler
  is a value of the type \<open>'h\<close>; what it does is given by an interpreter passed to
  the operations that call handlers.  The clock is an argument: the monotonic
  time in milliseconds.  The state also records, in call order, the events whose
  handlers have been called.
\<close>

section \<open>Types\<close>

definition NV_EVENT_READ :: nat where "NV_EVENT_READ = 0x0001"
definition NV_EVENT_WRITE :: nat where "NV_EVENT_WRITE = 0x0002"
definition NV_EVENT_ERROR :: nat where "NV_EVENT_ERROR = 0x0004"
definition NV_EVENT_HUP :: nat where "NV_EVENT_HUP = 0x0008"
definition NV_EVENT_TIMER :: nat where "NV_EVENT_TIMER = 0x0010"
definition NV_EVENT_IDLE :: nat where "NV_EVENT_IDLE = 0x0040"

datatype nv_event_type_t = NV_EVENT_TYPE_IO | NV_EVENT_TYPE_TIMER | NV_EVENT_TYPE_SIGNAL | NV_EVENT_TYPE_IDLE

datatype nv_event_priority_t = NV_EVENT_PRIO_LOW | NV_EVENT_PRIO_NORMAL | NV_EVENT_PRIO_HIGH | NV_EVENT_PRIO_URGENT

fun prio_val :: "nv_event_priority_t \<Rightarrow> nat" where
  "prio_val NV_EVENT_PRIO_LOW = 0"
| "prio_val NV_EVENT_PRIO_NORMAL = 1"
| "prio_val NV_EVENT_PRIO_HIGH = 2"
| "prio_val NV_EVENT_PRIO_URGENT = 3"

record 'h nv_event_ext_t =
  ev_fd :: int
  ev_events :: nat
  ev_revents :: nat
  ev_active :: bool
  ev_handler :: "'h option"
  ev_timeout_ms :: nat
  ev_expire_time :: nat
  ev_next :: addr
  ev_prev :: addr
  ev_loop :: bool
  ev_type :: nv_event_type_t
  ev_priority :: nv_event_priority_t
  ev_trigger_count :: nat
  ev_last_trigger :: nat

datatype nv_loop_state_t = NV_LOOP_INIT | NV_LOOP_RUNNING | NV_LOOP_STOPPING | NV_LOOP_STOPPED

record loop_stats =
  events_processed :: nat
  timers_processed :: nat
  signals_processed :: nat
  idle_events_processed :: nat

record 'h nv_loop_t =
  l_epoll_fd :: int
  l_max_events :: int
  l_state :: nv_loop_state_t
  l_epoll :: "(int \<times> nat \<times> addr) list"
  l_timers_head :: addr
  l_next_timeout :: nat
  l_idle_head :: addr
  l_signals :: "(int \<times> addr) list"
  l_stats :: loop_stats
  l_signalfd_fd :: int
  l_signalfd_ev :: addr
  l_wakeup_inited :: bool
  l_wakeup_bytes :: nat
  l_mem :: "'h nv_event_ext_t store"
  l_calls :: "addr list"

text \<open>\<open>unsigned long\<close> values wrap at 64 bits.\<close>

definition ulong :: "nat \<Rightarrow> nat" where "ulong n = n mod 2 ^ 64"

definition ev_upd :: "addr \<Rightarrow> ('h nv_event_ext_t \<Rightarrow> 'h nv_event_ext_t) \<Rightarrow> 'h nv_loop_t \<Rightarrow> 'h nv_loop_t option" where
  "ev_upd p f s = map_option (\<lambda>m. s\<lparr>l_mem := m\<rparr>) (store_upd p f (l_mem s))"

section \<open>Operations on one event\<close>

text \<open>A NULL handler is refused; otherwise every field is set.\<close>

definition nv_event_init :: "'h option \<Rightarrow> 'h nv_event_ext_t \<Rightarrow> int \<times> 'h nv_event_ext_t" where
  "nv_event_init handler ev =
     (case handler of None \<Rightarrow> (-1, ev)
      | Some h \<Rightarrow>
         (0, \<lparr>ev_fd = -1, ev_events = 0, ev_revents = 0, ev_active = False, ev_handler = Some h,
              ev_timeout_ms = 0, ev_expire_time = 0, ev_next = NULL, ev_prev = NULL, ev_loop = False,
              ev_type = NV_EVENT_TYPE_IO, ev_priority = NV_EVENT_PRIO_NORMAL,
              ev_trigger_count = 0, ev_last_trigger = 0\<rparr>))"

definition nv_event_set_fd :: "int \<Rightarrow> 'h nv_event_ext_t \<Rightarrow> int \<times> 'h nv_event_ext_t" where
  "nv_event_set_fd fd ev = (0, ev\<lparr>ev_fd := fd\<rparr>)"

definition nv_event_set_events :: "nat \<Rightarrow> 'h nv_event_ext_t \<Rightarrow> int \<times> 'h nv_event_ext_t" where
  "nv_event_set_events events ev = (0, ev\<lparr>ev_events := events\<rparr>)"

definition nv_event_set_priority :: "nv_event_priority_t \<Rightarrow> 'h nv_event_ext_t \<Rightarrow> int \<times> 'h nv_event_ext_t" where
  "nv_event_set_priority priority ev =
     (if prio_val priority \<ge> prio_val NV_EVENT_PRIO_URGENT then (-1, ev)
      else (0, ev\<lparr>ev_priority := priority\<rparr>))"

definition nv_event_set_timeout :: "nat \<Rightarrow> nat \<Rightarrow> 'h nv_event_ext_t \<Rightarrow> int \<times> 'h nv_event_ext_t" where
  "nv_event_set_timeout now timeout_ms ev =
     (0, if timeout_ms > 0
         then ev\<lparr>ev_timeout_ms := timeout_ms, ev_type := NV_EVENT_TYPE_TIMER,
                 ev_expire_time := ulong (now + timeout_ms)\<rparr>
         else ev\<lparr>ev_timeout_ms := timeout_ms\<rparr>)"

definition nv_event_is_active :: "'h nv_event_ext_t \<Rightarrow> bool" where
  "nv_event_is_active ev = ev_active ev"

definition nv_event_is_pending :: "'h nv_event_ext_t \<Rightarrow> bool" where
  "nv_event_is_pending ev \<longleftrightarrow> ev_active ev \<and> ev_revents ev \<noteq> 0"

definition nv_event_get_fd :: "'h nv_event_ext_t option \<Rightarrow> int" where
  "nv_event_get_fd ev = (case ev of Some e \<Rightarrow> ev_fd e | None \<Rightarrow> -1)"

definition nv_event_get_events :: "'h nv_event_ext_t option \<Rightarrow> nat" where
  "nv_event_get_events ev = (case ev of Some e \<Rightarrow> ev_events e | None \<Rightarrow> 0)"

definition nv_event_is_expired :: "nat \<Rightarrow> 'h nv_event_ext_t \<Rightarrow> bool" where
  "nv_event_is_expired now ev \<longleftrightarrow> ev_type ev = NV_EVENT_TYPE_TIMER \<and> now \<ge> ev_expire_time ev"

definition nv_event_get_remaining_time :: "nat \<Rightarrow> 'h nv_event_ext_t \<Rightarrow> nat" where
  "nv_event_get_remaining_time now ev =
     (if ev_type ev \<noteq> NV_EVENT_TYPE_TIMER then 0
      else if now \<ge> ev_expire_time ev then 0
      else ev_expire_time ev - now)"

text \<open>The handler runs only when the event belongs to a loop.\<close>

type_synonym 'h handlers = "'h \<Rightarrow> addr \<Rightarrow> 'h nv_loop_t \<Rightarrow> 'h nv_loop_t option"

definition nv_event_trigger :: "'h handlers \<Rightarrow> nat \<Rightarrow> addr \<Rightarrow> nat \<Rightarrow> 'h nv_loop_t \<Rightarrow> 'h nv_loop_t option" where
  "nv_event_trigger call now p revents s =
     (case l_mem s p of None \<Rightarrow> None
      | Some ev \<Rightarrow>
         (case ev_handler ev of None \<Rightarrow> Some s
          | Some h \<Rightarrow>
             (let ev' = ev\<lparr>ev_revents := revents, ev_trigger_count := ulong (ev_trigger_count ev + 1),
                           ev_last_trigger := now\<rparr>;
                  s' = s\<lparr>l_mem := (l_mem s)(p \<mapsto> ev')\<rparr>
              in if ev_loop ev then call h p (s'\<lparr>l_calls := l_calls s' @ [p]\<rparr>) else Some s')))"

lemma remaining_expired: "ev_type ev = NV_EVENT_TYPE_TIMER \<Longrightarrow>
    nv_event_get_remaining_time now ev = 0 \<longleftrightarrow> nv_event_is_expired now ev"
  by (simp add: nv_event_get_remaining_time_def nv_event_is_expired_def)

end
