(* ===== verification/Nv_Loop.thy ===== *)
theory Nv_Loop
  imports Nv_Event Nv_Interfaces "HOL-Library.Monad_Syntax"
begin

text \<open>
  The event loop (\<open>event/nv_loop.c\<close>): the doubly linked timer and idle lists, the
  set of descriptors registered with epoll, the signal table, and the rounds of
  \<open>nv_loop_run\<close>.  What \<open>epoll_ctl\<close>, \<open>epoll_wait\<close>, \<open>pipe\<close> and the clock return
  are arguments.  Walks over the lists are partial functions: \<open>None\<close> stands for a
  dangling pointer or a walk that never ends.
\<close>

section \<open>List primitives\<close>

definition nv_loop_add_event_to_list :: "addr \<Rightarrow> addr \<Rightarrow> 'h nv_loop_t \<Rightarrow> (addr \<times> 'h nv_loop_t) option" where
  "nv_loop_add_event_to_list head ev s = do {
     s \<leftarrow> ev_upd ev (\<lambda>e. e\<lparr>ev_next := head, ev_prev := NULL\<rparr>) s;
     s \<leftarrow> (if head \<noteq> NULL then ev_upd head (\<lambda>e. e\<lparr>ev_prev := ev\<rparr>) s else Some s);
     Some (ev, s) }"

definition nv_loop_remove_event_from_list :: "addr \<Rightarrow> addr \<Rightarrow> 'h nv_loop_t \<Rightarrow> (addr \<times> 'h nv_loop_t) option" where
  "nv_loop_remove_event_from_list head ev s = do {
     e \<leftarrow> l_mem s ev;
     (head, s) \<leftarrow> (if ev_prev e \<noteq> NULL
                   then map_option (Pair head) (ev_upd (ev_prev e) (\<lambda>n. n\<lparr>ev_next := ev_next e\<rparr>) s)
                   else Some (ev_next e, s));
     e \<leftarrow> l_mem s ev;
     s \<leftarrow> (if ev_next e \<noteq> NULL then ev_upd (ev_next e) (\<lambda>n. n\<lparr>ev_prev := ev_prev e\<rparr>) s else Some s);
     s \<leftarrow> ev_upd ev (\<lambda>n. n\<lparr>ev_next := NULL, ev_prev := NULL\<rparr>) s;
     Some (head, s) }"

section \<open>Timers and idle events\<close>

definition lower_timeout :: "nat \<Rightarrow> 'h nv_loop_t \<Rightarrow> 'h nv_loop_t" where
  "lower_timeout t s = (if l_next_timeout s = 0 \<or> t < l_next_timeout s then s\<lparr>l_next_timeout := t\<rparr> else s)"

definition nv_loop_add_timer :: "nat \<Rightarrow> addr \<Rightarrow> nat \<Rightarrow> 'h nv_loop_t \<Rightarrow> 'h nv_loop_t option" where
  "nv_loop_add_timer now ev timeout_ms s = do {
     s \<leftarrow> ev_upd ev (\<lambda>e. e\<lparr>ev_type := NV_EVENT_TYPE_TIMER, ev_timeout_ms := timeout_ms, ev_loop := True,
                           ev_expire_time := ulong (now + timeout_ms)\<rparr>) s;
     (head, s) \<leftarrow> nv_loop_add_event_to_list (l_timers_head s) ev s;
     Some (lower_timeout (ulong (now + timeout_ms)) (s\<lparr>l_timers_head := head\<rparr>)) }"

definition nv_loop_del_timer :: "addr \<Rightarrow> 'h nv_loop_t \<Rightarrow> 'h nv_loop_t option" where
  "nv_loop_del_timer ev s = do {
     (head, s) \<leftarrow> nv_loop_remove_event_from_list (l_timers_head s) ev s;
     ev_upd ev (\<lambda>e. e\<lparr>ev_loop := False\<rparr>) (s\<lparr>l_timers_head := head\<rparr>) }"

definition nv_loop_modify_timer :: "nat \<Rightarrow> addr \<Rightarrow> nat \<Rightarrow> 'h nv_loop_t \<Rightarrow> 'h nv_loop_t option" where
  "nv_loop_modify_timer now ev timeout_ms s = do {
     (head, s) \<leftarrow> nv_loop_remove_event_from_list (l_timers_head s) ev s;
     s \<leftarrow> ev_upd ev (\<lambda>e. e\<lparr>ev_timeout_ms := timeout_ms, ev_expire_time := ulong (now + timeout_ms)\<rparr>)
            (s\<lparr>l_timers_head := head\<rparr>);
     (head, s) \<leftarrow> nv_loop_add_event_to_list (l_timers_head s) ev s;
     Some (lower_timeout (ulong (now + timeout_ms)) (s\<lparr>l_timers_head := head\<rparr>)) }"

definition nv_loop_add_idle :: "addr \<Rightarrow> 'h nv_loop_t \<Rightarrow> 'h nv_loop_t option" where
  "nv_loop_add_idle ev s = do {
     s \<leftarrow> ev_upd ev (\<lambda>e. e\<lparr>ev_type := NV_EVENT_TYPE_IDLE, ev_loop := True\<rparr>) s;
     (head, s) \<leftarrow> nv_loop_add_event_to_list (l_idle_head s) ev s;
     Some (s\<lparr>l_idle_head := head\<rparr>) }"

definition nv_loop_del_idle :: "addr \<Rightarrow> 'h nv_loop_t \<Rightarrow> 'h nv_loop_t option" where
  "nv_loop_del_idle ev s = do {
     (head, s) \<leftarrow> nv_loop_remove_event_from_list (l_idle_head s) ev s;
     ev_upd ev (\<lambda>e. e\<lparr>ev_loop := False\<rparr>) (s\<lparr>l_idle_head := head\<rparr>) }"

section \<open>Descriptors\<close>

text \<open>\<open>ok\<close> is the success of \<open>epoll_ctl\<close>.\<close>

definition nv_loop_add_event :: "bool \<Rightarrow> addr \<Rightarrow> nat \<Rightarrow> 'h nv_loop_t \<Rightarrow> (int \<times> 'h nv_loop_t) option" where
  "nv_loop_add_event ok ev events s =
     (if l_epoll_fd s = -1 then Some (-1, s)
      else do {
        s \<leftarrow> ev_upd ev (\<lambda>e. e\<lparr>ev_loop := True, ev_events := events, ev_active := True\<rparr>) s;
        e \<leftarrow> l_mem s ev;
        if ok then Some (0, s\<lparr>l_epoll := (ev_fd e, events, ev) # l_epoll s\<rparr>) else Some (-1, s) })"

definition nv_loop_del_event :: "addr \<Rightarrow> 'h nv_loop_t \<Rightarrow> (int \<times> 'h nv_loop_t) option" where
  "nv_loop_del_event ev s =
     (if l_epoll_fd s = -1 then Some (-1, s)
      else do {
        e \<leftarrow> l_mem s ev;
        let s = (if ev_active e \<and> ev_fd e \<noteq> -1
                 then s\<lparr>l_epoll := filter (\<lambda>(fd, _, _). fd \<noteq> ev_fd e) (l_epoll s)\<rparr> else s);
        s \<leftarrow> ev_upd ev (\<lambda>e. e\<lparr>ev_active := False, ev_loop := False\<rparr>) s;
        Some (0, s) })"

definition nv_loop_modify_event :: "bool \<Rightarrow> addr \<Rightarrow> nat \<Rightarrow> 'h nv_loop_t \<Rightarrow> (int \<times> 'h nv_loop_t) option" where
  "nv_loop_modify_event ok ev events s =
     (if l_epoll_fd s = -1 then Some (-1, s)
      else do {
        s \<leftarrow> ev_upd ev (\<lambda>e. e\<lparr>ev_events := events\<rparr>) s;
        e \<leftarrow> l_mem s ev;
        if ev_active e \<and> ev_fd e \<noteq> -1 then
          (if ok then Some (0, s\<lparr>l_epoll := map (\<lambda>(fd, x, p). if fd = ev_fd e then (fd, events, ev) else (fd, x, p)) (l_epoll s)\<rparr>)
           else Some (-1, s))
        else Some (0, s) })"

definition nv_event_cleanup :: "addr \<Rightarrow> 'h nv_loop_t \<Rightarrow> 'h nv_loop_t option" where
  "nv_event_cleanup ev s = do {
     e \<leftarrow> l_mem s ev;
     s \<leftarrow> (if ev_loop e \<and> ev_active e \<and> ev_fd e \<ge> 0
          then map_option snd (nv_loop_del_event ev s) else Some s);
     e \<leftarrow> l_mem s ev;
     s \<leftarrow> (if ev_next e \<noteq> NULL then ev_upd (ev_next e) (\<lambda>n. n\<lparr>ev_prev := ev_prev e\<rparr>) s else Some s);
     e \<leftarrow> l_mem s ev;
     s \<leftarrow> (if ev_prev e \<noteq> NULL then ev_upd (ev_prev e) (\<lambda>n. n\<lparr>ev_next := ev_next e\<rparr>) s else Some s);
     ev_upd ev (\<lambda>n. n\<lparr>ev_next := NULL, ev_prev := NULL, ev_fd := -1, ev_events := 0, ev_revents := 0,
                      ev_active := False, ev_handler := None\<rparr>) s }"

section \<open>Signals\<close>

text \<open>\<open>ok\<close> tells whether both reallocations succeed.\<close>

definition nv_loop_add_signal :: "bool \<Rightarrow> addr \<Rightarrow> int \<Rightarrow> 'h nv_loop_t \<Rightarrow> (int \<times> 'h nv_loop_t) option" where
  "nv_loop_add_signal ok ev signo s = do {
     s \<leftarrow> ev_upd ev (\<lambda>e. e\<lparr>ev_type := NV_EVENT_TYPE_SIGNAL, ev_loop := True\<rparr>) s;
     if ok then Some (0, s\<lparr>l_signals := l_signals s @ [(signo, ev)]\<rparr>) else Some (-1, s) }"

fun drop_first :: "('a \<Rightarrow> bool) \<Rightarrow> 'a list \<Rightarrow> 'a list option" where
  "drop_first P [] = None"
| "drop_first P (x # xs) = (if P x then Some xs else map_option (Cons x) (drop_first P xs))"

definition nv_loop_del_signal :: "addr \<Rightarrow> 'h nv_loop_t \<Rightarrow> (int \<times> 'h nv_loop_t) option" where
  "nv_loop_del_signal ev s =
     (case drop_first (\<lambda>(_, p). p = ev) (l_signals s) of
        None \<Rightarrow> Some (-1, s)
      | Some sigs \<Rightarrow> map_option (Pair 0) (ev_upd ev (\<lambda>e. e\<lparr>ev_loop := False\<rparr>) (s\<lparr>l_signals := sigs\<rparr>)))"

definition nv_loop_ignore_signal :: "int \<Rightarrow> 'h nv_loop_t \<Rightarrow> int \<times> 'h nv_loop_t" where
  "nv_loop_ignore_signal signo s =
     (case drop_first (\<lambda>(n, _). n = signo) (l_signals s) of
        None \<Rightarrow> (-1, s)
      | Some sigs \<Rightarrow> (0, s\<lparr>l_signals := sigs\<rparr>))"

section \<open>Control\<close>

definition nv_loop_wakeup :: "'h nv_loop_t \<Rightarrow> int \<times> 'h nv_loop_t" where
  "nv_loop_wakeup s =
     (if \<not> l_wakeup_inited s then (-1, s) else (0, s\<lparr>l_wakeup_bytes := l_wakeup_bytes s + 1\<rparr>))"

definition nv_loop_stop :: "'h nv_loop_t \<Rightarrow> 'h nv_loop_t" where
  "nv_loop_stop s =
     (if l_state s = NV_LOOP_RUNNING then snd (nv_loop_wakeup (s\<lparr>l_state := NV_LOOP_STOPPING\<rparr>)) else s)"

definition nv_loop_pause :: "'h nv_loop_t \<Rightarrow> int \<times> 'h nv_loop_t" where
  "nv_loop_pause s =
     (if l_state s \<noteq> NV_LOOP_RUNNING then (-1, s) else (0, s\<lparr>l_state := NV_LOOP_STOPPING\<rparr>))"

definition nv_loop_resume :: "'h nv_loop_t \<Rightarrow> int \<times> 'h nv_loop_t" where
  "nv_loop_resume s =
     (if l_state s \<noteq> NV_LOOP_STOPPING then (-1, s) else (0, s\<lparr>l_state := NV_LOOP_RUNNING\<rparr>))"

definition nv_loop_is_running :: "'h nv_loop_t \<Rightarrow> bool" where
  "nv_loop_is_running s \<longleftrightarrow> l_state s = NV_LOOP_RUNNING"

definition nv_loop_reset_stats :: "'h nv_loop_t \<Rightarrow> 'h nv_loop_t" where
  "nv_loop_reset_stats s = s\<lparr>l_stats := \<lparr>events_processed = 0, timers_processed = 0,
     signals_processed = 0, idle_events_processed = 0\<rparr>\<rparr>"

text \<open>Initialisation: the results of \<open>epoll_create1\<close>, of the allocation of the event array, and
  of setting up the wakeup pipe.\<close>

definition nv_loop_init :: "int \<Rightarrow> int \<Rightarrow> bool \<Rightarrow> bool \<Rightarrow> 'h nv_loop_t \<Rightarrow> int \<times> 'h nv_loop_t" where
  "nv_loop_init max_events epoll_fd malloc_ok pipe_ok s =
     (let s = \<lparr>l_epoll_fd = epoll_fd, l_max_events = max_events, l_state = NV_LOOP_INIT, l_epoll = [],
               l_timers_head = NULL, l_next_timeout = 0, l_idle_head = NULL, l_signals = [],
               l_stats = \<lparr>events_processed = 0, timers_processed = 0, signals_processed = 0, idle_events_processed = 0\<rparr>,
               l_signalfd_fd = 0, l_signalfd_ev = NULL, l_wakeup_inited = False, l_wakeup_bytes = 0,
               l_mem = l_mem s, l_calls = l_calls s\<rparr> in
      if epoll_fd = -1 then (-1, s)
      else if \<not> malloc_ok then (-1, s)
      else (0, s\<lparr>l_wakeup_inited := pipe_ok\<rparr>))"

definition nv_loop_detach_signalfd :: "'h nv_loop_t \<Rightarrow> 'h nv_loop_t option" where
  "nv_loop_detach_signalfd s =
     (if l_signalfd_ev s = NULL then Some s
      else do {
        (r, t) \<leftarrow> nv_loop_del_event (l_signalfd_ev s) s;
        Some (t\<lparr>l_mem := store_free (l_signalfd_ev s) (l_mem t), l_signalfd_ev := NULL, l_signalfd_fd := -1\<rparr>) })"

definition zero_event :: "'h nv_event_ext_t" where
  "zero_event = \<lparr>ev_fd = 0, ev_events = 0, ev_revents = 0, ev_active = False, ev_handler = None,
     ev_timeout_ms = 0, ev_expire_time = 0, ev_next = NULL, ev_prev = NULL, ev_loop = False,
     ev_type = NV_EVENT_TYPE_IO, ev_priority = NV_EVENT_PRIO_LOW, ev_trigger_count = 0, ev_last_trigger = 0\<rparr>"

text \<open>\<open>sig_h\<close> is the handler value of \<open>nv_loop_signalfd_handler\<close> and \<open>p\<close> what \<open>calloc\<close> returns.\<close>

definition nv_loop_attach_signalfd :: "'h \<Rightarrow> addr \<Rightarrow> bool \<Rightarrow> int \<Rightarrow> 'h nv_loop_t \<Rightarrow> (int \<times> 'h nv_loop_t) option" where
  "nv_loop_attach_signalfd sig_h p ok fd s =
     (if fd < 0 \<or> l_epoll_fd s < 0 then Some (-1, s)
      else do {
        s \<leftarrow> (if l_signalfd_ev s \<noteq> NULL then nv_loop_detach_signalfd s else Some s);
        if p = NULL then Some (-1, s\<lparr>l_signalfd_ev := NULL\<rparr>)
        else do {
          let s = s\<lparr>l_signalfd_ev := p, l_signalfd_fd := fd,
                    l_mem := (l_mem s)(p \<mapsto> zero_event\<lparr>ev_fd := fd, ev_handler := Some sig_h, ev_loop := True\<rparr>)\<rparr>;
          (r, s) \<leftarrow> nv_loop_add_event ok p 1 s;
          if r \<noteq> 0 then Some (-1, s\<lparr>l_mem := store_free p (l_mem s), l_signalfd_ev := NULL, l_signalfd_fd := -1\<rparr>)
          else Some (0, s) } })"

definition nv_loop_signalfd_handler :: "('h nv_loop_t \<Rightarrow> 'h nv_loop_t) \<Rightarrow> 'h nv_loop_t \<Rightarrow> 'h nv_loop_t" where
  "nv_loop_signalfd_handler dispatch s =
     (if l_signalfd_fd s \<ge> 0
      then (let s = dispatch s in
            s\<lparr>l_stats := (l_stats s)\<lparr>signals_processed := ulong (signals_processed (l_stats s) + 1)\<rparr>\<rparr>)
      else s)"

section \<open>Processing\<close>

definition revents_of :: "nat \<Rightarrow> nat" where
  "revents_of e =
     (if bit e 0 then NV_EVENT_READ else 0) OR (if bit e 2 then NV_EVENT_WRITE else 0) OR
     (if bit e 3 then NV_EVENT_ERROR else 0) OR (if bit e 4 then NV_EVENT_HUP else 0)"

definition count_event :: "'h nv_loop_t \<Rightarrow> 'h nv_loop_t" where
  "count_event s = s\<lparr>l_stats := (l_stats s)\<lparr>events_processed := ulong (events_processed (l_stats s) + 1)\<rparr>\<rparr>"

definition count_timer :: "'h nv_loop_t \<Rightarrow> 'h nv_loop_t" where
  "count_timer s = s\<lparr>l_stats := (l_stats s)\<lparr>timers_processed := ulong (timers_processed (l_stats s) + 1)\<rparr>\<rparr>"

definition count_idle :: "'h nv_loop_t \<Rightarrow> 'h nv_loop_t" where
  "count_idle s = s\<lparr>l_stats := (l_stats s)\<lparr>idle_events_processed := ulong (idle_events_processed (l_stats s) + 1)\<rparr>\<rparr>"

text \<open>The ready descriptors that \<open>epoll_wait\<close> filled in: their event bits and their pointer; NULL is
  the wakeup pipe, whose bytes are drained.\<close>

fun nv_loop_process_io_events :: "'h handlers \<Rightarrow> nat \<Rightarrow> (nat \<times> addr) list \<Rightarrow> 'h nv_loop_t \<Rightarrow> 'h nv_loop_t option" where
  "nv_loop_process_io_events call now [] s = Some s"
| "nv_loop_process_io_events call now ((e, p) # ready) s =
     (if p = NULL
      then nv_loop_process_io_events call now ready (if l_wakeup_inited s then s\<lparr>l_wakeup_bytes := 0\<rparr> else s)
      else if revents_of e \<noteq> 0
      then do {
        s \<leftarrow> nv_event_trigger call now p (revents_of e) s;
        nv_loop_process_io_events call now ready (count_event s) }
      else nv_loop_process_io_events call now ready s)"

partial_function (option) timers_loop :: "'h handlers \<Rightarrow> nat \<Rightarrow> addr \<Rightarrow> 'h nv_loop_t \<Rightarrow> 'h nv_loop_t option" where
  "timers_loop call now ev s =
     (if ev = NULL then Some s
      else do {
        e \<leftarrow> l_mem s ev;
        if ev_expire_time e \<le> now then do {
          s \<leftarrow> nv_event_trigger call now ev NV_EVENT_TIMER s;
          (head, s) \<leftarrow> nv_loop_remove_event_from_list (l_timers_head s) ev (count_timer s);
          s \<leftarrow> ev_upd ev (\<lambda>e. e\<lparr>ev_loop := False\<rparr>) (s\<lparr>l_timers_head := head\<rparr>);
          timers_loop call now (ev_next e) s }
        else timers_loop call now (ev_next e) s })"

partial_function (option) next_timeout_loop :: "'h nv_event_ext_t store \<Rightarrow> addr \<Rightarrow> nat \<Rightarrow> nat option" where
  "next_timeout_loop m ev t =
     (if ev = NULL then Some t
      else do {
        e \<leftarrow> m ev;
        next_timeout_loop m (ev_next e) (if t = 0 \<or> ev_expire_time e < t then ev_expire_time e else t) })"

definition nv_loop_process_timers :: "'h handlers \<Rightarrow> nat \<Rightarrow> 'h nv_loop_t \<Rightarrow> 'h nv_loop_t option" where
  "nv_loop_process_timers call now s = do {
     s \<leftarrow> timers_loop call now (l_timers_head s) s;
     t \<leftarrow> next_timeout_loop (l_mem s) (l_timers_head s) 0;
     Some (s\<lparr>l_next_timeout := t\<rparr>) }"

partial_function (option) idle_loop :: "'h handlers \<Rightarrow> nat \<Rightarrow> addr \<Rightarrow> 'h nv_loop_t \<Rightarrow> 'h nv_loop_t option" where
  "idle_loop call now ev s =
     (if ev = NULL then Some s
      else do {
        e \<leftarrow> l_mem s ev;
        s \<leftarrow> nv_event_trigger call now ev NV_EVENT_IDLE s;
        idle_loop call now (ev_next e) (count_idle s) })"

definition nv_loop_process_idle_events :: "'h handlers \<Rightarrow> nat \<Rightarrow> 'h nv_loop_t \<Rightarrow> 'h nv_loop_t option" where
  "nv_loop_process_idle_events call now s = idle_loop call now (l_idle_head s) s"

definition nv_loop_process_signals :: "'h nv_loop_t \<Rightarrow> 'h nv_loop_t" where
  "nv_loop_process_signals s = s"

text \<open>The timeout passed to \<open>epoll_wait\<close>, truncated to an int; -1 blocks.\<close>

definition wait_timeout :: "nat \<Rightarrow> 'h nv_loop_t \<Rightarrow> int" where
  "wait_timeout now s =
     (if l_timers_head s = NULL then -1
      else if l_next_timeout s > now then sint (of_nat (l_next_timeout s - now) :: 32 word)
      else 0)"

text \<open>What \<open>epoll_wait\<close> returns in a round, and the clock when the timers are processed.\<close>

datatype wait_result = Ready "(nat \<times> addr) list" | Interrupted | WaitError

fun run_rounds :: "'h handlers \<Rightarrow> (wait_result \<times> nat) list \<Rightarrow> 'h nv_loop_t \<Rightarrow> 'h nv_loop_t option" where
  "run_rounds call [] s = Some s"
| "run_rounds call ((w, now) # rounds) s =
     (if l_state s \<noteq> NV_LOOP_RUNNING then Some s
      else
        (case w of
           Interrupted \<Rightarrow> run_rounds call rounds s
         | WaitError \<Rightarrow> Some s
         | Ready ready \<Rightarrow> do {
             s \<leftarrow> (if ready \<noteq> [] then nv_loop_process_io_events call now ready s else Some s);
             s \<leftarrow> nv_loop_process_timers call now s;
             s \<leftarrow> nv_loop_process_idle_events call now (nv_loop_process_signals s);
             run_rounds call rounds s }))"

definition nv_loop_run :: "'h handlers \<Rightarrow> (wait_result \<times> nat) list \<Rightarrow> 'h nv_loop_t \<Rightarrow> (int \<times> 'h nv_loop_t) option" where
  "nv_loop_run call rounds s =
     (if l_state s = NV_LOOP_RUNNING then Some (-1, s)
      else map_option (Pair 0) (run_rounds call rounds (s\<lparr>l_state := NV_LOOP_RUNNING\<rparr>)))"

partial_function (option) cleanup_loop :: "addr \<Rightarrow> 'h nv_loop_t \<Rightarrow> 'h nv_loop_t option" where
  "cleanup_loop ev s =
     (if ev = NULL then Some s
      else do {
        e \<leftarrow> l_mem s ev;
        s \<leftarrow> nv_event_cleanup ev s;
        cleanup_loop (ev_next e) s })"

fun cleanup_signals :: "(int \<times> addr) list \<Rightarrow> 'h nv_loop_t \<Rightarrow> 'h nv_loop_t option" where
  "cleanup_signals [] s = Some s"
| "cleanup_signals ((_, p) # sigs) s = do {
     s \<leftarrow> (if p \<noteq> NULL then nv_event_cleanup p s else Some s);
     cleanup_signals sigs s }"

definition nv_loop_cleanup :: "'h nv_loop_t \<Rightarrow> 'h nv_loop_t option" where
  "nv_loop_cleanup s = do {
     let s = (if l_state s = NV_LOOP_RUNNING then nv_loop_stop s else s);
     s \<leftarrow> cleanup_loop (l_timers_head s) s;
     s \<leftarrow> cleanup_loop (l_idle_head s) s;
     s \<leftarrow> nv_loop_detach_signalfd s;
     s \<leftarrow> cleanup_signals (l_signals s) (s\<lparr>l_wakeup_inited := False\<rparr>);
     Some (s\<lparr>l_epoll_fd := -1, l_epoll := [], l_state := NV_LOOP_STOPPED\<rparr>) }"

partial_function (option) count_active :: "'h nv_event_ext_t store \<Rightarrow> addr \<Rightarrow> nat option" where
  "count_active m ev =
     (if ev = NULL then Some 0
      else do {
        e \<leftarrow> m ev;
        n \<leftarrow> count_active m (ev_next e);
        Some ((if ev_active e then 1 else 0) + n) })"

definition active_events :: "'h nv_loop_t \<Rightarrow> nat option" where
  "active_events s = do {
     t \<leftarrow> count_active (l_mem s) (l_timers_head s);
     i \<leftarrow> count_active (l_mem s) (l_idle_head s);
     Some (t + i) }"

section \<open>The timer list\<close>

interpretation evl: dlinks ev_prev ev_next "\<lambda>x e. e\<lparr>ev_prev := x\<rparr>" "\<lambda>x e. e\<lparr>ev_next := x\<rparr>"
  by unfold_locales simp_all

definition ev_list :: "'h nv_event_ext_t store \<Rightarrow> addr \<Rightarrow> addr list \<Rightarrow> bool" where
  "ev_list h p as \<longleftrightarrow> (\<exists>l. dseg ev_prev ev_next h NULL p as l NULL)"

definition body :: "'h nv_event_ext_t \<Rightarrow> nat \<times> bool \<times> 'h option" where
  "body e = (ev_expire_time e, ev_loop e, ev_handler e)"

definition view :: "'h nv_event_ext_t \<Rightarrow> addr \<times> addr \<times> nat \<times> bool \<times> 'h option" where
  "view e = (ev_prev e, ev_next e, body e)"

definition hd0 :: "addr list \<Rightarrow> addr" where
  "hd0 as = (case as of [] \<Rightarrow> NULL | a # _ \<Rightarrow> a)"

lemma hd0_simps [simp]: "hd0 [] = NULL" "hd0 (a # as) = a"
  by (simp_all add: hd0_def)

lemma dseg_view:
  assumes "\<And>b. b \<in> set as \<Longrightarrow> map_option view (h' b) = map_option view (h b)"
    and "dseg ev_prev ev_next h l p as l' q"
  shows "dseg ev_prev ev_next h' l p as l' q"
  using assms
proof (induction as arbitrary: l p)
  case (Cons a as)
  from Cons.prems(2) obtain n where n: "h a = Some n" "p = a" "a \<noteq> NULL" "ev_prev n = l"
    "dseg ev_prev ev_next h a (ev_next n) as l' q" by (auto split: option.splits)
  from Cons.prems(1)[of a] n(1) obtain n' where n': "h' a = Some n'" "ev_prev n' = ev_prev n" "ev_next n' = ev_next n"
    by (auto simp: view_def)
  have "dseg ev_prev ev_next h' a (ev_next n) as l' q"
    by (rule Cons.IH) (use Cons.prems(1) n(5) in auto)
  then show ?case using n n' by simp
qed simp

lemma ev_list_view:
  assumes "ev_list h p as" "\<And>b. b \<in> set as \<Longrightarrow> map_option view (h' b) = map_option view (h b)"
  shows "ev_list h' p as"
proof -
  obtain l where "dseg ev_prev ev_next h NULL p as l NULL" using assms(1) by (auto simp: ev_list_def)
  then have "dseg ev_prev ev_next h' NULL p as l NULL" by (rule dseg_view[rotated]) (rule assms(2))
  then show ?thesis by (auto simp: ev_list_def)
qed

lemma ev_list_head: "ev_list h p as \<Longrightarrow> p = hd0 as"
  by (cases as) (auto simp: ev_list_def split: option.splits)

lemma ev_list_distinct: "ev_list h p as \<Longrightarrow> distinct as"
  by (auto simp: ev_list_def dest: dseg_distinct)

lemma ev_list_live: "ev_list h p as \<Longrightarrow> a \<in> set as \<Longrightarrow> a \<noteq> NULL \<and> (\<exists>e. h a = Some e)"
  using dseg_live by (fastforce simp: ev_list_def)

lemma dseg_hd0: "dseg ev_prev ev_next h l p as l' NULL \<Longrightarrow> p = hd0 as"
  by (cases as) auto

lemma ev_list_next:
  assumes "ev_list h p (us @ a # vs)" "h a = Some e"
  shows "ev_next e = hd0 vs"
  using assms dseg_hd0 by (fastforce simp: ev_list_def seg_simps split: option.splits)

lemma ev_upd_live: "p \<noteq> NULL \<Longrightarrow> l_mem s p = Some e \<Longrightarrow> ev_upd p f s = Some (s\<lparr>l_mem := (l_mem s)(p \<mapsto> f e)\<rparr>)"
  by (simp add: ev_upd_def store_upd_def)

lemma ev_upd_at:
  assumes "p = NULL \<or> l_mem s p \<noteq> None"
  shows "(if p \<noteq> NULL then ev_upd p f s else Some s) = Some (s\<lparr>l_mem := upd_at p f (l_mem s)\<rparr>)"
  using assms by (auto simp: ev_upd_def store_upd_def upd_at_def)

lemma remove_eq:
  assumes rep: "ev_list (l_mem s) head (us @ a # vs)" and e: "l_mem s a = Some e"
  shows "nv_loop_remove_event_from_list head a s =
      Some (if us = [] then ev_next e else head,
        s\<lparr>l_mem := (upd_at (ev_next e) (\<lambda>n. n\<lparr>ev_prev := ev_prev e\<rparr>)
                     (upd_at (ev_prev e) (\<lambda>n. n\<lparr>ev_next := ev_next e\<rparr>) (l_mem s)))
                   (a \<mapsto> e\<lparr>ev_next := NULL, ev_prev := NULL\<rparr>)\<rparr>)"
proof -
  obtain l where seg: "dseg ev_prev ev_next (l_mem s) NULL head (us @ a # vs) l NULL"
    using rep by (auto simp: ev_list_def)
  note un = evl.unlink[OF seg e]
  have d: "distinct (us @ a # vs)" by (rule ev_list_distinct[OF rep])
  have pa: "ev_prev e \<noteq> a" "ev_next e \<noteq> a" and a0: "a \<noteq> NULL"
    using un(4,5) d ev_list_live[OF rep, of a] by (cases "ev_prev e = NULL", auto)
  have lp: "ev_prev e = NULL \<or> l_mem s (ev_prev e) \<noteq> None"
    using un(4) ev_list_live[OF rep, of "ev_prev e"] by auto
  have ln: "ev_next e = NULL \<or> upd_at (ev_prev e) (\<lambda>n. n\<lparr>ev_next := ev_next e\<rparr>) (l_mem s) (ev_next e) \<noteq> None"
    using un(5) ev_list_live[OF rep, of "ev_next e"] by (auto simp: upd_at_apply)
  have b1: "(if ev_prev e \<noteq> NULL then map_option (Pair head) (ev_upd (ev_prev e) (\<lambda>n. n\<lparr>ev_next := ev_next e\<rparr>) s)
      else Some (ev_next e, s)) =
    Some (if us = [] then ev_next e else head, s\<lparr>l_mem := upd_at (ev_prev e) (\<lambda>n. n\<lparr>ev_next := ev_next e\<rparr>) (l_mem s)\<rparr>)"
    using ev_upd_at[OF lp, of "\<lambda>n. n\<lparr>ev_next := ev_next e\<rparr>"] un(2) by (auto split: if_splits simp: upd_at_def)
  define s1 where "s1 = s\<lparr>l_mem := upd_at (ev_prev e) (\<lambda>n. n\<lparr>ev_next := ev_next e\<rparr>) (l_mem s)\<rparr>"
  have e1: "l_mem s1 a = Some e" using pa e by (simp add: s1_def upd_at_apply)
  define s2 where "s2 = s1\<lparr>l_mem := upd_at (ev_next e) (\<lambda>n. n\<lparr>ev_prev := ev_prev e\<rparr>) (l_mem s1)\<rparr>"
  have b2: "(if ev_next e \<noteq> NULL then ev_upd (ev_next e) (\<lambda>n. n\<lparr>ev_prev := ev_prev e\<rparr>) s1 else Some s1) = Some s2"
    unfolding s2_def by (rule ev_upd_at) (use ln in \<open>simp add: s1_def\<close>)
  have e2: "l_mem s2 a = Some e" using pa e1 by (simp add: s2_def upd_at_apply)
  have b3: "ev_upd a (\<lambda>n. n\<lparr>ev_next := NULL, ev_prev := NULL\<rparr>) s2 =
      Some (s2\<lparr>l_mem := (l_mem s2)(a \<mapsto> e\<lparr>ev_next := NULL, ev_prev := NULL\<rparr>)\<rparr>)"
    by (rule ev_upd_live[OF a0 e2])
  have "nv_loop_remove_event_from_list head a s =
      Some (if us = [] then ev_next e else head, s2\<lparr>l_mem := (l_mem s2)(a \<mapsto> e\<lparr>ev_next := NULL, ev_prev := NULL\<rparr>)\<rparr>)"
    unfolding nv_loop_remove_event_from_list_def e bind.bind_lunit b1 s1_def[symmetric] prod.case e1 b2 b3 ..
  then show ?thesis by (simp add: s2_def s1_def)
qed

lemma remove_ev_list:
  assumes rep: "ev_list (l_mem s) head (us @ a # vs)"
  shows "\<exists>head' m. nv_loop_remove_event_from_list head a s = Some (head', s\<lparr>l_mem := m\<rparr>) \<and>
           ev_list m head' (us @ vs) \<and> m a \<noteq> None \<and> (\<forall>b. map_option body (m b) = map_option body (l_mem s b))"
proof -
  obtain e where e: "l_mem s a = Some e" using ev_list_live[OF rep, of a] by auto
  obtain l where seg: "dseg ev_prev ev_next (l_mem s) NULL head (us @ a # vs) l NULL"
    using rep by (auto simp: ev_list_def)
  have d: "a \<notin> set (us @ vs)" using ev_list_distinct[OF rep] by simp
  define m where "m = upd_at (ev_next e) (\<lambda>n. n\<lparr>ev_prev := ev_prev e\<rparr>)
                     (upd_at (ev_prev e) (\<lambda>n. n\<lparr>ev_next := ev_next e\<rparr>) (l_mem s))"
  have "ev_list m (if us = [] then ev_next e else head) (us @ vs)"
    using evl.unlink(1)[OF seg e] by (simp add: ev_list_def m_def)
  then have "ev_list (m(a \<mapsto> e\<lparr>ev_next := NULL, ev_prev := NULL\<rparr>)) (if us = [] then ev_next e else head) (us @ vs)"
    by (rule ev_list_view) (use d in auto)
  moreover have "map_option body ((m(a \<mapsto> e\<lparr>ev_next := NULL, ev_prev := NULL\<rparr>)) b) = map_option body (l_mem s b)" for b
    using e by (cases "l_mem s b") (auto simp: m_def upd_at_apply body_def)
  ultimately show ?thesis using remove_eq[OF rep e] by (auto simp: m_def)
qed

section \<open>Timer expiry\<close>

text \<open>Handlers that return and leave the timer list, the timers and their registration alone
  (they may do anything else: stop the loop, count, change descriptors).\<close>

definition keeps_timers :: "'h nv_loop_t \<Rightarrow> 'h nv_loop_t \<Rightarrow> bool" where
  "keeps_timers s t \<longleftrightarrow> l_timers_head t = l_timers_head s \<and> l_calls t = l_calls s \<and>
     (\<forall>b. map_option view (l_mem t b) = map_option view (l_mem s b))"

definition quiet :: "'h handlers \<Rightarrow> bool" where
  "quiet call \<longleftrightarrow> (\<forall>h p s. \<exists>t. call h p s = Some t \<and> keeps_timers s t)"

definition armed :: "'h nv_event_ext_t store \<Rightarrow> addr \<Rightarrow> bool" where
  "armed h a \<longleftrightarrow> (case h a of None \<Rightarrow> False | Some e \<Rightarrow> ev_loop e \<and> ev_handler e \<noteq> None)"

definition expiry :: "'h nv_event_ext_t store \<Rightarrow> addr \<Rightarrow> nat" where
  "expiry h a = (case h a of None \<Rightarrow> 0 | Some e \<Rightarrow> ev_expire_time e)"

lemma body_cong:
  assumes "map_option body (h a) = map_option body (h' a)"
  shows "armed h a = armed h' a" and "expiry h a = expiry h' a"
  using assms by (cases "h a"; cases "h' a"; simp add: armed_def expiry_def body_def)+

lemma view_body: "map_option view x = map_option view y \<Longrightarrow> map_option body x = map_option body y"
  by (cases x; cases y) (auto simp: view_def)

lemma trigger_quiet:
  assumes q: "quiet call" and arm: "armed (l_mem s) a"
  shows "\<exists>t. nv_event_trigger call now a ev s = Some t \<and> l_timers_head t = l_timers_head s \<and>
           l_calls t = l_calls s @ [a] \<and> (\<forall>b. map_option view (l_mem t b) = map_option view (l_mem s b))"
proof -
  obtain e h where e: "l_mem s a = Some e" "ev_loop e" "ev_handler e = Some h"
    using arm by (auto simp: armed_def split: option.splits)
  define s' where "s' = s\<lparr>l_mem := (l_mem s)(a \<mapsto> e\<lparr>ev_revents := ev, ev_trigger_count := ulong (ev_trigger_count e + 1),
    ev_last_trigger := now\<rparr>), l_calls := l_calls s @ [a]\<rparr>"
  obtain t where t: "call h a s' = Some t" "keeps_timers s' t" using q unfolding quiet_def by blast
  have "map_option view (l_mem s' b) = map_option view (l_mem s b)" for b
    using e(1) by (simp add: s'_def view_def body_def)
  then show ?thesis using t e by (simp add: nv_event_trigger_def Let_def s'_def keeps_timers_def)
qed

text \<open>One expired timer: fired, unlinked and detached from the loop.\<close>

definition expire_one :: "'h handlers \<Rightarrow> nat \<Rightarrow> addr \<Rightarrow> 'h nv_loop_t \<Rightarrow> 'h nv_loop_t option" where
  "expire_one call now ev s = do {
     s \<leftarrow> nv_event_trigger call now ev NV_EVENT_TIMER s;
     (head, s) \<leftarrow> nv_loop_remove_event_from_list (l_timers_head s) ev (count_timer s);
     ev_upd ev (\<lambda>e. e\<lparr>ev_loop := False\<rparr>) (s\<lparr>l_timers_head := head\<rparr>) }"

lemma timers_loop_unfold:
  "timers_loop call now ev s =
     (if ev = NULL then Some s
      else Option.bind (l_mem s ev) (\<lambda>e.
        if ev_expire_time e \<le> now
        then Option.bind (expire_one call now ev s) (timers_loop call now (ev_next e))
        else timers_loop call now (ev_next e) s))"
  unfolding timers_loop.simps[of call now ev s] expire_one_def by (simp add: case_prod_beta' cong: if_cong)

lemma expire_one_quiet:
  assumes q: "quiet call" and rep: "ev_list (l_mem s) (l_timers_head s) (us @ a # vs)" and arm: "armed (l_mem s) a"
  shows "\<exists>t. expire_one call now a s = Some t \<and> ev_list (l_mem t) (l_timers_head t) (us @ vs) \<and>
           l_calls t = l_calls s @ [a] \<and> \<not> armed (l_mem t) a \<and>
           (\<forall>b. b \<noteq> a \<longrightarrow> map_option body (l_mem t b) = map_option body (l_mem s b))"
proof -
  obtain t1 where t1: "nv_event_trigger call now a NV_EVENT_TIMER s = Some t1" "l_timers_head t1 = l_timers_head s"
    "l_calls t1 = l_calls s @ [a]" "\<forall>b. map_option view (l_mem t1 b) = map_option view (l_mem s b)"
    using trigger_quiet[OF q arm] by blast
  define t2 where "t2 = count_timer t1"
  have t2: "l_mem t2 = l_mem t1" "l_timers_head t2 = l_timers_head t1" "l_calls t2 = l_calls t1"
    by (simp_all add: t2_def count_timer_def)
  have rep2: "ev_list (l_mem t2) (l_timers_head s) (us @ a # vs)"
    using ev_list_view[OF rep] t1(4) t2(1) by simp
  obtain head m where rm: "nv_loop_remove_event_from_list (l_timers_head s) a t2 = Some (head, t2\<lparr>l_mem := m\<rparr>)"
    "ev_list m head (us @ vs)" "m a \<noteq> None" "\<forall>b. map_option body (m b) = map_option body (l_mem t2 b)"
    using remove_ev_list[OF rep2] by blast
  obtain e where e: "m a = Some e" using rm(3) by blast
  have a: "a \<noteq> NULL" "a \<notin> set (us @ vs)" using ev_list_live[OF rep, of a] ev_list_distinct[OF rep] by auto
  define t where "t = t2\<lparr>l_mem := m(a \<mapsto> e\<lparr>ev_loop := False\<rparr>), l_timers_head := head\<rparr>"
  have upd: "ev_upd a (\<lambda>e. e\<lparr>ev_loop := False\<rparr>) (t2\<lparr>l_mem := m, l_timers_head := head\<rparr>) = Some t"
    using a e by (simp add: ev_upd_live t_def)
  have "ev_list (l_mem t) (l_timers_head t) (us @ vs)"
    unfolding t_def by simp (rule ev_list_view[OF rm(2)], use a(2) in auto)
  moreover have "map_option body (l_mem t b) = map_option body (l_mem s b)" if "b \<noteq> a" for b
    using that rm(4) t2(1) view_body[OF t1(4)[rule_format, of b]] by (simp add: t_def)
  moreover have "expire_one call now a s = Some t"
    by (simp add: expire_one_def t1(1,2) flip: t2_def) (simp add: rm(1) upd)
  ultimately show ?thesis using t1(3) t2(3) by (auto simp: t_def armed_def)
qed

lemma timers_loop_quiet:
  assumes q: "quiet call" and rep: "ev_list (l_mem s) (l_timers_head s) (us @ vs)"
    and arm: "\<forall>a \<in> set vs. armed (l_mem s) a"
  shows "\<exists>t. timers_loop call now (hd0 vs) s = Some t \<and>
           ev_list (l_mem t) (l_timers_head t) (us @ filter (\<lambda>a. now < expiry (l_mem s) a) vs) \<and>
           l_calls t = l_calls s @ filter (\<lambda>a. expiry (l_mem s) a \<le> now) vs \<and>
           (\<forall>a \<in> set vs. expiry (l_mem s) a \<le> now \<longrightarrow> \<not> armed (l_mem t) a) \<and>
           (\<forall>b. b \<notin> set vs \<or> now < expiry (l_mem s) b \<longrightarrow> map_option body (l_mem t b) = map_option body (l_mem s b))"
  using rep arm
proof (induction vs arbitrary: s us)
  case Nil
  then show ?case by (simp add: timers_loop_unfold)
next
  case (Cons a vs)
  obtain e where e: "l_mem s a = Some e" and a0: "a \<noteq> NULL" using ev_list_live[OF Cons.prems(1), of a] by auto
  have nx: "ev_next e = hd0 vs" by (rule ev_list_next[OF Cons.prems(1) e])
  have avs: "a \<notin> set vs" using ev_list_distinct[OF Cons.prems(1)] by simp
  show ?case
  proof (cases "ev_expire_time e \<le> now")
    case True
    obtain t1 where t1: "expire_one call now a s = Some t1" "ev_list (l_mem t1) (l_timers_head t1) (us @ vs)"
      "l_calls t1 = l_calls s @ [a]" "\<not> armed (l_mem t1) a"
      "\<forall>b. b \<noteq> a \<longrightarrow> map_option body (l_mem t1 b) = map_option body (l_mem s b)"
      using expire_one_quiet[OF q Cons.prems(1), of now] Cons.prems(2) unfolding list.set ball_simps by blast
    have same: "armed (l_mem t1) b = armed (l_mem s) b" "expiry (l_mem t1) b = expiry (l_mem s) b" if "b \<in> set vs" for b
    proof -
      have "b \<noteq> a" using that avs by auto
      then have "map_option body (l_mem t1 b) = map_option body (l_mem s b)" using t1(5) by simp
      then show "armed (l_mem t1) b = armed (l_mem s) b" "expiry (l_mem t1) b = expiry (l_mem s) b"
        by (rule body_cong)+
    qed
    have arm1: "\<forall>b \<in> set vs. armed (l_mem t1) b" using same Cons.prems(2) by auto
    have ea: "expiry (l_mem s) a \<le> now" using e True by (simp add: expiry_def)
    have f: "filter (\<lambda>b. now < expiry (l_mem t1) b) vs = filter (\<lambda>b. now < expiry (l_mem s) b) vs"
      "filter (\<lambda>b. expiry (l_mem t1) b \<le> now) vs = filter (\<lambda>b. expiry (l_mem s) b \<le> now) vs"
      using same by (auto intro: filter_cong)
    obtain t where t: "timers_loop call now (hd0 vs) t1 = Some t"
      "ev_list (l_mem t) (l_timers_head t) (us @ filter (\<lambda>b. now < expiry (l_mem t1) b) vs)"
      "l_calls t = l_calls t1 @ filter (\<lambda>b. expiry (l_mem t1) b \<le> now) vs"
      "\<forall>b \<in> set vs. expiry (l_mem t1) b \<le> now \<longrightarrow> \<not> armed (l_mem t) b"
      "\<forall>b. b \<notin> set vs \<or> now < expiry (l_mem t1) b \<longrightarrow> map_option body (l_mem t b) = map_option body (l_mem t1 b)"
      using Cons.IH[OF t1(2) arm1] by blast
    have "\<not> armed (l_mem t) a" using body_cong(1)[of "l_mem t" a "l_mem t1"] t(5) avs t1(4) by blast
    moreover have "map_option body (l_mem t b) = map_option body (l_mem s b)"
      if "b \<notin> set (a # vs) \<or> now < expiry (l_mem s) b" for b
      using that t(5) t1(5) same(2)[of b] ea by (metis list.set_intros(1) list.set_intros(2) leD)
    moreover have "timers_loop call now a s = Some t"
      by (subst timers_loop_unfold) (simp add: a0 e True t1(1) nx t(1))
    ultimately show ?thesis using t(2-4) f ea same(2) t1(3) by auto
  next
    case False
    have ea: "now < expiry (l_mem s) a" using e False by (simp add: expiry_def)
    have tl: "timers_loop call now a s = timers_loop call now (hd0 vs) s"
      by (subst timers_loop_unfold) (simp add: a0 e False nx)
    show ?thesis using Cons.IH[of s "us @ [a]"] Cons.prems ea tl avs by auto
  qed
qed

lemma next_timeout_loop_fold:
  assumes "ev_list h p as"
  shows "next_timeout_loop h p t = Some (foldl (\<lambda>t a. if t = 0 \<or> expiry h a < t then expiry h a else t) t as)"
proof -
  have "dseg ev_prev ev_next h l p as l' NULL \<Longrightarrow>
      next_timeout_loop h p t = Some (foldl (\<lambda>t a. if t = 0 \<or> expiry h a < t then expiry h a else t) t as)" for l l' t
  proof (induction as arbitrary: l p t)
    case Nil
    then show ?case by (simp add: next_timeout_loop.simps)
  next
    case (Cons a as)
    then obtain e where "h a = Some e" "p = a" "a \<noteq> NULL" "dseg ev_prev ev_next h a (ev_next e) as l' NULL"
      by (auto split: option.splits)
    then show ?case using Cons.IH[of a "ev_next e"] by (subst next_timeout_loop.simps) (simp add: expiry_def)
  qed
  then show ?thesis using assms by (auto simp: ev_list_def)
qed

lemma foldl_least:
  assumes "\<forall>a \<in> set as. 0 < f a"
  shows "foldl (\<lambda>t a. if t = 0 \<or> f a < t then f a else t) (t :: nat) as =
           (if t = 0 then (if as = [] then 0 else Min (f ` set as)) else Min (insert t (f ` set as)))"
  using assms
proof (induction as arbitrary: t)
  case (Cons a as)
  have "Min (insert (f a) (f ` set as)) = Min (f ` set (a # as))" by simp
  moreover have "Min (insert t (f ` set (a # as))) = Min (insert (min t (f a)) (f ` set as))"
    by (cases "as = []") (simp_all add: min.assoc)
  ultimately show ?case using Cons by (auto simp: min_def)
qed simp

text \<open>C5. Timer expiry: when the handlers leave the timer list alone, \<open>nv_loop_process_timers\<close> calls the handler
  of every timer whose expiry time has been reached, exactly once each and in list order, and of no other; it leaves
  in the list exactly the other timers, in their order; the expired ones are detached from the loop; and the next
  timeout is the least expiry time of the timers left, 0 when there is none.\<close>

theorem nv_loop_process_timers_fires_expired:
  assumes "quiet call" "ev_list (l_mem s) (l_timers_head s) as" "\<forall>a \<in> set as. armed (l_mem s) a"
  shows "\<exists>t. nv_loop_process_timers call now s = Some t \<and>
           l_calls t = l_calls s @ filter (\<lambda>a. expiry (l_mem s) a \<le> now) as \<and>
           ev_list (l_mem t) (l_timers_head t) (filter (\<lambda>a. now < expiry (l_mem s) a) as) \<and>
           (\<forall>a \<in> set as. armed (l_mem t) a \<longleftrightarrow> now < expiry (l_mem s) a) \<and>
           l_next_timeout t = (if \<forall>a \<in> set as. expiry (l_mem s) a \<le> now then 0
                               else Min (expiry (l_mem s) ` {a \<in> set as. now < expiry (l_mem s) a}))"
proof -
  let ?live = "filter (\<lambda>a. now < expiry (l_mem s) a) as"
  obtain t where t: "timers_loop call now (hd0 as) s = Some t"
      "ev_list (l_mem t) (l_timers_head t) ?live"
      "l_calls t = l_calls s @ filter (\<lambda>a. expiry (l_mem s) a \<le> now) as"
      "\<forall>a \<in> set as. expiry (l_mem s) a \<le> now \<longrightarrow> \<not> armed (l_mem t) a"
      "\<forall>b. b \<notin> set as \<or> now < expiry (l_mem s) b \<longrightarrow> map_option body (l_mem t b) = map_option body (l_mem s b)"
    using timers_loop_quiet[of call s "[]" as now] assms by auto
  have same: "expiry (l_mem t) a = expiry (l_mem s) a" "armed (l_mem t) a = armed (l_mem s) a" if "now < expiry (l_mem s) a" for a
    using body_cong[of "l_mem t" a "l_mem s"] t(5) that by simp_all
  define n where "n = foldl (\<lambda>x a. if x = 0 \<or> expiry (l_mem t) a < x then expiry (l_mem t) a else x) 0 ?live"
  have run: "nv_loop_process_timers call now s = Some (t\<lparr>l_next_timeout := n\<rparr>)"
    using t(1) next_timeout_loop_fold[OF t(2), of 0] ev_list_head[OF assms(2)]
    by (simp add: nv_loop_process_timers_def n_def)
  have "n = (if ?live = [] then 0 else Min (expiry (l_mem t) ` set ?live))"
    unfolding n_def by (subst foldl_least) (auto simp: same)
  also have "expiry (l_mem t) ` set ?live = expiry (l_mem s) ` {a \<in> set as. now < expiry (l_mem s) a}"
    using same(1) by force
  finally have n: "n = (if \<forall>a \<in> set as. expiry (l_mem s) a \<le> now then 0
      else Min (expiry (l_mem s) ` {a \<in> set as. now < expiry (l_mem s) a}))"
    by (simp add: filter_empty_conv not_less)
  have "armed (l_mem t) a \<longleftrightarrow> now < expiry (l_mem s) a" if "a \<in> set as" for a
    using t(4) same(2)[of a] assms(3) that by (cases "now < expiry (l_mem s) a") auto
  then show ?thesis using run t(2,3) n by simp
qed

definition timer_at :: "nat \<Rightarrow> addr \<Rightarrow> addr \<Rightarrow> nat nv_event_ext_t" where
  "timer_at t p n = zero_event\<lparr>ev_type := NV_EVENT_TYPE_TIMER, ev_handler := Some 0, ev_loop := True,
     ev_expire_time := t, ev_prev := p, ev_next := n\<rparr>"

definition two_timers :: "nat nv_loop_t" where
  "two_timers = \<lparr>l_epoll_fd = 3, l_max_events = 16, l_state = NV_LOOP_RUNNING, l_epoll = [],
     l_timers_head = 16, l_next_timeout = 5, l_idle_head = NULL, l_signals = [],
     l_stats = \<lparr>events_processed = 0, timers_processed = 0, signals_processed = 0, idle_events_processed = 0\<rparr>,
     l_signalfd_fd = -1, l_signalfd_ev = NULL, l_wakeup_inited = True, l_wakeup_bytes = 0,
     l_mem = [16 \<mapsto> timer_at 20 NULL 32, 32 \<mapsto> timer_at 5 16 NULL], l_calls = []\<rparr>"

lemma two_timers_list: "ev_list (l_mem two_timers) (l_timers_head two_timers) [16, 32]"
  by (simp add: ev_list_def two_timers_def timer_at_def)

lemma two_timers_views [simp]: "armed (l_mem two_timers) 16" "armed (l_mem two_timers) 32"
  "expiry (l_mem two_timers) 16 = 20" "expiry (l_mem two_timers) 32 = 5" "l_calls two_timers = []"
  by (simp_all add: armed_def expiry_def two_timers_def timer_at_def)

lemma quiet_return: "quiet (\<lambda>h p s. Some s)"
  by (simp add: quiet_def keeps_timers_def)

theorem nv_loop_process_timers_fires_expired_witness:
  "\<exists>t. nv_loop_process_timers (\<lambda>h p s. Some s) 10 two_timers = Some t \<and> l_calls t = [32] \<and>
     ev_list (l_mem t) (l_timers_head t) [16] \<and> l_next_timeout t = 20"
proof -
  have "{a. (a = 16 \<or> a = 32) \<and> 10 < expiry (l_mem two_timers) a} = {16}" by auto
  then show ?thesis
    using nv_loop_process_timers_fires_expired[OF quiet_return two_timers_list, of 10] by auto
qed

text \<open>A handler that re-arms its own timer: \<open>nv_loop_add_timer\<close> runs while the timer is still linked.\<close>

lemma rearm_head:
  assumes "ev_list (l_mem s) (l_timers_head s) (a # vs)" "armed (l_mem s) a"
    and "map_option ev_handler (l_mem s a) = Some (Some h)" "\<And>u. call h a u = nv_loop_add_timer now a ms u"
  shows "\<exists>e t. expire_one call now a s = Some t \<and>
      l_mem t = (l_mem s)(a \<mapsto> e) \<and> \<not> ev_loop e \<and> ev_next e = NULL \<and> ev_prev e = NULL \<and>
      ev_expire_time e = ulong (now + ms) \<and> l_timers_head t = a \<and> l_calls t = l_calls s @ [a]"
proof -
  obtain e where e: "l_mem s a = Some e" "ev_prev e = NULL" "a \<noteq> NULL" "l_timers_head s = a"
      "ev_loop e" "ev_handler e = Some h"
    using assms(1-3) by (auto simp: ev_list_def armed_def split: option.splits)
  define e' where "e' = e\<lparr>ev_revents := NV_EVENT_TIMER, ev_trigger_count := ulong (ev_trigger_count e + 1),
    ev_last_trigger := now, ev_type := NV_EVENT_TYPE_TIMER, ev_timeout_ms := ms, ev_expire_time := ulong (now + ms),
    ev_next := NULL, ev_prev := NULL, ev_loop := False\<rparr>"
  show ?thesis
    by (rule exI[of _ e']) (use e assms(4) in \<open>simp add: e'_def expire_one_def nv_event_trigger_def Let_def nv_loop_add_timer_def nv_loop_add_event_to_list_def
        nv_loop_remove_event_from_list_def ev_upd_live lower_timeout_def count_timer_def\<close>)
qed

lemma timers_loop_unexpired:
  "sseg ev_next (l_mem s) p vs NULL \<Longrightarrow> \<forall>b \<in> set vs. now < expiry (l_mem s) b \<Longrightarrow> timers_loop call now p s = Some s"
proof (induction vs arbitrary: p)
  case (Cons b vs)
  then obtain e where "l_mem s b = Some e" "p = b" "b \<noteq> NULL" "sseg ev_next (l_mem s) (ev_next e) vs NULL"
    by (auto split: option.splits)
  then show ?case using Cons by (subst timers_loop_unfold) (simp add: expiry_def)
qed (simp add: timers_loop_unfold)

lemma process_unarmed:
  assumes "l_mem t a = Some e" "\<not> ev_loop e" "ev_next e = NULL" "ev_prev e = NULL" "l_timers_head t = a" "a \<noteq> NULL"
  shows "\<exists>u. nv_loop_process_timers call n t = Some u \<and> l_calls u = l_calls t"
  using assms
  by (cases "ev_handler e"; cases "ev_expire_time e \<le> n";
      simp add: nv_loop_process_timers_def timers_loop_unfold next_timeout_loop.simps expire_one_def
        nv_event_trigger_def Let_def nv_loop_remove_event_from_list_def ev_upd_live count_timer_def)

lemma rearm_lost:
  assumes rep: "ev_list (l_mem s) (l_timers_head s) (a # vs)" and arm: "armed (l_mem s) a"
    and due: "expiry (l_mem s) a \<le> now" and rest: "\<forall>b \<in> set vs. now < expiry (l_mem s) b"
    and call: "map_option ev_handler (l_mem s a) = Some (Some h)" "\<And>u. call h a u = nv_loop_add_timer now a ms u"
  shows "\<exists>t. nv_loop_process_timers call now s = Some t \<and>
           l_calls t = l_calls s @ [a] \<and> l_next_timeout t = ulong (now + ms) \<and>
           ev_list (l_mem t) (l_timers_head t) [a] \<and>
           (\<forall>call n. \<exists>u. nv_loop_process_timers call n t = Some u \<and> l_calls u = l_calls t)"
proof -
  obtain e t where t: "expire_one call now a s = Some t" "l_mem t = (l_mem s)(a \<mapsto> e)" "\<not> ev_loop e"
      "ev_next e = NULL" "ev_prev e = NULL" "ev_expire_time e = ulong (now + ms)" "l_timers_head t = a"
      "l_calls t = l_calls s @ [a]"
    using rearm_head[OF rep arm call(1), of call now ms] call(2) by blast
  obtain l where "dseg ev_prev ev_next (l_mem s) NULL (l_timers_head s) (a # vs) l NULL"
    using rep by (auto simp: ev_list_def)
  then obtain e0 where e0: "l_mem s a = Some e0" "l_timers_head s = a" "a \<noteq> NULL" "sseg ev_next (l_mem s) (ev_next e0) vs NULL"
    by (auto split: option.splits dest: dseg_sseg)
  have avs: "a \<notin> set vs" using ev_list_distinct[OF rep] by simp
  have "timers_loop call now (ev_next e0) t = Some t"
    by (rule timers_loop_unexpired[where vs = vs]) (use e0(4) rest avs t(2) in \<open>auto simp: seg_simps expiry_def\<close>)
  then have "timers_loop call now a s = Some t"
    using e0 due t(1) by (subst timers_loop_unfold) (simp add: expiry_def)
  moreover have "next_timeout_loop (l_mem t) a 0 = Some (ulong (now + ms))"
    using e0(3) t by (simp add: next_timeout_loop.simps)
  ultimately have "nv_loop_process_timers call now s = Some (t\<lparr>l_next_timeout := ulong (now + ms)\<rparr>)"
    using e0(2) t(7) by (simp add: nv_loop_process_timers_def)
  moreover have "\<exists>u. nv_loop_process_timers call n (t\<lparr>l_next_timeout := ulong (now + ms)\<rparr>) = Some u \<and> l_calls u = l_calls t" for call n
    using process_unarmed[of "t\<lparr>l_next_timeout := ulong (now + ms)\<rparr>" a e call n] t e0(3) by simp
  ultimately show ?thesis using t e0(3) by (simp add: ev_list_def)
qed

text \<open>A handler that re-arms its own timer with \<open>nv_loop_add_timer\<close>, as the heartbeat and the module tick do,
  is called once and never again: the re-arming runs before the loop unlinks the timer, so the unlinking that follows
  works on a node linked to itself and clears the timer's loop pointer.  When that timer is the first of the list
  and the only one expired, all the other timers are lost with it: no later round calls any handler.\<close>

theorem nv_loop_rearm_in_handler_is_lost:
  assumes rep: "ev_list (l_mem s) (l_timers_head s) (a # vs)" and arm: "armed (l_mem s) a"
    and due: "expiry (l_mem s) a \<le> now" and rest: "\<forall>b \<in> set vs. now < expiry (l_mem s) b"
  shows "\<exists>t. nv_loop_process_timers (\<lambda>h p s. nv_loop_add_timer now p ms s) now s = Some t \<and>
           l_calls t = l_calls s @ [a] \<and> l_next_timeout t = ulong (now + ms) \<and>
           ev_list (l_mem t) (l_timers_head t) [a] \<and>
           (\<forall>call n. \<exists>u. nv_loop_process_timers call n t = Some u \<and> l_calls u = l_calls t)"
proof -
  obtain h where "map_option ev_handler (l_mem s a) = Some (Some h)"
    using arm by (auto simp: armed_def split: option.splits)
  then show ?thesis by (rule rearm_lost[OF rep arm due rest]) simp
qed

theorem nv_loop_rearm_in_handler_is_lost_witness:
  "\<exists>t. nv_loop_process_timers (\<lambda>h p s. nv_loop_add_timer 30 p 5000 s) 30 (two_timers\<lparr>l_mem := [16 \<mapsto> timer_at 20 NULL 32, 32 \<mapsto> timer_at 90 16 NULL]\<rparr>) = Some t \<and>
     l_calls t = [16] \<and> ev_list (l_mem t) (l_timers_head t) [16]"
  using nv_loop_rearm_in_handler_is_lost[of "two_timers\<lparr>l_mem := [16 \<mapsto> timer_at 20 NULL 32, 32 \<mapsto> timer_at 90 16 NULL]\<rparr>" 16 "[32]" 30 5000]
  by (simp add: ev_list_def armed_def expiry_def two_timers_def timer_at_def) blast

end
