(* ===== verification/Nv_Threads.thy ===== *)
theory Nv_Threads
  imports Nv_Interfaces "HOL-Library.Multiset"
begin

text \<open>
  The thread pool (\<open>base/sys/nv_thread_pool.c\<close>).  The ring of tasks is modelled as the
  code has it.  Every critical section is one step: the mutex is held throughout, so
  sections of different threads do not interleave.  Threads that wait on a condition variable
  are in a waiting state until they are signalled; which waiter a signal wakes is
  chosen by the step, and a waiter may also wake spuriously.
\<close>

section \<open>The ring\<close>

datatype nv_tp_shutdown_mode_t = NV_TP_SHUTDOWN_GRACEFUL | NV_TP_SHUTDOWN_IMMEDIATE

definition NV_TP_OK :: int where "NV_TP_OK = 0"
definition NV_TP_EINVAL :: int where "NV_TP_EINVAL = -1"
definition NV_TP_EFULL :: int where "NV_TP_EFULL = -2"
definition NV_TP_ESHUTDOWN :: int where "NV_TP_ESHUTDOWN = -3"
definition NV_TP_ETIMEDOUT :: int where "NV_TP_ETIMEDOUT = -4"

lemmas tp_codes = NV_TP_OK_def NV_TP_EINVAL_def NV_TP_EFULL_def NV_TP_ESHUTDOWN_def NV_TP_ETIMEDOUT_def

record 'a threadpool_t =
  tp_queue :: "'a list"
  tp_capacity :: nat
  tp_head :: nat
  tp_tail :: nat
  tp_count :: nat
  tp_shutdown :: bool
  tp_mode :: nv_tp_shutdown_mode_t

definition nv_tp_enqueue :: "'a threadpool_t \<Rightarrow> 'a \<Rightarrow> int \<times> 'a threadpool_t" where
  "nv_tp_enqueue tp task =
     (if tp_count tp = tp_capacity tp then (NV_TP_EFULL, tp)
      else (NV_TP_OK, tp\<lparr>tp_queue := (tp_queue tp)[tp_tail tp := task],
                         tp_tail := (tp_tail tp + 1) mod tp_capacity tp,
                         tp_count := tp_count tp + 1\<rparr>))"

definition nv_tp_dequeue :: "'a threadpool_t \<Rightarrow> int \<times> ('a \<times> 'a threadpool_t) option" where
  "nv_tp_dequeue tp =
     (if tp_count tp = 0 then (NV_TP_EINVAL, None)
      else (NV_TP_OK, Some (tp_queue tp ! tp_head tp,
                            tp\<lparr>tp_head := (tp_head tp + 1) mod tp_capacity tp,
                               tp_count := tp_count tp - 1\<rparr>)))"

text \<open>The contents of the ring: \<open>xs\<close> from the head on.\<close>

definition ring_rep :: "'a threadpool_t \<Rightarrow> 'a list \<Rightarrow> bool" where
  "ring_rep tp xs \<longleftrightarrow> length (tp_queue tp) = tp_capacity tp \<and> tp_head tp < tp_capacity tp \<and>
     tp_count tp = length xs \<and> length xs \<le> tp_capacity tp \<and>
     tp_tail tp = (tp_head tp + length xs) mod tp_capacity tp \<and>
     (\<forall>i < length xs. tp_queue tp ! ((tp_head tp + i) mod tp_capacity tp) = xs ! i)"

lemma ring_slot: "h < n \<Longrightarrow> i < n \<Longrightarrow> (h + i) mod n = (if h + i < n then h + i else h + i - n)" for h i n :: nat
  by (simp add: mod_if)

lemma ring_slot_inj: "h < n \<Longrightarrow> i < n \<Longrightarrow> j < n \<Longrightarrow> (h + i) mod n = (h + j) mod n \<Longrightarrow> i = j" for h i j n :: nat
  by (simp add: ring_slot split: if_splits)

lemma ring_next: "((h + i) mod n + 1) mod n = (h + Suc i) mod n" for h i n :: nat
  by (simp add: mod_Suc_eq)

lemma enqueue_rep:
  assumes rep: "ring_rep tp xs" and room: "length xs < tp_capacity tp"
  shows "ring_rep (snd (nv_tp_enqueue tp x)) (xs @ [x])"
proof -
  let ?n = "tp_capacity tp" and ?h = "tp_head tp"
  let ?t = "(?h + length xs) mod ?n"
  have r: "length (tp_queue tp) = ?n" "?h < ?n" "tp_count tp = length xs" "tp_tail tp = ?t"
    "\<And>i. i < length xs \<Longrightarrow> tp_queue tp ! ((?h + i) mod ?n) = xs ! i"
    using rep by (simp_all add: ring_rep_def)
  have tn: "?t < ?n" using r(2) by simp
  have cell: "((tp_queue tp)[?t := x]) ! ((?h + i) mod ?n) = (xs @ [x]) ! i" if "i < Suc (length xs)" for i
  proof (cases "i = length xs")
    case True
    then show ?thesis using tn r(1) by simp
  next
    case False
    then have "(?h + i) mod ?n \<noteq> ?t"
      using ring_slot_inj[OF r(2), of i "length xs"] that room by fastforce
    then show ?thesis using r(5)[of i] that False by (simp add: nth_append)
  qed
  show ?thesis using r room cell ring_next[of ?h "length xs" ?n]
    by (simp add: nv_tp_enqueue_def ring_rep_def)
qed

lemma dequeue_rep:
  assumes rep: "ring_rep tp (x # xs)"
  shows "\<exists>tp'. nv_tp_dequeue tp = (NV_TP_OK, Some (x, tp')) \<and> ring_rep tp' xs \<and> tp_capacity tp' = tp_capacity tp \<and>
           tp_shutdown tp' = tp_shutdown tp \<and> tp_mode tp' = tp_mode tp"
proof -
  let ?n = "tp_capacity tp" and ?h = "tp_head tp"
  have r: "length (tp_queue tp) = ?n" "?h < ?n" "tp_count tp = Suc (length xs)" "Suc (length xs) \<le> ?n"
    "tp_tail tp = (?h + Suc (length xs)) mod ?n"
    "\<And>i. i < Suc (length xs) \<Longrightarrow> tp_queue tp ! ((?h + i) mod ?n) = (x # xs) ! i"
    using rep by (simp_all add: ring_rep_def)
  have "tp_queue tp ! ?h = x" using r(6)[of 0] r(2) by simp
  moreover have "(Suc ?h mod ?n + i) mod ?n = (?h + Suc i) mod ?n" for i
    by (simp add: mod_add_left_eq)
  then have "ring_rep (tp\<lparr>tp_head := (?h + 1) mod ?n, tp_count := tp_count tp - 1\<rparr>) xs"
    using r by (fastforce simp: ring_rep_def)
  ultimately show ?thesis using r(3) by (simp add: nv_tp_dequeue_def)
qed

definition tp_enq :: "'a \<Rightarrow> 'a threadpool_t \<Rightarrow> 'a threadpool_t \<Rightarrow> bool" where
  "tp_enq x tp tp' \<longleftrightarrow> nv_tp_enqueue tp x = (NV_TP_OK, tp')"

definition tp_deq :: "'a threadpool_t \<Rightarrow> ('a \<times> 'a threadpool_t) option" where
  "tp_deq tp = snd (nv_tp_dequeue tp)"

lemma tp_enq_room: "ring_rep tp xs \<Longrightarrow> tp_enq x tp tp' \<longleftrightarrow> length xs < tp_capacity tp \<and> tp' = snd (nv_tp_enqueue tp x)"
  by (auto simp: tp_enq_def nv_tp_enqueue_def ring_rep_def tp_codes)

lemma ring_empty: "ring_rep tp [] \<Longrightarrow> nv_tp_dequeue tp = (NV_TP_EINVAL, None)"
  by (simp add: ring_rep_def nv_tp_dequeue_def)

lemma enqueue_keeps:
  "tp_capacity (snd (nv_tp_enqueue tp x)) = tp_capacity tp"
  "tp_shutdown (snd (nv_tp_enqueue tp x)) = tp_shutdown tp"
  "tp_mode (snd (nv_tp_enqueue tp x)) = tp_mode tp"
  by (simp_all add: nv_tp_enqueue_def)

lemma tp_deq_cons: "ring_rep tp (x # xs) \<Longrightarrow> \<exists>tp'. tp_deq tp = Some (x, tp') \<and> ring_rep tp' xs"
  using dequeue_rep by (fastforce simp: tp_deq_def)

lemma tp_deq_capacity: "tp_deq tp = Some (x, tp') \<Longrightarrow> tp_capacity tp' = tp_capacity tp"
  by (auto simp: tp_deq_def nv_tp_dequeue_def split: if_splits)

interpretation tpq: bounded_fifo ring_rep tp_enq tp_deq tp_capacity
proof unfold_locales
  fix tp :: "'a threadpool_t" and xs x tp' y
  show "ring_rep tp xs \<Longrightarrow> tp_enq x tp tp' \<Longrightarrow> ring_rep tp' (xs @ [x])"
    by (simp add: tp_enq_room enqueue_rep)
  show "ring_rep tp (x # xs) \<Longrightarrow> \<exists>tp'. tp_deq tp = Some (x, tp') \<and> ring_rep tp' xs"
    by (rule tp_deq_cons)
  show "ring_rep tp [] \<Longrightarrow> tp_deq tp = None"
    by (simp add: tp_deq_def ring_empty)
  show "ring_rep tp xs \<Longrightarrow> tp_deq tp = Some (y, tp') \<Longrightarrow> tp_capacity tp' = tp_capacity tp"
    by (rule tp_deq_capacity)
  show "ring_rep tp xs \<Longrightarrow> tp_enq x tp tp' \<Longrightarrow> tp_capacity tp' = tp_capacity tp"
    by (simp add: tp_enq_room enqueue_keeps)
  show "ring_rep tp xs \<Longrightarrow> length xs \<le> tp_capacity tp" by (simp add: ring_rep_def)
  show "ring_rep tp xs \<Longrightarrow> (\<exists>tp'. tp_enq x tp tp') \<longleftrightarrow> length xs < tp_capacity tp"
    by (auto simp: tp_enq_room)
qed

section \<open>Threads\<close>

text \<open>A worker is about to take the lock, waits on \<open>not_empty\<close>, runs a task, or has exited.  A client
  is about to take the lock in an add (with or without a deadline) or in a wait for idleness, waits there, or has
  its return code.\<close>

datatype 'a worker = WReady | WWait | WRun 'a | WExit

datatype 'a client = Adding 'a bool | AWait 'a bool | Idling | IWait | Returned int

record 'a tp_system =
  pool :: "'a threadpool_t"
  workers :: "'a worker list"
  clients :: "'a client list"
  accepted :: "'a list"
  started :: "'a list"
  finished :: "'a list"

text \<open>\<open>garbage\<close> is the content of the memory allocated for the ring; \<open>ok\<close> tells whether all three allocations succeed.\<close>

definition nv_threadpool_create :: "int \<Rightarrow> int \<Rightarrow> bool \<Rightarrow> 'a list \<Rightarrow> 'a tp_system option" where
  "nv_threadpool_create thread_count queue_capacity ok garbage =
     (if thread_count \<le> 0 \<or> queue_capacity \<le> 0 then None
      else if \<not> ok then None
      else Some \<lparr>pool = \<lparr>tp_queue = take (nat queue_capacity) garbage, tp_capacity = nat queue_capacity, tp_head = 0,
                         tp_tail = 0, tp_count = 0, tp_shutdown = False, tp_mode = NV_TP_SHUTDOWN_GRACEFUL\<rparr>,
                 workers = replicate (nat thread_count) WReady, clients = [],
                 accepted = [], started = [], finished = []\<rparr>)"

text \<open>\<open>pthread_cond_signal\<close> wakes the waiter \<open>j\<close>; a broadcast wakes all.\<close>

definition signal_worker :: "nat \<Rightarrow> 'a worker list \<Rightarrow> 'a worker list" where
  "signal_worker j ws = (if j < length ws \<and> ws ! j = WWait then ws[j := WReady] else ws)"

fun wake_client :: "'a client \<Rightarrow> 'a client" where
  "wake_client (AWait x t) = Adding x t"
| "wake_client c = c"

fun wake_idler :: "'a client \<Rightarrow> 'a client" where
  "wake_idler IWait = Idling"
| "wake_idler c = c"

definition signal_client :: "nat \<Rightarrow> 'a client list \<Rightarrow> 'a client list" where
  "signal_client j cs = (if j < length cs then cs[j := wake_client (cs ! j)] else cs)"

definition wake_worker :: "'a worker \<Rightarrow> 'a worker" where
  "wake_worker w = (case w of WWait \<Rightarrow> WReady | _ \<Rightarrow> w)"

text \<open>The critical section of an add by the client \<open>i\<close>.\<close>

definition add_section :: "nat \<Rightarrow> nat \<Rightarrow> 'a \<Rightarrow> bool \<Rightarrow> 'a tp_system \<Rightarrow> 'a tp_system" where
  "add_section j i x timed s =
     (if \<not> tp_shutdown (pool s) \<and> tp_count (pool s) = tp_capacity (pool s)
      then s\<lparr>clients := (clients s)[i := AWait x timed]\<rparr>
      else if tp_shutdown (pool s) then s\<lparr>clients := (clients s)[i := Returned NV_TP_ESHUTDOWN]\<rparr>
      else
        (case nv_tp_enqueue (pool s) x of (rc, tp) \<Rightarrow>
           if rc = NV_TP_OK
           then s\<lparr>pool := tp, clients := (clients s)[i := Returned rc], workers := signal_worker j (workers s),
                  accepted := accepted s @ [x]\<rparr>
           else s\<lparr>pool := tp, clients := (clients s)[i := Returned rc]\<rparr>))"

definition nv_threadpool_add :: "'a option \<Rightarrow> 'a client" where
  "nv_threadpool_add task = (case task of None \<Rightarrow> Returned NV_TP_EINVAL | Some x \<Rightarrow> Adding x False)"

text \<open>With no deadline the wait is untimed.\<close>

definition nv_threadpool_add_timeout :: "'a option \<Rightarrow> bool \<Rightarrow> 'a client" where
  "nv_threadpool_add_timeout task abstime =
     (case task of None \<Rightarrow> Returned NV_TP_EINVAL | Some x \<Rightarrow> Adding x abstime)"

definition nv_threadpool_wait_idle :: "nat \<Rightarrow> 'a tp_system \<Rightarrow> 'a tp_system" where
  "nv_threadpool_wait_idle i s =
     (if tp_count (pool s) \<noteq> 0 then s\<lparr>clients := (clients s)[i := IWait]\<rparr>
      else s\<lparr>clients := (clients s)[i := Returned NV_TP_OK]\<rparr>)"

text \<open>One pass of a worker through the locked part of its loop.\<close>

definition nv_threadpool_thread :: "nat \<Rightarrow> nat \<Rightarrow> 'a tp_system \<Rightarrow> 'a tp_system" where
  "nv_threadpool_thread j i s =
     (let tp = pool s in
      if tp_count tp = 0 \<and> \<not> tp_shutdown tp then s\<lparr>workers := (workers s)[i := WWait]\<rparr>
      else if tp_shutdown tp \<and> (tp_mode tp = NV_TP_SHUTDOWN_IMMEDIATE \<or> tp_count tp = 0)
      then s\<lparr>workers := (workers s)[i := WExit]\<rparr>
      else
        (case nv_tp_dequeue tp of
           (_, Some (x, tp)) \<Rightarrow>
             (let cs = (if tp_count tp = 0 then map wake_idler (clients s) else clients s) in
              s\<lparr>pool := tp, clients := signal_client j cs, workers := (workers s)[i := WRun x], started := started s @ [x]\<rparr>)
         | (_, None) \<Rightarrow> s))"

definition nv_threadpool_destroy :: "nv_tp_shutdown_mode_t \<Rightarrow> 'a tp_system \<Rightarrow> 'a tp_system" where
  "nv_threadpool_destroy mode s =
     s\<lparr>pool := (pool s)\<lparr>tp_shutdown := True, tp_mode := mode\<rparr>,
       workers := map wake_worker (workers s), clients := map wake_client (clients s)\<rparr>"

text \<open>After the broadcast the destroyer joins every thread and only then frees the pool.\<close>

definition destroy_joined :: "'a tp_system \<Rightarrow> bool" where
  "destroy_joined s \<longleftrightarrow> tp_shutdown (pool s) \<and> list_all (\<lambda>w. w = WExit) (workers s)"

datatype 'a tp_act = Call "'a client" | ClientStep nat nat | ClientWake nat | TimedOut nat
  | WorkerStep nat nat | WorkerWake nat | Finish nat | Destroy nv_tp_shutdown_mode_t

definition is_awaiting :: "'a client \<Rightarrow> bool" where
  "is_awaiting c = (case c of AWait _ _ \<Rightarrow> True | _ \<Rightarrow> False)"

inductive tp_step :: "'a tp_system \<Rightarrow> 'a tp_act \<Rightarrow> 'a tp_system \<Rightarrow> bool" where
  step_call: "c = nv_threadpool_add task \<or> c = nv_threadpool_add_timeout task timed \<or> c = Idling \<Longrightarrow>
    tp_step s (Call c) (s\<lparr>clients := clients s @ [c]\<rparr>)"
| step_add: "i < length (clients s) \<Longrightarrow> clients s ! i = Adding x timed \<Longrightarrow>
    (j < length (workers s) \<and> workers s ! j = WWait) \<or> WWait \<notin> set (workers s) \<Longrightarrow>
    tp_step s (ClientStep i j) (add_section j i x timed s)"
| step_idle: "i < length (clients s) \<Longrightarrow> clients s ! i = Idling \<Longrightarrow>
    tp_step s (ClientStep i j) (nv_threadpool_wait_idle i s)"
| step_client_wake: "i < length (clients s) \<Longrightarrow>
    tp_step s (ClientWake i) (s\<lparr>clients := (clients s)[i := wake_idler (wake_client (clients s ! i))]\<rparr>)"
| step_timeout: "i < length (clients s) \<Longrightarrow> clients s ! i = AWait x True \<Longrightarrow>
    tp_step s (TimedOut i) (s\<lparr>clients := (clients s)[i := Returned NV_TP_ETIMEDOUT]\<rparr>)"
| step_worker: "i < length (workers s) \<Longrightarrow> workers s ! i = WReady \<Longrightarrow>
    (j < length (clients s) \<and> is_awaiting (clients s ! j)) \<or> list_all (\<lambda>c. \<not> is_awaiting c) (clients s) \<Longrightarrow>
    tp_step s (WorkerStep i j) (nv_threadpool_thread j i s)"
| step_worker_wake: "i < length (workers s) \<Longrightarrow>
    tp_step s (WorkerWake i) (s\<lparr>workers := (workers s)[i := wake_worker (workers s ! i)]\<rparr>)"
| step_finish: "i < length (workers s) \<Longrightarrow> workers s ! i = WRun x \<Longrightarrow>
    tp_step s (Finish i) (s\<lparr>workers := (workers s)[i := WReady], finished := finished s @ [x]\<rparr>)"
| step_destroy: "\<not> tp_shutdown (pool s) \<Longrightarrow>
    tp_step s (Destroy mode) (nv_threadpool_destroy mode s)"

definition tp_start :: "'a tp_system \<Rightarrow> bool" where
  "tp_start s \<longleftrightarrow> (\<exists>n cap garbage. nat cap \<le> length garbage \<and> nv_threadpool_create n cap True garbage = Some s)"

section \<open>The invariant\<close>

definition ready :: "'a worker list \<Rightarrow> nat" where
  "ready ws = sum_list (map (\<lambda>w. if w = WReady then 1 else 0) ws)"

definition run1 :: "'a worker \<Rightarrow> 'a multiset" where
  "run1 w = (case w of WRun x \<Rightarrow> {#x#} | _ \<Rightarrow> {#})"

definition running :: "'a worker list \<Rightarrow> 'a multiset" where
  "running ws = sum_list (map run1 ws)"

definition is_adding :: "'a client \<Rightarrow> bool" where
  "is_adding c = (case c of Adding _ _ \<Rightarrow> True | _ \<Rightarrow> False)"

definition adding :: "'a client list \<Rightarrow> nat" where
  "adding cs = sum_list (map (\<lambda>c. if is_adding c then 1 else 0) cs)"

definition awaiting :: "'a client list \<Rightarrow> bool" where
  "awaiting cs \<longleftrightarrow> list_ex is_awaiting cs"

definition tp_inv_for :: "'a tp_system \<Rightarrow> 'a list \<Rightarrow> bool" where
  "tp_inv_for s xs \<longleftrightarrow> ring_rep (pool s) xs \<and> accepted s = started s @ xs \<and>
     mset (started s) = mset (finished s) + running (workers s) \<and>
     (WWait \<in> set (workers s) \<longrightarrow> \<not> tp_shutdown (pool s) \<and> length xs \<le> ready (workers s)) \<and>
     (awaiting (clients s) \<longrightarrow> \<not> tp_shutdown (pool s) \<and> tp_capacity (pool s) \<le> length xs + adding (clients s)) \<and>
     (WExit \<in> set (workers s) \<longrightarrow> tp_shutdown (pool s) \<and> (tp_mode (pool s) = NV_TP_SHUTDOWN_IMMEDIATE \<or> xs = [])) \<and>
     workers s \<noteq> []"

definition tp_inv :: "'a tp_system \<Rightarrow> bool" where
  "tp_inv s \<longleftrightarrow> (\<exists>xs. tp_inv_for s xs)"

lemma sum_list_update:
  "i < length xs \<Longrightarrow> sum_list (map f (xs[i := v])) + f (xs ! i) = sum_list (map f xs) + (f v :: 'b :: comm_monoid_add)"
proof (induction xs arbitrary: i)
  case (Cons x xs)
  show ?case
  proof (cases i)
    case (Suc k)
    then have "sum_list (map f (xs[k := v])) + f (xs ! k) = sum_list (map f xs) + f v" using Cons by simp
    then show ?thesis using Suc by (simp add: add.assoc)
  qed (simp add: ac_simps)
qed simp

lemma ready_update: "i < length ws \<Longrightarrow>
    ready (ws[i := w]) + (if ws ! i = WReady then 1 else 0) = ready ws + (if w = WReady then 1 else 0)"
  using sum_list_update[of i ws "\<lambda>w. if w = WReady then 1 else 0" w] by (simp add: ready_def)

lemma running_update: "i < length ws \<Longrightarrow> running (ws[i := w]) + run1 (ws ! i) = running ws + run1 w"
  by (simp add: running_def sum_list_update)

lemma adding_update: "i < length cs \<Longrightarrow>
    adding (cs[i := c]) + (if is_adding (cs ! i) then 1 else 0) = adding cs + (if is_adding c then 1 else 0)"
  using sum_list_update[of i cs "\<lambda>c. if is_adding c then 1 else 0" c] by (simp add: adding_def)

lemma awaiting_update: "awaiting (cs[i := c]) \<Longrightarrow> awaiting cs \<or> is_awaiting c"
  by (auto simp: awaiting_def list_ex_iff dest: subsetD[OF set_update_subset_insert])

lemma awaitingI: "j < length cs \<Longrightarrow> is_awaiting (cs ! j) \<Longrightarrow> awaiting cs"
  by (auto simp: awaiting_def list_ex_iff)

lemma client_kinds [simp]: "is_adding (Adding x t)" "\<not> is_adding (AWait x t)" "\<not> is_adding Idling" "\<not> is_adding IWait"
  "\<not> is_adding (Returned r)" "\<not> is_awaiting (Adding x t)" "is_awaiting (AWait x t)" "\<not> is_awaiting Idling"
  "\<not> is_awaiting IWait" "\<not> is_awaiting (Returned r)"
  by (simp_all add: is_adding_def is_awaiting_def)

lemma wake_kinds [simp]: "is_adding (wake_client c) \<longleftrightarrow> is_adding c \<or> is_awaiting c" "\<not> is_awaiting (wake_client c)"
  "is_adding (wake_idler c) = is_adding c" "is_awaiting (wake_idler c) = is_awaiting c"
  by (cases c; simp)+

lemma run1_simps [simp]: "run1 WReady = {#}" "run1 WWait = {#}" "run1 WExit = {#}" "run1 (WRun x) = {#x#}"
  by (simp_all add: run1_def)

lemma wake_worker_simps [simp]: "run1 (wake_worker w) = run1 w" "wake_worker w \<noteq> WWait" "wake_worker w = WExit \<longleftrightarrow> w = WExit"
  "wake_worker w = WReady \<longleftrightarrow> w = WReady \<or> w = WWait"
  by (cases w; simp add: wake_worker_def)+

lemma signal_worker_facts:
  assumes "(j < length ws \<and> ws ! j = WWait) \<or> WWait \<notin> set ws"
  shows "ready (signal_worker j ws) = ready ws + (if WWait \<in> set ws then 1 else 0)"
    and "running (signal_worker j ws) = running ws"
    and "WExit \<in> set (signal_worker j ws) \<Longrightarrow> WExit \<in> set ws"
    and "WWait \<in> set (signal_worker j ws) \<Longrightarrow> WWait \<in> set ws"
proof -
  have "j < length ws \<Longrightarrow> ws ! j = WWait \<Longrightarrow> WWait \<in> set ws" by (metis nth_mem)
  then show "ready (signal_worker j ws) = ready ws + (if WWait \<in> set ws then 1 else 0)"
    "running (signal_worker j ws) = running ws"
    using assms ready_update[of j ws WReady] running_update[of j ws WReady] by (auto simp: signal_worker_def)
  show "WExit \<in> set (signal_worker j ws) \<Longrightarrow> WExit \<in> set ws" "WWait \<in> set (signal_worker j ws) \<Longrightarrow> WWait \<in> set ws"
    by (auto simp: signal_worker_def dest: set_updateD split: if_splits)
qed

lemma signal_client_facts:
  assumes "(j < length cs \<and> is_awaiting (cs ! j)) \<or> list_all (\<lambda>c. \<not> is_awaiting c) cs"
  shows "awaiting (signal_client j cs) \<Longrightarrow> awaiting cs \<and> adding (signal_client j cs) = adding cs + 1"
proof -
  assume aw: "awaiting (signal_client j cs)"
  show ?thesis
  proof (cases "j < length cs \<and> is_awaiting (cs ! j)")
    case True
    then have "\<not> is_adding (cs ! j)" by (cases "cs ! j") auto
    then show ?thesis using True adding_update[of j cs "wake_client (cs ! j)"] awaitingI[of j cs]
      by (simp add: signal_client_def)
  next
    case False
    then have "\<not> awaiting cs" using assms by (auto simp: awaiting_def list_all_iff list_ex_iff)
    then show ?thesis using aw awaiting_update[of cs j "wake_client (cs ! j)"] by (auto simp: signal_client_def split: if_splits)
  qed
qed

lemma map_wake_idler [simp]: "adding (map wake_idler cs) = adding cs" "awaiting (map wake_idler cs) = awaiting cs"
  "length (map wake_idler cs) = length cs"
  by (simp_all add: adding_def awaiting_def list_ex_iff comp_def)

lemma awaiting_not: "awaiting (cs[i := c]) \<Longrightarrow> \<not> is_awaiting c \<Longrightarrow> awaiting cs"
  using awaiting_update by blast

lemma ring_full: "ring_rep tp xs \<Longrightarrow> tp_count tp = length xs \<and> length xs \<le> tp_capacity tp"
  by (simp add: ring_rep_def)

lemma enqueue_ok:
  assumes "ring_rep tp xs" "tp_count tp \<noteq> tp_capacity tp"
  shows "\<exists>tp'. nv_tp_enqueue tp x = (NV_TP_OK, tp') \<and> ring_rep tp' (xs @ [x]) \<and> tp_capacity tp' = tp_capacity tp \<and>
           tp_shutdown tp' = tp_shutdown tp \<and> tp_mode tp' = tp_mode tp"
proof -
  have "length xs < tp_capacity tp" using ring_full[OF assms(1)] assms(2) by simp
  then show ?thesis using enqueue_rep[OF assms(1), of x] assms(2) enqueue_keeps[of tp x]
    by (cases "nv_tp_enqueue tp x") (auto simp: nv_tp_enqueue_def)
qed

lemma add_section_inv:
  assumes inv: "tp_inv_for s xs" and i: "i < length (clients s)" "clients s ! i = Adding x timed"
    and j: "(j < length (workers s) \<and> workers s ! j = WWait) \<or> WWait \<notin> set (workers s)"
  shows "tp_inv (add_section j i x timed s)"
proof -
  note inv' = inv[unfolded tp_inv_for_def]
  note cnt = ring_full[OF conjunct1[OF inv']]
  note upd = adding_update[OF i(1)]
  show ?thesis
  proof (cases "tp_shutdown (pool s)")
    case True
    then have "tp_inv_for (add_section j i x timed s) xs"
      using inv' awaiting_not[of "clients s" i "Returned NV_TP_ESHUTDOWN"] by (auto simp: tp_inv_for_def add_section_def)
    then show ?thesis by (auto simp: tp_inv_def)
  next
    case run: False
    show ?thesis
    proof (cases "tp_count (pool s) = tp_capacity (pool s)")
      case True
      then have "tp_inv_for (add_section j i x timed s) xs"
        using run inv' cnt by (auto simp: tp_inv_for_def add_section_def)
      then show ?thesis by (auto simp: tp_inv_def)
    next
      case False
      obtain tp where tp: "nv_tp_enqueue (pool s) x = (NV_TP_OK, tp)" "ring_rep tp (xs @ [x])"
        "tp_capacity tp = tp_capacity (pool s)" "tp_shutdown tp = tp_shutdown (pool s)"
        using enqueue_ok[OF conjunct1[OF inv'] False] by blast
      have eq: "add_section j i x timed s = s\<lparr>pool := tp, clients := (clients s)[i := Returned NV_TP_OK],
          workers := signal_worker j (workers s), accepted := accepted s @ [x]\<rparr>"
        using run False tp(1) by (simp add: add_section_def)
      have "workers s \<noteq> [] \<Longrightarrow> signal_worker j (workers s) \<noteq> []" by (simp add: signal_worker_def)
      then have "tp_inv_for (add_section j i x timed s) (xs @ [x])"
        unfolding eq using inv' tp run signal_worker_facts[OF j] upd[of "Returned NV_TP_OK"] i(2)
          awaiting_not[of "clients s" i "Returned NV_TP_OK"]
        by (auto simp: tp_inv_for_def)
      then show ?thesis by (auto simp: tp_inv_def)
    qed
  qed
qed

lemma client_update_inv:
  assumes inv: "tp_inv_for s xs" and i: "i < length (clients s)"
    and c: "\<not> is_awaiting c" "is_adding (clients s ! i) \<Longrightarrow> is_adding c"
  shows "tp_inv_for (s\<lparr>clients := (clients s)[i := c]\<rparr>) xs"
  using inv adding_update[OF i, of c] awaiting_not[of "clients s" i c] c by (auto simp: tp_inv_for_def split: if_splits)

lemma worker_update_inv:
  assumes inv: "tp_inv_for s xs" and i: "i < length (workers s)"
    and w: "w \<noteq> WWait" "w = WExit \<Longrightarrow> workers s ! i = WExit" "workers s ! i = WReady \<Longrightarrow> w = WReady"
    and run: "mset (started s) = mset fin + running ((workers s)[i := w])"
  shows "tp_inv_for (s\<lparr>workers := (workers s)[i := w], finished := fin\<rparr>) xs"
  using inv ready_update[OF i, of w] w run nth_mem[OF i]
  by (auto simp: tp_inv_for_def dest!: set_updateD split: if_splits)

lemma thread_inv:
  assumes inv: "tp_inv_for s xs" and i: "i < length (workers s)" "workers s ! i = WReady"
    and j: "(j < length (clients s) \<and> is_awaiting (clients s ! j)) \<or> list_all (\<lambda>c. \<not> is_awaiting c) (clients s)"
  shows "tp_inv (nv_threadpool_thread j i s)"
proof (cases xs)
  case Nil
  note inv' = inv[unfolded tp_inv_for_def Nil]
  have eq: "nv_threadpool_thread j i s = s\<lparr>workers := (workers s)[i := if tp_shutdown (pool s) then WExit else WWait]\<rparr>"
    using ring_full[OF conjunct1[OF inv']] by (auto simp: nv_threadpool_thread_def Let_def)
  have "tp_inv_for (nv_threadpool_thread j i s) []"
    unfolding eq tp_inv_for_def using inv' running_update[OF i(1)] i(2) by (auto dest!: set_updateD split: if_splits)
  then show ?thesis by (auto simp: tp_inv_def)
next
  case (Cons x ys)
  note inv' = inv[unfolded tp_inv_for_def Cons]
  have n0: "tp_count (pool s) \<noteq> 0" using ring_full[OF conjunct1[OF inv']] by simp
  show ?thesis
  proof (cases "tp_shutdown (pool s) \<and> tp_mode (pool s) = NV_TP_SHUTDOWN_IMMEDIATE")
    case True
    then have eq: "nv_threadpool_thread j i s = s\<lparr>workers := (workers s)[i := WExit]\<rparr>"
      by (simp add: nv_threadpool_thread_def Let_def)
    have "tp_inv_for (nv_threadpool_thread j i s) (x # ys)"
      unfolding eq tp_inv_for_def using True inv' running_update[OF i(1), of WExit] i(2) by (auto dest!: set_updateD)
    then show ?thesis by (auto simp: tp_inv_def)
  next
    case False
    obtain tp where tp: "nv_tp_dequeue (pool s) = (NV_TP_OK, Some (x, tp))" "ring_rep tp ys"
      "tp_capacity tp = tp_capacity (pool s)" "tp_shutdown tp = tp_shutdown (pool s)" "tp_mode tp = tp_mode (pool s)"
      using dequeue_rep[OF conjunct1[OF inv']] by blast
    define cs where "cs = (if tp_count tp = 0 then map wake_idler (clients s) else clients s)"
    have eq: "nv_threadpool_thread j i s = s\<lparr>pool := tp, clients := signal_client j cs,
        workers := (workers s)[i := WRun x], started := started s @ [x]\<rparr>"
      using False n0 tp(1) by (auto simp: nv_threadpool_thread_def Let_def cs_def)
    have cs: "adding cs = adding (clients s)" "awaiting cs = awaiting (clients s)"
      "(j < length cs \<and> is_awaiting (cs ! j)) \<or> list_all (\<lambda>c. \<not> is_awaiting c) cs"
      using j by (auto simp: cs_def list_all_iff)
    have "tp_inv_for (nv_threadpool_thread j i s) ys"
      unfolding eq tp_inv_for_def
      using inv' False tp(2-5) running_update[OF i(1), of "WRun x"] ready_update[OF i(1), of "WRun x"] i(2)
        signal_client_facts[OF cs(3)] cs(1,2)
      by (auto dest!: set_updateD)
    then show ?thesis by (auto simp: tp_inv_def)
  qed
qed

lemma adding_append: "adding (cs @ [c]) = adding cs + (if is_adding c then 1 else 0)" "awaiting (cs @ [c]) \<longleftrightarrow> awaiting cs \<or> is_awaiting c"
  by (auto simp: adding_def awaiting_def)

lemma call_inv:
  assumes "tp_inv_for s xs" "\<not> is_awaiting c"
  shows "tp_inv_for (s\<lparr>clients := clients s @ [c]\<rparr>) xs"
  using assms by (auto simp: tp_inv_for_def adding_append)

lemma destroy_inv:
  assumes "tp_inv_for s xs" "\<not> tp_shutdown (pool s)"
  shows "tp_inv_for (nv_threadpool_destroy mode s) xs"
proof -
  have "running (map wake_worker (workers s)) = running (workers s)" by (simp add: running_def comp_def)
  moreover have "\<not> awaiting (map wake_client (clients s))" by (auto simp: awaiting_def list_ex_iff)
  moreover have "WWait \<notin> set (map wake_worker (workers s))"
    unfolding set_map using wake_worker_simps(2) by (metis imageE)
  moreover have "WExit \<in> set (map wake_worker (workers s)) \<Longrightarrow> WExit \<in> set (workers s)"
    unfolding set_map using wake_worker_simps(3) by (metis imageE)
  ultimately show ?thesis using assms by (auto simp: tp_inv_for_def nv_threadpool_destroy_def ring_rep_def)
qed

lemma tp_step_inv: "tp_step s l s' \<Longrightarrow> tp_inv s \<Longrightarrow> tp_inv s'"
proof (induction rule: tp_step.induct)
  case (step_call c task timed s)
  then have "\<not> is_awaiting c"
    by (auto simp: nv_threadpool_add_def nv_threadpool_add_timeout_def split: option.splits)
  then show ?case using step_call.prems call_inv by (auto simp: tp_inv_def)
next
  case (step_add i s x timed j)
  then show ?case using add_section_inv[of s _ i x timed j] unfolding tp_inv_def[of s] by blast
next
  case (step_idle i s j)
  then show ?case using client_update_inv[of s _ i IWait] client_update_inv[of s _ i "Returned NV_TP_OK"]
    by (auto simp: tp_inv_def nv_threadpool_wait_idle_def)
next
  case (step_client_wake i s)
  then show ?case using client_update_inv[of s _ i "wake_idler (wake_client (clients s ! i))"] by (auto simp: tp_inv_def)
next
  case (step_timeout i s x)
  then show ?case using client_update_inv[of s _ i "Returned NV_TP_ETIMEDOUT"] by (auto simp: tp_inv_def)
next
  case (step_worker i s j)
  then show ?case using thread_inv[of s _ i j] unfolding tp_inv_def[of s] by blast
next
  case (step_worker_wake i s)
  then obtain xs where xs: "tp_inv_for s xs" by (auto simp: tp_inv_def)
  have "tp_inv_for (s\<lparr>workers := (workers s)[i := wake_worker (workers s ! i)], finished := finished s\<rparr>) xs"
    by (rule worker_update_inv[OF xs step_worker_wake.hyps])
       (use xs running_update[OF step_worker_wake.hyps, of "wake_worker (workers s ! i)"] in
          \<open>auto simp: tp_inv_for_def\<close>)
  then show ?case by (auto simp: tp_inv_def)
next
  case (step_finish i s x)
  then obtain xs where xs: "tp_inv_for s xs" by (auto simp: tp_inv_def)
  have "running (workers s) = add_mset x (running ((workers s)[i := WReady]))"
    using running_update[OF step_finish.hyps(1), of WReady] step_finish.hyps(2) by simp
  then have "mset (started s) = mset (finished s @ [x]) + running ((workers s)[i := WReady])"
    using xs by (simp add: tp_inv_for_def)
  then have "tp_inv_for (s\<lparr>workers := (workers s)[i := WReady], finished := finished s @ [x]\<rparr>) xs"
    using worker_update_inv[OF xs step_finish.hyps(1), of WReady "finished s @ [x]"] step_finish.hyps(2) by simp
  then show ?case by (auto simp: tp_inv_def)
next
  case (step_destroy s mode)
  then show ?case using destroy_inv by (auto simp: tp_inv_def)
qed

lemma tp_start_inv: "tp_start s \<Longrightarrow> tp_inv s"
proof -
  assume "tp_start s"
  then obtain n cap :: int and garbage where c: "nat cap \<le> length garbage" "nv_threadpool_create n cap True garbage = Some s"
    by (auto simp: tp_start_def)
  have "sum_list (replicate m {#}) = ({#} :: 'a multiset)" for m by (induction m) auto
  then have "tp_inv_for s []" using c
    by (auto simp: nv_threadpool_create_def tp_inv_for_def ring_rep_def awaiting_def running_def split: if_splits)
  then show ?thesis by (auto simp: tp_inv_def)
qed

interpretation tps: step_invariant tp_start tp_step tp_inv
  by unfold_locales (auto intro: tp_start_inv tp_step_inv)

text \<open>C4.  Whatever the interleaving of clients, workers, wakeups and a shutdown: the ring holds exactly the accepted
  tasks that have not been started, in the order of their acceptance; tasks are started in that order, none twice;
  and every started task has either finished or is being run by one worker.\<close>
theorem nv_threadpool_fifo_exactly_once:
  assumes "reach tp_start tp_step s"
  shows "\<exists>xs. ring_rep (pool s) xs \<and> accepted s = started s @ xs \<and>
           mset (started s) = mset (finished s) + running (workers s)"
  using tps.reach_inv[OF assms] by (auto simp: tp_inv_def tp_inv_for_def)

text \<open>C2.  No wakeup is lost: while a task is queued and the pool is not being torn down immediately, some worker is awake,
  on its way to the queue or running a task; and while the ring has room, a client that waits for room is never
  left alone, another client has been woken.\<close>
theorem nv_threadpool_no_lost_wakeup:
  assumes "reach tp_start tp_step s"
  shows "(tp_count (pool s) > 0 \<and> \<not> (tp_shutdown (pool s) \<and> tp_mode (pool s) = NV_TP_SHUTDOWN_IMMEDIATE) \<longrightarrow>
            (\<exists>w \<in> set (workers s). w \<noteq> WWait \<and> w \<noteq> WExit)) \<and>
         (tp_count (pool s) < tp_capacity (pool s) \<and> awaiting (clients s) \<longrightarrow> (\<exists>c \<in> set (clients s). is_adding c))"
proof -
  obtain xs where xs: "tp_inv_for s xs" using tps.reach_inv[OF assms] by (auto simp: tp_inv_def)
  note inv' = xs[unfolded tp_inv_for_def]
  have len: "tp_count (pool s) = length xs" using ring_full[OF conjunct1[OF inv']] by simp
  have r0: "ready ws = 0" if "WReady \<notin> set ws" for ws :: "'a worker list"
    using that by (induction ws) (auto simp: ready_def)
  have a0: "adding cs = 0" if "\<forall>c \<in> set cs. \<not> is_adding c" for cs :: "'a client list"
    using that by (induction cs) (auto simp: adding_def)
  have "\<exists>w \<in> set (workers s). w \<noteq> WWait \<and> w \<noteq> WExit" if "tp_count (pool s) > 0"
    "\<not> (tp_shutdown (pool s) \<and> tp_mode (pool s) = NV_TP_SHUTDOWN_IMMEDIATE)"
  proof (rule ccontr)
    assume none: "\<not> (\<exists>w \<in> set (workers s). w \<noteq> WWait \<and> w \<noteq> WExit)"
    then have "WReady \<notin> set (workers s)" by blast
    then have "WWait \<notin> set (workers s)" using r0 inv' that(1) len by auto
    moreover have "WExit \<notin> set (workers s)" using inv' that len by auto
    ultimately show False using none inv' by (metis last_in_set)
  qed
  moreover have "\<exists>c \<in> set (clients s). is_adding c" if "tp_count (pool s) < tp_capacity (pool s)" "awaiting (clients s)"
    using a0[of "clients s"] inv' that len by fastforce
  ultimately show ?thesis by blast
qed

text \<open>C18.  A graceful shutdown loses nothing: when the destroyer has joined all threads, every accepted task has been run
  to its end.\<close>
theorem nv_threadpool_graceful_runs_all:
  assumes "reach tp_start tp_step s" "destroy_joined s" "tp_mode (pool s) = NV_TP_SHUTDOWN_GRACEFUL"
  shows "mset (finished s) = mset (accepted s) \<and> tp_count (pool s) = 0"
proof -
  obtain xs where xs: "tp_inv_for s xs" using tps.reach_inv[OF assms(1)] by (auto simp: tp_inv_def)
  note inv' = xs[unfolded tp_inv_for_def]
  have all: "\<forall>w \<in> set (workers s). w = WExit" using assms(2) by (simp add: destroy_joined_def list_all_iff)
  then have "WExit \<in> set (workers s)" using inv' by (metis last_in_set)
  then have "xs = []" using inv' assms(3) by auto
  moreover have "running ws = {#}" if "\<forall>w \<in> set ws. w = WExit" for ws :: "'a worker list"
    using that by (induction ws) (auto simp: running_def)
  ultimately show ?thesis using inv' all ring_full[OF conjunct1[OF inv']] by simp
qed

section \<open>Sample runs\<close>

definition demo :: "nat client list \<Rightarrow> nat worker list \<Rightarrow> nat threadpool_t \<Rightarrow> nat list \<Rightarrow> nat list \<Rightarrow> nat tp_system" where
  "demo cs ws tp acc st = \<lparr>pool = tp, workers = ws, clients = cs, accepted = acc, started = st, finished = []\<rparr>"

definition demo_pool :: "nat \<Rightarrow> nat \<Rightarrow> nat \<Rightarrow> nat \<Rightarrow> nat threadpool_t" where
  "demo_pool v h t n = \<lparr>tp_queue = [v, 0], tp_capacity = 2, tp_head = h, tp_tail = t, tp_count = n,
     tp_shutdown = False, tp_mode = NV_TP_SHUTDOWN_GRACEFUL\<rparr>"

lemmas demo_defs = demo_def demo_pool_def

lemma demo_start: "reach tp_start tp_step (demo [] [WReady] (demo_pool 0 0 0 0) [] [])"
proof (rule reach_start)
  have "nat 2 \<le> length [0, 0 :: nat] \<and>
      nv_threadpool_create 1 2 True [0, 0 :: nat] = Some (demo [] [WReady] (demo_pool 0 0 0 0) [] [])"
    by (simp add: nv_threadpool_create_def demo_defs)
  then show "tp_start (demo [] [WReady] (demo_pool 0 0 0 0) [] [])" unfolding tp_start_def by blast
qed

lemma demo_call: "reach tp_start tp_step (demo [Adding 7 False] [WReady] (demo_pool 0 0 0 0) [] [])"
  using reach_step[OF demo_start step_call[of _ "Some 7" False]]
  by (simp add: demo_defs nv_threadpool_add_def)

lemma demo_queued: "reach tp_start tp_step (demo [Returned NV_TP_OK] [WReady] (demo_pool 7 0 1 1) [7] [])"
  using reach_step[OF demo_call step_add[of 0 _ 7 False 0]]
  by (simp add: demo_defs add_section_def nv_tp_enqueue_def signal_worker_def)

lemma demo_running: "reach tp_start tp_step (demo [Returned NV_TP_OK] [WRun 7] (demo_pool 7 1 1 0) [7] [7])"
  using reach_step[OF demo_queued step_worker[of 0 _ 0]]
  by (simp add: demo_defs nv_threadpool_thread_def nv_tp_dequeue_def Let_def signal_client_def)

lemma demo_idling: "reach tp_start tp_step (demo [Returned NV_TP_OK, Idling] [WRun 7] (demo_pool 7 1 1 0) [7] [7])"
  using reach_step[OF demo_running step_call[of Idling]] by (simp add: demo_defs)

text \<open>The wait for idleness can return success while a task is still running and has not finished, although its
  comment promises that all submitted tasks have been executed: it looks at the queue only.\<close>
theorem nv_threadpool_wait_idle_early:
  "\<exists>s. reach tp_start tp_step (s :: nat tp_system) \<and> clients s ! 1 = Returned NV_TP_OK \<and>
     running (workers s) = {#7#} \<and> finished s = []"
proof -
  have "reach tp_start tp_step (demo [Returned NV_TP_OK, Returned NV_TP_OK] [WRun 7] (demo_pool 7 1 1 0) [7] [7])"
    using reach_step[OF demo_idling step_idle[of 1]] by (simp add: demo_defs nv_threadpool_wait_idle_def)
  then show ?thesis
    by (intro exI[of _ "demo [Returned NV_TP_OK, Returned NV_TP_OK] [WRun 7] (demo_pool 7 1 1 0) [7] [7]"])
       (simp add: demo_def running_def)
qed

theorem nv_threadpool_fifo_exactly_once_witness:
  "\<exists>xs. ring_rep (demo_pool 7 0 1 1) xs \<and> [7] = [] @ xs"
  using nv_threadpool_fifo_exactly_once[OF demo_queued] by (auto simp: demo_def)

theorem nv_threadpool_no_lost_wakeup_witness:
  "\<exists>w \<in> set [WReady :: nat worker]. w \<noteq> WWait \<and> w \<noteq> WExit"
  using nv_threadpool_no_lost_wakeup[OF demo_queued] by (simp add: demo_defs)

definition demo_end :: "nat tp_system" where
  "demo_end = (demo [Returned NV_TP_OK] [WExit] ((demo_pool 7 1 1 0)\<lparr>tp_shutdown := True\<rparr>) [7] [7])\<lparr>finished := [7]\<rparr>"

lemma demo_destroyed: "reach tp_start tp_step demo_end"
proof -
  have "reach tp_start tp_step ((demo [Returned NV_TP_OK] [WReady] (demo_pool 7 1 1 0) [7] [7])\<lparr>finished := [7]\<rparr>)"
    using reach_step[OF demo_running step_finish[of 0 _ 7]] by (simp add: demo_defs)
  from reach_step[OF this step_destroy[of _ NV_TP_SHUTDOWN_GRACEFUL]]
  have "reach tp_start tp_step ((demo [Returned NV_TP_OK] [WReady] ((demo_pool 7 1 1 0)\<lparr>tp_shutdown := True\<rparr>) [7] [7])\<lparr>finished := [7]\<rparr>)"
    by (simp add: demo_defs nv_threadpool_destroy_def wake_worker_def)
  from reach_step[OF this step_worker[of 0 _ 0]] show ?thesis
    by (simp add: demo_end_def demo_defs nv_threadpool_thread_def)
qed

theorem nv_threadpool_graceful_runs_all_witness: "mset (finished demo_end) = mset (accepted demo_end)"
  using nv_threadpool_graceful_runs_all[OF demo_destroyed] by (simp add: demo_end_def demo_defs destroy_joined_def)

end
