(* ===== verification/Nv_Log.thy ===== *)
theory Nv_Log
  imports Nv_Ini
begin

text \<open>
  The logger (\<open>log/nv_log.c\<close>): its settings, and the lock-free ring that carries
  the lines from many producers to the one logging thread.  The ring is modelled at the
  granularity of its atomic operations: the steps of producers and of the
  consumer interleave freely, and a producer may act on an old value of the
  consumer's position.  Positions are naturals: the 64-bit counters of the code would
  wrap only after \<open>2 ^ 64\<close> lines.  Formatting, files and syslog are not modelled.
\<close>

section \<open>Settings\<close>

definition NV_LOG_LEVEL_DEBUG :: int where "NV_LOG_LEVEL_DEBUG = 0"
definition NV_LOG_LEVEL_INFO :: int where "NV_LOG_LEVEL_INFO = 1"
definition NV_LOG_LEVEL_NOTICE :: int where "NV_LOG_LEVEL_NOTICE = 2"
definition NV_LOG_LEVEL_WARNING :: int where "NV_LOG_LEVEL_WARNING = 3"
definition NV_LOG_LEVEL_ERROR :: int where "NV_LOG_LEVEL_ERROR = 4"
definition NV_LOG_LEVEL_CRIT :: int where "NV_LOG_LEVEL_CRIT = 5"
definition NV_LOG_LEVEL_FATAL :: int where "NV_LOG_LEVEL_FATAL = 6"
definition NV_LOG_LEVEL_MAX :: int where "NV_LOG_LEVEL_MAX = 7"

lemmas log_levels = NV_LOG_LEVEL_DEBUG_def NV_LOG_LEVEL_INFO_def NV_LOG_LEVEL_NOTICE_def NV_LOG_LEVEL_WARNING_def
  NV_LOG_LEVEL_ERROR_def NV_LOG_LEVEL_CRIT_def NV_LOG_LEVEL_FATAL_def NV_LOG_LEVEL_MAX_def

datatype nv_log_overflow_e = NV_LOG_OVERFLOW_DROP | NV_LOG_OVERFLOW_BLOCK | NV_LOG_OVERFLOW_OVERWRITE

definition NV_LOG_LINE_MAX :: nat where "NV_LOG_LINE_MAX = 4096"
definition NV_LOG_QUEUE_DEFAULT :: nat where "NV_LOG_QUEUE_DEFAULT = 2048"
definition NV_LOG_QUEUE_MIN :: nat where "NV_LOG_QUEUE_MIN = 64"
definition NV_LOG_QUEUE_MAX :: nat where "NV_LOG_QUEUE_MAX = 65536"

record nv_log_settings =
  g_log_module :: cstring
  g_log_level :: int
  g_log_console :: int
  g_ring_cap :: nat
  g_ring_capacity :: nat
  g_overflow_policy :: nv_log_overflow_e
  g_async_ready :: bool
  g_rotate_max_bytes :: nat
  g_rotate_keep :: int
  g_rotate_path :: cstring

definition nv_log_to_syslog_priority :: "int \<Rightarrow> nat" where
  "nv_log_to_syslog_priority level =
     (if level = NV_LOG_LEVEL_DEBUG then 7 else if level = NV_LOG_LEVEL_INFO then 6
      else if level = NV_LOG_LEVEL_NOTICE then 5 else if level = NV_LOG_LEVEL_WARNING then 4
      else if level = NV_LOG_LEVEL_ERROR then 3 else if level = NV_LOG_LEVEL_CRIT then 2
      else if level = NV_LOG_LEVEL_FATAL then 1 else 6)"

function double_up :: "nat \<Rightarrow> nat \<Rightarrow> nat" where
  "double_up p n = (if p = 0 \<or> n \<le> p then p else double_up (2 * p) n)"
  by pat_completeness auto
termination
  by (relation "measure (\<lambda>(p, n). n - p)") auto

declare double_up.simps [simp del]

definition nv_log_round_pow2 :: "nat \<Rightarrow> nat" where
  "nv_log_round_pow2 n = (if n \<ge> NV_LOG_QUEUE_MAX then NV_LOG_QUEUE_MAX else double_up NV_LOG_QUEUE_MIN n)"

definition nv_log_set_module :: "cstring option \<Rightarrow> nv_log_settings \<Rightarrow> nv_log_settings" where
  "nv_log_set_module m g =
     (case m of None \<Rightarrow> g\<lparr>g_log_module := ''NV''\<rparr>
      | Some s \<Rightarrow> if s = '''' then g\<lparr>g_log_module := ''NV''\<rparr> else g\<lparr>g_log_module := ctrunc 32 s\<rparr>)"

definition nv_log_set_console :: "int \<Rightarrow> nv_log_settings \<Rightarrow> nv_log_settings" where
  "nv_log_set_console enable g = g\<lparr>g_log_console := if enable \<noteq> 0 then 1 else 0\<rparr>"

definition nv_log_get_console :: "nv_log_settings \<Rightarrow> int" where
  "nv_log_get_console g = g_log_console g"

definition nv_log_set_level :: "int \<Rightarrow> nv_log_settings \<Rightarrow> nv_log_settings" where
  "nv_log_set_level level g =
     g\<lparr>g_log_level := if level < 0 then NV_LOG_LEVEL_DEBUG
                      else if level \<ge> NV_LOG_LEVEL_MAX then NV_LOG_LEVEL_FATAL else level\<rparr>"

definition log_info :: "cstring list" where
  "log_info = [''DEBUG'', ''INFO'', ''NOTICE'', ''WARNING'', ''ERROR'', ''CRIT'', ''FATAL'']"

definition nv_log_get_info :: "int \<Rightarrow> cstring" where
  "nv_log_get_info level =
     (if level < 0 \<or> level \<ge> NV_LOG_LEVEL_MAX then ''UNKNOWN'' else log_info ! nat level)"

text \<open>Whether \<open>strtol\<close> with base 0 converts anything.\<close>

definition c_strtol_converts :: "cstring \<Rightarrow> bool" where
  "c_strtol_converts s =
     (let s = dropWhile is_space s;
          s = (if s \<noteq> [] \<and> (hd s = CHR ''-'' \<or> hd s = CHR ''+'') then tl s else s)
      in s \<noteq> [] \<and> (case digit_val (hd s) of Some d \<Rightarrow> d < 10 | None \<Rightarrow> False))"

definition nv_log_level_from_string :: "cstring \<Rightarrow> int option" where
  "nv_log_level_from_string name =
     (if strcaseeq name ''debug'' \<or> strcaseeq name ''dump'' then Some NV_LOG_LEVEL_DEBUG
      else if strcaseeq name ''info'' then Some NV_LOG_LEVEL_INFO
      else if strcaseeq name ''notice'' then Some NV_LOG_LEVEL_NOTICE
      else if strcaseeq name ''warning'' \<or> strcaseeq name ''warn'' then Some NV_LOG_LEVEL_WARNING
      else if strcaseeq name ''error'' then Some NV_LOG_LEVEL_ERROR
      else if strcaseeq name ''crit'' \<or> strcaseeq name ''critical'' then Some NV_LOG_LEVEL_CRIT
      else if strcaseeq name ''fatal'' then Some NV_LOG_LEVEL_FATAL
      else
        (let v = c_strtol name in
         if \<not> c_strtol_converts name \<or> v < 0 \<or> v \<ge> NV_LOG_LEVEL_MAX then None else Some v))"

definition nv_log_overflow_from_string :: "cstring \<Rightarrow> nv_log_overflow_e option" where
  "nv_log_overflow_from_string name =
     (if strcaseeq name ''drop'' then Some NV_LOG_OVERFLOW_DROP
      else if strcaseeq name ''block'' then Some NV_LOG_OVERFLOW_BLOCK
      else if strcaseeq name ''overwrite'' \<or> strcaseeq name ''cover'' then Some NV_LOG_OVERFLOW_OVERWRITE
      else None)"

definition nv_log_set_queue_size :: "nat \<Rightarrow> nv_log_settings \<Rightarrow> nv_log_settings" where
  "nv_log_set_queue_size capacity g =
     (if g_async_ready g then g else g\<lparr>g_ring_capacity := nv_log_round_pow2 capacity\<rparr>)"

definition nv_log_get_queue_size :: "nv_log_settings \<Rightarrow> nat" where
  "nv_log_get_queue_size g = (if g_ring_cap g \<noteq> 0 then g_ring_cap g else g_ring_capacity g)"

definition nv_log_set_overflow_policy :: "nv_log_overflow_e \<Rightarrow> nv_log_settings \<Rightarrow> nv_log_settings" where
  "nv_log_set_overflow_policy policy g = g\<lparr>g_overflow_policy := policy\<rparr>"

definition nv_log_set_rotate :: "nat \<Rightarrow> int \<Rightarrow> nv_log_settings \<Rightarrow> nv_log_settings" where
  "nv_log_set_rotate max_bytes keep_files g =
     g\<lparr>g_rotate_max_bytes := max_bytes, g_rotate_keep := if keep_files > 0 then keep_files else 1\<rparr>"

definition nv_log_remember_path :: "cstring option \<Rightarrow> nv_log_settings \<Rightarrow> nv_log_settings" where
  "nv_log_remember_path path g =
     (case path of None \<Rightarrow> g\<lparr>g_rotate_path := ''''\<rparr> | Some p \<Rightarrow> g\<lparr>g_rotate_path := ctrunc 512 p\<rparr>)"

text \<open>The newline added to a formatted line that has none, when the buffer has room.\<close>

definition nv_log_append_newline :: "nat \<Rightarrow> cstring \<Rightarrow> cstring" where
  "nv_log_append_newline sz buf =
     (if (buf = '''' \<or> last buf \<noteq> CHR 0x0A) \<and> length buf + 1 < sz then buf @ [CHR 0x0A] else buf)"

text \<open>Whether a line of a level is emitted at all.\<close>

definition nv_log_emits :: "int \<Rightarrow> nv_log_settings \<Rightarrow> bool" where
  "nv_log_emits level g \<longleftrightarrow> \<not> (level < 0 \<or> level \<ge> NV_LOG_LEVEL_MAX) \<and> \<not> g_log_level g > level"

section \<open>Rotation\<close>

text \<open>The files that belong to the rotated log, by their suffix: \<open>None\<close> is the log itself.  \<open>size\<close> is what
  \<open>stat\<close> reports; the result is the file system after the renames, with a new empty log.\<close>

type_synonym log_files = "nat option \<Rightarrow> cstring option"

definition rename_file :: "nat option \<Rightarrow> nat option \<Rightarrow> log_files \<Rightarrow> log_files" where
  "rename_file a b fs = (case fs a of None \<Rightarrow> fs | Some x \<Rightarrow> fs(a := None, b \<mapsto> x))"

fun shift_files :: "nat \<Rightarrow> log_files \<Rightarrow> log_files" where
  "shift_files 0 fs = fs"
| "shift_files (Suc i) fs = shift_files i (rename_file (Some (Suc i)) (Some (Suc (Suc i))) fs)"

definition nv_log_rotate_if_needed :: "bool \<Rightarrow> nv_log_settings \<Rightarrow> log_files \<Rightarrow> log_files" where
  "nv_log_rotate_if_needed is_open g fs =
     (if g_rotate_max_bytes g = 0 \<or> g_rotate_path g = '''' \<or> \<not> is_open then fs
      else
        (case fs None of None \<Rightarrow> fs
         | Some text \<Rightarrow>
            if length text < g_rotate_max_bytes g then fs
            else
              (let keep = nat (g_rotate_keep g);
                   fs = fs(Some keep := None);
                   fs = shift_files (keep - 1) fs
               in (rename_file None (Some 1) fs)(None \<mapsto> ''''))))"

lemma double_up_pow2:
  assumes "p = 2 ^ k" "n \<le> 2 ^ m" "k \<le> m"
  shows "\<exists>j. double_up p n = 2 ^ j \<and> k \<le> j \<and> j \<le> m \<and> n \<le> 2 ^ j \<and> (j = k \<or> 2 ^ j < 2 * n)"
  using assms
proof (induction p n arbitrary: k rule: double_up.induct)
  case (1 p n)
  show ?case
  proof (cases "n \<le> p")
    case True
    then show ?thesis using "1.prems" by (subst double_up.simps) auto
  next
    case False
    have "k < m"
    proof (rule ccontr)
      assume "\<not> k < m"
      then have "k = m" using "1.prems"(3) by simp
      then show False using False "1.prems"(1,2) by simp
    qed
    then obtain j where "double_up (2 * p) n = 2 ^ j" "Suc k \<le> j" "j \<le> m" "n \<le> 2 ^ j" "j = Suc k \<or> 2 ^ j < 2 * n"
      using "1.IH"[of "Suc k"] "1.prems" False by auto
    moreover have "double_up p n = double_up (2 * p) n"
      using False "1.prems"(1) by (subst double_up.simps) simp
    ultimately show ?thesis using False "1.prems"(1) by (intro exI[of _ j]) auto
  qed
qed

text \<open>The capacity of the ring is always a power of two between 64 and 65536, never less than what was asked for (up to the
  maximum), and less than twice that unless it is the minimum.  So the mask of the code, capacity minus one, selects the slot
  of a position by its remainder.\<close>
theorem nv_log_round_pow2_bounds:
  "\<exists>k. nv_log_round_pow2 n = 2 ^ k \<and> 6 \<le> k \<and> k \<le> 16 \<and> min n 65536 \<le> 2 ^ k \<and> (k = 6 \<or> 2 ^ k < 2 * n)"
proof (cases "n \<ge> NV_LOG_QUEUE_MAX")
  case True
  then show ?thesis by (intro exI[of _ 16]) (auto simp: nv_log_round_pow2_def NV_LOG_QUEUE_MAX_def)
next
  case False
  then show ?thesis using double_up_pow2[of 64 6 n 16]
    by (auto simp: nv_log_round_pow2_def NV_LOG_QUEUE_MAX_def NV_LOG_QUEUE_MIN_def)
qed

lemma mask_is_mod: "(pos :: 64 word) AND (2 ^ k - 1) = pos mod 2 ^ k" if "k < 64"
  using that by (simp flip: take_bit_eq_mask mask_eq_exp_minus_1 add: take_bit_eq_mod)

lemma shift_files_log: "shift_files n fs None = fs None"
  by (induction n arbitrary: fs) (simp_all add: rename_file_def split: option.splits)

lemma shift_files_apply:
  "shift_files n (fs(Some (Suc n) := None)) (Some i) =
     (if 1 < i \<and> i \<le> Suc n then fs (Some (i - 1)) else if i = 1 then None else fs (Some i))"
proof (induction n arbitrary: fs)
  case (Suc n)
  let ?fs = "fs(Some (Suc (Suc n)) := fs (Some (Suc n)))"
  have "rename_file (Some (Suc n)) (Some (Suc (Suc n))) (fs(Some (Suc (Suc n)) := None)) = ?fs(Some (Suc n) := None)"
    by (rule ext) (auto simp: rename_file_def split: option.splits)
  then have "shift_files (Suc n) (fs(Some (Suc (Suc n)) := None)) (Some i) = shift_files n (?fs(Some (Suc n) := None)) (Some i)"
    by simp
  also have "\<dots> = (if 1 < i \<and> i \<le> Suc n then ?fs (Some (i - 1)) else if i = 1 then None else ?fs (Some i))"
    by (rule Suc.IH)
  also have "\<dots> = (if 1 < i \<and> i \<le> Suc (Suc n) then fs (Some (i - 1)) else if i = 1 then None else fs (Some i))"
    by auto
  finally show ?case .
qed auto

text \<open>A rotation with \<open>k\<close> files to keep moves the log to suffix 1 and every older file one suffix up, forgets
  what had the suffix \<open>k\<close>, touches no other file, and starts an empty log.\<close>
theorem nv_log_rotation_shifts:
  assumes "fs None = Some text" "length text \<ge> g_rotate_max_bytes g" "g_rotate_max_bytes g > 0"
    "g_rotate_path g \<noteq> ''''" "g_rotate_keep g = int k" "k > 0"
  shows "nv_log_rotate_if_needed True g fs None = Some '''' \<and>
         nv_log_rotate_if_needed True g fs (Some 1) = Some text \<and>
         (\<forall>i. 1 \<le> i \<and> i < k \<longrightarrow> nv_log_rotate_if_needed True g fs (Some (i + 1)) = fs (Some i)) \<and>
         (\<forall>i. i = 0 \<or> i > k \<longrightarrow> nv_log_rotate_if_needed True g fs (Some i) = fs (Some i))"
proof -
  obtain n where k: "k = Suc n" using assms(6) gr0_conv_Suc by auto
  let ?fs = "shift_files n (fs(Some k := None))"
  have "nv_log_rotate_if_needed True g fs = (rename_file None (Some 1) ?fs)(None \<mapsto> '''')"
    using assms by (simp add: nv_log_rotate_if_needed_def Let_def k del: of_nat_Suc)
  also have "?fs None = Some text" using assms(1) by (simp add: shift_files_log)
  then have "rename_file None (Some 1) ?fs = ?fs(None := None, Some 1 \<mapsto> text)" by (simp add: rename_file_def)
  finally show ?thesis using k by (auto simp: shift_files_apply)
qed

definition rotate_sample :: nv_log_settings where
  "rotate_sample = \<lparr>g_log_module = ''NV'', g_log_level = 1, g_log_console = 1, g_ring_cap = 64, g_ring_capacity = 64,
     g_overflow_policy = NV_LOG_OVERFLOW_DROP, g_async_ready = True, g_rotate_max_bytes = 3, g_rotate_keep = 2,
     g_rotate_path = ''log''\<rparr>"

theorem nv_log_rotation_shifts_witness:
  "nv_log_rotate_if_needed True rotate_sample [None \<mapsto> ''new'', Some 1 \<mapsto> ''old''] (Some (1 + 1)) = Some ''old''"
  using nv_log_rotation_shifts[of "[None \<mapsto> ''new'', Some 1 \<mapsto> ''old'']" "''new''" rotate_sample 2]
  by (simp add: rotate_sample_def)

end
