(* ===== verification/Nv_LogRing.thy ===== *)
theory Nv_LogRing
  imports Nv_Log
begin

text \<open>
  The ring between the threads that log and the logging thread
  (\<open>nv_log_ring_push\<close>, \<open>nv_log_ring_pop\<close>, \<open>nv_log_thread_main\<close>).  Every access to a shared
  atomic variable that matters is a step of its own; a compare-and-exchange that fails leaves its thread where it was
  and is not a step.  The lists \<open>claimed\<close>, \<open>popped\<close>, \<open>written\<close> and \<open>discarded\<close> record what happened.
\<close>

section \<open>State\<close>

text \<open>A producer is about to claim a position for its line; has advanced the consumer's position over the oldest line and must
  still release its slot; owns a position and waits for its slot; has published its line and is about to signal; or has returned.\<close>

datatype 'm producer = PTry 'm | PRelease nat 'm | PSpin nat 'm | PSignal | PReturn int

text \<open>The logging thread: at the top of its loop, holding the wait mutex, waiting, past the wait, in the final drain, or ended.\<close>

datatype cons_pc = CTop | CLocked | CWait | CAfter | CDrain | CDone

text \<open>Its progress within a call of \<open>nv_log_ring_pop\<close>.\<close>

datatype 'm cons_local = CIdle | CPos nat | CTaken nat 'm

record 'm log_ring =
  slots :: "(nat \<times> 'm) list"
  capacity :: nat
  policy :: nv_log_overflow_e
  enqueue_pos :: nat
  dequeue_pos :: nat
  dropped :: nat
  stop :: bool
  producers :: "'m producer list"
  cpc :: cons_pc
  clocal :: "'m cons_local"
  claimed :: "'m list"
  popped :: "'m list"
  written :: "'m list"
  discarded :: "'m list"

definition slot_at :: "'m log_ring \<Rightarrow> nat \<Rightarrow> nat \<times> 'm" where
  "slot_at r pos = slots r ! (pos mod capacity r)"

definition set_slot :: "nat \<Rightarrow> nat \<times> 'm \<Rightarrow> 'm log_ring \<Rightarrow> 'm log_ring" where
  "set_slot pos v r = r\<lparr>slots := (slots r)[pos mod capacity r := v]\<rparr>"

definition put_producer :: "nat \<Rightarrow> 'm producer \<Rightarrow> 'm log_ring \<Rightarrow> 'm log_ring" where
  "put_producer i p r = r\<lparr>producers := (producers r)[i := p]\<rparr>"

text \<open>\<open>blank\<close> is the zeroed content of a new slot.\<close>

definition nv_log_ring_init :: "nat \<Rightarrow> nv_log_overflow_e \<Rightarrow> 'm \<Rightarrow> 'm log_ring" where
  "nv_log_ring_init ring_capacity pol blank =
     (let cap = nv_log_round_pow2 ring_capacity in
      \<lparr>slots = map (\<lambda>i. (i, blank)) [0..<cap], capacity = cap, policy = pol, enqueue_pos = 0, dequeue_pos = 0,
       dropped = 0, stop = False, producers = [], cpc = CTop, clocal = CIdle,
       claimed = [], popped = [], written = [], discarded = []\<rparr>)"

section \<open>Producers\<close>

text \<open>The claim of a position, on the value \<open>h\<close> read earlier from the consumer's position.\<close>

definition push_claim :: "nat \<Rightarrow> nat \<Rightarrow> 'm \<Rightarrow> 'm log_ring \<Rightarrow> 'm log_ring" where
  "push_claim i h m r =
     (if enqueue_pos r - h \<ge> capacity r
      then if policy r = NV_LOG_OVERFLOW_DROP \<or> policy r = NV_LOG_OVERFLOW_BLOCK
           then put_producer i (PReturn (-1)) (r\<lparr>dropped := dropped r + 1\<rparr>)
           else if dequeue_pos r = h
           then put_producer i (PRelease h m) (r\<lparr>dequeue_pos := h + 1, dropped := dropped r + 1\<rparr>)
           else r
      else put_producer i (PSpin (enqueue_pos r) m) (r\<lparr>enqueue_pos := enqueue_pos r + 1, claimed := claimed r @ [m]\<rparr>))"

definition push_release :: "nat \<Rightarrow> nat \<Rightarrow> 'm \<Rightarrow> 'm log_ring \<Rightarrow> 'm log_ring" where
  "push_release i h m r = put_producer i (PTry m) (set_slot h (h + capacity r, snd (slot_at r h)) r)"

text \<open>After the spinning: the line is written and published, or given up when the slot never became free.\<close>

definition push_publish :: "nat \<Rightarrow> nat \<Rightarrow> 'm \<Rightarrow> 'm log_ring \<Rightarrow> 'm log_ring" where
  "push_publish i pos m r =
     (if fst (slot_at r pos) \<noteq> pos then put_producer i (PReturn (-1)) (r\<lparr>dropped := dropped r + 1\<rparr>)
      else put_producer i PSignal (set_slot pos (pos + 1, m) r))"

definition wake_consumer :: "'m log_ring \<Rightarrow> 'm log_ring" where
  "wake_consumer r = (if cpc r = CWait then r\<lparr>cpc := CAfter\<rparr> else r)"

definition push_signal :: "nat \<Rightarrow> 'm log_ring \<Rightarrow> 'm log_ring" where
  "push_signal i r =
     put_producer i (PReturn 0) (if dequeue_pos r < enqueue_pos r then wake_consumer r else r)"

section \<open>The logging thread\<close>

definition pop_load :: "'m log_ring \<Rightarrow> 'm log_ring" where
  "pop_load r = r\<lparr>clocal := CPos (dequeue_pos r)\<rparr>"

definition pop_ready :: "nat \<Rightarrow> 'm log_ring \<Rightarrow> bool" where
  "pop_ready pos r \<longleftrightarrow> \<not> pos \<ge> enqueue_pos r \<and> fst (slot_at r pos) = pos + 1"

text \<open>A pop that succeeds copies the line and releases the slot; its last store advances the position.\<close>

definition pop_take :: "nat \<Rightarrow> 'm log_ring \<Rightarrow> 'm log_ring" where
  "pop_take pos r =
     (let m = snd (slot_at r pos) in
      (set_slot pos (pos + capacity r, m) r)\<lparr>clocal := CTaken pos m, popped := popped r @ [m]\<rparr>)"

text \<open>What the loop does with a line: the pop under the wait mutex ignores it.\<close>

definition pop_advance :: "nat \<Rightarrow> 'm \<Rightarrow> 'm log_ring \<Rightarrow> 'm log_ring" where
  "pop_advance pos m r =
     (let r = r\<lparr>dequeue_pos := pos + 1, clocal := CIdle\<rparr> in
      case cpc r of
        CLocked \<Rightarrow> r\<lparr>cpc := CAfter, discarded := discarded r @ [m]\<rparr>
      | CAfter \<Rightarrow> r\<lparr>cpc := CTop, written := written r @ [m]\<rparr>
      | _ \<Rightarrow> r\<lparr>written := written r @ [m]\<rparr>)"

definition pop_fail :: "'m log_ring \<Rightarrow> 'm log_ring" where
  "pop_fail r =
     (let r = r\<lparr>clocal := CIdle\<rparr> in
      case cpc r of
        CTop \<Rightarrow> r\<lparr>cpc := if stop r then CDrain else CLocked\<rparr>
      | CLocked \<Rightarrow> r\<lparr>cpc := if stop r then CAfter else CWait\<rparr>
      | CAfter \<Rightarrow> r\<lparr>cpc := if stop r then CDrain else CTop\<rparr>
      | CDrain \<Rightarrow> r\<lparr>cpc := CDone\<rparr>
      | _ \<Rightarrow> r)"

definition nv_log_ring_shutdown :: "'m log_ring \<Rightarrow> 'm log_ring" where
  "nv_log_ring_shutdown r = wake_consumer (r\<lparr>stop := True\<rparr>)"

section \<open>Steps\<close>

datatype 'm log_act = Push 'm | Producer nat | Consumer | Wakeup | Shutdown

inductive log_step :: "'m log_ring \<Rightarrow> 'm log_act \<Rightarrow> 'm log_ring \<Rightarrow> bool" where
  log_push: "log_step r (Push m) (r\<lparr>producers := producers r @ [PTry m]\<rparr>)"
| log_claim: "i < length (producers r) \<Longrightarrow> producers r ! i = PTry m \<Longrightarrow> h \<le> dequeue_pos r \<Longrightarrow>
    log_step r (Producer i) (push_claim i h m r)"
| log_release: "i < length (producers r) \<Longrightarrow> producers r ! i = PRelease h m \<Longrightarrow>
    log_step r (Producer i) (push_release i h m r)"
| log_publish: "i < length (producers r) \<Longrightarrow> producers r ! i = PSpin pos m \<Longrightarrow>
    log_step r (Producer i) (push_publish i pos m r)"
| log_signal: "i < length (producers r) \<Longrightarrow> producers r ! i = PSignal \<Longrightarrow> cpc r \<noteq> CLocked \<Longrightarrow>
    log_step r (Producer i) (push_signal i r)"
| log_load: "clocal r = CIdle \<Longrightarrow> cpc r \<noteq> CWait \<Longrightarrow> cpc r \<noteq> CDone \<Longrightarrow> log_step r Consumer (pop_load r)"
| log_take: "clocal r = CPos pos \<Longrightarrow> pop_ready pos r \<Longrightarrow> log_step r Consumer (pop_take pos r)"
| log_fail: "clocal r = CPos pos \<Longrightarrow> \<not> pop_ready pos r \<Longrightarrow> log_step r Consumer (pop_fail r)"
| log_advance: "clocal r = CTaken pos m \<Longrightarrow> log_step r Consumer (pop_advance pos m r)"
| log_wakeup: "log_step r Wakeup (wake_consumer r)"
| log_shutdown: "cpc r \<noteq> CLocked \<Longrightarrow> log_step r Shutdown (nv_log_ring_shutdown r)"

definition log_start :: "'m log_ring \<Rightarrow> bool" where
  "log_start r \<longleftrightarrow> (\<exists>n pol blank. pol \<noteq> NV_LOG_OVERFLOW_OVERWRITE \<and> r = nv_log_ring_init n pol blank)"

section \<open>The invariant\<close>

text \<open>The number of lines the logging thread has taken out of the ring: it releases a slot before it advances its position.\<close>

definition taken :: "'m log_ring \<Rightarrow> nat" where
  "taken r = (case clocal r of CTaken pos _ \<Rightarrow> pos + 1 | _ \<Rightarrow> dequeue_pos r)"

text \<open>The slots: a position between \<open>taken\<close> and the enqueue position holds its line, or its owner has yet to write it;
  the other positions of the window are free.\<close>

definition slots_ok :: "'m log_ring \<Rightarrow> bool" where
  "slots_ok r \<longleftrightarrow>
     (\<forall>p. taken r \<le> p \<and> p < enqueue_pos r \<longrightarrow>
        slot_at r p = (p + 1, claimed r ! p) \<or>
        fst (slot_at r p) = p \<and> PSpin p (claimed r ! p) \<in> set (producers r)) \<and>
     (\<forall>p. enqueue_pos r \<le> p \<and> p < taken r + capacity r \<longrightarrow> fst (slot_at r p) = p)"

definition owners_ok :: "'m log_ring \<Rightarrow> bool" where
  "owners_ok r \<longleftrightarrow>
     (\<forall>i p m. i < length (producers r) \<and> producers r ! i = PSpin p m \<longrightarrow>
        taken r \<le> p \<and> p < enqueue_pos r \<and> claimed r ! p = m \<and> fst (slot_at r p) = p \<and>
        (\<forall>j m'. j < length (producers r) \<and> producers r ! j = PSpin p m' \<longrightarrow> j = i)) \<and>
     (\<forall>h m. PRelease h m \<notin> set (producers r))"

definition consumer_ok :: "'m log_ring \<Rightarrow> bool" where
  "consumer_ok r \<longleftrightarrow>
     (\<forall>p. clocal r = CPos p \<longrightarrow> p = dequeue_pos r) \<and>
     (\<forall>p m. clocal r = CTaken p m \<longrightarrow> p = dequeue_pos r \<and> p < enqueue_pos r) \<and>
     (cpc r = CWait \<or> cpc r = CDone \<longrightarrow> clocal r = CIdle) \<and>
     (cpc r = CWait \<and> pop_ready (dequeue_pos r) r \<longrightarrow> PSignal \<in> set (producers r))"

definition counters_ok :: "'m log_ring \<Rightarrow> bool" where
  "counters_ok r \<longleftrightarrow> policy r \<noteq> NV_LOG_OVERFLOW_OVERWRITE \<and> 0 < capacity r \<and> length (slots r) = capacity r \<and>
     length (claimed r) = enqueue_pos r \<and> taken r \<le> enqueue_pos r \<and> enqueue_pos r \<le> dequeue_pos r + capacity r \<and>
     popped r = take (taken r) (claimed r)"

definition log_inv :: "'m log_ring \<Rightarrow> bool" where
  "log_inv r \<longleftrightarrow> counters_ok r \<and> slots_ok r \<and> owners_ok r \<and> consumer_ok r"

lemma mod_window:
  assumes "p mod c = q mod c" "t \<le> p" "p < t + c" "t \<le> q" "q < t + (c :: nat)"
  shows "p = q"
proof -
  have "p = q" if "p \<le> q" "p mod c = q mod c" "q < t + c" "t \<le> p" for p q
  proof -
    have "c dvd q - p" using that(1,2) by (metis mod_eq_dvd_iff_nat)
    moreover have "q - p < c" using that by linarith
    ultimately have "q - p = 0" by (metis dvd_imp_mod_0 mod_less)
    then show ?thesis using that(1) by simp
  qed
  from this[of p q] this[of q p] show ?thesis using assms by (cases "p \<le> q") auto
qed

lemma slot_at_set_slot:
  assumes "0 < capacity r" "length (slots r) = capacity r"
  shows "slot_at (set_slot p v r) q = (if q mod capacity r = p mod capacity r then v else slot_at r q)"
  using assms by (simp add: slot_at_def set_slot_def nth_list_update)

lemma ring_frames [simp]:
  "slot_at (put_producer i x r) p = slot_at r p" "taken (put_producer i x r) = taken r"
  "taken (set_slot q v r) = taken r" "producers (set_slot q v r) = producers r"
  "producers (put_producer i x r) = (producers r)[i := x]"
  "capacity (put_producer i x r) = capacity r" "enqueue_pos (put_producer i x r) = enqueue_pos r"
  "dequeue_pos (put_producer i x r) = dequeue_pos r" "claimed (put_producer i x r) = claimed r"
  "cpc (put_producer i x r) = cpc r" "clocal (put_producer i x r) = clocal r" "policy (put_producer i x r) = policy r"
  "slots (put_producer i x r) = slots r" "popped (put_producer i x r) = popped r"
  "capacity (set_slot q v r) = capacity r" "enqueue_pos (set_slot q v r) = enqueue_pos r"
  "dequeue_pos (set_slot q v r) = dequeue_pos r" "claimed (set_slot q v r) = claimed r"
  "cpc (set_slot q v r) = cpc r" "clocal (set_slot q v r) = clocal r" "policy (set_slot q v r) = policy r"
  "length (slots (set_slot q v r)) = length (slots r)" "popped (set_slot q v r) = popped r"
  by (simp_all add: slot_at_def put_producer_def set_slot_def taken_def split: cons_local.splits)

lemmas inv_parts = log_inv_def counters_ok_def slots_ok_def owners_ok_def consumer_ok_def

text \<open>Producers that do not own a position may change freely, except for one about to signal.\<close>

lemma owners_set:
  assumes "owners_ok r" "i < length (producers r)" "\<And>p m. x \<noteq> PSpin p m" "\<And>h m. x \<noteq> PRelease h m"
  shows "owners_ok (put_producer i x r)"
  unfolding owners_ok_def
proof (intro conjI allI impI)
  fix h m
  show "PRelease h m \<notin> set (producers (put_producer i x r))"
    using assms by (auto simp: owners_ok_def dest!: set_updateD)
next
  fix k p m
  assume k: "k < length (producers (put_producer i x r)) \<and> producers (put_producer i x r) ! k = PSpin p m"
  then have "k \<noteq> i" using assms(3) by auto
  then have k': "k < length (producers r)" "producers r ! k = PSpin p m" using k by auto
  note own = assms(1)[unfolded owners_ok_def, THEN conjunct1, rule_format, OF conjI[OF k']]
  show "taken (put_producer i x r) \<le> p" "p < enqueue_pos (put_producer i x r)" "claimed (put_producer i x r) ! p = m"
    "fst (slot_at (put_producer i x r) p) = p"
    using own by simp_all
  fix j m'
  assume j: "j < length (producers (put_producer i x r)) \<and> producers (put_producer i x r) ! j = PSpin p m'"
  then have "j \<noteq> i" using assms(3) by auto
  then show "j = k" using own j by simp
qed

lemma dropped_frames [simp]:
  "slot_at (r\<lparr>dropped := d\<rparr>) = slot_at r" "taken (r\<lparr>dropped := d\<rparr>) = taken r"
  by (auto simp: slot_at_def taken_def fun_eq_iff split: cons_local.splits)

lemma dropped_inv: "log_inv (r\<lparr>dropped := d\<rparr>) = log_inv r"
  by (simp add: inv_parts pop_ready_def)

text \<open>A producer that owns nothing changes to another such state.\<close>

lemma idle_producer_inv:
  assumes inv: "log_inv r" and i: "i < length (producers r)"
    and old: "\<And>p m. producers r ! i \<noteq> PSpin p m" "producers r ! i \<noteq> PSignal"
    and x: "\<And>p m. x \<noteq> PSpin p m" "\<And>h m. x \<noteq> PRelease h m"
  shows "log_inv (put_producer i x r)"
proof -
  have "owners_ok (put_producer i x r)" using owners_set[OF _ i x] inv by (simp add: log_inv_def)
  moreover have "counters_ok (put_producer i x r)" using inv by (simp add: log_inv_def counters_ok_def)
  moreover have "slots_ok (put_producer i x r)"
    using inv old(1) by (auto simp: log_inv_def slots_ok_def intro: set_update_keep)
  moreover have "consumer_ok (put_producer i x r)"
    using inv old(2) by (auto simp: log_inv_def consumer_ok_def pop_ready_def intro: set_update_keep)
  ultimately show ?thesis by (simp add: log_inv_def)
qed

lemma push_inv:
  assumes "log_inv r"
  shows "log_inv (r\<lparr>producers := producers r @ [PTry m]\<rparr>)"
proof -
  let ?r = "r\<lparr>producers := producers r @ [PTry m]\<rparr>"
  have [simp]: "slot_at ?r = slot_at r" "taken ?r = taken r"
    by (auto simp: slot_at_def taken_def fun_eq_iff split: cons_local.splits)
  have "owners_ok ?r" using assms
    by (auto simp: log_inv_def owners_ok_def nth_append split: if_splits)
  then show ?thesis using assms by (auto simp: inv_parts pop_ready_def)
qed

lemma claim_counts:
  assumes "log_inv r" "h \<le> dequeue_pos r" "\<not> enqueue_pos r - h \<ge> capacity r"
  shows "enqueue_pos r < dequeue_pos r + capacity r"
  using assms by (auto simp: inv_parts)

lemma taken_bounds: "log_inv r \<Longrightarrow> dequeue_pos r \<le> taken r \<and> taken r \<le> dequeue_pos r + 1 \<and> taken r \<le> enqueue_pos r"
  by (auto simp: log_inv_def counters_ok_def consumer_ok_def taken_def split: cons_local.splits)

lemma claim_inv:
  assumes inv: "log_inv r" and i: "i < length (producers r)" "producers r ! i = PTry m"
    and room: "enqueue_pos r < dequeue_pos r + capacity r"
  shows "log_inv (put_producer i (PSpin (enqueue_pos r) m)
           (r\<lparr>enqueue_pos := enqueue_pos r + 1, claimed := claimed r @ [m]\<rparr>))"
    (is "log_inv (put_producer i ?x ?r)")
proof -
  let ?e = "enqueue_pos r"
  have fr: "slot_at ?r = slot_at r" "taken ?r = taken r"
    by (auto simp: slot_at_def taken_def fun_eq_iff split: cons_local.splits)
  note parts = inv[unfolded log_inv_def]
  have len: "length (claimed r) = ?e" using parts by (simp add: counters_ok_def)
  have free: "fst (slot_at r ?e) = ?e"
    using parts room taken_bounds[OF inv] unfolding slots_ok_def by auto
  have cnt: "counters_ok (put_producer i ?x ?r)"
    using parts room fr by (auto simp: counters_ok_def)
  have new: "?x \<in> set ((producers r)[i := ?x])" using i(1) by (rule set_update_new)
  have nth: "(claimed r @ [m]) ! p = claimed r ! p" if "p < ?e" for p using that len by (simp add: nth_append)
  have "slots_ok (put_producer i ?x ?r)"
    unfolding slots_ok_def
  proof (intro conjI allI impI)
    fix p
    assume p: "taken (put_producer i ?x ?r) \<le> p \<and> p < enqueue_pos (put_producer i ?x ?r)"
    show "slot_at (put_producer i ?x ?r) p = (p + 1, claimed (put_producer i ?x ?r) ! p) \<or>
        fst (slot_at (put_producer i ?x ?r) p) = p \<and>
        PSpin p (claimed (put_producer i ?x ?r) ! p) \<in> set (producers (put_producer i ?x ?r))"
    proof (cases "p = ?e")
      case True
      then show ?thesis using free new len fr by (simp add: nth_append)
    next
      case False
      then have "p < ?e" using p by simp
      then show ?thesis using parts p i(2) fr nth[of p] by (auto simp: slots_ok_def intro: set_update_keep)
    qed
  next
    fix p
    assume "enqueue_pos (put_producer i ?x ?r) \<le> p \<and> p < taken (put_producer i ?x ?r) + capacity (put_producer i ?x ?r)"
    then show "fst (slot_at (put_producer i ?x ?r) p) = p" using parts fr by (simp add: slots_ok_def)
  qed
  moreover have "owners_ok (put_producer i ?x ?r)"
    unfolding owners_ok_def
  proof (intro conjI allI impI)
    fix h m'
    show "PRelease h m' \<notin> set (producers (put_producer i ?x ?r))"
      using parts by (auto simp: owners_ok_def dest!: set_updateD)
  next
    fix k p m'
    assume k: "k < length (producers (put_producer i ?x ?r)) \<and> producers (put_producer i ?x ?r) ! k = PSpin p m'"
    have own: "k \<noteq> i \<Longrightarrow> taken r \<le> p \<and> p < ?e \<and> claimed r ! p = m' \<and> fst (slot_at r p) = p"
      using k parts unfolding owners_ok_def by auto
    show "taken (put_producer i ?x ?r) \<le> p" "p < enqueue_pos (put_producer i ?x ?r)"
      "claimed (put_producer i ?x ?r) ! p = m'" "fst (slot_at (put_producer i ?x ?r) p) = p"
      using own k free fr len taken_bounds[OF inv] i(1) by (cases "k = i"; auto simp: nth_append)+
    fix j m''
    assume j: "j < length (producers (put_producer i ?x ?r)) \<and> producers (put_producer i ?x ?r) ! j = PSpin p m''"
    have own': "j \<noteq> i \<Longrightarrow> p < ?e" using j parts unfolding owners_ok_def by auto
    show "j = k" using own own' k j parts i(1) unfolding owners_ok_def by (cases "k = i"; cases "j = i") auto
  qed
  moreover have ready: "pop_ready (dequeue_pos r) (put_producer i ?x ?r) \<Longrightarrow> pop_ready (dequeue_pos r) r"
    using free fr by (cases "dequeue_pos r = ?e") (auto simp: pop_ready_def)
  have "consumer_ok (put_producer i ?x ?r)"
    using parts ready i(2) by (auto simp: consumer_ok_def intro: set_update_keep)
  ultimately show ?thesis using cnt by (simp add: log_inv_def)
qed

lemma publish_inv:
  assumes inv: "log_inv r" and i: "i < length (producers r)" "producers r ! i = PSpin pos m"
  shows "fst (slot_at r pos) = pos" and "log_inv (put_producer i PSignal (set_slot pos (pos + 1, m) r))"
    (is "log_inv ?r")
proof -
  note parts = inv[unfolded log_inv_def]
  note cnt = parts[THEN conjunct1, unfolded counters_ok_def]
  have own: "taken r \<le> pos" "pos < enqueue_pos r" "claimed r ! pos = m"
    "\<And>j m'. j < length (producers r) \<Longrightarrow> producers r ! j = PSpin pos m' \<Longrightarrow> j = i"
    using parts i unfolding owners_ok_def by blast+
  show "fst (slot_at r pos) = pos" using parts i unfolding owners_ok_def by blast
  have slot: "slot_at ?r q = (if q mod capacity r = pos mod capacity r then (pos + 1, m) else slot_at r q)" for q
    using cnt by (simp add: slot_at_set_slot)
  have win: "q = pos" if "q mod capacity r = pos mod capacity r" "taken r \<le> q" "q < taken r + capacity r" for q
    using mod_window[OF that(1,2,3)] own(1,2) cnt taken_bounds[OF inv] by auto
  have bnd: "enqueue_pos r \<le> taken r + capacity r" using cnt taken_bounds[OF inv] by auto
  have cnt': "counters_ok ?r" using cnt by (simp add: counters_ok_def)
  have "slots_ok ?r"
    unfolding slots_ok_def
  proof (intro conjI allI impI)
    fix p
    assume p: "taken ?r \<le> p \<and> p < enqueue_pos ?r"
    show "slot_at ?r p = (p + 1, claimed ?r ! p) \<or> fst (slot_at ?r p) = p \<and> PSpin p (claimed ?r ! p) \<in> set (producers ?r)"
    proof (cases "p = pos")
      case True
      then show ?thesis using slot own(3) by simp
    next
      case False
      then have "p mod capacity r \<noteq> pos mod capacity r" using win[of p] p bnd by auto
      then show ?thesis using parts slot[of p] p False i(2) by (auto simp: slots_ok_def intro: set_update_keep)
    qed
  next
    fix p
    assume p: "enqueue_pos ?r \<le> p \<and> p < taken ?r + capacity ?r"
    then have "p mod capacity r \<noteq> pos mod capacity r" using win[of p] own cnt taken_bounds[OF inv] by auto
    then show "fst (slot_at ?r p) = p" using parts slot[of p] p by (simp add: slots_ok_def)
  qed
  moreover have "owners_ok ?r"
    unfolding owners_ok_def
  proof (intro conjI allI impI)
    fix h m'
    show "PRelease h m' \<notin> set (producers ?r)"
      using parts by (auto simp: owners_ok_def dest!: set_updateD)
  next
    fix k p m'
    assume k: "k < length (producers ?r) \<and> producers ?r ! k = PSpin p m'"
    then have ki: "k \<noteq> i" using i(1) by auto
    then have k': "k < length (producers r)" "producers r ! k = PSpin p m'" using k by auto
    note o = parts[THEN conjunct2, THEN conjunct2, THEN conjunct1, unfolded owners_ok_def, THEN conjunct1,
        rule_format, OF conjI[OF k']]
    have "p \<noteq> pos" using own(4)[OF k'(1)] k'(2) ki by auto
    then have "p mod capacity r \<noteq> pos mod capacity r" using win[of p] o bnd by auto
    then show "taken ?r \<le> p" "p < enqueue_pos ?r" "claimed ?r ! p = m'" "fst (slot_at ?r p) = p"
      using o slot[of p] by simp_all
    fix j m''
    assume j: "j < length (producers ?r) \<and> producers ?r ! j = PSpin p m''"
    then have "j \<noteq> i" using i(1) by auto
    then show "j = k" using o j by simp
  qed
  moreover have "consumer_ok ?r"
    using parts set_update_new[OF i(1), of PSignal] by (simp add: consumer_ok_def)
  ultimately show "log_inv ?r" using cnt' by (simp add: log_inv_def)
qed

lemma wake_inv: "log_inv r \<Longrightarrow> log_inv (wake_consumer r)"
proof -
  assume inv: "log_inv r"
  have [simp]: "slot_at (wake_consumer r) = slot_at r" "taken (wake_consumer r) = taken r"
    "enqueue_pos (wake_consumer r) = enqueue_pos r" "producers (wake_consumer r) = producers r"
    by (auto simp: slot_at_def taken_def fun_eq_iff wake_consumer_def split: cons_local.splits)
  show ?thesis using inv by (auto simp: inv_parts pop_ready_def wake_consumer_def slot_at_def taken_def split: cons_local.splits)
qed

lemma signal_inv:
  assumes inv: "log_inv r" and i: "i < length (producers r)" "producers r ! i = PSignal"
  shows "log_inv (push_signal i r)"
proof -
  define r1 where "r1 = (if dequeue_pos r < enqueue_pos r then wake_consumer r else r)"
  have inv1: "log_inv r1" using inv wake_inv[OF inv] by (simp add: r1_def)
  have i1: "i < length (producers r1)" "producers r1 ! i = PSignal" using i by (auto simp: r1_def wake_consumer_def)
  have nw: "\<not> (cpc r1 = CWait \<and> pop_ready (dequeue_pos r1) r1)"
    by (auto simp: r1_def wake_consumer_def pop_ready_def split: if_splits)
  note parts = inv1[unfolded log_inv_def]
  have "owners_ok (put_producer i (PReturn 0) r1)" using parts i1(1) by (simp add: owners_set)
  moreover have "slots_ok (put_producer i (PReturn 0) r1)"
    using parts i1(2) by (auto simp: slots_ok_def intro: set_update_keep)
  moreover have "counters_ok (put_producer i (PReturn 0) r1)" using parts by (simp add: counters_ok_def)
  moreover have "consumer_ok (put_producer i (PReturn 0) r1)"
    using parts nw by (auto simp: consumer_ok_def pop_ready_def)
  ultimately show ?thesis by (simp add: push_signal_def log_inv_def flip: r1_def)
qed

lemma local_frames:
  "slot_at (r\<lparr>clocal := c, cpc := pc\<rparr>) = slot_at r" "slot_at (r\<lparr>clocal := c\<rparr>) = slot_at r"
  by (auto simp: slot_at_def fun_eq_iff)

text \<open>Changes of the logging thread's control that leave the ring alone.\<close>

lemma control_inv:
  assumes inv: "log_inv r" and t: "taken (r\<lparr>clocal := c, cpc := pc\<rparr>) = taken r"
    and c: "c = CIdle \<or> c = CPos (dequeue_pos r)" "pc = CWait \<or> pc = CDone \<Longrightarrow> c = CIdle"
    and w: "pc = CWait \<Longrightarrow> \<not> pop_ready (dequeue_pos r) r"
  shows "log_inv (r\<lparr>clocal := c, cpc := pc\<rparr>)"
  using inv t c w by (auto simp: inv_parts local_frames pop_ready_def)

lemma load_inv:
  assumes "log_inv r" "clocal r = CIdle" "cpc r \<noteq> CWait" "cpc r \<noteq> CDone"
  shows "log_inv (pop_load r)"
proof -
  have "log_inv (r\<lparr>clocal := CPos (dequeue_pos r), cpc := cpc r\<rparr>)"
    by (rule control_inv) (use assms in \<open>auto simp: taken_def\<close>)
  then show ?thesis by (simp add: pop_load_def)
qed

lemma fail_inv:
  assumes inv: "log_inv r" and c: "clocal r = CPos pos" "\<not> pop_ready pos r"
  shows "log_inv (pop_fail r)"
proof -
  have pos: "pos = dequeue_pos r" and nw: "cpc r \<noteq> CWait" using inv c(1) by (auto simp: log_inv_def consumer_ok_def)
  have "log_inv (r\<lparr>clocal := CIdle, cpc := pc\<rparr>)" for pc
    by (rule control_inv[OF inv]) (use c pos in \<open>auto simp: taken_def\<close>)
  moreover have "log_inv (r\<lparr>clocal := CIdle\<rparr>)"
    using calculation[of "cpc r"] by simp
  ultimately show ?thesis by (auto simp: pop_fail_def Let_def split: cons_pc.splits)
qed

lemma take_slot:
  assumes inv: "log_inv r" and c: "clocal r = CPos pos" "pop_ready pos r"
  shows "pos = dequeue_pos r" "taken r = pos" "pos < enqueue_pos r" "slot_at r pos = (pos + 1, claimed r ! pos)"
proof -
  show pos: "pos = dequeue_pos r" using inv c(1) by (auto simp: log_inv_def consumer_ok_def)
  show t: "taken r = pos" using pos c(1) by (simp add: taken_def)
  show e: "pos < enqueue_pos r" using c(2) by (simp add: pop_ready_def)
  show "slot_at r pos = (pos + 1, claimed r ! pos)"
    using inv c(2) t e unfolding log_inv_def slots_ok_def pop_ready_def by force
qed

lemma take_inv:
  assumes inv: "log_inv r" and c: "clocal r = CPos pos" "pop_ready pos r"
  shows "log_inv (pop_take pos r)"
proof -
  note ts = take_slot[OF inv c]
  note parts = inv[unfolded log_inv_def]
  note cnt = parts[THEN conjunct1, unfolded counters_ok_def]
  let ?m = "claimed r ! pos"
  let ?r = "(set_slot pos (pos + capacity r, ?m) r)\<lparr>clocal := CTaken pos ?m, popped := popped r @ [?m]\<rparr>"
  have eq: "pop_take pos r = ?r" using ts(4) by (simp add: pop_take_def Let_def)
  have t: "taken ?r = pos + 1" by (simp add: taken_def)
  have slot: "slot_at ?r q = (if q mod capacity r = pos mod capacity r then (pos + capacity r, ?m) else slot_at r q)" for q
    using cnt slot_at_set_slot[of r pos "(pos + capacity r, ?m)" q] by (simp add: slot_at_def)
  have same: "slot_at ?r q = slot_at r q" if "pos < q" "q < pos + capacity r" for q
    using slot[of q] mod_window[of q "capacity r" pos pos] that by auto
  have cnt': "counters_ok ?r" using cnt ts t by (simp add: counters_ok_def take_Suc_conv_app_nth)
  have "slots_ok ?r"
    unfolding slots_ok_def t
  proof (intro conjI allI impI)
    fix p
    assume p: "pos + 1 \<le> p \<and> p < enqueue_pos ?r"
    then show "slot_at ?r p = (p + 1, claimed ?r ! p) \<or> fst (slot_at ?r p) = p \<and> PSpin p (claimed ?r ! p) \<in> set (producers ?r)"
      using parts same[of p] ts(1,2) cnt by (auto simp: slots_ok_def)
  next
    fix p
    assume p: "enqueue_pos ?r \<le> p \<and> p < pos + 1 + capacity ?r"
    show "fst (slot_at ?r p) = p"
    proof (cases "p = pos + capacity r")
      case True
      then show ?thesis using slot[of p] by simp
    next
      case False
      then show ?thesis using parts same[of p] p ts by (auto simp: slots_ok_def)
    qed
  qed
  moreover have "owners_ok ?r"
  proof -
    have "pos < p \<and> p < pos + capacity r" if "k < length (producers r)" "producers r ! k = PSpin p m'" for k p m'
    proof -
      have "taken r \<le> p" "p < enqueue_pos r" "fst (slot_at r p) = p"
        using parts that unfolding owners_ok_def by blast+
      moreover from this(3) have "p \<noteq> pos" using ts(4) by auto
      ultimately show ?thesis using ts(1,2) cnt by auto
    qed
    then show ?thesis using parts same t by (auto simp: owners_ok_def Suc_le_eq)
  qed
  moreover have "consumer_ok ?r" using parts ts c(1) by (auto simp: consumer_ok_def)
  ultimately show ?thesis using cnt' eq by (simp add: log_inv_def)
qed

lemma advance_inv:
  assumes inv: "log_inv r" and c: "clocal r = CTaken pos m"
  shows "log_inv (pop_advance pos m r)"
proof -
  note parts = inv[unfolded log_inv_def]
  have pos: "pos = dequeue_pos r" "pos < enqueue_pos r" "cpc r \<noteq> CWait" "cpc r \<noteq> CDone"
    using parts c by (auto simp: consumer_ok_def)
  have t: "taken r = pos + 1" using c by (simp add: taken_def)
  have adv: "log_inv (r\<lparr>dequeue_pos := pos + 1, clocal := CIdle, cpc := pc, written := w, discarded := d\<rparr>)"
    if "pc \<noteq> CWait" for pc w d
  proof -
    let ?r = "r\<lparr>dequeue_pos := pos + 1, clocal := CIdle, cpc := pc, written := w, discarded := d\<rparr>"
    have "slot_at ?r = slot_at r" "taken ?r = taken r" using t by (auto simp: slot_at_def fun_eq_iff taken_def)
    then show ?thesis using parts pos t that by (auto simp: inv_parts)
  qed
  from adv[where pc = "cpc r" and w = "written r @ [m]" and d = "discarded r"]
    adv[where pc = CAfter and w = "written r" and d = "discarded r @ [m]"]
    adv[where pc = CTop and w = "written r @ [m]" and d = "discarded r"]
  show ?thesis using pos by (auto simp: pop_advance_def Let_def split: cons_pc.splits)
qed

lemma round_pow2_pos: "0 < nv_log_round_pow2 n"
proof -
  have "0 < double_up p n" if "0 < p" for p
    using that by (induction p n rule: double_up.induct) (subst double_up.simps, auto)
  then show ?thesis by (simp add: nv_log_round_pow2_def NV_LOG_QUEUE_MAX_def NV_LOG_QUEUE_MIN_def)
qed

lemma log_start_inv: "log_start r \<Longrightarrow> log_inv r"
  using round_pow2_pos
  by (auto simp: log_start_def nv_log_ring_init_def Let_def inv_parts taken_def slot_at_def pop_ready_def)

lemma log_step_inv: "log_step r l r' \<Longrightarrow> log_inv r \<Longrightarrow> log_inv r'"
proof (induction rule: log_step.induct)
  case (log_claim i r m h)
  show ?case
  proof (cases "enqueue_pos r - h \<ge> capacity r")
    case True
    then have "policy r = NV_LOG_OVERFLOW_DROP \<or> policy r = NV_LOG_OVERFLOW_BLOCK"
      using log_claim.prems by (cases "policy r") (auto simp: inv_parts)
    moreover have "log_inv (put_producer i (PReturn (-1)) (r\<lparr>dropped := dropped r + 1\<rparr>))"
      by (rule idle_producer_inv) (use log_claim dropped_inv in auto)
    ultimately show ?thesis using True by (auto simp: push_claim_def)
  next
    case False
    then show ?thesis using claim_inv[OF log_claim.prems log_claim.hyps(1,2)] claim_counts[OF log_claim.prems log_claim.hyps(3)]
      by (simp add: push_claim_def)
  qed
next
  case (log_release i r h m)
  then have "PRelease h m \<in> set (producers r)" by (metis nth_mem)
  then show ?case using log_release.prems by (auto simp: log_inv_def owners_ok_def)
next
  case (log_publish i r pos m)
  then show ?case using publish_inv[OF log_publish.prems log_publish.hyps] by (simp add: push_publish_def)
next
  case (log_shutdown r)
  have "slot_at (r\<lparr>stop := True\<rparr>) = slot_at r" "taken (r\<lparr>stop := True\<rparr>) = taken r"
    by (auto simp: slot_at_def taken_def fun_eq_iff split: cons_local.splits)
  then have "log_inv (r\<lparr>stop := True\<rparr>)" using log_shutdown.prems by (simp add: inv_parts pop_ready_def)
  then show ?case by (simp add: nv_log_ring_shutdown_def wake_inv)
qed (auto intro: push_inv signal_inv load_inv take_inv fail_inv advance_inv wake_inv)

interpretation logs: step_invariant log_start log_step log_inv
  by unfold_locales (auto intro: log_start_inv log_step_inv)

text \<open>Every line taken out of the ring is written or discarded, or is being handled.\<close>

definition flow_ok :: "'m log_ring \<Rightarrow> bool" where
  "flow_ok r \<longleftrightarrow> mset (popped r) = mset (written r) + mset (discarded r) +
     (case clocal r of CTaken _ m \<Rightarrow> {#m#} | _ \<Rightarrow> {#})"

lemma log_step_flow: "log_step r l r' \<Longrightarrow> flow_ok r \<Longrightarrow> flow_ok r'"
  by (induction rule: log_step.induct)
     (auto simp: flow_ok_def push_claim_def push_release_def push_publish_def push_signal_def put_producer_def set_slot_def
        wake_consumer_def pop_load_def pop_take_def pop_fail_def pop_advance_def nv_log_ring_shutdown_def Let_def
      split: cons_pc.splits)

lemma log_start_flow: "log_start r \<Longrightarrow> flow_ok r"
  by (auto simp: log_start_def flow_ok_def nv_log_ring_init_def Let_def)

interpretation logf: step_invariant log_start log_step flow_ok
  by unfold_locales (auto intro: log_start_flow log_step_flow)

text \<open>C7.  With the drop and block policies, under every interleaving of producers with the logging thread, the lines leave the
  ring in the order in which their producers claimed positions, none twice and none skipped; every line taken out is written or
  discarded by the logging thread or still in its hands; and the ring never holds more lines than its capacity.\<close>
theorem nv_log_ring_fifo:
  assumes "reach log_start log_step r"
  shows "popped r = take (taken r) (claimed r) \<and>
         mset (popped r) = mset (written r) + mset (discarded r) + (case clocal r of CTaken _ m \<Rightarrow> {#m#} | _ \<Rightarrow> {#}) \<and>
         length (claimed r) = enqueue_pos r \<and> enqueue_pos r \<le> dequeue_pos r + capacity r"
  using logs.reach_inv[OF assms] logf.reach_inv[OF assms] by (simp add: log_inv_def counters_ok_def flow_ok_def)

text \<open>With these policies a producer that has claimed a position always finds its slot free: it publishes its line
  without spinning, and the branch that gives the line up after ten thousand rounds is never taken.\<close>
theorem nv_log_ring_claim_publishes:
  assumes "reach log_start log_step r" "i < length (producers r)" "producers r ! i = PSpin pos m"
  shows "push_publish i pos m r = put_producer i PSignal (set_slot pos (pos + 1, m) r)"
  using publish_inv(1)[OF logs.reach_inv[OF assms(1)] assms(2,3)] by (simp add: push_publish_def)

text \<open>C32.  With these policies no wakeup is lost: while the logging thread waits and a line is ready for it, some producer is about to
  signal it.\<close>
theorem nv_log_ring_no_lost_wakeup:
  assumes "reach log_start log_step r" "cpc r = CWait" "pop_ready (dequeue_pos r) r"
  shows "PSignal \<in> set (producers r)"
  using logs.reach_inv[OF assms(1)] assms(2,3) by (simp add: log_inv_def consumer_ok_def)

section \<open>A sample run\<close>

definition sample :: "nat \<times> nat \<Rightarrow> nat \<Rightarrow> nat producer list \<Rightarrow> cons_pc \<Rightarrow> nat log_ring" where
  "sample s0 e ps pc =
     \<lparr>slots = s0 # map (\<lambda>i. (i, 0)) [1..<64], capacity = 64, policy = NV_LOG_OVERFLOW_DROP, enqueue_pos = e, dequeue_pos = 0,
      dropped = 0, stop = False, producers = ps, cpc = pc, clocal = CIdle,
      claimed = replicate e 7, popped = [], written = [], discarded = []\<rparr>"

lemmas sample_steps = sample_def slot_at_def put_producer_def set_slot_def push_claim_def push_publish_def pop_load_def
  pop_ready_def pop_take_def pop_fail_def pop_advance_def Let_def

lemma sample_start: "reach log_start log_step (sample (0, 0) 0 [] CTop)"
proof (rule reach_start)
  have "nv_log_round_pow2 64 = 64"
    by (simp add: nv_log_round_pow2_def NV_LOG_QUEUE_MAX_def NV_LOG_QUEUE_MIN_def double_up.simps)
  then have "nv_log_ring_init 64 NV_LOG_OVERFLOW_DROP 0 = sample (0, 0) 0 [] CTop"
    by (simp add: nv_log_ring_init_def sample_def upt_conv_Cons del: upt_rec_numeral)
  then show "log_start (sample (0, 0) 0 [] CTop)" unfolding log_start_def
    by (intro exI[of _ 64] exI[of _ NV_LOG_OVERFLOW_DROP] exI[of _ 0]) simp
qed

text \<open>The logging thread finds the ring empty and takes its mutex.\<close>

lemma sample_locked: "reach log_start log_step (sample (0, 0) 0 [] CLocked)"
proof -
  have "reach log_start log_step ((sample (0, 0) 0 [] CTop)\<lparr>clocal := CPos 0\<rparr>)"
    using reach_step[OF sample_start log_load] by (simp add: sample_steps)
  from reach_step[OF this log_fail[of _ 0]] show ?thesis by (simp add: sample_steps)
qed

text \<open>A producer claims a position and publishes its line.\<close>

lemma sample_spin: "reach log_start log_step (sample (0, 0) 1 [PSpin 0 7] CLocked)"
proof -
  have "reach log_start log_step (sample (0, 0) 0 [PTry 7] CLocked)"
    using reach_step[OF sample_locked log_push[of _ 7]] by (simp add: sample_steps)
  from reach_step[OF this log_claim[of 0 _ 7 0]] show ?thesis by (simp add: sample_steps)
qed

lemma sample_published: "reach log_start log_step (sample (1, 7) 1 [PSignal] CLocked)"
  using reach_step[OF sample_spin log_publish[of 0 _ 0 7]] by (simp add: sample_steps)

text \<open>The logging thread can throw a line away: the pop it does under its mutex, before it waits, takes the line out of the
  ring, and nothing writes it.  The count of dropped lines does not change.\<close>
theorem nv_log_thread_discards_line:
  "\<exists>r. reach log_start log_step (r :: nat log_ring) \<and> discarded r = [7] \<and> written r = [] \<and> dropped r = 0"
proof -
  let ?r = "sample (1, 7) 1 [PSignal] CLocked"
  have "reach log_start log_step (?r\<lparr>clocal := CPos 0\<rparr>)"
    using reach_step[OF sample_published log_load] by (simp add: sample_steps)
  from reach_step[OF this log_take[of _ 0]]
  have "reach log_start log_step ((sample (64, 7) 1 [PSignal] CLocked)\<lparr>clocal := CTaken 0 7, popped := [7]\<rparr>)"
    by (simp add: sample_steps)
  from reach_step[OF this log_advance[of _ 0 7]] show ?thesis
    by (intro exI[of _ "pop_advance 0 7 ((sample (64, 7) 1 [PSignal] CLocked)\<lparr>clocal := CTaken 0 7, popped := [7]\<rparr>)"])
       (simp add: pop_advance_def Let_def sample_def)
qed

theorem nv_log_ring_fifo_witness: "popped (sample (1, 7) 1 [PSignal] CLocked) = take 0 [7]"
  using nv_log_ring_fifo[OF sample_published] by (simp add: sample_def taken_def)

theorem nv_log_ring_claim_publishes_witness:
  "push_publish 0 0 7 (sample (0, 0) 1 [PSpin 0 7] CLocked) = sample (1, 7) 1 [PSignal] CLocked"
  using nv_log_ring_claim_publishes[OF sample_spin, of 0 0 7] by (simp add: sample_def put_producer_def set_slot_def)

text \<open>The thread waits, and then a line is published.\<close>

lemma sample_waiting: "reach log_start log_step (sample (1, 7) 1 [PSignal] CWait)"
proof -
  have "reach log_start log_step ((sample (0, 0) 1 [PSpin 0 7] CLocked)\<lparr>clocal := CPos 0\<rparr>)"
    using reach_step[OF sample_spin log_load] by (simp add: sample_steps)
  from reach_step[OF this log_fail[of _ 0]] have "reach log_start log_step (sample (0, 0) 1 [PSpin 0 7] CWait)"
    by (simp add: sample_steps)
  from reach_step[OF this log_publish[of 0 _ 0 7]] show ?thesis by (simp add: sample_steps)
qed

theorem nv_log_ring_no_lost_wakeup_witness: "PSignal \<in> set (producers (sample (1, 7) 1 [PSignal] CWait))"
  using nv_log_ring_no_lost_wakeup[OF sample_waiting] by (simp add: sample_def pop_ready_def slot_at_def)

end
