(* ===== verification/Nv_Options.thy ===== *)
theory Nv_Options
  imports Nv_Log
begin

text \<open>
  The options of the daemon, its context and the command line
  (\<open>core/runtime/nv_core.h\<close>, \<open>core/runtime/nv_core_args.c\<close>).  A string option is an
  optional C string; \<open>None\<close> is NULL.  The context carries the settings of the logger, which the code keeps
  in global variables, and the list of plugins.  The copies of strings that the code keeps beside
  the options (\<open>*_dup\<close>) are the values of the options themselves here; \<open>sd\<close> stands for \<open>strdup\<close>.
\<close>

section \<open>Types\<close>

datatype nv_core_phase_t = NV_CORE_PHASE_NONE | NV_CORE_PHASE_STARTUP | NV_CORE_PHASE_BUSINESS
  | NV_CORE_PHASE_LOOP | NV_CORE_PHASE_SHUTDOWN | NV_CORE_PHASE_EXCEPTION

record nv_core_opts_t =
  prog_name :: "cstring option"
  config_file :: "cstring option"
  pid_file :: "cstring option"
  log_file :: "cstring option"
  mq_name :: "cstring option"
  daemon :: int
  foreground :: int
  use_syslog :: int
  log_level :: int
  worker_threads :: int
  worker_connections :: int
  worker_processes :: int
  worker_respawn :: int
  heartbeat_interval_sec :: int
  shutdown_timeout_sec :: int
  systemd_notify :: int
  max_open_files :: int
  core_limit :: int
  ctl_socket :: "cstring option"
  pubsub_socket :: "cstring option"
  instance_lock :: "cstring option"
  telnet_enable :: int
  telnet_port :: int
  telnet_bind :: "cstring option"
  cli_username :: "cstring option"
  cli_password :: "cstring option"
  loadlib_dir :: "cstring option"
  loadlib_allow_absolute :: int
  tombstone_file :: "cstring option"
  watchdog_enable :: int
  watchdog_device :: "cstring option"
  watchdog_cmd :: "cstring option"
  log_rotate_max_mb :: int
  log_rotate_keep :: int
  metrics_publish :: int
  metrics_topic :: "cstring option"
  opt_help :: int
  opt_version :: int

record nv_conf_t =
  c_daemon :: int
  c_worker_processes :: int
  c_worker_connections :: int
  c_pid_file :: "cstring option"
  c_log_file :: "cstring option"
  c_log_level :: int

record nv_core_loadlib_t =
  lib_path :: cstring
  lib_args :: cstring
  lib_handle :: bool
  lib_init :: bool
  lib_cleanup :: bool
  lib_thread_started :: bool
  lib_thread_exited :: bool
  lib_init_rc :: int

record nv_core_ctx_t =
  opts :: nv_core_opts_t
  conf :: nv_conf_t
  phase :: nv_core_phase_t
  quit :: bool
  reload :: bool
  restart :: bool
  started_at :: nat
  shutdown_started_at :: nat
  is_master :: bool
  is_worker :: bool
  worker_id :: int
  ini :: "nv_ini_t option"
  loadlibs :: "nv_core_loadlib_t list"
  loadlibs_loaded :: bool
  glog :: nv_log_settings

section \<open>Defaults\<close>

definition NV_CORE_SYSTEMD_AUTO :: int where "NV_CORE_SYSTEMD_AUTO = -1"

definition default_opts :: nv_core_opts_t where
  "default_opts = \<lparr>prog_name = None, config_file = Some ''/etc/nv/nv.conf'', pid_file = Some ''/var/run/nv.pid'',
     log_file = Some ''/var/log/nv.log'', mq_name = Some ''/nv_core_mq'', daemon = 0, foreground = 0, use_syslog = 0,
     log_level = NV_LOG_LEVEL_INFO, worker_threads = 1, worker_connections = 128, worker_processes = 0, worker_respawn = 1,
     heartbeat_interval_sec = 60, shutdown_timeout_sec = 30, systemd_notify = NV_CORE_SYSTEMD_AUTO, max_open_files = 0,
     core_limit = -1, ctl_socket = Some ''/var/run/nv.ctl.sock'', pubsub_socket = Some ''/tmp/nv_pubsub.sock'',
     instance_lock = Some ''libnv'', telnet_enable = 0, telnet_port = 2323, telnet_bind = Some ''127.0.0.1'',
     cli_username = Some ''admin'', cli_password = Some '''', loadlib_dir = Some ''/usr/lib/nv/plugins'',
     loadlib_allow_absolute = 0, tombstone_file = Some ''/var/log/nv.tombstone'', watchdog_enable = 0,
     watchdog_device = Some ''/dev/watchdog'', watchdog_cmd = Some '''', log_rotate_max_mb = 4, log_rotate_keep = 3,
     metrics_publish = 0, metrics_topic = Some ''nv/metrics'', opt_help = 0, opt_version = 0\<rparr>"

definition nv_core_set_defaults :: "nv_core_ctx_t \<Rightarrow> nv_core_ctx_t" where
  "nv_core_set_defaults ctx =
     ctx\<lparr>opts := default_opts,
         conf := \<lparr>c_daemon = 0, c_worker_processes = worker_threads default_opts,
                  c_worker_connections = worker_connections default_opts, c_pid_file = pid_file default_opts,
                  c_log_file = log_file default_opts, c_log_level = log_level default_opts\<rparr>,
         phase := NV_CORE_PHASE_NONE, quit := False, reload := False, restart := False, started_at := 0,
         shutdown_started_at := 0, is_master := False, is_worker := False, worker_id := 0, ini := None,
         loadlibs := [], loadlibs_loaded := False\<rparr>"

definition nv_core_cfg_set_str :: "(cstring \<Rightarrow> cstring option) \<Rightarrow> cstring \<Rightarrow> cstring option" where
  "nv_core_cfg_set_str sd val = sd val"

fun nv_core_phase_name :: "nv_core_phase_t \<Rightarrow> cstring" where
  "nv_core_phase_name NV_CORE_PHASE_STARTUP = ''startup''"
| "nv_core_phase_name NV_CORE_PHASE_BUSINESS = ''business''"
| "nv_core_phase_name NV_CORE_PHASE_LOOP = ''event_loop''"
| "nv_core_phase_name NV_CORE_PHASE_SHUTDOWN = ''shutdown''"
| "nv_core_phase_name NV_CORE_PHASE_EXCEPTION = ''exception''"
| "nv_core_phase_name NV_CORE_PHASE_NONE = ''none''"

section \<open>The command line\<close>

text \<open>What repeated calls of \<open>getopt\<close> with the option string of the code deliver: the option letters with their
  arguments; a question mark for an unknown letter or a missing argument.  Arguments that are no options are skipped, and
  \<open>--\<close> ends the options.\<close>

fun cluster :: "cstring \<Rightarrow> (char \<times> cstring option) list \<times> char option" where
  "cluster [] = ([], None)"
| "cluster (c # cs) =
     (if c \<in> set ''cpl''
      then if cs \<noteq> [] then ([(c, Some cs)], None) else ([], Some c)
      else
        (let (os, w) = cluster cs in
         ((if c \<in> set ''dfshv'' then c else CHR ''?'', None) # os, w)))"

fun getopt_all :: "cstring list \<Rightarrow> (char \<times> cstring option) list" where
  "getopt_all [] = []"
| "getopt_all (a # as) =
     (if a = ''--'' then []
      else if length a > 1 \<and> hd a = CHR ''-''
      then
        (case cluster (tl a) of
           (os, None) \<Rightarrow> os @ getopt_all as
         | (os, Some c) \<Rightarrow>
            (case as of [] \<Rightarrow> os @ [(CHR ''?'', None)]
             | x # as' \<Rightarrow> os @ (c, Some x) # getopt_all as'))
      else getopt_all as)"

text \<open>One option; \<open>None\<close> is the error branch.\<close>

definition apply_opt :: "char \<times> cstring option \<Rightarrow> nv_core_opts_t \<Rightarrow> nv_core_opts_t option" where
  "apply_opt oa op =
     (case oa of (opt, optarg) \<Rightarrow>
        if opt = CHR ''c'' then Some (op\<lparr>config_file := optarg\<rparr>)
        else if opt = CHR ''p'' then Some (op\<lparr>pid_file := optarg\<rparr>)
        else if opt = CHR ''l'' then Some (op\<lparr>log_file := optarg\<rparr>)
        else if opt = CHR ''d'' then Some (op\<lparr>daemon := 1\<rparr>)
        else if opt = CHR ''f'' then Some (op\<lparr>foreground := 1\<rparr>)
        else if opt = CHR ''s'' then Some (op\<lparr>use_syslog := 1\<rparr>)
        else if opt = CHR ''h'' then Some (op\<lparr>opt_help := 1\<rparr>)
        else if opt = CHR ''v'' then Some (op\<lparr>opt_version := 1\<rparr>)
        else None)"

fun apply_opts :: "(char \<times> cstring option) list \<Rightarrow> nv_core_opts_t \<Rightarrow> bool \<times> nv_core_opts_t" where
  "apply_opts [] op = (True, op)"
| "apply_opts (o1 # os) op = (case apply_opt o1 op of None \<Rightarrow> (False, op) | Some op \<Rightarrow> apply_opts os op)"

definition nv_core_parse_args :: "cstring list \<Rightarrow> nv_core_ctx_t \<Rightarrow> int \<times> nv_core_ctx_t" where
  "nv_core_parse_args argv ctx =
     (let ctx = nv_core_set_defaults ctx;
          ctx = ctx\<lparr>opts := (opts ctx)\<lparr>prog_name := Some (case argv of a # _ \<Rightarrow> a | [] \<Rightarrow> ''nv'')\<rparr>\<rparr>
      in
      case apply_opts (getopt_all (tl argv)) (opts ctx) of
        (False, op) \<Rightarrow> (NV_ERROR, ctx\<lparr>opts := op\<rparr>)
      | (True, op) \<Rightarrow>
          if opt_help op \<noteq> 0 \<or> opt_version op \<noteq> 0 then (NV_DECLINED, ctx\<lparr>opts := op\<rparr>)
          else (NV_OK, ctx\<lparr>opts := op,
                           conf := (conf ctx)\<lparr>c_pid_file := pid_file op, c_log_file := log_file op,
                                              c_log_level := log_level op\<rparr>\<rparr>))"

definition nv_core_parse_log_level :: "cstring option \<Rightarrow> int" where
  "nv_core_parse_log_level v =
     (case v of None \<Rightarrow> NV_LOG_LEVEL_INFO
      | Some s \<Rightarrow> (case nv_log_level_from_string s of Some l \<Rightarrow> l | None \<Rightarrow> NV_LOG_LEVEL_INFO))"

lemma log_level_range: "nv_log_level_from_string s = Some l \<Longrightarrow> NV_LOG_LEVEL_DEBUG \<le> l \<and> l \<le> NV_LOG_LEVEL_FATAL"
  by (auto simp: nv_log_level_from_string_def log_levels Let_def split: if_splits)

lemma parse_log_level_range: "NV_LOG_LEVEL_DEBUG \<le> nv_core_parse_log_level v \<and> nv_core_parse_log_level v \<le> NV_LOG_LEVEL_FATAL"
  using log_level_range by (auto simp: nv_core_parse_log_level_def log_levels split: option.splits)

end
