(* ===== verification/Nv_Loadlib.thy ===== *)
theory Nv_Loadlib
  imports Nv_Options
begin

text \<open>
  The plugin loader (\<open>core/loadlib/nv_core_loadlib.c\<close>): the tokens of a \<open>loadlib\<close> line,
  the check that confines plugins to their directory, the list of plugins read from the
  configuration file, and loading and unloading.  What \<open>dlopen\<close>, \<open>dlsym\<close> and
  \<open>pthread_create\<close> return, and whether a plugin's thread ends in time, are arguments.
\<close>

section \<open>Lines and tokens\<close>

definition nv_loadlib_trim :: "cstring \<Rightarrow> cstring" where
  "nv_loadlib_trim s =
     (let r = dropWhile is_space s in if r = [] then r else rev (dropWhile is_space (rev r)))"

fun strip_from :: "bool \<Rightarrow> bool \<Rightarrow> cstring \<Rightarrow> cstring" where
  "strip_from in_quote escape [] = []"
| "strip_from in_quote escape (c # cs) =
     (if escape then c # strip_from in_quote False cs
      else if c = CHR 0x5C \<and> in_quote then c # strip_from in_quote True cs
      else if c = CHR 0x22 then c # strip_from (\<not> in_quote) False cs
      else if c = CHR '';'' \<and> \<not> in_quote then []
      else c # strip_from in_quote False cs)"

definition nv_loadlib_strip_comment :: "cstring \<Rightarrow> cstring" where
  "nv_loadlib_strip_comment line = strip_from False False line"

text \<open>The two loops that collect a token in a buffer of \<open>sz\<close> bytes; \<open>n\<close> characters are stored already.\<close>

fun quoted_token :: "nat \<Rightarrow> nat \<Rightarrow> cstring \<Rightarrow> (cstring \<times> cstring) option" where
  "quoted_token sz n [] = None"
| "quoted_token sz n (c # p) =
     (if c = CHR 0x22 then Some ([], p)
      else if c = CHR 0x5C \<and> p \<noteq> []
      then if n + 1 \<ge> sz then None
           else map_option (\<lambda>(tok, rest). (hd p # tok, rest)) (quoted_token sz (n + 1) (tl p))
      else if n + 1 \<ge> sz then None
      else map_option (\<lambda>(tok, rest). (c # tok, rest)) (quoted_token sz (n + 1) p))"

fun plain_token :: "nat \<Rightarrow> nat \<Rightarrow> cstring \<Rightarrow> (cstring \<times> cstring) option" where
  "plain_token sz n [] = Some ([], [])"
| "plain_token sz n (c # p) =
     (if is_space c then Some ([], c # p)
      else if n + 1 \<ge> sz then None
      else map_option (\<lambda>(tok, rest). (c # tok, rest)) (plain_token sz (n + 1) p))"

datatype token = Token cstring cstring | NoToken | BadToken

definition nv_loadlib_parse_token :: "nat \<Rightarrow> cstring \<Rightarrow> token" where
  "nv_loadlib_parse_token sz src =
     (if sz = 0 then BadToken
      else
        (let p = dropWhile is_space src in
         if p = [] then NoToken
         else
           (case (if hd p = CHR 0x22 then quoted_token sz 0 (tl p) else plain_token sz 0 p) of
              None \<Rightarrow> BadToken
            | Some (tok, rest) \<Rightarrow> Token tok rest)))"

section \<open>Paths\<close>

definition nv_loadlib_path_is_under_dir :: "cstring \<Rightarrow> cstring \<Rightarrow> bool" where
  "nv_loadlib_path_is_under_dir path dir =
     (if dir = [] then False
      else if take (length dir) path \<noteq> dir then False
      else (case drop (length dir) path of [] \<Rightarrow> True | c # _ \<Rightarrow> c = CHR ''/''))"

text \<open>Whether \<open>strstr(path, "..")\<close> finds something.\<close>

fun has_dotdot :: "cstring \<Rightarrow> bool" where
  "has_dotdot (a # b # cs) \<longleftrightarrow> a = CHR ''.'' \<and> b = CHR ''.'' \<or> has_dotdot (b # cs)"
| "has_dotdot cs \<longleftrightarrow> False"

definition PATH_MAX :: nat where "PATH_MAX = 4096"

definition dir_set :: "cstring option \<Rightarrow> bool" where
  "dir_set d \<longleftrightarrow> (case d of None \<Rightarrow> False | Some s \<Rightarrow> s \<noteq> [])"

definition nv_core_loadlib_resolve_path :: "(cstring \<Rightarrow> cstring option) \<Rightarrow> nv_core_ctx_t \<Rightarrow> cstring \<Rightarrow> cstring option" where
  "nv_core_loadlib_resolve_path sd ctx path =
     (let dir = loadlib_dir (opts ctx); abs_ok = (loadlib_allow_absolute (opts ctx) \<noteq> 0) in
      if path = [] then None
      else if has_dotdot path then None
      else if hd path = CHR ''/''
      then if \<not> abs_ok then None
           else if dir_set dir \<and> \<not> nv_loadlib_path_is_under_dir path (the dir) then None
           else sd path
      else if CHR ''/'' \<in> set path
      then if \<not> abs_ok then None else sd path
      else if \<not> dir_set dir then sd path
      else sd (ctrunc PATH_MAX (the dir @ ''/'' @ path)))"

definition nv_core_loadlibs_append :: "(cstring \<Rightarrow> cstring option) \<Rightarrow> bool \<Rightarrow> cstring \<Rightarrow> cstring \<Rightarrow> nv_core_ctx_t \<Rightarrow> int \<times> nv_core_ctx_t" where
  "nv_core_loadlibs_append sd calloc_ok path args ctx =
     (case nv_core_loadlib_resolve_path sd ctx path of None \<Rightarrow> (NV_ERROR, ctx)
      | Some resolved \<Rightarrow>
          if \<not> calloc_ok then (NV_ERROR, ctx)
          else
            (case sd args of None \<Rightarrow> (NV_ERROR, ctx)
             | Some a \<Rightarrow>
                 (NV_OK, ctx\<lparr>loadlibs := loadlibs ctx @
                    [\<lparr>lib_path = resolved, lib_args = a, lib_handle = False, lib_init = False, lib_cleanup = False,
                      lib_thread_started = False, lib_thread_exited = False, lib_init_rc = 0\<rparr>]\<rparr>)))"

section \<open>The configuration file\<close>

text \<open>One line: nothing to do, an error, or a plugin with its arguments.\<close>

datatype config_line = LSkip | LError | LPlugin cstring cstring

definition loadlib_line :: "cstring \<Rightarrow> config_line" where
  "loadlib_line line =
     (let trimmed = nv_loadlib_trim (nv_loadlib_strip_comment line) in
      if trimmed = [] then LSkip
      else if take 7 trimmed \<noteq> ''loadlib'' \<or> (drop 7 trimmed \<noteq> [] \<and> \<not> is_space (trimmed ! 7)) then LSkip
      else
        (case nv_loadlib_parse_token 512 (drop 7 trimmed) of
           Token path p \<Rightarrow>
             (if path = [] then LError
              else
                (case nv_loadlib_parse_token 512 p of
                   NoToken \<Rightarrow> if nv_loadlib_trim p \<noteq> [] then LError else LPlugin path []
                 | BadToken \<Rightarrow> LError
                 | Token args p \<Rightarrow> if nv_loadlib_trim p \<noteq> [] then LError else LPlugin path args))
         | _ \<Rightarrow> LError))"

fun parse_lines :: "(cstring \<Rightarrow> cstring option) \<Rightarrow> bool \<Rightarrow> cstring list \<Rightarrow> nv_core_ctx_t \<Rightarrow> int \<times> nv_core_ctx_t" where
  "parse_lines sd calloc_ok [] ctx = (NV_OK, ctx)"
| "parse_lines sd calloc_ok (l # ls) ctx =
     (case loadlib_line l of
        LSkip \<Rightarrow> parse_lines sd calloc_ok ls ctx
      | LError \<Rightarrow> (NV_ERROR, ctx)
      | LPlugin path args \<Rightarrow>
          (case nv_core_loadlibs_append sd calloc_ok path args ctx of (rc, ctx) \<Rightarrow>
             if rc \<noteq> NV_OK then (NV_ERROR, ctx) else parse_lines sd calloc_ok ls ctx))"

text \<open>\<open>contents\<close> is the configuration file, \<open>None\<close> when it cannot be opened.\<close>

definition nv_core_loadlibs_parse_config ::
    "(cstring \<Rightarrow> cstring option) \<Rightarrow> bool \<Rightarrow> cstring option \<Rightarrow> nv_core_ctx_t \<Rightarrow> int \<times> nv_core_ctx_t" where
  "nv_core_loadlibs_parse_config sd calloc_ok contents ctx =
     (if config_file (opts ctx) = None then (NV_ERROR, ctx)
      else if loadlibs_loaded ctx then (NV_OK, ctx)
      else
        (let ctx = ctx\<lparr>loadlibs := []\<rparr> in
         case contents of None \<Rightarrow> (NV_OK, ctx)
         | Some text \<Rightarrow> parse_lines sd calloc_ok (fgets_lines 1023 text) ctx))"

section \<open>Loading and unloading\<close>

text \<open>What the system gives for a plugin: \<open>dlopen\<close> succeeds, the two symbols are found, the thread starts.\<close>

record dl_result =
  dl_open :: bool
  dl_init :: bool
  dl_cleanup :: bool
  dl_thread :: bool

definition EBUSY :: int where "EBUSY = 16"

text \<open>\<open>tries k\<close> is what the attempt \<open>k\<close> to join the thread returns.\<close>

function join_loop :: "(nat \<Rightarrow> int) \<Rightarrow> nat \<Rightarrow> int \<Rightarrow> int \<Rightarrow> int" where
  "join_loop tries k waited_ms timeout_ms =
     (if tries k = 0 then NV_OK
      else if tries k \<noteq> EBUSY then NV_ERROR
      else if waited_ms \<ge> timeout_ms then NV_BUSY
      else join_loop tries (k + 1) (waited_ms + 100) timeout_ms)"
  by pat_completeness auto
termination
  by (relation "measure (\<lambda>(tries, k, waited_ms, timeout_ms). nat (timeout_ms - waited_ms))") auto

declare join_loop.simps [simp del]

definition nv_core_loadlib_join :: "(nat \<Rightarrow> int) \<Rightarrow> int \<Rightarrow> nv_core_loadlib_t \<Rightarrow> int \<times> nv_core_loadlib_t" where
  "nv_core_loadlib_join tries timeout_ms lib =
     (if \<not> lib_thread_started lib then (NV_OK, lib)
      else (join_loop tries 0 0 (if timeout_ms \<le> 0 then 3000 else timeout_ms), lib\<lparr>lib_thread_started := False\<rparr>))"

text \<open>The plugins are closed from the last to the first.  The second result lists the paths of those whose threads
  still run and have been detached, in the order in which this happens.\<close>

fun nv_core_loadlibs_close_loaded ::
    "(cstring \<Rightarrow> nat \<Rightarrow> int) \<Rightarrow> int \<Rightarrow> nv_core_loadlib_t list \<Rightarrow> nv_core_loadlib_t list \<times> cstring list" where
  "nv_core_loadlibs_close_loaded tries timeout_ms [] = ([], [])"
| "nv_core_loadlibs_close_loaded tries timeout_ms (lib # libs) =
     (case nv_core_loadlibs_close_loaded tries timeout_ms libs of (libs, running) \<Rightarrow>
        if lib_handle lib
        then (case nv_core_loadlib_join (tries (lib_path lib)) timeout_ms lib of (joined, lib) \<Rightarrow>
                if joined = NV_OK \<or> joined = NV_ERROR then (lib\<lparr>lib_handle := False\<rparr> # libs, running)
                else (lib # libs, running @ [lib_path lib]))
        else (lib # libs, running))"

text \<open>The loop over the plugins: \<open>done\<close> are the ones loaded already.\<close>

fun load_loop :: "(cstring \<Rightarrow> dl_result) \<Rightarrow> nv_core_loadlib_t list \<Rightarrow> nv_core_loadlib_t list \<Rightarrow> bool \<times> nv_core_loadlib_t list" where
  "load_loop dl dn [] = (True, dn)"
| "load_loop dl dn (lib # libs) =
     (let d = dl (lib_path lib) in
      if \<not> dl_open d then (False, dn @ lib\<lparr>lib_handle := False\<rparr> # libs)
      else if \<not> dl_init d then (False, dn @ lib\<lparr>lib_handle := True, lib_init := False\<rparr> # libs)
      else
        (let lib = lib\<lparr>lib_handle := True, lib_init := True, lib_cleanup := dl_cleanup d, lib_init_rc := NV_OK,
                      lib_thread_exited := False\<rparr> in
         if \<not> dl_thread d then (False, dn @ lib # libs)
         else load_loop dl (dn @ [lib\<lparr>lib_thread_started := True\<rparr>]) libs))"

definition nv_core_loadlibs_load ::
    "(cstring \<Rightarrow> dl_result) \<Rightarrow> (cstring \<Rightarrow> nat \<Rightarrow> int) \<Rightarrow> nv_core_ctx_t \<Rightarrow> int \<times> nv_core_ctx_t" where
  "nv_core_loadlibs_load dl tries ctx =
     (if loadlibs_loaded ctx then (NV_OK, ctx)
      else
        (case load_loop dl [] (loadlibs ctx) of
           (True, libs) \<Rightarrow> (NV_OK, ctx\<lparr>loadlibs := libs, loadlibs_loaded := True\<rparr>)
         | (False, libs) \<Rightarrow>
             (NV_ERROR, ctx\<lparr>loadlibs := fst (nv_core_loadlibs_close_loaded tries (shutdown_timeout_sec (opts ctx) * 1000) libs)\<rparr>)))"

text \<open>The nodes freed and the paths of the plugins whose threads still run and use them.\<close>

definition nv_core_loadlibs_unload ::
    "(cstring \<Rightarrow> nat \<Rightarrow> int) \<Rightarrow> nv_core_ctx_t \<Rightarrow> nv_core_ctx_t \<times> nv_core_loadlib_t list \<times> cstring list" where
  "nv_core_loadlibs_unload tries ctx =
     (case nv_core_loadlibs_close_loaded tries (shutdown_timeout_sec (opts ctx) * 1000) (loadlibs ctx) of (libs, running) \<Rightarrow>
        (ctx\<lparr>loadlibs := [], loadlibs_loaded := False\<rparr>, libs, running))"

section \<open>Confinement\<close>

text \<open>A file name directly below a directory, as the loader joins it.\<close>

definition confined :: "cstring \<Rightarrow> cstring \<Rightarrow> bool" where
  "confined dir path \<longleftrightarrow> (\<exists>name. name \<noteq> [] \<and> CHR ''/'' \<notin> set name \<and> \<not> has_dotdot name \<and>
     path = ctrunc PATH_MAX (dir @ ''/'' @ name))"

lemma resolve_confined:
  assumes "loadlib_allow_absolute (opts ctx) = 0" "loadlib_dir (opts ctx) = Some dir" "dir \<noteq> []"
    and "nv_core_loadlib_resolve_path Some ctx path = Some r"
  shows "confined dir r"
  using assms
  by (auto simp: nv_core_loadlib_resolve_path_def confined_def dir_set_def Let_def split: if_splits)

lemma append_confined:
  assumes "loadlib_allow_absolute (opts ctx) = 0" "loadlib_dir (opts ctx) = Some dir" "dir \<noteq> []"
    and "\<forall>lib \<in> set (loadlibs ctx). confined dir (lib_path lib)"
    and "nv_core_loadlibs_append Some ok path args ctx = (rc, ctx')"
  shows "opts ctx' = opts ctx \<and> (\<forall>lib \<in> set (loadlibs ctx'). confined dir (lib_path lib))"
  using assms resolve_confined[OF assms(1-3), of path]
  by (auto simp: nv_core_loadlibs_append_def split: option.splits if_splits)

lemma parse_lines_confined:
  assumes "loadlib_allow_absolute (opts ctx) = 0" "loadlib_dir (opts ctx) = Some dir" "dir \<noteq> []"
    and "\<forall>lib \<in> set (loadlibs ctx). confined dir (lib_path lib)"
    and "parse_lines Some ok ls ctx = (rc, ctx')"
  shows "\<forall>lib \<in> set (loadlibs ctx'). confined dir (lib_path lib)"
  using assms
proof (induction ls arbitrary: ctx)
  case (Cons l ls)
  show ?case
  proof (cases "loadlib_line l")
    case (LPlugin path args)
    obtain rc1 ctx1 where a: "nv_core_loadlibs_append Some ok path args ctx = (rc1, ctx1)" by fastforce
    note c = append_confined[OF Cons.prems(1-4) a]
    show ?thesis
    proof (cases "rc1 = NV_OK")
      case True
      then show ?thesis using Cons.IH[of ctx1] Cons.prems c LPlugin a by simp
    next
      case False
      then show ?thesis using Cons.prems(5) c LPlugin a by simp
    qed
  qed (use Cons in auto)
qed auto

lemma confined_under_dir:
  assumes "confined dir path" "dir \<noteq> []" "length dir < PATH_MAX - 1"
  shows "nv_loadlib_path_is_under_dir path dir"
proof -
  obtain name where "path = ctrunc PATH_MAX (dir @ ''/'' @ name)" using assms(1) by (auto simp: confined_def)
  then have "path = dir @ take (PATH_MAX - 1 - length dir) (''/'' @ name)"
    using assms(3) by (simp add: ctrunc_def)
  then show ?thesis using assms by (cases "PATH_MAX - 1 - length dir") (auto simp: nv_loadlib_path_is_under_dir_def)
qed

text \<open>C13.  Plugins are confined: when absolute paths are not allowed and a plugin directory is set, every plugin that any
  configuration file makes the loader accept lies directly in that directory: its path is the directory, a slash, and a name that
  contains neither a slash nor two dots in a row.\<close>
theorem nv_core_loadlibs_confined:
  assumes "loadlib_allow_absolute (opts ctx) = 0" "loadlib_dir (opts ctx) = Some dir" "dir \<noteq> []"
    and "\<not> loadlibs_loaded ctx" "nv_core_loadlibs_parse_config Some ok contents ctx = (NV_OK, ctx')"
  shows "\<forall>lib \<in> set (loadlibs ctx'). confined dir (lib_path lib)"
proof (cases contents)
  case None
  then show ?thesis using assms(4,5) by (auto simp: nv_core_loadlibs_parse_config_def Let_def nv_codes split: if_splits)
next
  case (Some s)
  then have "parse_lines Some ok (fgets_lines 1023 s) (ctx\<lparr>loadlibs := []\<rparr>) = (NV_OK, ctx')"
    using assms(4,5) by (auto simp: nv_core_loadlibs_parse_config_def Let_def nv_codes split: if_splits)
  then show ?thesis using parse_lines_confined[of "ctx\<lparr>loadlibs := []\<rparr>" dir ok] assms(1-3) by simp
qed

definition sample_ctx :: "cstring \<Rightarrow> nv_core_ctx_t" where
  "sample_ctx dir =
     \<lparr>opts = default_opts\<lparr>loadlib_dir := Some dir\<rparr>,
      conf = \<lparr>c_daemon = 0, c_worker_processes = 1, c_worker_connections = 128, c_pid_file = None, c_log_file = None, c_log_level = 1\<rparr>,
      phase = NV_CORE_PHASE_NONE, quit = False, reload = False, restart = False, started_at = 0, shutdown_started_at = 0,
      is_master = False, is_worker = False, worker_id = 0, ini = None, loadlibs = [], loadlibs_loaded = False, glog = rotate_sample\<rparr>"

lemma sample_parse:
  "nv_core_loadlibs_parse_config Some True (Some ''loadlib a'') (sample_ctx ''/p'') =
     (NV_OK, (sample_ctx ''/p'')\<lparr>loadlibs := [\<lparr>lib_path = ''/p/a'', lib_args = '''', lib_handle = False, lib_init = False,
        lib_cleanup = False, lib_thread_started = False, lib_thread_exited = False, lib_init_rc = 0\<rparr>]\<rparr>)"
proof -
  have "fgets_lines 1023 ''loadlib a'' = [''loadlib a'']"
    by (simp add: fgets_lines.simps)
  moreover have "loadlib_line ''loadlib a'' = LPlugin ''a'' ''''"
    by (simp add: loadlib_line_def nv_loadlib_strip_comment_def nv_loadlib_trim_def nv_loadlib_parse_token_def is_space_def Let_def)
  ultimately show ?thesis
    by (simp add: nv_core_loadlibs_parse_config_def sample_ctx_def default_opts_def nv_core_loadlibs_append_def
        nv_core_loadlib_resolve_path_def dir_set_def ctrunc_def PATH_MAX_def Let_def)
qed

theorem nv_core_loadlibs_confined_witness: "confined ''/p'' ''/p/a''"
  using nv_core_loadlibs_confined[OF _ _ _ _ sample_parse, of "''/p''"] by (simp add: sample_ctx_def default_opts_def)

text \<open>Reading the plugins changes nothing but the list of plugins.\<close>

lemma append_frame: "nv_core_loadlibs_append sd ok path args ctx = (rc, ctx') \<Longrightarrow> opts ctx' = opts ctx \<and> glog ctx' = glog ctx"
  by (auto simp: nv_core_loadlibs_append_def split: option.splits if_splits)

lemma parse_lines_frame: "parse_lines sd ok ls ctx = (rc, ctx') \<Longrightarrow> opts ctx' = opts ctx \<and> glog ctx' = glog ctx"
  by (induction ls arbitrary: ctx) (auto dest!: append_frame split: config_line.splits prod.splits if_splits)

lemma parse_config_frame:
  "nv_core_loadlibs_parse_config sd ok contents ctx = (rc, ctx') \<Longrightarrow> opts ctx' = opts ctx \<and> glog ctx' = glog ctx"
  by (auto simp: nv_core_loadlibs_parse_config_def Let_def dest!: parse_lines_frame split: option.splits if_splits)

section \<open>Quoting\<close>

definition quote :: "cstring \<Rightarrow> cstring" where
  "quote s = [CHR 0x22] @ concat (map (\<lambda>c. if c = CHR 0x22 \<or> c = CHR 0x5C then [CHR 0x5C, c] else [c]) s) @ [CHR 0x22]"

lemma quoted_token_quote: "n + length s < sz \<Longrightarrow>
    quoted_token sz n (concat (map (\<lambda>c. if c = CHR 0x22 \<or> c = CHR 0x5C then [CHR 0x5C, c] else [c]) s) @ CHR 0x22 # rest) = Some (s, rest)"
  by (induction s arbitrary: n) auto

text \<open>Quoting is faithful: a string of less than the buffer's size, written in double quotes with quotes and backslashes escaped, is read
  back by the token parser exactly, and the parser stops right after the closing quote.\<close>
theorem nv_loadlib_token_roundtrip:
  assumes "length s < sz"
  shows "nv_loadlib_parse_token sz (quote s @ rest) = Token s rest"
proof -
  have "\<not> is_space (CHR 0x22)" by (simp add: is_space_def)
  then show ?thesis using assms quoted_token_quote[of 0 s sz rest]
    by (simp add: nv_loadlib_parse_token_def quote_def Let_def)
qed

theorem nv_loadlib_token_roundtrip_witness:
  "nv_loadlib_parse_token 512 (quote ''a b'' @ '' x'') = Token ''a b'' '' x''"
  using nv_loadlib_token_roundtrip[of "''a b''" 512] by simp

section \<open>Threads that outlive their plugin\<close>

lemma join_loop_busy: "(\<And>k. tries k = EBUSY) \<Longrightarrow> join_loop tries k waited timeout = NV_BUSY"
  by (induction tries k waited timeout rule: join_loop.induct) (subst join_loop.simps, simp add: EBUSY_def)

text \<open>Unloading frees the node of a plugin whose thread has not ended: when the joins time out, the thread is detached and
  still refers to the node (it stores the plugin's return code there when the plugin returns), yet the node is among those
  freed.\<close>
theorem nv_core_loadlibs_unload_frees_running:
  assumes "lib \<in> set (loadlibs ctx)" "lib_handle lib" "lib_thread_started lib" "\<And>k. tries (lib_path lib) k = EBUSY"
  shows "\<exists>ctx' freed running. nv_core_loadlibs_unload tries ctx = (ctx', freed, running) \<and>
           lib_path lib \<in> set running \<and> lib_path lib \<in> lib_path ` set freed \<and> loadlibs ctx' = []"
proof -
  define t where "t = shutdown_timeout_sec (opts ctx) * 1000"
  obtain libs running where c: "nv_core_loadlibs_close_loaded tries t (loadlibs ctx) = (libs, running)" by fastforce
  have "nv_core_loadlibs_close_loaded tries t ls = (libs, running) \<Longrightarrow> lib \<in> set ls \<Longrightarrow>
      lib_path lib \<in> set running \<and> lib_path lib \<in> lib_path ` set libs" for ls libs running
  proof (induction ls arbitrary: libs running)
    case (Cons l ls)
    obtain libs1 running1 where r: "nv_core_loadlibs_close_loaded tries t ls = (libs1, running1)" by fastforce
    show ?case
    proof (cases "lib = l")
      case True
      then show ?thesis using Cons.prems(1) r assms(2,3) join_loop_busy[of "tries (lib_path lib)"] assms(4)
        by (auto simp: nv_core_loadlib_join_def nv_codes split: prod.splits if_splits)
    next
      case False
      then have "lib_path lib \<in> set running1 \<and> lib_path lib \<in> lib_path ` set libs1" using Cons r by simp
      then show ?thesis using Cons.prems(1) r by (auto split: prod.splits if_splits)
    qed
  qed simp
  from this[OF c assms(1)] show ?thesis using c by (simp add: nv_core_loadlibs_unload_def flip: t_def)
qed

definition busy_ctx :: nv_core_ctx_t where
  "busy_ctx = (sample_ctx ''/p'')\<lparr>loadlibs := [\<lparr>lib_path = ''/p/a'', lib_args = '''', lib_handle = True, lib_init = True,
     lib_cleanup = False, lib_thread_started = True, lib_thread_exited = False, lib_init_rc = 0\<rparr>]\<rparr>"

theorem nv_core_loadlibs_unload_frees_running_witness:
  "\<exists>ctx' freed running. nv_core_loadlibs_unload (\<lambda>_ _. EBUSY) busy_ctx = (ctx', freed, running) \<and>
     ''/p/a'' \<in> set running \<and> ''/p/a'' \<in> lib_path ` set freed"
  using nv_core_loadlibs_unload_frees_running[of "hd (loadlibs busy_ctx)" busy_ctx "\<lambda>_ _. EBUSY"]
  by (auto simp: busy_ctx_def)

end
