(* ===== verification/Nv_Config.thy ===== *)
theory Nv_Config
  imports Nv_Loadlib
begin

text \<open>
  Loading the configuration file, validating it and reloading it
  (\<open>nv_core_load_config\<close>, \<open>core/runtime/nv_core_config.c\<close>).  The sections of
  \<open>nv_core_load_config\<close> are definitions of their own, in the order of the code; \<open>contents\<close> is the
  text of the configuration file, \<open>None\<close> when it cannot be opened.
\<close>

section \<open>Reading options\<close>

definition with_str :: "nv_ini_t option \<Rightarrow> cstring \<Rightarrow> cstring \<Rightarrow> (cstring \<Rightarrow> 'c \<Rightarrow> 'c) \<Rightarrow> 'c \<Rightarrow> 'c" where
  "with_str i sec key f c = (case nv_ini_get_string i (Some sec) key None of None \<Rightarrow> c | Some v \<Rightarrow> f v c)"

definition with_key :: "nv_ini_t option \<Rightarrow> cstring \<Rightarrow> cstring \<Rightarrow> ('c \<Rightarrow> 'c) \<Rightarrow> 'c \<Rightarrow> 'c" where
  "with_key i sec key f c = (if nv_ini_has_key i (Some sec) key then f c else c)"

abbreviation (input) set_opts :: "(nv_core_opts_t \<Rightarrow> nv_core_opts_t) \<Rightarrow> nv_core_ctx_t \<Rightarrow> nv_core_ctx_t" where
  "set_opts f ctx \<equiv> ctx\<lparr>opts := f (opts ctx)\<rparr>"

definition get_b :: "nv_ini_t option \<Rightarrow> cstring \<Rightarrow> cstring \<Rightarrow> int \<Rightarrow> int" where
  "get_b i sec key d = nv_ini_get_bool i (Some sec) key d"

definition get_i :: "nv_ini_t option \<Rightarrow> cstring \<Rightarrow> cstring \<Rightarrow> int \<Rightarrow> int" where
  "get_i i sec key d = nv_ini_get_int i (Some sec) key d"

definition load_loadlib :: "(cstring \<Rightarrow> cstring option) \<Rightarrow> nv_ini_t option \<Rightarrow> nv_core_ctx_t \<Rightarrow> nv_core_ctx_t" where
  "load_loadlib sd i ctx =
     (let str = (case nv_ini_get_string i (Some ''loadlib'') ''plugin_dir'' None of
                   None \<Rightarrow> nv_ini_get_string i (Some ''loadlib'') ''dir'' None | Some s \<Rightarrow> Some s);
          ctx = (case str of None \<Rightarrow> ctx
                 | Some s \<Rightarrow> set_opts (\<lambda>op. op\<lparr>loadlib_dir := nv_core_cfg_set_str sd s\<rparr>) ctx)
      in with_key i ''loadlib'' ''allow_absolute''
           (set_opts (\<lambda>op. op\<lparr>loadlib_allow_absolute := get_b i ''loadlib'' ''allow_absolute'' (loadlib_allow_absolute op)\<rparr>)) ctx)"

definition load_main :: "(cstring \<Rightarrow> cstring option) \<Rightarrow> nv_ini_t option \<Rightarrow> nv_core_ctx_t \<Rightarrow> nv_core_ctx_t" where
  "load_main sd i ctx =
     (let ctx = with_key i ''main'' ''daemon''
                  (set_opts (\<lambda>op. op\<lparr>daemon := get_b i ''main'' ''daemon'' (daemon op)\<rparr>)) ctx;
          str = (case nv_ini_get_string i (Some ''main'') ''pid_file'' None of
                   None \<Rightarrow> nv_ini_get_string i (Some ''main'') ''pid'' None | Some s \<Rightarrow> Some s)
      in case str of None \<Rightarrow> ctx
         | Some s \<Rightarrow>
             (let d = nv_core_cfg_set_str sd s in
              (set_opts (\<lambda>op. op\<lparr>pid_file := d\<rparr>) ctx)\<lparr>conf := (conf ctx)\<lparr>c_pid_file := d\<rparr>\<rparr>))"

definition load_log :: "(cstring \<Rightarrow> cstring option) \<Rightarrow> nv_ini_t option \<Rightarrow> nv_core_ctx_t \<Rightarrow> nv_core_ctx_t" where
  "load_log sd i ctx =
     (let ctx = with_str i ''log'' ''log_file''
                  (\<lambda>s ctx. let d = nv_core_cfg_set_str sd s in
                     (set_opts (\<lambda>op. op\<lparr>log_file := d\<rparr>) ctx)\<lparr>conf := (conf ctx)\<lparr>c_log_file := d\<rparr>\<rparr>) ctx;
          ctx = with_str i ''log'' ''log_level''
                  (\<lambda>s ctx. let l = nv_core_parse_log_level (Some s) in
                     (set_opts (\<lambda>op. op\<lparr>log_level := l\<rparr>) ctx)\<lparr>conf := (conf ctx)\<lparr>c_log_level := l\<rparr>\<rparr>) ctx;
          ctx = with_key i ''log'' ''syslog''
                  (set_opts (\<lambda>op. op\<lparr>use_syslog := get_b i ''log'' ''syslog'' (use_syslog op)\<rparr>)) ctx;
          ctx = with_key i ''log'' ''console''
                  (\<lambda>ctx. ctx\<lparr>glog := nv_log_set_console (get_b i ''log'' ''console'' (nv_log_get_console (glog ctx))) (glog ctx)\<rparr>) ctx;
          ctx = with_key i ''log'' ''queue_size''
                  (\<lambda>ctx. ctx\<lparr>glog := nv_log_set_queue_size
                     (nat (get_i i ''log'' ''queue_size'' (to_int (int (nv_log_get_queue_size (glog ctx)))) mod 2 ^ 64)) (glog ctx)\<rparr>) ctx
      in with_str i ''log'' ''overflow''
           (\<lambda>s ctx. case nv_log_overflow_from_string s of None \<Rightarrow> ctx
              | Some pol \<Rightarrow> ctx\<lparr>glog := nv_log_set_overflow_policy pol (glog ctx)\<rparr>) ctx)"

definition load_worker :: "nv_ini_t option \<Rightarrow> nv_core_ctx_t \<Rightarrow> nv_core_ctx_t" where
  "load_worker i ctx =
     (let ctx = (if nv_ini_has_key i (Some ''worker'') ''threads''
                 then set_opts (\<lambda>op. op\<lparr>worker_threads := get_i i ''worker'' ''threads'' (worker_threads op)\<rparr>) ctx
                 else with_key i ''worker'' ''worker_threads''
                   (set_opts (\<lambda>op. op\<lparr>worker_threads := get_i i ''worker'' ''worker_threads'' (worker_threads op)\<rparr>)) ctx);
          ctx = (if nv_ini_has_key i (Some ''worker'') ''connections''
                 then set_opts (\<lambda>op. op\<lparr>worker_connections := get_i i ''worker'' ''connections'' (worker_connections op)\<rparr>) ctx
                 else with_key i ''worker'' ''worker_connections''
                   (set_opts (\<lambda>op. op\<lparr>worker_connections := get_i i ''worker'' ''worker_connections'' (worker_connections op)\<rparr>)) ctx);
          ctx = with_key i ''worker'' ''processes''
                  (set_opts (\<lambda>op. op\<lparr>worker_processes := get_i i ''worker'' ''processes'' (worker_processes op)\<rparr>)) ctx
      in with_key i ''worker'' ''respawn''
           (set_opts (\<lambda>op. op\<lparr>worker_respawn := get_b i ''worker'' ''respawn'' (worker_respawn op)\<rparr>)) ctx)"

definition load_daemon :: "(cstring \<Rightarrow> cstring option) \<Rightarrow> nv_ini_t option \<Rightarrow> nv_core_ctx_t \<Rightarrow> nv_core_ctx_t" where
  "load_daemon sd i ctx =
     (let ctx = with_str i ''ipc'' ''mq_name'' (\<lambda>s. set_opts (\<lambda>op. op\<lparr>mq_name := nv_core_cfg_set_str sd s\<rparr>)) ctx;
          ctx = with_key i ''daemon'' ''heartbeat_interval''
                  (set_opts (\<lambda>op. op\<lparr>heartbeat_interval_sec := get_i i ''daemon'' ''heartbeat_interval'' (heartbeat_interval_sec op)\<rparr>)) ctx;
          ctx = with_key i ''daemon'' ''shutdown_timeout''
                  (set_opts (\<lambda>op. op\<lparr>shutdown_timeout_sec := get_i i ''daemon'' ''shutdown_timeout'' (shutdown_timeout_sec op)\<rparr>)) ctx;
          ctx = with_key i ''daemon'' ''systemd_notify''
                  (set_opts (\<lambda>op. op\<lparr>systemd_notify :=
                     if get_b i ''daemon'' ''systemd_notify'' (if systemd_notify op > 0 then 1 else 0) \<noteq> 0 then 1 else 0\<rparr>)) ctx;
          ctx = with_key i ''daemon'' ''max_open_files''
                  (set_opts (\<lambda>op. op\<lparr>max_open_files := get_i i ''daemon'' ''max_open_files'' (max_open_files op)\<rparr>)) ctx;
          ctx = with_key i ''daemon'' ''core_limit''
                  (set_opts (\<lambda>op. op\<lparr>core_limit := nv_ini_get_int64 i (Some ''daemon'') ''core_limit'' (core_limit op)\<rparr>)) ctx;
          ctx = with_str i ''daemon'' ''ctl_socket'' (\<lambda>s. set_opts (\<lambda>op. op\<lparr>ctl_socket := nv_core_cfg_set_str sd s\<rparr>)) ctx;
          ctx = with_str i ''ipc'' ''pubsub_socket'' (\<lambda>s. set_opts (\<lambda>op. op\<lparr>pubsub_socket := nv_core_cfg_set_str sd s\<rparr>)) ctx
      in with_str i ''daemon'' ''instance_lock'' (\<lambda>s. set_opts (\<lambda>op. op\<lparr>instance_lock := nv_core_cfg_set_str sd s\<rparr>)) ctx)"

definition load_cli :: "(cstring \<Rightarrow> cstring option) \<Rightarrow> nv_ini_t option \<Rightarrow> nv_core_ctx_t \<Rightarrow> nv_core_ctx_t" where
  "load_cli sd i ctx =
     (let ctx = with_key i ''cli'' ''telnet_enable''
                  (set_opts (\<lambda>op. op\<lparr>telnet_enable := get_b i ''cli'' ''telnet_enable'' (telnet_enable op)\<rparr>)) ctx;
          ctx = with_key i ''cli'' ''telnet_port''
                  (set_opts (\<lambda>op. op\<lparr>telnet_port := get_i i ''cli'' ''telnet_port'' (telnet_port op)\<rparr>)) ctx;
          ctx = with_str i ''cli'' ''telnet_bind'' (\<lambda>s. set_opts (\<lambda>op. op\<lparr>telnet_bind := nv_core_cfg_set_str sd s\<rparr>)) ctx;
          ctx = with_str i ''cli'' ''username'' (\<lambda>s. set_opts (\<lambda>op. op\<lparr>cli_username := nv_core_cfg_set_str sd s\<rparr>)) ctx
      in with_str i ''cli'' ''password'' (\<lambda>s. set_opts (\<lambda>op. op\<lparr>cli_password := nv_core_cfg_set_str sd s\<rparr>)) ctx)"

definition load_watchdog :: "(cstring \<Rightarrow> cstring option) \<Rightarrow> nv_ini_t option \<Rightarrow> nv_core_ctx_t \<Rightarrow> nv_core_ctx_t" where
  "load_watchdog sd i ctx =
     (let ctx = with_str i ''daemon'' ''tombstone_file'' (\<lambda>s. set_opts (\<lambda>op. op\<lparr>tombstone_file := nv_core_cfg_set_str sd s\<rparr>)) ctx;
          ctx = with_key i ''watchdog'' ''enable''
                  (set_opts (\<lambda>op. op\<lparr>watchdog_enable := get_b i ''watchdog'' ''enable'' (watchdog_enable op)\<rparr>)) ctx;
          ctx = with_str i ''watchdog'' ''device'' (\<lambda>s. set_opts (\<lambda>op. op\<lparr>watchdog_device := nv_core_cfg_set_str sd s\<rparr>)) ctx
      in with_str i ''watchdog'' ''cmd'' (\<lambda>s. set_opts (\<lambda>op. op\<lparr>watchdog_cmd := nv_core_cfg_set_str sd s\<rparr>)) ctx)"

definition load_rotate :: "nv_ini_t option \<Rightarrow> nv_core_ctx_t \<Rightarrow> nv_core_ctx_t" where
  "load_rotate i ctx =
     (let ctx = with_key i ''log'' ''rotate_max_mb''
                  (set_opts (\<lambda>op. op\<lparr>log_rotate_max_mb := get_i i ''log'' ''rotate_max_mb'' (log_rotate_max_mb op)\<rparr>)) ctx;
          ctx = with_key i ''log'' ''rotate_keep''
                  (set_opts (\<lambda>op. op\<lparr>log_rotate_keep := get_i i ''log'' ''rotate_keep'' (log_rotate_keep op)\<rparr>)) ctx;
          ctx = (if log_rotate_max_mb (opts ctx) > 0 \<and> log_rotate_keep (opts ctx) < 1
                 then set_opts (\<lambda>op. op\<lparr>log_rotate_keep := 1\<rparr>) ctx else ctx)
      in if log_rotate_max_mb (opts ctx) > 0
         then ctx\<lparr>glog := nv_log_set_rotate (nat (log_rotate_max_mb (opts ctx)) * 1024 * 1024) (log_rotate_keep (opts ctx)) (glog ctx)\<rparr>
         else ctx)"

definition load_metrics :: "(cstring \<Rightarrow> cstring option) \<Rightarrow> nv_ini_t option \<Rightarrow> nv_core_ctx_t \<Rightarrow> nv_core_ctx_t" where
  "load_metrics sd i ctx =
     (let ctx = with_key i ''metrics'' ''publish''
                  (set_opts (\<lambda>op. op\<lparr>metrics_publish := get_b i ''metrics'' ''publish'' (metrics_publish op)\<rparr>)) ctx;
          ctx = with_str i ''metrics'' ''topic'' (\<lambda>s. set_opts (\<lambda>op. op\<lparr>metrics_topic := nv_core_cfg_set_str sd s\<rparr>)) ctx
      in ctx\<lparr>conf := (conf ctx)\<lparr>c_daemon := daemon (opts ctx),
           c_worker_processes := if worker_processes (opts ctx) > 0 then worker_processes (opts ctx) else worker_threads (opts ctx),
           c_worker_connections := worker_connections (opts ctx)\<rparr>\<rparr>)"

definition load_rest :: "(cstring \<Rightarrow> cstring option) \<Rightarrow> nv_ini_t option \<Rightarrow> nv_core_ctx_t \<Rightarrow> nv_core_ctx_t" where
  "load_rest sd i ctx =
     load_metrics sd i (load_rotate i (load_watchdog sd i (load_cli sd i (load_daemon sd i
       (load_worker i (load_log sd i (load_main sd i ctx)))))))"

definition nv_core_load_config ::
    "(cstring \<Rightarrow> cstring option) \<Rightarrow> bool \<Rightarrow> cstring option \<Rightarrow> nv_core_ctx_t \<Rightarrow> int \<times> nv_core_ctx_t" where
  "nv_core_load_config sd alloc_ok contents ctx =
     (if config_file (opts ctx) = None then (NV_ERROR, ctx)
      else
        (let ctx = ctx\<lparr>ini := None\<rparr> in
         case nv_ini_load (\<lambda>_. alloc_ok) contents of None \<Rightarrow> (NV_OK, ctx)
         | Some i \<Rightarrow>
             (let ctx = load_loadlib sd (Some i) (ctx\<lparr>ini := Some i\<rparr>) in
              case nv_core_loadlibs_parse_config sd alloc_ok contents ctx of (rc, ctx) \<Rightarrow>
                if rc \<noteq> NV_OK then (NV_ERROR, ctx) else (NV_OK, load_rest sd (Some i) ctx))))"

section \<open>Validation and reload\<close>

record nv_core_opts_snapshot_t =
  s_log_level :: int
  s_worker_threads :: int
  s_worker_connections :: int
  s_worker_processes :: int
  s_heartbeat_interval_sec :: int
  s_shutdown_timeout_sec :: int
  s_use_syslog :: int
  s_console :: int

definition nv_core_opts_snapshot_save :: "nv_core_ctx_t \<Rightarrow> nv_core_opts_snapshot_t" where
  "nv_core_opts_snapshot_save ctx =
     (let op = opts ctx in
      \<lparr>s_log_level = log_level op, s_worker_threads = worker_threads op, s_worker_connections = worker_connections op,
       s_worker_processes = worker_processes op, s_heartbeat_interval_sec = heartbeat_interval_sec op,
       s_shutdown_timeout_sec = shutdown_timeout_sec op, s_use_syslog = use_syslog op, s_console = nv_log_get_console (glog ctx)\<rparr>)"

definition nv_core_opts_snapshot_restore :: "nv_core_opts_snapshot_t \<Rightarrow> nv_core_ctx_t \<Rightarrow> nv_core_ctx_t" where
  "nv_core_opts_snapshot_restore snap ctx =
     ctx\<lparr>opts := (opts ctx)\<lparr>log_level := s_log_level snap, worker_threads := s_worker_threads snap,
             worker_connections := s_worker_connections snap, worker_processes := s_worker_processes snap,
             heartbeat_interval_sec := s_heartbeat_interval_sec snap, shutdown_timeout_sec := s_shutdown_timeout_sec snap,
             use_syslog := s_use_syslog snap\<rparr>,
         conf := (conf ctx)\<lparr>c_log_level := s_log_level snap, c_worker_processes := s_worker_threads snap,
             c_worker_connections := s_worker_connections snap\<rparr>,
         glog := nv_log_set_console (s_console snap) (nv_log_set_level (s_log_level snap) (glog ctx))\<rparr>"

definition nv_core_config_validate :: "nv_core_ctx_t \<Rightarrow> int" where
  "nv_core_config_validate ctx =
     (let op = opts ctx in
      if log_level op < NV_LOG_LEVEL_DEBUG \<or> log_level op > NV_LOG_LEVEL_FATAL then NV_ERROR
      else if worker_threads op < 1 \<or> worker_threads op > 256 then NV_ERROR
      else if worker_connections op < 8 \<or> worker_connections op > 65536 then NV_ERROR
      else if worker_processes op < 0 \<or> worker_processes op > 128 then NV_ERROR
      else if shutdown_timeout_sec op < 0 \<or> shutdown_timeout_sec op > 3600 then NV_ERROR
      else if heartbeat_interval_sec op < 0 \<or> heartbeat_interval_sec op > 86400 then NV_ERROR
      else if telnet_port op < 1 \<or> telnet_port op > 65535 then NV_ERROR
      else if max_open_files op < 0 then NV_ERROR
      else NV_OK)"

definition nv_core_reload_config ::
    "(cstring \<Rightarrow> cstring option) \<Rightarrow> bool \<Rightarrow> cstring option \<Rightarrow> nv_core_ctx_t \<Rightarrow> int \<times> nv_core_ctx_t" where
  "nv_core_reload_config sd alloc_ok contents ctx =
     (let snap = nv_core_opts_snapshot_save ctx in
      case nv_core_load_config sd alloc_ok contents ctx of (rc, ctx) \<Rightarrow>
        if rc \<noteq> NV_OK then (NV_ERROR, nv_core_opts_snapshot_restore snap ctx)
        else if nv_core_config_validate ctx \<noteq> NV_OK then (NV_ERROR, nv_core_opts_snapshot_restore snap ctx)
        else (NV_OK, ctx))"

section \<open>Reload\<close>

lemma snapshot_restored:
  "nv_log_get_console (glog ctx0) \<in> {0, 1} \<Longrightarrow>
   nv_core_opts_snapshot_save (nv_core_opts_snapshot_restore (nv_core_opts_snapshot_save ctx0) ctx) = nv_core_opts_snapshot_save ctx0"
  by (auto simp: nv_core_opts_snapshot_save_def nv_core_opts_snapshot_restore_def nv_log_get_console_def nv_log_set_console_def
      nv_log_set_level_def Let_def)

text \<open>C33.  A reload either succeeds with options that pass validation, or fails and puts the saved options (log level, threads, connections, processes,
  heartbeat, shutdown timeout, syslog, console) back to what they were.\<close>
theorem nv_core_reload_config_outcome:
  assumes "nv_core_reload_config sd alloc_ok contents ctx = (rc, ctx')" "nv_log_get_console (glog ctx) \<in> {0, 1}"
  shows "(rc = NV_OK \<and> nv_core_config_validate ctx' = NV_OK) \<or>
         (rc = NV_ERROR \<and> nv_core_opts_snapshot_save ctx' = nv_core_opts_snapshot_save ctx)"
  using assms snapshot_restored[OF assms(2)]
  by (auto simp: nv_core_reload_config_def Let_def split: prod.splits if_splits)

text \<open>The roll-back of a failed reload is incomplete: the port of the telnet server is not among the saved options.  A file with an invalid
  port makes the reload fail and leaves the invalid port in place, so that the options no longer pass validation.\<close>
theorem nv_core_reload_keeps_bad_port:
  assumes "nv_core_load_config sd alloc_ok contents ctx = (NV_OK, c)" "telnet_port (opts c) \<notin> {1..65535}"
  shows "\<exists>ctx'. nv_core_reload_config sd alloc_ok contents ctx = (NV_ERROR, ctx') \<and>
           telnet_port (opts ctx') = telnet_port (opts c) \<and> nv_core_config_validate ctx' = NV_ERROR"
  using assms
  by (auto simp: nv_core_reload_config_def nv_core_config_validate_def nv_core_opts_snapshot_restore_def Let_def nv_codes not_le)

definition bad_port_file :: cstring where
  "bad_port_file = ''[cli]'' @ [CHR 0x0A] @ ''telnet_port=0''"

definition bad_port_ini :: nv_ini_t where
  "bad_port_ini = \<lparr>ini_head = [\<lparr>e_section = ''cli'', e_key = ''telnet_port'', e_value = ''0''\<rparr>], ini_count = 1\<rparr>"

lemma bad_port_lines: "fgets_lines 1023 bad_port_file = [''[cli]'' @ [CHR 0x0A], ''telnet_port=0'']"
  by (simp add: bad_port_file_def fgets_lines.simps)

lemma bad_port_load: "nv_ini_load (\<lambda>_. True) (Some bad_port_file) = Some bad_port_ini"
  by (simp add: nv_ini_load_def bad_port_lines ini_line_def nv_ini_strip_comment_def nv_ini_trim_inplace_def is_space_def
      ctrunc_def nv_ini_add_entry_def ini_empty_def bad_port_ini_def Let_def)

lemma bad_port_find: "nv_ini_get_string (Some bad_port_ini) (Some sec) key None =
    (if strcaseeq ''cli'' sec \<and> ''telnet_port'' = key then Some ''0'' else None)"
  by (simp add: nv_ini_get_string_def nv_ini_find_def bad_port_ini_def)

lemma bad_port_has: "nv_ini_has_key (Some bad_port_ini) (Some sec) key \<longleftrightarrow> strcaseeq ''cli'' sec \<and> ''telnet_port'' = key"
  by (simp add: nv_ini_has_key_def nv_ini_find_def bad_port_ini_def)

section \<open>Where an option comes from\<close>

text \<open>A section that sets other options leaves an option alone.\<close>

lemma port_with:
  "(\<And>c. telnet_port (opts (f c)) = telnet_port (opts c)) \<Longrightarrow> telnet_port (opts (with_key i sec key f ctx)) = telnet_port (opts ctx)"
  "(\<And>v c. telnet_port (opts (g v c)) = telnet_port (opts c)) \<Longrightarrow> telnet_port (opts (with_str i sec key g ctx)) = telnet_port (opts ctx)"
  by (simp_all add: with_key_def with_str_def split: option.splits)

lemma threads_with:
  "(\<And>c. worker_threads (opts (f c)) = worker_threads (opts c)) \<Longrightarrow> worker_threads (opts (with_key i sec key f ctx)) = worker_threads (opts ctx)"
  "(\<And>v c. worker_threads (opts (g v c)) = worker_threads (opts c)) \<Longrightarrow> worker_threads (opts (with_str i sec key g ctx)) = worker_threads (opts ctx)"
  by (simp_all add: with_key_def with_str_def split: option.splits)

lemmas section_defs = load_loadlib_def load_main_def load_log_def load_worker_def load_daemon_def load_cli_def load_watchdog_def
  load_rotate_def load_metrics_def

lemma port_frames:
  "telnet_port (opts (load_main sd i ctx)) = telnet_port (opts ctx)"
  "telnet_port (opts (load_log sd i ctx)) = telnet_port (opts ctx)"
  "telnet_port (opts (load_worker i ctx)) = telnet_port (opts ctx)"
  "telnet_port (opts (load_daemon sd i ctx)) = telnet_port (opts ctx)"
  "telnet_port (opts (load_watchdog sd i ctx)) = telnet_port (opts ctx)"
  "telnet_port (opts (load_rotate i ctx)) = telnet_port (opts ctx)"
  "telnet_port (opts (load_metrics sd i ctx)) = telnet_port (opts ctx)"
  by (simp_all add: section_defs port_with Let_def split: option.splits)

lemma threads_frames:
  "worker_threads (opts (load_loadlib sd i ctx)) = worker_threads (opts ctx)"
  "worker_threads (opts (load_main sd i ctx)) = worker_threads (opts ctx)"
  "worker_threads (opts (load_log sd i ctx)) = worker_threads (opts ctx)"
  "worker_threads (opts (load_daemon sd i ctx)) = worker_threads (opts ctx)"
  "worker_threads (opts (load_cli sd i ctx)) = worker_threads (opts ctx)"
  "worker_threads (opts (load_watchdog sd i ctx)) = worker_threads (opts ctx)"
  "worker_threads (opts (load_rotate i ctx)) = worker_threads (opts ctx)"
  "worker_threads (opts (load_metrics sd i ctx)) = worker_threads (opts ctx)"
  by (simp_all add: section_defs threads_with Let_def split: option.splits)

lemma get_int_string: "nv_ini_get_int i sec key d =
    (case nv_ini_get_string i sec key None of None \<Rightarrow> d | Some v \<Rightarrow> to_int (c_strtol v))"
  by (simp add: nv_ini_get_int_def)

lemma has_key_string: "nv_ini_has_key i sec key \<longleftrightarrow> nv_ini_get_string i sec key None \<noteq> None"
  by (auto simp: nv_ini_has_key_def nv_ini_get_string_def split: option.splits)

lemma load_rest_port: "telnet_port (opts (load_rest sd i ctx)) =
    (case nv_ini_get_string i (Some ''cli'') ''telnet_port'' None of None \<Rightarrow> telnet_port (opts ctx) | Some v \<Rightarrow> to_int (c_strtol v))"
  by (simp add: load_rest_def port_frames)
     (simp add: load_cli_def with_key_def[of i "''cli''" "''telnet_port''"] get_i_def get_int_string has_key_string Let_def
       port_with port_frames split: option.splits)

lemma load_rest_threads: "worker_threads (opts (load_rest sd i ctx)) =
    (case nv_ini_get_string i (Some ''worker'') ''threads'' None of
       Some v \<Rightarrow> to_int (c_strtol v)
     | None \<Rightarrow> (case nv_ini_get_string i (Some ''worker'') ''worker_threads'' None of
         Some v \<Rightarrow> to_int (c_strtol v) | None \<Rightarrow> worker_threads (opts ctx)))"
  by (simp add: load_rest_def threads_frames)
     (simp add: load_worker_def with_key_def[of i "''worker''" "''worker_threads''"] get_i_def get_int_string has_key_string Let_def
       threads_with threads_frames split: option.splits)

lemma bad_port_config:
  "\<exists>c. nv_core_load_config Some True (Some bad_port_file) (sample_ctx ''/p'') = (NV_OK, c) \<and> telnet_port (opts c) = 0"
proof -
  have skip: "loadlib_line (''[cli]'' @ [CHR 0x0A]) = LSkip" "loadlib_line ''telnet_port=0'' = LSkip"
    by (simp_all add: loadlib_line_def nv_loadlib_strip_comment_def nv_loadlib_trim_def is_space_def Let_def)
  define ctx where "ctx = load_loadlib Some (Some bad_port_ini) ((sample_ctx ''/p'')\<lparr>ini := Some bad_port_ini\<rparr>)"
  have c: "ctx = (sample_ctx ''/p'')\<lparr>ini := Some bad_port_ini\<rparr>"
    by (simp add: ctx_def load_loadlib_def with_key_def bad_port_find bad_port_has)
  have "nv_core_loadlibs_parse_config Some True (Some bad_port_file) ctx = (NV_OK, ctx\<lparr>loadlibs := []\<rparr>)"
    using skip by (simp add: nv_core_loadlibs_parse_config_def c sample_ctx_def default_opts_def bad_port_lines)
  then have "nv_core_load_config Some True (Some bad_port_file) (sample_ctx ''/p'') =
      (NV_OK, load_rest Some (Some bad_port_ini) (ctx\<lparr>loadlibs := []\<rparr>))"
    by (simp add: nv_core_load_config_def bad_port_load Let_def flip: ctx_def) (simp add: sample_ctx_def default_opts_def)
  moreover have "c_strtol ''0'' = 0"
    by (simp add: c_strtol_def is_space_def digit_val_def Let_def)
  ultimately show ?thesis by (simp add: load_rest_port bad_port_find strcaseeq_def to_int_def)
qed

theorem nv_core_reload_keeps_bad_port_witness:
  "\<exists>ctx'. nv_core_reload_config Some True (Some bad_port_file) (sample_ctx ''/p'') = (NV_ERROR, ctx') \<and>
     telnet_port (opts ctx') = 0 \<and> nv_core_config_validate ctx' = NV_ERROR"
proof -
  obtain c where c: "nv_core_load_config Some True (Some bad_port_file) (sample_ctx ''/p'') = (NV_OK, c)" "telnet_port (opts c) = 0"
    using bad_port_config by blast
  then show ?thesis using nv_core_reload_keeps_bad_port[OF c(1)] by simp
qed

theorem nv_core_reload_config_outcome_witness:
  "nv_core_config_validate (snd (nv_core_reload_config Some True None (sample_ctx ''/p''))) = NV_OK"
proof -
  have r: "nv_core_reload_config Some True None (sample_ctx ''/p'') = (NV_OK, sample_ctx ''/p'')"
    by (simp add: nv_core_reload_config_def nv_core_load_config_def nv_ini_load_def sample_ctx_def default_opts_def
        nv_core_config_validate_def log_levels nv_codes Let_def)
  show ?thesis using nv_core_reload_config_outcome[OF r] r
    by (simp add: sample_ctx_def rotate_sample_def nv_log_get_console_def nv_codes)
qed

section \<open>Threads and queue\<close>

lemma load_config_threads:
  assumes "nv_core_load_config sd True (Some s) ctx = (NV_OK, c)" "config_file (opts ctx) \<noteq> None"
  shows "worker_threads (opts c) =
    (case ini_value s ''worker'' ''threads'' of
       Some v \<Rightarrow> to_int (c_strtol v)
     | None \<Rightarrow> (case ini_value s ''worker'' ''worker_threads'' of
         Some v \<Rightarrow> to_int (c_strtol v) | None \<Rightarrow> worker_threads (opts ctx)))"
proof -
  obtain i where i: "nv_ini_load (\<lambda>_. True) (Some s) = Some i" by (auto simp: nv_ini_load_def)
  have v: "nv_ini_get_string (Some i) (Some sec) key None = ini_value s sec key" for sec key
    using get_string_loaded[of s sec key None] by (simp add: i split: option.splits)
  let ?c = "load_loadlib sd (Some i) (ctx\<lparr>ini := Some i\<rparr>)"
  obtain rc c' where p: "nv_core_loadlibs_parse_config sd True (Some s) ?c = (rc, c')" by fastforce
  then have "c = load_rest sd (Some i) c'"
    using assms i by (simp add: nv_core_load_config_def nv_codes split: if_splits)
  then show ?thesis
    using parse_config_frame[OF p] by (simp add: load_rest_threads v threads_frames split: option.splits)
qed

text \<open>C14.  A successful reload sets the number of threads to the last assignment to \<open>threads\<close> in section \<open>worker\<close> of the
  file (to \<open>worker_threads\<close> when there is none, else it is kept), and this number lies between 1 and 256.\<close>
theorem nv_core_reload_threads_from_file:
  assumes "nv_core_reload_config sd True (Some s) ctx = (NV_OK, c)" "config_file (opts ctx) \<noteq> None"
  shows "worker_threads (opts c) \<in> {1..256} \<and>
    worker_threads (opts c) =
      (case ini_value s ''worker'' ''threads'' of
         Some v \<Rightarrow> to_int (c_strtol v)
       | None \<Rightarrow> (case ini_value s ''worker'' ''worker_threads'' of
           Some v \<Rightarrow> to_int (c_strtol v) | None \<Rightarrow> worker_threads (opts ctx)))"
proof -
  have l: "nv_core_load_config sd True (Some s) ctx = (NV_OK, c)" "nv_core_config_validate c = NV_OK"
    using assms(1) by (auto simp: nv_core_reload_config_def Let_def nv_codes split: prod.splits if_splits)
  then have "worker_threads (opts c) \<in> {1..256}"
    by (auto simp: nv_core_config_validate_def Let_def nv_codes split: if_splits)
  then show ?thesis using load_config_threads[OF l(1) assms(2)] by blast
qed

definition queue_kept :: "nv_core_ctx_t \<Rightarrow> nv_core_ctx_t \<Rightarrow> bool" where
  "queue_kept c c' \<longleftrightarrow> (g_async_ready (glog c) \<longrightarrow>
     g_async_ready (glog c') \<and> nv_log_get_queue_size (glog c') = nv_log_get_queue_size (glog c))"

lemma queue_kept_trans: "queue_kept a b \<Longrightarrow> queue_kept b c \<Longrightarrow> queue_kept a c"
  by (auto simp: queue_kept_def)

lemma queue_kept_glog: "glog c' = glog c \<Longrightarrow> queue_kept c c'"
  by (simp add: queue_kept_def)

lemma queue_with:
  "(\<And>c. queue_kept c (f c)) \<Longrightarrow> queue_kept a c \<Longrightarrow> queue_kept a (with_key i sec key f c)"
  "(\<And>v c. queue_kept c (g v c)) \<Longrightarrow> queue_kept a c \<Longrightarrow> queue_kept a (with_str i sec key g c)"
  by (auto simp: with_key_def with_str_def intro: queue_kept_trans split: option.splits)

lemma glog_with:
  "(\<And>c. glog (f c) = glog c) \<Longrightarrow> glog (with_key i sec key f c) = glog c"
  "(\<And>v c. glog (g v c) = glog c) \<Longrightarrow> glog (with_str i sec key g c) = glog c"
  by (simp_all add: with_key_def with_str_def split: option.splits)

lemma glog_frames:
  "glog (load_loadlib sd i c) = glog c"
  "glog (load_main sd i c) = glog c"
  "glog (load_worker i c) = glog c"
  "glog (load_daemon sd i c) = glog c"
  "glog (load_cli sd i c) = glog c"
  "glog (load_watchdog sd i c) = glog c"
  "glog (load_metrics sd i c) = glog c"
  by (simp_all add: section_defs glog_with Let_def split: option.splits)

lemma queue_log: "queue_kept c (load_log sd i c)"
  unfolding load_log_def Let_def
  by (intro queue_with)
     (auto simp: queue_kept_def nv_log_set_queue_size_def nv_log_set_console_def nv_log_set_overflow_policy_def nv_log_get_queue_size_def
       split: option.splits)

lemma queue_rotate: "queue_kept c (load_rotate i c)"
  by (simp add: load_rotate_def Let_def queue_kept_def glog_with nv_log_set_rotate_def nv_log_get_queue_size_def)

lemma queue_rest: "queue_kept c (load_rest sd i c)"
proof -
  have "queue_kept c (load_log sd i (load_main sd i c))"
    using queue_kept_trans[OF queue_kept_glog queue_log] glog_frames(2) by blast
  moreover have "queue_kept (load_log sd i (load_main sd i c))
      (load_watchdog sd i (load_cli sd i (load_daemon sd i (load_worker i (load_log sd i (load_main sd i c))))))"
    by (rule queue_kept_glog) (simp add: glog_frames)
  moreover have "queue_kept c' (load_metrics sd i c')" for c' by (rule queue_kept_glog) (simp add: glog_frames)
  ultimately show ?thesis unfolding load_rest_def by (blast intro: queue_kept_trans queue_rotate)
qed

text \<open>The size of the log queue in the configuration has no effect once the logging thread runs, and the constructor of
  the library starts this thread before any configuration is read.\<close>
theorem nv_core_load_config_keeps_queue:
  assumes "g_async_ready (glog ctx)"
  shows "nv_log_get_queue_size (glog (snd (nv_core_load_config sd ok contents ctx))) = nv_log_get_queue_size (glog ctx)"
proof -
  have "queue_kept ctx (snd (nv_core_load_config sd ok contents ctx))"
    by (auto simp: nv_core_load_config_def Let_def glog_frames dest!: parse_config_frame
        intro!: queue_kept_glog queue_kept_trans[OF _ queue_rest] split: option.splits prod.splits)
  then show ?thesis using assms by (simp add: queue_kept_def)
qed

definition threads_file :: cstring where
  "threads_file = ''[worker]'' @ [CHR 0x0A] @ ''threads=4''"

definition threads_ini :: nv_ini_t where
  "threads_ini = \<lparr>ini_head = [\<lparr>e_section = ''worker'', e_key = ''threads'', e_value = ''4''\<rparr>], ini_count = 1\<rparr>"

lemma threads_lines: "fgets_lines 1023 threads_file = [''[worker]'' @ [CHR 0x0A], ''threads=4'']"
  by (simp add: threads_file_def fgets_lines.simps)

lemma threads_load: "nv_ini_load (\<lambda>_. True) (Some threads_file) = Some threads_ini"
  by (simp add: nv_ini_load_def threads_lines ini_line_def nv_ini_strip_comment_def nv_ini_trim_inplace_def is_space_def
      ctrunc_def nv_ini_add_entry_def ini_empty_def threads_ini_def Let_def)

lemma threads_find: "nv_ini_get_string (Some threads_ini) (Some sec) key None =
    (if strcaseeq ''worker'' sec \<and> ''threads'' = key then Some ''4'' else None)"
  by (simp add: nv_ini_get_string_def nv_ini_find_def threads_ini_def)

lemma threads_keys: "nv_ini_has_key (Some threads_ini) (Some sec) key \<longleftrightarrow> strcaseeq ''worker'' sec \<and> ''threads'' = key"
  by (simp add: has_key_string threads_find)

lemma threads_rest:
  assumes "opts c0 = opts (sample_ctx ''/p'')"
  shows "opts (load_rest Some (Some threads_ini) c0) = (opts (sample_ctx ''/p''))\<lparr>worker_threads := 4\<rparr>"
proof -
  have "c_strtol ''4'' = 4" by (simp add: c_strtol_def is_space_def digit_val_def Let_def)
  then have w: "load_worker (Some threads_ini) c = c\<lparr>opts := (opts c)\<lparr>worker_threads := 4\<rparr>\<rparr>" for c
    by (simp add: load_worker_def with_key_def threads_keys threads_find get_i_def get_int_string strcaseeq_def to_int_def)
  have o: "load_main Some (Some threads_ini) c = c" "load_log Some (Some threads_ini) c = c" "load_daemon Some (Some threads_ini) c = c"
      "load_cli Some (Some threads_ini) c = c" "load_watchdog Some (Some threads_ini) c = c" for c
    by (simp_all add: section_defs with_key_def with_str_def threads_keys threads_find strcaseeq_def)
  show ?thesis
    by (simp add: load_rest_def w o load_rotate_def load_metrics_def with_key_def with_str_def threads_keys threads_find strcaseeq_def
        assms) (simp add: sample_ctx_def default_opts_def)
qed

lemma threads_config:
  "\<exists>c. nv_core_load_config Some True (Some threads_file) (sample_ctx ''/p'') = (NV_OK, c) \<and>
       opts c = (opts (sample_ctx ''/p''))\<lparr>worker_threads := 4\<rparr>"
proof -
  have skip: "loadlib_line (''[worker]'' @ [CHR 0x0A]) = LSkip" "loadlib_line ''threads=4'' = LSkip"
    by (simp_all add: loadlib_line_def nv_loadlib_strip_comment_def nv_loadlib_trim_def is_space_def Let_def)
  define ctx where "ctx = load_loadlib Some (Some threads_ini) ((sample_ctx ''/p'')\<lparr>ini := Some threads_ini\<rparr>)"
  have c: "ctx = (sample_ctx ''/p'')\<lparr>ini := Some threads_ini\<rparr>"
    by (simp add: ctx_def load_loadlib_def with_key_def threads_find threads_keys)
  have "nv_core_loadlibs_parse_config Some True (Some threads_file) ctx = (NV_OK, ctx\<lparr>loadlibs := []\<rparr>)"
    using skip by (simp add: nv_core_loadlibs_parse_config_def c sample_ctx_def default_opts_def threads_lines)
  then have "nv_core_load_config Some True (Some threads_file) (sample_ctx ''/p'') =
      (NV_OK, load_rest Some (Some threads_ini) (ctx\<lparr>loadlibs := []\<rparr>))"
    by (simp add: nv_core_load_config_def threads_load Let_def flip: ctx_def) (simp add: sample_ctx_def default_opts_def)
  moreover have "opts (ctx\<lparr>loadlibs := []\<rparr>) = opts (sample_ctx ''/p'')" by (simp add: c)
  ultimately show ?thesis using threads_rest[of "ctx\<lparr>loadlibs := []\<rparr>"] by simp
qed

theorem nv_core_reload_threads_from_file_witness:
  "\<exists>c. nv_core_reload_config Some True (Some threads_file) (sample_ctx ''/p'') = (NV_OK, c) \<and>
       worker_threads (opts c) = (case ini_value threads_file ''worker'' ''threads'' of Some v \<Rightarrow> to_int (c_strtol v) | None \<Rightarrow> 0)"
proof -
  obtain c where c: "nv_core_load_config Some True (Some threads_file) (sample_ctx ''/p'') = (NV_OK, c)"
      "opts c = (opts (sample_ctx ''/p''))\<lparr>worker_threads := 4\<rparr>"
    using threads_config by blast
  have r: "nv_core_reload_config Some True (Some threads_file) (sample_ctx ''/p'') = (NV_OK, c)"
    by (simp add: nv_core_reload_config_def c nv_core_config_validate_def nv_codes Let_def) (simp add: sample_ctx_def default_opts_def log_levels)
  have "ini_value threads_file ''worker'' ''threads'' = Some ''4''"
    using get_string_loaded[of threads_file "''worker''" "''threads''" None]
    by (simp add: threads_load threads_find strcaseeq_def split: option.splits)
  then show ?thesis using nv_core_reload_threads_from_file[OF r] r by (simp add: sample_ctx_def default_opts_def)
qed

theorem nv_core_load_config_keeps_queue_witness:
  "nv_log_get_queue_size (glog (snd (nv_core_load_config Some True (Some threads_file) (sample_ctx ''/p'')))) = 64"
  using nv_core_load_config_keeps_queue[of "sample_ctx ''/p''" Some True "Some threads_file"]
  by (simp add: sample_ctx_def rotate_sample_def nv_log_get_queue_size_def)

end
