(* ===== verification/Nv_Cli.thy ===== *)
theory Nv_Cli
  imports Nv_Config Nv_Interfaces "HOL-Library.Sublist"
begin

text \<open>
  The command line interface (\<open>core/cli/nv_core_cli.c\<close>): the registry of commands, the splitting and execution of a line,
  and the completion of command names.  The global variables of the file are the fields of \<open>cli_world\<close>, beside the
  context of the daemon.  Text written to the client is not modelled.  The built-in handlers are constructors, a handler of a plugin is
  a number whose behaviour the environment gives.
\<close>

section \<open>The registry\<close>

definition NV_CORE_CLI_LINE_MAX :: nat where "NV_CORE_CLI_LINE_MAX = 512"
definition NV_CORE_CLI_NAME_MAX :: nat where "NV_CORE_CLI_NAME_MAX = 32"
definition NV_CORE_CLI_HELP_MAX :: nat where "NV_CORE_CLI_HELP_MAX = 128"
definition NV_CLI_CLOSE_SESSION :: int where "NV_CLI_CLOSE_SESSION = 2"

lemmas cli_max = NV_CORE_CLI_LINE_MAX_def NV_CORE_CLI_NAME_MAX_def NV_CORE_CLI_HELP_MAX_def

datatype nv_core_cli_handler_t = nv_cli_cmd_help | nv_cli_cmd_status | nv_cli_cmd_uptime | nv_cli_cmd_version
  | nv_cli_cmd_workers | nv_cli_cmd_config | nv_cli_cmd_reload | nv_cli_cmd_exit | nv_cli_cmd_ping | Plugin_cmd nat

record nv_cli_cmd_node_t =
  cmd_name :: cstring
  cmd_help :: cstring
  cmd_handler :: nv_core_cli_handler_t
  cmd_userdata :: nat

record cli_world =
  g_cli_cmds :: "nv_cli_cmd_node_t list"
  g_cli_interactive :: bool
  g_cli_inited :: bool
  w_ctx :: nv_core_ctx_t

text \<open>What the code gets from outside: memory, the configuration file, and the handlers of plugins.\<close>

record cli_env =
  env_strdup :: "cstring \<Rightarrow> cstring option"
  env_alloc :: bool
  env_config :: "cstring option"
  env_plugin :: "nat \<Rightarrow> cstring list \<Rightarrow> cli_world \<Rightarrow> int \<times> cli_world"

definition nv_cli_find :: "cstring \<Rightarrow> cli_world \<Rightarrow> nv_cli_cmd_node_t option" where
  "nv_cli_find name w = find (\<lambda>n. strcaseeq (cmd_name n) name) (g_cli_cmds w)"

definition nv_cli_add_node ::
    "bool \<Rightarrow> cstring \<Rightarrow> cstring option \<Rightarrow> nv_core_cli_handler_t \<Rightarrow> nat \<Rightarrow> cli_world \<Rightarrow> int \<times> cli_world" where
  "nv_cli_add_node alloc_ok name help handler userdata w =
     (if name = [] then (NV_ERROR, w)
      else if nv_cli_find name w \<noteq> None then (NV_ERROR, w)
      else if \<not> alloc_ok then (NV_ERROR, w)
      else (NV_OK, w\<lparr>g_cli_cmds := \<lparr>cmd_name = ctrunc NV_CORE_CLI_NAME_MAX name,
              cmd_help = (case help of None \<Rightarrow> '''' | Some h \<Rightarrow> ctrunc NV_CORE_CLI_HELP_MAX h),
              cmd_handler = handler, cmd_userdata = userdata\<rparr> # g_cli_cmds w\<rparr>))"

definition nv_core_cli_cleanup :: "cli_world \<Rightarrow> cli_world" where
  "nv_core_cli_cleanup w = w\<lparr>g_cli_cmds := [], g_cli_inited := False\<rparr>"

definition builtins :: "(cstring \<times> cstring \<times> nv_core_cli_handler_t) list" where
  "builtins =
     [(''help'', ''show this help'', nv_cli_cmd_help),
      (''?'', ''show this help'', nv_cli_cmd_help),
      (''status'', ''process and loop status'', nv_cli_cmd_status),
      (''stat'', ''process and loop status'', nv_cli_cmd_status),
      (''uptime'', ''running time'', nv_cli_cmd_uptime),
      (''version'', ''libnv version'', nv_cli_cmd_version),
      (''ver'', ''libnv version'', nv_cli_cmd_version),
      (''workers'', ''worker/thread settings'', nv_cli_cmd_workers),
      (''config'', ''key configuration'', nv_cli_cmd_config),
      (''reload'', ''reload config file'', nv_cli_cmd_reload),
      (''quit'', ''leave CLI (daemon runs)'', nv_cli_cmd_exit),
      (''exit'', ''leave CLI (daemon runs)'', nv_cli_cmd_exit),
      (''shutdown'', ''same as quit'', nv_cli_cmd_exit),
      (''ping'', ''connectivity test'', nv_cli_cmd_ping)]"

definition add_builtin :: "bool \<Rightarrow> cstring \<times> cstring \<times> nv_core_cli_handler_t \<Rightarrow> cli_world \<Rightarrow> cli_world" where
  "add_builtin alloc_ok b w =
     (case b of (name, help, handler) \<Rightarrow>
        if nv_cli_find name w \<noteq> None then w else snd (nv_cli_add_node alloc_ok name (Some help) handler 0 w))"

definition nv_cli_register_builtins :: "bool \<Rightarrow> cli_world \<Rightarrow> cli_world" where
  "nv_cli_register_builtins alloc_ok w = fold (add_builtin alloc_ok) builtins w"

definition nv_core_cli_init :: "bool \<Rightarrow> cli_world \<Rightarrow> cli_world" where
  "nv_core_cli_init alloc_ok w =
     (if g_cli_inited w then w else nv_cli_register_builtins alloc_ok (w\<lparr>g_cli_inited := True\<rparr>))"

definition nv_core_cli_register ::
    "bool \<Rightarrow> cstring \<Rightarrow> cstring option \<Rightarrow> nv_core_cli_handler_t \<Rightarrow> nat \<Rightarrow> cli_world \<Rightarrow> int \<times> cli_world" where
  "nv_core_cli_register alloc_ok name help handler userdata w =
     nv_cli_add_node alloc_ok name help handler userdata (nv_core_cli_init alloc_ok w)"

fun unlink_cmd :: "cstring \<Rightarrow> nv_cli_cmd_node_t list \<Rightarrow> nv_cli_cmd_node_t list option" where
  "unlink_cmd name [] = None"
| "unlink_cmd name (n # ns) =
     (if strcaseeq (cmd_name n) name then Some ns else map_option ((#) n) (unlink_cmd name ns))"

definition nv_core_cli_unregister :: "cstring \<Rightarrow> cli_world \<Rightarrow> int \<times> cli_world" where
  "nv_core_cli_unregister name w =
     (case unlink_cmd name (g_cli_cmds w) of
        None \<Rightarrow> (NV_ERROR, w) | Some ns \<Rightarrow> (NV_OK, w\<lparr>g_cli_cmds := ns\<rparr>))"

section \<open>Executing a line\<close>

definition run_handler :: "cli_env \<Rightarrow> nv_core_cli_handler_t \<Rightarrow> cstring list \<Rightarrow> cli_world \<Rightarrow> int \<times> cli_world" where
  "run_handler env h argv w =
     (case h of
        nv_cli_cmd_reload \<Rightarrow>
          (case nv_core_reload_config (env_strdup env) (env_alloc env) (env_config env) (w_ctx w) of (rc, ctx) \<Rightarrow>
             (if rc = NV_OK then NV_OK else NV_ERROR, w\<lparr>w_ctx := ctx\<rparr>))
      | nv_cli_cmd_exit \<Rightarrow> (if g_cli_interactive w then NV_CLI_CLOSE_SESSION else NV_OK, w)
      | Plugin_cmd k \<Rightarrow> env_plugin env k argv w
      | _ \<Rightarrow> (NV_OK, w))"

fun split_args :: "nat \<Rightarrow> cstring \<Rightarrow> cstring list" where
  "split_args 0 p = []"
| "split_args (Suc n) p =
     (let p = dropWhile is_space p in
      if p = [] then []
      else takeWhile (\<lambda>c. \<not> is_space c) p # split_args n (drop 1 (dropWhile (\<lambda>c. \<not> is_space c) p)))"

definition nv_cli_split_args :: "cstring \<Rightarrow> nat \<Rightarrow> cstring list" where
  "nv_cli_split_args line max_argv = split_args (max_argv - 1) line"

definition chomp :: "cstring \<Rightarrow> cstring" where
  "chomp s = rev (dropWhile (\<lambda>c. c = CHR 0x0D \<or> c = CHR 0x0A) (rev s))"

definition nv_core_cli_execute_line :: "cli_env \<Rightarrow> int \<Rightarrow> cstring \<Rightarrow> bool \<Rightarrow> cli_world \<Rightarrow> int \<times> cli_world" where
  "nv_core_cli_execute_line env fd line interactive w =
     (if fd < 0 then (NV_ERROR, w)
      else
        (let w = (nv_core_cli_init (env_alloc env) w)\<lparr>g_cli_interactive := interactive\<rparr>;
             buf = chomp (ctrunc NV_CORE_CLI_LINE_MAX line) in
         if buf = [] then (NV_OK, w)
         else
           (let argv = nv_cli_split_args buf 16 in
            case argv of [] \<Rightarrow> (NV_OK, w)
            | name # _ \<Rightarrow>
                (case nv_cli_find name w of
                   Some cmd \<Rightarrow>
                     (case run_handler env (cmd_handler cmd) argv w of (rc, w) \<Rightarrow> (rc, w\<lparr>g_cli_interactive := False\<rparr>))
                 | None \<Rightarrow> (NV_ERROR, w\<lparr>g_cli_interactive := False\<rparr>)))))"

section \<open>Completion\<close>

definition is_blank :: "char \<Rightarrow> bool" where
  "is_blank c \<longleftrightarrow> c = CHR '' '' \<or> c = CHR 0x09"

definition nv_cli_first_word_len :: "cstring \<Rightarrow> nat" where
  "nv_cli_first_word_len line = length (takeWhile (\<lambda>c. \<not> is_blank c) line)"

fun nv_cli_str_common_prefix :: "cstring \<Rightarrow> cstring \<Rightarrow> nat" where
  "nv_cli_str_common_prefix (a # as) (b # bs) = (if to_lower a = to_lower b then Suc (nv_cli_str_common_prefix as bs) else 0)"
| "nv_cli_str_common_prefix _ _ = 0"

definition nv_cli_matches_lcp :: "cstring list \<Rightarrow> nat" where
  "nv_cli_matches_lcp matches =
     (case matches of [] \<Rightarrow> 0
      | m # ms \<Rightarrow> fold (\<lambda>x len. let n = nv_cli_str_common_prefix m x in if n < len then n else len) ms (length m))"

definition nv_cli_match_exists :: "cstring list \<Rightarrow> cstring \<Rightarrow> bool" where
  "nv_cli_match_exists matches name = list_ex (\<lambda>m. strcaseeq m name) matches"

definition nv_cli_build_completed_line :: "nat \<Rightarrow> cstring \<Rightarrow> cstring \<Rightarrow> cstring" where
  "nv_cli_build_completed_line out_size cmd tail =
     (if tail = [] then ctrunc out_size (cmd @ '' '')
      else if is_blank (hd tail) then ctrunc out_size (cmd @ tail)
      else ctrunc out_size (cmd @ '' '' @ tail))"

fun collect_matches :: "nat \<Rightarrow> cstring \<Rightarrow> nv_cli_cmd_node_t list \<Rightarrow> cstring list \<Rightarrow> cstring list" where
  "collect_matches word_len line [] matches = matches"
| "collect_matches word_len line (cmd # cmds) matches =
     (if length matches \<ge> 32 then matches
      else if (word_len = 0 \<or> strcaseeq (take word_len (cmd_name cmd)) (take word_len line)) \<and>
              \<not> nv_cli_match_exists matches (cmd_name cmd)
      then collect_matches word_len line cmds (matches @ [cmd_name cmd])
      else collect_matches word_len line cmds matches)"

text \<open>The new contents of the line, \<open>None\<close> when the line is left as it is.\<close>

definition nv_core_cli_tab_complete :: "cli_env \<Rightarrow> int \<Rightarrow> cstring \<Rightarrow> nat \<Rightarrow> cli_world \<Rightarrow> (int \<times> cstring option) \<times> cli_world" where
  "nv_core_cli_tab_complete env fd line line_max w =
     (if line_max < 2 \<or> fd < 0 then ((NV_ERROR, None), w)
      else
        (let w = nv_core_cli_init (env_alloc env) w;
             word_len = nv_cli_first_word_len line;
             matches = collect_matches word_len line (g_cli_cmds w) [];
             tail = ctrunc NV_CORE_CLI_LINE_MAX (drop word_len line) in
         case matches of
           [] \<Rightarrow> ((NV_OK, None), w)
         | [m] \<Rightarrow> ((NV_OK, Some (ctrunc line_max (nv_cli_build_completed_line NV_CORE_CLI_LINE_MAX m tail))), w)
         | m # _ \<Rightarrow>
             (let lcp_len = nv_cli_matches_lcp matches in
              if lcp_len > word_len
              then ((NV_OK, Some (ctrunc line_max (ctrunc NV_CORE_CLI_LINE_MAX (take lcp_len m @ tail)))), w)
              else ((NV_OK, None), w))))"

section \<open>The control socket\<close>

text \<open>\<open>core/cli/nv_core_ctl.c\<close>: every connection carries one line; \<open>reads\<close> holds what is read from the accepted
  connections, \<open>None\<close> when nothing is.\<close>

definition nv_core_ctl_handle_client :: "cli_env \<Rightarrow> int \<times> cstring option \<Rightarrow> cli_world \<Rightarrow> cli_world" where
  "nv_core_ctl_handle_client env c w =
     (case c of (cfd, None) \<Rightarrow> w
      | (cfd, Some buf) \<Rightarrow>
          if buf = [] then w
          else snd (nv_core_cli_execute_line env cfd (takeWhile (\<lambda>c. c \<noteq> CHR 0x00) (take 511 buf)) False w))"

definition nv_core_ctl_accept_handler :: "cli_env \<Rightarrow> (int \<times> cstring option) list \<Rightarrow> cli_world \<Rightarrow> cli_world" where
  "nv_core_ctl_accept_handler env reads w = fold (nv_core_ctl_handle_client env) reads w"

record ctl_server =
  ctl_inited :: bool
  ctl_listen_fd :: int

text \<open>The arguments are the new socket and the results of \<open>bind\<close>, \<open>listen\<close> and of the registration with the loop.\<close>

definition nv_core_ctl_init :: "int \<Rightarrow> bool \<Rightarrow> bool \<Rightarrow> bool \<Rightarrow> nv_core_ctx_t \<Rightarrow> ctl_server \<Rightarrow> int \<times> ctl_server" where
  "nv_core_ctl_init sfd bind_ok listen_ok add_ok ctx c =
     (if ctl_socket (opts ctx) \<in> {None, Some ''''} then (NV_OK, c)
      else if ctl_inited c then (NV_OK, c)
      else if sfd < 0 then (NV_ERROR, c)
      else if \<not> bind_ok \<or> \<not> listen_ok then (NV_ERROR, c)
      else if \<not> add_ok then (NV_ERROR, c\<lparr>ctl_listen_fd := -1\<rparr>)
      else (NV_OK, c\<lparr>ctl_listen_fd := sfd, ctl_inited := True\<rparr>))"

definition nv_core_ctl_cleanup :: "ctl_server \<Rightarrow> ctl_server" where
  "nv_core_ctl_cleanup c =
     (if \<not> ctl_inited c then c
      else (if ctl_listen_fd c \<ge> 0 then c\<lparr>ctl_listen_fd := -1\<rparr> else c)\<lparr>ctl_inited := False\<rparr>)"

section \<open>The registry is a map\<close>

definition cli_norm :: "cstring \<Rightarrow> cstring" where
  "cli_norm name = map to_lower name"

definition cli_valid :: "cstring \<Rightarrow> bool" where
  "cli_valid name \<longleftrightarrow> name \<noteq> [] \<and> length name < NV_CORE_CLI_NAME_MAX"

definition cli_lookup :: "cli_world \<Rightarrow> cstring \<Rightarrow> nv_core_cli_handler_t option" where
  "cli_lookup w name = map_option cmd_handler (nv_cli_find name w)"

definition cli_inv :: "cli_world \<Rightarrow> bool" where
  "cli_inv w \<longleftrightarrow> g_cli_inited w \<and> distinct (map (\<lambda>n. cli_norm (cmd_name n)) (g_cli_cmds w))"

definition cli_reg :: "cstring \<Rightarrow> nv_core_cli_handler_t \<Rightarrow> cli_world \<Rightarrow> bool \<times> cli_world" where
  "cli_reg name h w = apfst (\<lambda>rc. rc = NV_OK) (nv_core_cli_register True name None h 0 w)"

definition cli_unreg :: "cstring \<Rightarrow> cli_world \<Rightarrow> bool \<times> cli_world" where
  "cli_unreg name w = apfst (\<lambda>rc. rc = NV_OK) (nv_core_cli_unregister name w)"

lemma find_none_norm: "nv_cli_find name w = None \<longleftrightarrow> cli_norm name \<notin> (\<lambda>n. cli_norm (cmd_name n)) ` set (g_cli_cmds w)"
  by (auto simp: nv_cli_find_def find_None_iff strcaseeq_def cli_norm_def image_iff)

lemma cli_register_inited:
  "g_cli_inited w \<Longrightarrow> cli_valid name \<Longrightarrow> nv_core_cli_register True name help h u w =
     (if nv_cli_find name w \<noteq> None then (NV_ERROR, w)
      else (NV_OK, w\<lparr>g_cli_cmds := \<lparr>cmd_name = name, cmd_help = (case help of None \<Rightarrow> '''' | Some t \<Rightarrow> ctrunc NV_CORE_CLI_HELP_MAX t),
              cmd_handler = h, cmd_userdata = u\<rparr> # g_cli_cmds w\<rparr>))"
  by (simp add: nv_core_cli_register_def nv_core_cli_init_def nv_cli_add_node_def cli_valid_def ctrunc_id)

lemma unlink_none: "unlink_cmd name ns = None \<longleftrightarrow> find (\<lambda>n. strcaseeq (cmd_name n) name) ns = None"
  by (induction ns) auto

lemma unlink_set: "unlink_cmd name ns = Some ns' \<Longrightarrow> set ns' \<subseteq> set ns"
  by (induction ns arbitrary: ns') (auto split: if_splits)

lemma unlink_distinct: "unlink_cmd name ns = Some ns' \<Longrightarrow> distinct (map (\<lambda>n. cli_norm (cmd_name n)) ns) \<Longrightarrow>
    distinct (map (\<lambda>n. cli_norm (cmd_name n)) ns')"
  by (induction ns arbitrary: ns') (auto split: if_splits, metis imageI subsetD unlink_set)

lemma unlink_find: "unlink_cmd name ns = Some ns' \<Longrightarrow> distinct (map (\<lambda>n. cli_norm (cmd_name n)) ns) \<Longrightarrow>
    find (\<lambda>n. strcaseeq (cmd_name n) name') ns' =
      (if cli_norm name' = cli_norm name then None else find (\<lambda>n. strcaseeq (cmd_name n) name') ns)"
  by (induction ns arbitrary: ns') (auto simp: strcaseeq_def cli_norm_def find_None_iff image_iff split: if_splits)

interpretation cli: registry cli_norm cli_inv cli_valid cli_lookup cli_reg cli_unreg
proof unfold_locales
  fix w name h name'
  assume i: "cli_inv w"
  show "cli_inv (snd (cli_unreg name w))"
    using i by (auto simp: cli_unreg_def nv_core_cli_unregister_def cli_inv_def dest: unlink_distinct split: option.splits)
  show "fst (cli_unreg name w) \<longleftrightarrow> cli_lookup w name \<noteq> None"
    using unlink_none[of name "g_cli_cmds w"]
    by (auto simp: cli_unreg_def nv_core_cli_unregister_def cli_lookup_def nv_cli_find_def nv_codes split: option.splits)
  show "cli_lookup (snd (cli_unreg name w)) name' = (if cli_norm name' = cli_norm name then None else cli_lookup w name')"
  proof (cases "unlink_cmd name (g_cli_cmds w)")
    case None
    then show ?thesis using unlink_none[of name "g_cli_cmds w"]
      by (auto simp: cli_unreg_def nv_core_cli_unregister_def cli_lookup_def nv_cli_find_def strcaseeq_def cli_norm_def)
  next
    case (Some ns)
    then show ?thesis using i unlink_find[OF Some, of name']
      by (simp add: cli_unreg_def nv_core_cli_unregister_def cli_lookup_def nv_cli_find_def cli_inv_def)
  qed
  assume v: "cli_valid name"
  have r: "cli_reg name h w = (if nv_cli_find name w \<noteq> None then (False, w)
      else (True, w\<lparr>g_cli_cmds := \<lparr>cmd_name = name, cmd_help = '''', cmd_handler = h, cmd_userdata = 0\<rparr> # g_cli_cmds w\<rparr>))"
    using i v by (simp add: cli_reg_def cli_register_inited cli_inv_def nv_codes)
  show "cli_inv (snd (cli_reg name h w))"
    using i find_none_norm[of name w] by (auto simp: r cli_inv_def)
  show "fst (cli_reg name h w) \<longleftrightarrow> cli_lookup w name = None" by (simp add: r cli_lookup_def)
  show "cli_lookup (snd (cli_reg name h w)) name' =
      (if cli_lookup w name = None \<and> cli_norm name' = cli_norm name then Some h else cli_lookup w name')"
    by (auto simp: r cli_lookup_def nv_cli_find_def strcaseeq_def cli_norm_def)
qed

definition builtin_map :: "cstring \<Rightarrow> nv_core_cli_handler_t option" where
  "builtin_map = map_of (map (\<lambda>(name, _, h). (name, h)) builtins)"

lemma builtins_norm: "(name, help, h) \<in> set builtins \<Longrightarrow> cli_norm name = name \<and> cli_valid name"
  by (auto simp: builtins_def cli_norm_def to_lower_def cli_valid_def cli_max)

lemma add_builtin_reg: "cli_inv w \<Longrightarrow> cli_valid name \<Longrightarrow>
    cli_inv (add_builtin True (name, help, h) w) \<and>
    cli_lookup (add_builtin True (name, help, h) w) k =
      (if cli_lookup w name = None \<and> cli_norm k = cli_norm name then Some h else cli_lookup w k)"
proof -
  assume i: "cli_inv w" and v: "cli_valid name"
  let ?n = "\<lparr>cmd_name = name, cmd_help = ctrunc NV_CORE_CLI_HELP_MAX help, cmd_handler = h, cmd_userdata = 0\<rparr>"
  have r: "add_builtin True (name, help, h) w =
      (if nv_cli_find name w \<noteq> None then w else w\<lparr>g_cli_cmds := ?n # g_cli_cmds w\<rparr>)"
    using v by (simp add: add_builtin_def nv_cli_add_node_def cli_valid_def ctrunc_id)
  show ?thesis
    using i find_none_norm[of name w] by (auto simp: r cli_inv_def cli_lookup_def nv_cli_find_def strcaseeq_def cli_norm_def)
qed

lemma add_builtins_lookup:
  "cli_inv w \<Longrightarrow> \<forall>(name, help, h) \<in> set bs. cli_norm name = name \<and> cli_valid name \<Longrightarrow>
   cli_inv (fold (add_builtin True) bs w) \<and>
   cli_lookup (fold (add_builtin True) bs w) k =
     (case cli_lookup w k of Some h \<Rightarrow> Some h | None \<Rightarrow> map_of (map (\<lambda>(name, _, h). (name, h)) bs) (cli_norm k))"
proof (induction bs arbitrary: w)
  case (Cons b bs)
  obtain name t h where b: "b = (name, t, h)" by (cases b) auto
  let ?w = "add_builtin True b w"
  note a = add_builtin_reg[OF Cons.prems(1), of name t h]
  have "cli_lookup w name = cli_lookup w k" if "cli_norm k = name"
    using that Cons.prems(2) by (auto simp: b cli_lookup_def nv_cli_find_def strcaseeq_def cli_norm_def)
  then show ?case
    using Cons.IH[of ?w] a Cons.prems(2) by (auto simp: b split: option.splits)
qed (auto split: option.splits)

lemma init_lookup:
  assumes "g_cli_cmds w = []" "\<not> g_cli_inited w"
  shows "cli_inv (nv_core_cli_init True w) \<and> cli_lookup (nv_core_cli_init True w) k = builtin_map (cli_norm k)"
proof -
  let ?w = "w\<lparr>g_cli_inited := True\<rparr>"
  have "cli_inv ?w" "cli_lookup ?w k = None" using assms by (simp_all add: cli_inv_def cli_lookup_def nv_cli_find_def)
  moreover have "\<forall>(name, help, h) \<in> set builtins. cli_norm name = name \<and> cli_valid name" using builtins_norm by fastforce
  ultimately show ?thesis
    using assms add_builtins_lookup[of ?w builtins k]
    by (simp add: nv_core_cli_init_def nv_cli_register_builtins_def builtin_map_def)
qed

text \<open>C30.  The registry of commands behaves as a map from names without case to handlers, which holds the built-in commands
  after initialisation: whatever commands are then registered and unregistered, with names of 1 to 31 characters, every
  operation succeeds exactly when it does on the map, and every lookup returns what the map holds.\<close>
theorem nv_core_cli_registry_refines_map:
  assumes "g_cli_cmds w = []" "\<not> g_cli_inited w" "\<forall>op \<in> set ops. cli_valid (op_key op)"
  shows "fst (cli.run_ops ops (nv_core_cli_init True w)) = fst (spec_run cli_norm ops builtin_map) \<and>
         (\<forall>name. map_option cmd_handler (nv_cli_find name (snd (cli.run_ops ops (nv_core_cli_init True w)))) =
                 snd (spec_run cli_norm ops builtin_map) (map to_lower name))"
  using cli.run_refines[of "nv_core_cli_init True w" ops builtin_map] init_lookup[OF assms(1,2)] assms(3)
  by (simp add: cli_lookup_def cli_norm_def)

text \<open>The check for duplicate names compares the full name with the stored ones, which are cut to 31 characters: the
  same name of 32 characters or more can be registered twice, and cannot be found or removed under its name.\<close>
theorem nv_core_cli_long_names_collide:
  assumes "cli_inv w" "length name \<ge> NV_CORE_CLI_NAME_MAX" "\<forall>n \<in> set (g_cli_cmds w). length (cmd_name n) < NV_CORE_CLI_NAME_MAX"
    and "nv_core_cli_register True name help h u w = (rc, w1)"
  shows "rc = NV_OK \<and> fst (nv_core_cli_register True name help h u w1) = NV_OK \<and>
         nv_cli_find name w1 = None \<and> fst (nv_core_cli_unregister name w1) = NV_ERROR"
proof -
  have none: "nv_cli_find name v = None" if "\<forall>n \<in> set (g_cli_cmds v). length (cmd_name n) < NV_CORE_CLI_NAME_MAX" for v
    using that assms(2) by (auto simp: nv_cli_find_def find_None_iff strcaseeq_def dest!: map_eq_imp_length_eq)
  have ne: "name \<noteq> []" using assms(2) by (auto simp: cli_max)
  have i: "nv_core_cli_init True v = v" if "g_cli_inited v" for v using that by (simp add: nv_core_cli_init_def)
  have reg: "rc = NV_OK" "g_cli_inited w1" "\<forall>n \<in> set (g_cli_cmds w1). length (cmd_name n) < NV_CORE_CLI_NAME_MAX"
    using assms ne none[OF assms(3)]
    by (auto simp: nv_core_cli_register_def i cli_inv_def nv_cli_add_node_def length_ctrunc cli_max)
  then show ?thesis
    using ne none[OF reg(3)] unlink_none[of name "g_cli_cmds w1"]
    by (simp add: nv_core_cli_register_def i nv_cli_add_node_def nv_core_cli_unregister_def nv_cli_find_def)
qed

definition empty_world :: "nv_core_ctx_t \<Rightarrow> cli_world" where
  "empty_world ctx = \<lparr>g_cli_cmds = [], g_cli_interactive = False, g_cli_inited = False, w_ctx = ctx\<rparr>"

theorem nv_core_cli_registry_refines_map_witness:
  "let ops = [Add_key ''foo'' nv_cli_cmd_ping, Remove_key ''QUIT'', Add_key ''Help'' nv_cli_cmd_ping];
       w = nv_core_cli_init True (empty_world (sample_ctx ''/p'')) in
   fst (cli.run_ops ops w) = [True, True, False] \<and>
   map_option cmd_handler (nv_cli_find ''FOO'' (snd (cli.run_ops ops w))) = Some nv_cli_cmd_ping"
proof -
  let ?ops = "[Add_key ''foo'' nv_cli_cmd_ping, Remove_key ''QUIT'', Add_key ''Help'' nv_cli_cmd_ping]"
  have v: "\<forall>op \<in> set ?ops. cli_valid (op_key op)" by (simp add: cli_valid_def cli_max)
  have n: "cli_norm ''foo'' = ''foo''" "cli_norm ''QUIT'' = ''quit''" "cli_norm ''Help'' = ''help''" "map to_lower ''FOO'' = ''foo''"
    by code_simp+
  have b: "builtin_map ''foo'' = None" "builtin_map ''quit'' = Some nv_cli_cmd_exit" "builtin_map ''help'' = Some nv_cli_cmd_help"
    by (simp_all add: builtin_map_def builtins_def)
  have s: "spec_run cli_norm ?ops builtin_map =
      ([True, True, False], builtin_map(''foo'' \<mapsto> nv_cli_cmd_ping, ''quit'' := None))"
    by (simp add: n b)
  have e: "g_cli_cmds (empty_world c) = []" "\<not> g_cli_inited (empty_world c)" for c by (simp_all add: empty_world_def)
  note r = nv_core_cli_registry_refines_map[OF e v, unfolded s fst_conv snd_conv]
  show ?thesis
    unfolding Let_def conjunct1[OF r] spec[OF conjunct2[OF r], of "''FOO''"] n by simp
qed

theorem nv_core_cli_long_names_collide_witness:
  "let w = (empty_world (sample_ctx ''/p''))\<lparr>g_cli_inited := True\<rparr>; name = replicate 32 CHR ''a'';
       w1 = snd (nv_core_cli_register True name None nv_cli_cmd_ping 0 w) in
   fst (nv_core_cli_register True name None nv_cli_cmd_ping 0 w1) = NV_OK \<and> nv_cli_find name w1 = None"
  using nv_core_cli_long_names_collide[of "(empty_world (sample_ctx ''/p''))\<lparr>g_cli_inited := True\<rparr>" "replicate 32 CHR ''a''"
      None nv_cli_cmd_ping 0, OF _ _ _ prod.collapse[symmetric]]
  by (simp add: empty_world_def cli_inv_def cli_max Let_def)

section \<open>Completion\<close>

lemma common_prefix_len: "nv_cli_str_common_prefix a b = length (longest_common_prefix (cli_norm a) (cli_norm b))"
  by (induction a b rule: nv_cli_str_common_prefix.induct) (auto simp: cli_norm_def)

lemma common_prefix_le: "k \<le> nv_cli_str_common_prefix a b \<longleftrightarrow> k \<le> length a \<and> prefix (cli_norm (take k a)) (cli_norm b)"
proof
  let ?p = "longest_common_prefix (cli_norm a) (cli_norm b)"
  assume k: "k \<le> nv_cli_str_common_prefix a b"
  have p: "prefix ?p (cli_norm a)" "prefix ?p (cli_norm b)"
    by (rule longest_common_prefix_prefix1 longest_common_prefix_prefix2)+
  have "length ?p \<le> length a" using prefix_length_le[OF p(1)] by (simp add: cli_norm_def)
  moreover have "cli_norm (take k a) = take k ?p"
    using p(1) k by (auto simp: common_prefix_len cli_norm_def prefix_def take_map) (metis take_append take_map append_Nil2 diff_is_0_eq take_0)
  ultimately show "k \<le> length a \<and> prefix (cli_norm (take k a)) (cli_norm b)"
    using k p(2) by (metis common_prefix_len le_trans prefix_order.trans take_is_prefix)
next
  assume k: "k \<le> length a \<and> prefix (cli_norm (take k a)) (cli_norm b)"
  moreover have "prefix (cli_norm (take k a)) (cli_norm a)" by (simp add: cli_norm_def take_is_prefix flip: take_map)
  ultimately have "prefix (cli_norm (take k a)) (longest_common_prefix (cli_norm a) (cli_norm b))"
    using longest_common_prefix_max_prefix by blast
  then show "k \<le> nv_cli_str_common_prefix a b"
    using k prefix_length_le by (fastforce simp: common_prefix_len cli_norm_def)
qed

lemma prefix_take: "prefix xs ys \<longleftrightarrow> take (length xs) ys = xs"
  by (auto simp: prefix_def) (metis append_take_drop_id)

lemma matches_lcp_le: "k \<le> nv_cli_matches_lcp (m # ms) \<longleftrightarrow> k \<le> length m \<and> (\<forall>x \<in> set (m # ms). prefix (cli_norm (take k m)) (cli_norm x))"
proof -
  have "k \<le> fold (\<lambda>x len. let n = nv_cli_str_common_prefix m x in if n < len then n else len) ms l \<longleftrightarrow>
      k \<le> l \<and> (\<forall>x \<in> set ms. k \<le> nv_cli_str_common_prefix m x)" for l
    by (induction ms arbitrary: l) (auto simp: Let_def)
  moreover have "prefix (cli_norm (take k m)) (cli_norm m)" by (simp add: cli_norm_def take_is_prefix flip: take_map)
  ultimately show ?thesis by (auto simp: nv_cli_matches_lcp_def common_prefix_le)
qed

lemma lcp_longest:
  "nv_cli_matches_lcp (m # ms) \<le> length m"
  "\<forall>x \<in> set (m # ms). prefix (cli_norm (take (nv_cli_matches_lcp (m # ms)) m)) (cli_norm x)"
  "\<forall>x \<in> set (m # ms). prefix q (cli_norm x) \<Longrightarrow> length q \<le> nv_cli_matches_lcp (m # ms)"
proof -
  show "nv_cli_matches_lcp (m # ms) \<le> length m"
    "\<forall>x \<in> set (m # ms). prefix (cli_norm (take (nv_cli_matches_lcp (m # ms)) m)) (cli_norm x)"
    using matches_lcp_le[of "nv_cli_matches_lcp (m # ms)" m ms] by auto
  assume q: "\<forall>x \<in> set (m # ms). prefix q (cli_norm x)"
  then have "prefix q (cli_norm m)" by simp
  then have "length q \<le> length m" "q = cli_norm (take (length q) m)"
    using prefix_length_le[of q "cli_norm m"] by (auto simp: cli_norm_def prefix_take take_map)
  then show "length q \<le> nv_cli_matches_lcp (m # ms)" using q matches_lcp_le[of "length q" m ms] by metis
qed

text \<open>The names of the commands that start with the first word of a line.\<close>

definition first_word :: "cstring \<Rightarrow> cstring" where
  "first_word line = takeWhile (\<lambda>c. \<not> is_blank c) line"

definition candidates :: "cstring \<Rightarrow> cli_world \<Rightarrow> cstring list" where
  "candidates line w = filter (\<lambda>m. prefix (cli_norm (first_word line)) (cli_norm m)) (map cmd_name (g_cli_cmds w))"

lemma take_word: "take (nv_cli_first_word_len line) line = first_word line"
  by (simp add: nv_cli_first_word_len_def first_word_def takeWhile_eq_take[symmetric])

lemma word_match:
  "(nv_cli_first_word_len line = 0 \<or>
    strcaseeq (take (nv_cli_first_word_len line) m) (take (nv_cli_first_word_len line) line)) \<longleftrightarrow>
   prefix (cli_norm (first_word line)) (cli_norm m)"
proof -
  have l: "nv_cli_first_word_len line = length (first_word line)" by (simp add: nv_cli_first_word_len_def first_word_def)
  show ?thesis
    unfolding take_word unfolding l by (auto simp: strcaseeq_def cli_norm_def prefix_take take_map)
qed

lemma collect_candidates:
  assumes "length ms + length cmds \<le> 32" "distinct (map cli_norm (ms @ map cmd_name cmds))"
  shows "collect_matches (nv_cli_first_word_len line) line cmds ms =
     ms @ filter (\<lambda>m. prefix (cli_norm (first_word line)) (cli_norm m)) (map cmd_name cmds)"
  using assms
proof (induction cmds arbitrary: ms)
  case (Cons c cmds)
  have "nv_cli_match_exists ms (cmd_name c) \<longleftrightarrow> cli_norm (cmd_name c) \<in> cli_norm ` set ms"
    unfolding nv_cli_match_exists_def list_ex_iff strcaseeq_def cli_norm_def image_iff by (metis (lifting))
  moreover have "cli_norm (cmd_name c) \<notin> cli_norm ` set ms" using Cons.prems(2) by simp
  ultimately have "\<not> nv_cli_match_exists ms (cmd_name c)" by blast
  then have step: "collect_matches (nv_cli_first_word_len line) line (c # cmds) ms =
      collect_matches (nv_cli_first_word_len line) line cmds
        (if prefix (cli_norm (first_word line)) (cli_norm (cmd_name c)) then ms @ [cmd_name c] else ms)"
    using Cons.prems(1) by (simp add: word_match)
  show ?case
  proof (cases "prefix (cli_norm (first_word line)) (cli_norm (cmd_name c))")
    case True
    then show ?thesis using Cons.IH[of "ms @ [cmd_name c]"] Cons.prems unfolding step by simp
  next
    case False
    then show ?thesis using Cons.IH[of ms] Cons.prems unfolding step by simp
  qed
qed simp

lemma tab_complete_cases:
  assumes "cli_inv w" "length (g_cli_cmds w) \<le> 32" "0 \<le> fd"
  shows "fst (nv_core_cli_tab_complete env fd line NV_CORE_CLI_LINE_MAX w) =
    (let tail = ctrunc NV_CORE_CLI_LINE_MAX (drop (length (first_word line)) line) in
     case candidates line w of
       [] \<Rightarrow> (NV_OK, None)
     | [m] \<Rightarrow> (NV_OK, Some (ctrunc NV_CORE_CLI_LINE_MAX (nv_cli_build_completed_line NV_CORE_CLI_LINE_MAX m tail)))
     | m # _ \<Rightarrow>
         (let lcp_len = nv_cli_matches_lcp (candidates line w) in
          if lcp_len > length (first_word line)
          then (NV_OK, Some (ctrunc NV_CORE_CLI_LINE_MAX (ctrunc NV_CORE_CLI_LINE_MAX (take lcp_len m @ tail))))
          else (NV_OK, None)))"
proof -
  have i: "nv_core_cli_init a w = w" for a using assms(1) by (simp add: nv_core_cli_init_def cli_inv_def)
  have c: "collect_matches (nv_cli_first_word_len line) line (g_cli_cmds w) [] = candidates line w"
    using collect_candidates[of "[]" "g_cli_cmds w" line] assms(1,2) by (simp add: candidates_def cli_inv_def comp_def)
  have l: "nv_cli_first_word_len line = length (first_word line)" by (simp add: nv_cli_first_word_len_def first_word_def)
  show ?thesis
    using assms(3) unfolding nv_core_cli_tab_complete_def i Let_def c unfolding l by (auto simp: cli_max split: list.split)
qed

lemma rest_blank: "drop (length (first_word line)) line = [] \<or> is_blank (hd (drop (length (first_word line)) line))"
proof -
  have "drop (length (first_word line)) line = dropWhile (\<lambda>c. \<not> is_blank c) line"
    by (simp add: first_word_def dropWhile_eq_drop)
  then show ?thesis by (metis hd_dropWhile)
qed

text \<open>Completion replaces the first word of the line by the longest prefix, ignoring case, that the names of all
  commands starting with this word share, keeps the rest of the line, and adds a blank when the command is unique and nothing follows.\<close>
theorem nv_core_cli_tab_complete_longest:
  assumes "cli_inv w" "length (g_cli_cmds w) \<le> 32" "0 \<le> fd" "\<forall>n \<in> set (g_cli_cmds w). length (cmd_name n) < NV_CORE_CLI_NAME_MAX"
    and "length line + NV_CORE_CLI_NAME_MAX < NV_CORE_CLI_LINE_MAX"
    and "fst (nv_core_cli_tab_complete env fd line NV_CORE_CLI_LINE_MAX w) = (rc, Some line')"
  shows "candidates line w \<noteq> [] \<and>
    (\<exists>p. line' = p @ (if drop (length (first_word line)) line = [] \<and> length (candidates line w) = 1 then '' ''
                      else drop (length (first_word line)) line) \<and>
       prefix (cli_norm (first_word line)) (cli_norm p) \<and> (\<forall>m \<in> set (candidates line w). prefix (cli_norm p) (cli_norm m)) \<and>
       (\<forall>q. (\<forall>m \<in> set (candidates line w). prefix q (cli_norm m)) \<longrightarrow> length q \<le> length p))"
proof -
  let ?rest = "drop (length (first_word line)) line"
  note c = tab_complete_cases[OF assms(1-3), of env line, unfolded assms(6) Let_def]
  have len: "length m < 32" if "m \<in> set (candidates line w)" for m
    using that assms(4) by (auto simp: candidates_def cli_max)
  have word: "prefix (cli_norm (first_word line)) (cli_norm m)" if "m \<in> set (candidates line w)" for m
    using that by (simp add: candidates_def)
  have t: "ctrunc NV_CORE_CLI_LINE_MAX (p @ ?rest) = p @ ?rest" "ctrunc NV_CORE_CLI_LINE_MAX ?rest = ?rest" if "length p \<le> 32" for p
    using that assms(5) by (simp_all add: ctrunc_def cli_max)
  show ?thesis
  proof (cases "candidates line w")
    case Nil
    then show ?thesis using c by simp
  next
    case (Cons m ms)
    show ?thesis
    proof (cases ms)
      case Nil
      have "line' = m @ (if ?rest = [] then '' '' else ?rest)"
        using c t[of m] t[of "m @ '' ''"] len[of m] rest_blank[of line]
        by (auto simp: Cons Nil nv_cli_build_completed_line_def ctrunc_id cli_max split: if_splits)
      then show ?thesis using word[of m] Cons Nil by (auto simp: cli_norm_def dest: prefix_length_le intro!: exI[of _ m])
    next
      case (Cons m2 ms2)
      let ?k = "nv_cli_matches_lcp (candidates line w)"
      have cs: "candidates line w = m # m2 # ms2" using Cons \<open>candidates line w = m # ms\<close> by simp
      note k = lcp_longest[of m "m2 # ms2", folded cs]
      have gt: "?k > length (first_word line)" and l: "line' = take ?k m @ ?rest"
        using c t[of "take ?k m"] t[of "[]"] len[of m] by (auto simp: cs split: if_splits)
      have "prefix (cli_norm (first_word line)) (cli_norm (take ?k m))"
        using word[of m] gt k(1) by (simp add: cs cli_norm_def prefix_take take_map min_def)
      then show ?thesis using l k cs by (auto intro!: exI[of _ "take ?k m"])
    qed
  qed
qed

theorem nv_core_cli_tab_complete_longest_witness:
  "let w = (empty_world (sample_ctx ''/p''))\<lparr>g_cli_inited := True, g_cli_cmds :=
       [\<lparr>cmd_name = ''stat'', cmd_help = '''', cmd_handler = nv_cli_cmd_status, cmd_userdata = 0\<rparr>,
        \<lparr>cmd_name = ''status'', cmd_help = '''', cmd_handler = nv_cli_cmd_status, cmd_userdata = 0\<rparr>]\<rparr> in
   candidates ''S now'' w \<noteq> []"
proof -
  let ?n = "\<lambda>s. \<lparr>cmd_name = s, cmd_help = '''', cmd_handler = nv_cli_cmd_status, cmd_userdata = 0\<rparr>"
  let ?w = "(empty_world (sample_ctx ''/p''))\<lparr>g_cli_inited := True, g_cli_cmds := [?n ''stat'', ?n ''status'']\<rparr>"
  have n: "cli_norm ''stat'' = ''stat''" "cli_norm ''status'' = ''status''" "cli_norm ''S'' = ''s''" by code_simp+
  have i: "cli_inv ?w" by (simp add: cli_inv_def n)
  have f: "first_word ''S now'' = ''S''" by code_simp
  have c: "candidates ''S now'' ?w = [''stat'', ''status'']"
    by (simp add: candidates_def f n)
  have l: "nv_cli_matches_lcp [''stat'', ''status''] = 4" by code_simp
  have r: "fst (nv_core_cli_tab_complete env 3 ''S now'' NV_CORE_CLI_LINE_MAX ?w) = (NV_OK, Some ''stat now'')" for env
    unfolding tab_complete_cases[OF i, of 3, simplified] c f l by (simp add: ctrunc_def cli_max)
  show ?thesis
    using nv_core_cli_tab_complete_longest[OF i _ _ _ _ r] by (simp add: cli_max)
qed

end
