(* ===== verification/Nv_Telnet.thy ===== *)
theory Nv_Telnet
  imports Nv_Cli Nv_Secure
begin

text \<open>
  Telnet sessions (\<open>core/cli/nv_core_telnet.c\<close>): login, line editing with history and completion, and the execution of lines.
  The line buffer is the array of the code, so that bytes left over from earlier lines are there; \<open>cstr_of\<close> is the C string an array
  holds.  A session that has been removed is freed memory: continuing with it is \<open>None\<close>.  What is echoed to the client is not
  modelled.  The field \<open>s_trace\<close> records the attempts to log in and the lines executed; the code has no such field.
\<close>

section \<open>Types\<close>

definition NV_TELNET_USER_MAX :: nat where "NV_TELNET_USER_MAX = 64"
definition NV_TELNET_LINE_MAX :: nat where "NV_TELNET_LINE_MAX = NV_CORE_CLI_LINE_MAX"
definition NV_TELNET_HISTORY_MAX :: nat where "NV_TELNET_HISTORY_MAX = 32"
definition NV_TELNET_ESC_BUF_MAX :: nat where "NV_TELNET_ESC_BUF_MAX = 8"

lemmas telnet_max = NV_TELNET_USER_MAX_def NV_TELNET_LINE_MAX_def NV_TELNET_HISTORY_MAX_def NV_TELNET_ESC_BUF_MAX_def cli_max

datatype nv_telnet_state_t = NV_TELNET_ST_USER | NV_TELNET_ST_PASS | NV_TELNET_ST_SHELL

datatype telnet_event = Attempt cstring cstring | Exec cstring

record nv_telnet_sess_t =
  s_fd :: int
  s_state :: nv_telnet_state_t
  s_user :: cstring
  s_line :: "char list"
  s_line_len :: nat
  s_history :: "cstring list"
  s_history_count :: nat
  s_history_pos :: int
  s_history_draft :: cstring
  s_esc_buf :: "char list"
  s_esc_len :: nat
  s_trace :: "telnet_event list"

text \<open>A buffer of \<open>n\<close> bytes after a bounded copy of a string into it: the bytes behind the terminating NUL stay.\<close>

definition copy_into :: "nat \<Rightarrow> cstring \<Rightarrow> char list \<Rightarrow> char list" where
  "copy_into n src buf = (let s = ctrunc n src in s @ CHR 0x00 # drop (length s + 1) buf)"

definition terminate :: "nv_telnet_sess_t \<Rightarrow> nv_telnet_sess_t" where
  "terminate sess = sess\<lparr>s_line := (s_line sess)[s_line_len sess := CHR 0x00]\<rparr>"

section \<open>Login\<close>

definition nv_telnet_auth :: "nv_core_ctx_t \<Rightarrow> cstring \<Rightarrow> cstring \<Rightarrow> bool" where
  "nv_telnet_auth ctx user pass =
     (let eu = (case cli_username (opts ctx) of Some u \<Rightarrow> u | None \<Rightarrow> ''admin'');
          ep = (case cli_password (opts ctx) of Some p \<Rightarrow> p | None \<Rightarrow> ''nvadmin'') in
      nv_secure_str_equal (Some user) (Some eu) \<and> nv_secure_str_equal (Some pass) (Some ep))"

definition nv_telnet_send_login_user :: "nv_telnet_sess_t \<Rightarrow> nv_telnet_sess_t" where
  "nv_telnet_send_login_user sess = sess\<lparr>s_state := NV_TELNET_ST_USER\<rparr>"

definition nv_telnet_send_login_pass :: "nv_telnet_sess_t \<Rightarrow> nv_telnet_sess_t" where
  "nv_telnet_send_login_pass sess = sess\<lparr>s_state := NV_TELNET_ST_PASS\<rparr>"

definition nv_telnet_send_shell :: "nv_telnet_sess_t \<Rightarrow> nv_telnet_sess_t" where
  "nv_telnet_send_shell sess =
     sess\<lparr>s_state := NV_TELNET_ST_SHELL, s_history_pos := -1, s_history_count := 0, s_esc_len := 0\<rparr>"

section \<open>History\<close>

definition nv_telnet_redraw_line :: "nv_telnet_sess_t \<Rightarrow> nv_telnet_sess_t" where
  "nv_telnet_redraw_line sess = terminate sess"

definition nv_telnet_history_add :: "cstring \<Rightarrow> nv_telnet_sess_t \<Rightarrow> nv_telnet_sess_t" where
  "nv_telnet_history_add line sess =
     (if line = [] \<or> s_state sess \<noteq> NV_TELNET_ST_SHELL then sess
      else if s_history_count sess > 0 \<and> s_history sess ! (s_history_count sess - 1) = line then sess
      else
        (let (n, sess) =
           (if s_history_count sess < NV_TELNET_HISTORY_MAX
            then (s_history_count sess, sess\<lparr>s_history_count := s_history_count sess + 1\<rparr>)
            else (NV_TELNET_HISTORY_MAX - 1,
                  sess\<lparr>s_history := tl (s_history sess) @ [s_history sess ! (NV_TELNET_HISTORY_MAX - 1)]\<rparr>)) in
         sess\<lparr>s_history := (s_history sess)[n := ctrunc NV_TELNET_LINE_MAX line], s_history_pos := -1\<rparr>))"

text \<open>Copies a string over the line and redraws it.\<close>

definition set_line :: "cstring \<Rightarrow> nv_telnet_sess_t \<Rightarrow> nv_telnet_sess_t" where
  "set_line str sess =
     (let buf = copy_into NV_TELNET_LINE_MAX str (s_line sess) in
      nv_telnet_redraw_line (sess\<lparr>s_line := buf, s_line_len := length (cstr_of buf)\<rparr>))"

definition nv_telnet_history_up :: "nv_telnet_sess_t \<Rightarrow> nv_telnet_sess_t" where
  "nv_telnet_history_up sess =
     (if s_state sess \<noteq> NV_TELNET_ST_SHELL \<or> s_history_count sess = 0 then sess
      else if s_history_pos sess < 0
      then (let sess = sess\<lparr>s_history_draft := ctrunc NV_TELNET_LINE_MAX (cstr_of (s_line sess)),
                            s_history_pos := int (s_history_count sess) - 1\<rparr> in
            set_line (s_history sess ! nat (s_history_pos sess)) sess)
      else if s_history_pos sess > 0
      then (let sess = sess\<lparr>s_history_pos := s_history_pos sess - 1\<rparr> in
            set_line (s_history sess ! nat (s_history_pos sess)) sess)
      else sess)"

definition nv_telnet_history_down :: "nv_telnet_sess_t \<Rightarrow> nv_telnet_sess_t" where
  "nv_telnet_history_down sess =
     (if s_state sess \<noteq> NV_TELNET_ST_SHELL \<or> s_history_pos sess < 0 then sess
      else if s_history_pos sess \<ge> int (s_history_count sess) - 1
      then set_line (s_history_draft sess) (sess\<lparr>s_history_pos := -1\<rparr>)
      else (let sess = sess\<lparr>s_history_pos := s_history_pos sess + 1\<rparr> in
            set_line (s_history sess ! nat (s_history_pos sess)) sess))"

section \<open>Input\<close>

definition has_sub :: "cstring \<Rightarrow> cstring \<Rightarrow> bool" where
  "has_sub s sub = list_ex (\<lambda>i. take (length sub) (drop i s) = sub) [0..<Suc (length s)]"

definition nv_telnet_escape_feed :: "char \<Rightarrow> nv_telnet_sess_t \<Rightarrow> bool \<times> nv_telnet_sess_t" where
  "nv_telnet_escape_feed c sess =
     (if s_esc_len sess = 0 \<and> c \<noteq> CHR 0x1B then (False, sess)
      else
        (let sess = (if s_esc_len sess < NV_TELNET_ESC_BUF_MAX - 1
                     then sess\<lparr>s_esc_buf := (s_esc_buf sess)[s_esc_len sess := c, s_esc_len sess + 1 := CHR 0x00],
                               s_esc_len := s_esc_len sess + 1\<rparr>
                     else sess);
             seq = cstr_of (s_esc_buf sess) in
         if has_sub seq ''[A'' \<or> has_sub seq ''OA'' then (True, (nv_telnet_history_up sess)\<lparr>s_esc_len := 0\<rparr>)
         else if has_sub seq ''[B'' \<or> has_sub seq ''OB'' then (True, (nv_telnet_history_down sess)\<lparr>s_esc_len := 0\<rparr>)
         else if s_esc_len sess \<ge> 3 \<or>
                 s_esc_len sess \<ge> 2 \<and> s_esc_buf sess ! 1 \<noteq> CHR ''['' \<and> s_esc_buf sess ! 1 \<noteq> CHR ''O''
         then (True, sess\<lparr>s_esc_len := 0\<rparr>)
         else (True, sess)))"

text \<open>The first component is \<open>None\<close> when the session has been removed.\<close>

definition nv_telnet_process_line ::
    "cli_env \<Rightarrow> nv_telnet_sess_t \<Rightarrow> cli_world \<Rightarrow> nv_telnet_sess_t option \<times> cli_world" where
  "nv_telnet_process_line env sess w =
     (let sess = terminate sess; line = cstr_of (s_line sess) in
      case s_state sess of
        NV_TELNET_ST_USER \<Rightarrow>
          (Some (nv_telnet_send_login_pass (sess\<lparr>s_user := ctrunc NV_TELNET_USER_MAX line, s_line_len := 0\<rparr>)), w)
      | NV_TELNET_ST_PASS \<Rightarrow>
          (let sess = sess\<lparr>s_trace := s_trace sess @ [Attempt (s_user sess) line], s_line_len := 0\<rparr> in
           if nv_telnet_auth (w_ctx w) (s_user sess) line then (Some (nv_telnet_send_shell sess), w)
           else (Some (nv_telnet_send_login_user sess), w))
      | NV_TELNET_ST_SHELL \<Rightarrow>
          (let sess = nv_telnet_history_add line sess in
           case nv_core_cli_execute_line env (s_fd sess) line True w of (rc, w) \<Rightarrow>
             (if rc = NV_CLI_CLOSE_SESSION then (None, w)
              else (Some (sess\<lparr>s_trace := s_trace sess @ [Exec line], s_line_len := 0, s_history_pos := -1, s_esc_len := 0\<rparr>), w))))"

definition nv_telnet_tab_complete :: "cli_env \<Rightarrow> nv_telnet_sess_t \<Rightarrow> cli_world \<Rightarrow> nv_telnet_sess_t \<times> cli_world" where
  "nv_telnet_tab_complete env sess w =
     (if s_state sess \<noteq> NV_TELNET_ST_SHELL then (sess, w)
      else
        (let sess = terminate (if s_history_pos sess \<ge> 0 then sess\<lparr>s_history_pos := -1\<rparr> else sess) in
         case nv_core_cli_tab_complete env (s_fd sess) (take (s_line_len sess) (s_line sess)) NV_TELNET_LINE_MAX w of
           ((rc, None), w) \<Rightarrow> (nv_telnet_redraw_line sess, w)
         | ((rc, Some line), w) \<Rightarrow>
             (nv_telnet_redraw_line
                (sess\<lparr>s_line := line @ replicate (NV_TELNET_LINE_MAX - length line) CHR 0x00, s_line_len := length line\<rparr>), w)))"

definition iac_skip :: "char list \<Rightarrow> nat" where
  "iac_skip cs =
     (case cs of [] \<Rightarrow> 0
      | cmd # rest \<Rightarrow> if 251 \<le> (of_char cmd :: nat) \<and> (of_char cmd :: nat) \<le> 254 \<and> rest \<noteq> [] then 2 else 1)"

definition put_char :: "char \<Rightarrow> nv_telnet_sess_t \<Rightarrow> nv_telnet_sess_t" where
  "put_char c sess =
     (if s_line_len sess < NV_TELNET_LINE_MAX - 1
      then (let sess = (if s_state sess = NV_TELNET_ST_SHELL \<and> s_history_pos sess \<ge> 0
                        then sess\<lparr>s_history_pos := -1, s_line_len := 0, s_line := (s_line sess)[0 := CHR 0x00]\<rparr> else sess) in
            sess\<lparr>s_line := (s_line sess)[s_line_len sess := c], s_line_len := s_line_len sess + 1\<rparr>)
      else sess)"

function nv_telnet_feed ::
    "cli_env \<Rightarrow> char list \<Rightarrow> nv_telnet_sess_t \<Rightarrow> cli_world \<Rightarrow> (nv_telnet_sess_t option \<times> cli_world) option" where
  "nv_telnet_feed env [] sess w = Some (Some sess, w)"
| "nv_telnet_feed env (c # cs) sess w =
     (let (eaten, sess) = (if s_esc_len sess > 0 \<or> c = CHR 0x1B then nv_telnet_escape_feed c sess else (False, sess)) in
      if eaten then nv_telnet_feed env cs sess w
      else if c = CHR 0xFF then nv_telnet_feed env (drop (iac_skip cs) cs) sess w
      else if c = CHR 0x0D \<or> c = CHR 0x0A \<and> s_line_len sess > 0
      then (case nv_telnet_process_line env sess w of
              (Some sess, w) \<Rightarrow> nv_telnet_feed env cs sess w
            | (None, w) \<Rightarrow> if cs = [] then Some (None, w) else None)
      else if c = CHR 0x0A then nv_telnet_feed env cs sess w
      else if c = CHR 0x7F \<or> c = CHR 0x08
      then nv_telnet_feed env cs (if s_line_len sess > 0 then sess\<lparr>s_line_len := s_line_len sess - 1\<rparr> else sess) w
      else if c = CHR 0x09
      then (case nv_telnet_tab_complete env sess w of (sess, w) \<Rightarrow> nv_telnet_feed env cs sess w)
      else if (of_char c :: nat) < 32 then nv_telnet_feed env cs sess w
      else nv_telnet_feed env cs (put_char c sess) w)"
  by pat_completeness auto
termination
  by (relation "measure (\<lambda>(env, cs, sess, w). length cs)") auto

section \<open>Sessions\<close>

text \<open>The listening socket, the list of sessions and the descriptors that have been closed.  Sessions are identified by a number, which
  stands for their address.\<close>

record telnet_server =
  telnet_inited :: bool
  telnet_listen_fd :: int
  g_telnet_sessions :: "(nat \<times> nv_telnet_sess_t) list"
  closed_fds :: "int list"

definition nv_telnet_sess_remove :: "nat \<Rightarrow> telnet_server \<Rightarrow> telnet_server" where
  "nv_telnet_sess_remove i t =
     (case map_of (g_telnet_sessions t) i of None \<Rightarrow> t
      | Some sess \<Rightarrow>
          t\<lparr>g_telnet_sessions := filter (\<lambda>(j, _). j \<noteq> i) (g_telnet_sessions t),
            closed_fds := (if s_fd sess \<ge> 0 then s_fd sess # closed_fds t else closed_fds t)\<rparr>)"

definition put_sess :: "nat \<Rightarrow> nv_telnet_sess_t \<Rightarrow> telnet_server \<Rightarrow> telnet_server" where
  "put_sess i sess t = t\<lparr>g_telnet_sessions := map (\<lambda>(j, s). (j, if j = i then sess else s)) (g_telnet_sessions t)\<rparr>"

text \<open>\<open>data\<close> is what has been read, empty at the end of the connection.  After the input has been consumed the code looks at
  the session again; \<open>None\<close> is the case that it has been freed by then.\<close>

definition nv_telnet_client_handler ::
    "cli_env \<Rightarrow> nat \<Rightarrow> char list \<Rightarrow> telnet_server \<times> cli_world \<Rightarrow> (telnet_server \<times> cli_world) option" where
  "nv_telnet_client_handler env i data tw =
     (case tw of (t, w) \<Rightarrow>
       case map_of (g_telnet_sessions t) i of None \<Rightarrow> None
       | Some sess \<Rightarrow>
           if s_fd sess < 0 then Some (t, w)
           else if data = [] then Some (nv_telnet_sess_remove i t, w)
           else (case nv_telnet_feed env data sess w of
                   Some (Some sess, w) \<Rightarrow>
                     (let t = put_sess i sess t in if quit (w_ctx w) then Some (nv_telnet_sess_remove i t, w) else Some (t, w))
                 | _ \<Rightarrow> None))"

definition new_session :: "int \<Rightarrow> nv_telnet_sess_t" where
  "new_session cfd =
     \<lparr>s_fd = cfd, s_state = NV_TELNET_ST_USER, s_user = '''', s_line = replicate NV_TELNET_LINE_MAX CHR 0x00, s_line_len = 0,
      s_history = replicate NV_TELNET_HISTORY_MAX '''', s_history_count = 0, s_history_pos = -1, s_history_draft = '''',
      s_esc_buf = replicate NV_TELNET_ESC_BUF_MAX CHR 0x00, s_esc_len = 0, s_trace = []\<rparr>"

definition nv_telnet_sess_start :: "bool \<Rightarrow> bool \<Rightarrow> nat \<Rightarrow> int \<Rightarrow> telnet_server \<Rightarrow> int \<times> telnet_server" where
  "nv_telnet_sess_start alloc_ok add_ok i cfd t =
     (if \<not> alloc_ok then (NV_ERROR, t)
      else if \<not> add_ok then (NV_ERROR, t\<lparr>closed_fds := (if cfd \<ge> 0 then cfd # closed_fds t else closed_fds t)\<rparr>)
      else (NV_OK, t\<lparr>g_telnet_sessions := (i, nv_telnet_send_login_user (new_session cfd)) # g_telnet_sessions t\<rparr>))"

text \<open>The connections that \<open>accept\<close> returns, each with the results of the allocation and of the registration.\<close>

record telnet_conn =
  conn_fd :: int
  conn_alloc :: bool
  conn_add :: bool
  conn_id :: nat

definition accept_one :: "telnet_conn \<Rightarrow> telnet_server \<Rightarrow> telnet_server" where
  "accept_one c t =
     (case nv_telnet_sess_start (conn_alloc c) (conn_add c) (conn_id c) (conn_fd c) t of (rc, t) \<Rightarrow>
        if rc \<noteq> NV_OK then t\<lparr>closed_fds := conn_fd c # closed_fds t\<rparr> else t)"

definition nv_telnet_accept_handler :: "telnet_conn list \<Rightarrow> telnet_server \<Rightarrow> telnet_server" where
  "nv_telnet_accept_handler conns t = fold accept_one conns t"

record telnet_os =
  os_socket :: int
  os_pton :: bool
  os_bind :: bool
  os_listen :: bool
  os_add :: bool

definition nv_core_telnet_init :: "telnet_os \<Rightarrow> nv_core_ctx_t \<Rightarrow> telnet_server \<Rightarrow> int \<times> telnet_server" where
  "nv_core_telnet_init os ctx t =
     (if telnet_enable (opts ctx) = 0 then (NV_OK, t)
      else if telnet_inited t then (NV_OK, t)
      else if os_socket os < 0 then (NV_ERROR, t)
      else if telnet_bind (opts ctx) \<notin> {None, Some '''', Some ''0.0.0.0''} \<and> \<not> os_pton os
      then (NV_ERROR, t\<lparr>closed_fds := os_socket os # closed_fds t\<rparr>)
      else if \<not> os_bind os \<or> \<not> os_listen os then (NV_ERROR, t\<lparr>closed_fds := os_socket os # closed_fds t\<rparr>)
      else if \<not> os_add os
      then (NV_ERROR, t\<lparr>telnet_listen_fd := -1, closed_fds := os_socket os # closed_fds t\<rparr>)
      else (NV_OK, t\<lparr>telnet_listen_fd := os_socket os, telnet_inited := True\<rparr>))"

definition nv_core_telnet_cleanup :: "telnet_server \<Rightarrow> telnet_server" where
  "nv_core_telnet_cleanup t =
     (let t = fold nv_telnet_sess_remove (map fst (g_telnet_sessions t)) t;
          t = (if telnet_inited t \<and> telnet_listen_fd t \<ge> 0
               then t\<lparr>closed_fds := telnet_listen_fd t # closed_fds t, telnet_listen_fd := -1\<rparr> else t) in
      t\<lparr>telnet_inited := False\<rparr>)"

section \<open>Invariants of a session\<close>

text \<open>What every elementary action of a session keeps, all input keeps.\<close>

locale session_invariant =
  fixes P :: "nv_telnet_sess_t \<Rightarrow> cli_world \<Rightarrow> bool"
  assumes escape: "P sess w \<Longrightarrow> P (snd (nv_telnet_escape_feed c sess)) w"
    and process: "P sess w \<Longrightarrow> nv_telnet_process_line env sess w = (Some sess', w') \<Longrightarrow> P sess' w'"
    and complete: "P sess w \<Longrightarrow> nv_telnet_tab_complete env sess w = (sess', w') \<Longrightarrow> P sess' w'"
    and backspace: "P sess w \<Longrightarrow> P (sess\<lparr>s_line_len := s_line_len sess - 1\<rparr>) w"
    and put: "P sess w \<Longrightarrow> 32 \<le> (of_char c :: nat) \<Longrightarrow> P (put_char c sess) w"
begin

lemma feed: "nv_telnet_feed env cs sess w = Some (Some sess', w') \<Longrightarrow> P sess w \<Longrightarrow> P sess' w'"
proof (induction env cs sess w rule: nv_telnet_feed.induct)
  case (2 env c cs sess w)
  obtain eaten s1 where s1: "(if s_esc_len sess > 0 \<or> c = CHR 0x1B then nv_telnet_escape_feed c sess else (False, sess)) = (eaten, s1)"
    by fastforce
  note IH = 2(1-8)[OF s1[symmetric] refl] and r = 2(9)[unfolded nv_telnet_feed.simps s1 Let_def prod.case]
  have P1: "P s1 w" using escape[OF 2(10), of c] s1 2(10) by (auto split: if_splits)
  have bs: "P (if 0 < s_line_len s1 then s1\<lparr>s_line_len := s_line_len s1 - 1\<rparr> else s1) w" using P1 backspace by simp
  show ?case
  proof (cases "\<not> eaten \<and> c \<noteq> CHR 0xFF \<and> (c = CHR 0x0D \<or> c = CHR 0x0A \<and> s_line_len s1 > 0)")
    case True
    then obtain s2 w2 where pl: "nv_telnet_process_line env s1 w = (Some s2, w2)"
      using r by (auto split: prod.splits option.splits if_splits)
    then show ?thesis using r IH(3) True process[OF P1 pl] by auto
  next
    case False
    show ?thesis
    proof (cases "\<not> eaten \<and> c = CHR 0x09")
      case True
      obtain s2 w2 where tc: "nv_telnet_tab_complete env s1 w = (s2, w2)" by fastforce
      then show ?thesis using r IH(6) True complete[OF P1 tc] by auto
    next
      case False
      then show ?thesis
        using r IH(1,2,4,5,7,8) \<open>\<not> (\<not> eaten \<and> c \<noteq> CHR 0xFF \<and> _)\<close> P1 bs put[OF P1, of c]
        by (auto split: if_splits)
    qed
  qed
qed simp

end

lemma copy_into_cstr: "cstr str \<Longrightarrow> cstr_of (copy_into n str buf) = ctrunc n str"
  unfolding cstr_of_def copy_into_def Let_def
  by (rule takeWhile_stop) (auto simp: cstr_def ctrunc_def dest: in_set_takeD)

lemma length_copy_into: "0 < n \<Longrightarrow> length buf = n \<Longrightarrow> length (copy_into n str buf) = n"
  by (auto simp: copy_into_def ctrunc_def Let_def)

definition sess_wf :: "nv_telnet_sess_t \<Rightarrow> bool" where
  "sess_wf sess \<longleftrightarrow>
     length (s_line sess) = NV_TELNET_LINE_MAX \<and> s_line_len sess < NV_TELNET_LINE_MAX \<and>
     length (s_history sess) = NV_TELNET_HISTORY_MAX \<and> s_history_count sess \<le> NV_TELNET_HISTORY_MAX \<and>
     -1 \<le> s_history_pos sess \<and> s_history_pos sess < int (s_history_count sess) \<and>
     length (s_esc_buf sess) = NV_TELNET_ESC_BUF_MAX \<and> s_esc_len sess < NV_TELNET_ESC_BUF_MAX \<and>
     length (s_user sess) < NV_TELNET_USER_MAX \<and> cstr (s_user sess) \<and>
     (\<forall>h \<in> set (s_history sess). cstr h \<and> length h < NV_TELNET_LINE_MAX) \<and>
     cstr (s_history_draft sess) \<and> length (s_history_draft sess) < NV_TELNET_LINE_MAX"

lemma wf_terminate: "sess_wf sess \<Longrightarrow> sess_wf (terminate sess)"
  by (simp add: sess_wf_def terminate_def)

lemma wf_set_line: "sess_wf sess \<Longrightarrow> cstr str \<Longrightarrow> sess_wf (set_line str sess)"
  unfolding set_line_def nv_telnet_redraw_line_def Let_def
  by (rule wf_terminate) (auto simp: sess_wf_def copy_into_cstr length_copy_into length_ctrunc telnet_max)

lemma wf_history_add:
  assumes "sess_wf sess" "cstr line"
  shows "sess_wf (nv_telnet_history_add line sess)"
proof (cases "s_history_count sess < NV_TELNET_HISTORY_MAX")
  case True
  then show ?thesis
    using assms by (auto simp: nv_telnet_history_add_def sess_wf_def cstr_ctrunc length_ctrunc telnet_max Let_def dest!: set_updateD)
next
  case False
  have "\<forall>h \<in> set (tl (s_history sess)). cstr h \<and> length h < NV_TELNET_LINE_MAX"
    using assms(1) by (cases "s_history sess") (auto simp: sess_wf_def telnet_max)
  then show ?thesis
    using assms False
    by (auto simp: nv_telnet_history_add_def sess_wf_def cstr_ctrunc length_ctrunc telnet_max Let_def dest!: set_updateD)
qed

lemma history_nth: "sess_wf sess \<Longrightarrow> n < NV_TELNET_HISTORY_MAX \<Longrightarrow> cstr (s_history sess ! n)"
  by (simp add: sess_wf_def)

lemma wf_history_up: "sess_wf sess \<Longrightarrow> sess_wf (nv_telnet_history_up sess)"
proof -
  assume wf: "sess_wf sess"
  let ?s1 = "sess\<lparr>s_history_draft := ctrunc NV_TELNET_LINE_MAX (cstr_of (s_line sess)), s_history_pos := int (s_history_count sess) - 1\<rparr>"
  let ?s2 = "sess\<lparr>s_history_pos := s_history_pos sess - 1\<rparr>"
  have "sess_wf ?s1" using wf by (auto simp: sess_wf_def cstr_ctrunc length_ctrunc telnet_max)
  moreover have "sess_wf ?s2" if "s_history_pos sess > 0" using that wf by (auto simp: sess_wf_def)
  moreover have "nat (int (s_history_count sess) - 1) < NV_TELNET_HISTORY_MAX"
    "s_history_pos sess > 0 \<Longrightarrow> nat (s_history_pos sess - 1) < NV_TELNET_HISTORY_MAX"
    using wf by (auto simp: sess_wf_def telnet_max)
  ultimately show ?thesis
    using wf history_nth[OF wf] by (auto simp: nv_telnet_history_up_def Let_def intro!: wf_set_line)
qed

lemma wf_history_down: "sess_wf sess \<Longrightarrow> sess_wf (nv_telnet_history_down sess)"
proof -
  assume wf: "sess_wf sess"
  have "sess_wf (sess\<lparr>s_history_pos := -1\<rparr>)" "cstr (s_history_draft sess)" using wf by (auto simp: sess_wf_def)
  moreover have "sess_wf (sess\<lparr>s_history_pos := s_history_pos sess + 1\<rparr>) \<and> nat (s_history_pos sess + 1) < NV_TELNET_HISTORY_MAX"
    if "s_history_pos sess < int (s_history_count sess) - 1"
    using that wf by (auto simp: sess_wf_def telnet_max)
  ultimately show ?thesis
    using wf history_nth[OF wf] by (auto simp: nv_telnet_history_down_def Let_def not_le intro!: wf_set_line)
qed

lemma wf_escape: "sess_wf sess \<Longrightarrow> sess_wf (snd (nv_telnet_escape_feed c sess))"
proof -
  assume wf: "sess_wf sess"
  define s1 where "s1 = (if s_esc_len sess < NV_TELNET_ESC_BUF_MAX - 1
      then sess\<lparr>s_esc_buf := (s_esc_buf sess)[s_esc_len sess := c, s_esc_len sess + 1 := CHR 0x00], s_esc_len := s_esc_len sess + 1\<rparr>
      else sess)"
  have "sess_wf s1" using wf by (auto simp: sess_wf_def s1_def)
  moreover have "sess_wf (s\<lparr>s_esc_len := 0\<rparr>)" if "sess_wf s" for s using that by (auto simp: sess_wf_def telnet_max)
  ultimately show ?thesis
    using wf wf_history_up[of s1] wf_history_down[of s1]
    unfolding nv_telnet_escape_feed_def Let_def s1_def[symmetric] by (auto split: if_splits)
qed

lemma tab_complete_len: "nv_core_cli_tab_complete env fd line NV_TELNET_LINE_MAX w = ((rc, Some line'), w') \<Longrightarrow>
    length line' < NV_TELNET_LINE_MAX"
  by (auto simp: nv_core_cli_tab_complete_def Let_def length_ctrunc telnet_max split: if_splits list.splits)

interpretation wf: session_invariant "\<lambda>sess w. sess_wf sess"
proof unfold_locales
  fix sess sess' :: nv_telnet_sess_t and w w' :: cli_world and env c
  assume wf: "sess_wf sess"
  show "sess_wf (snd (nv_telnet_escape_feed c sess))" using wf by (rule wf_escape)
  show "sess_wf (sess\<lparr>s_line_len := s_line_len sess - 1\<rparr>)" using wf by (auto simp: sess_wf_def)
  show "sess_wf (put_char c sess)" using wf by (auto simp: sess_wf_def put_char_def Let_def telnet_max)
  have t: "sess_wf (terminate sess)" using wf by (rule wf_terminate)
  {
    assume "nv_telnet_process_line env sess w = (Some sess', w')"
    then show "sess_wf sess'"
      using t wf_history_add[OF t, of "cstr_of (s_line (terminate sess))"]
      by (auto simp: nv_telnet_process_line_def Let_def sess_wf_def nv_telnet_send_login_pass_def nv_telnet_send_shell_def
          nv_telnet_send_login_user_def cstr_ctrunc length_ctrunc telnet_max split: nv_telnet_state_t.splits prod.splits if_splits)
  }
  assume "nv_telnet_tab_complete env sess w = (sess', w')"
  then show "sess_wf sess'"
    using wf by (auto simp: nv_telnet_tab_complete_def nv_telnet_redraw_line_def Let_def terminate_def sess_wf_def
        dest!: tab_complete_len split: prod.splits option.splits if_splits)
qed

section \<open>No command without a login\<close>

definition credentials :: "nv_core_ctx_t \<Rightarrow> cstring \<times> cstring" where
  "credentials ctx =
     (case cli_username (opts ctx) of Some u \<Rightarrow> u | None \<Rightarrow> ''admin'', case cli_password (opts ctx) of Some p \<Rightarrow> p | None \<Rightarrow> ''nvadmin'')"

definition authorised :: "cstring \<Rightarrow> cstring \<Rightarrow> telnet_event list \<Rightarrow> bool" where
  "authorised u p tr \<longleftrightarrow> (\<forall>before l after. tr = before @ Exec l # after \<longrightarrow> Attempt u p \<in> set before)"

lemma authorised_snoc_attempt: "authorised u p (tr @ [Attempt a b]) \<longleftrightarrow> authorised u p tr"
proof
  assume a: "authorised u p (tr @ [Attempt a b])"
  show "authorised u p tr" unfolding authorised_def
  proof (intro allI impI)
    fix before l after assume "tr = before @ Exec l # after"
    then have "tr @ [Attempt a b] = before @ Exec l # (after @ [Attempt a b])" by simp
    then show "Attempt u p \<in> set before" using a unfolding authorised_def by blast
  qed
next
  assume a: "authorised u p tr"
  show "authorised u p (tr @ [Attempt a b])" unfolding authorised_def
  proof (intro allI impI)
    fix before l after assume e: "tr @ [Attempt a b] = before @ Exec l # after"
    then obtain after' where "after = after' @ [Attempt a b]" by (cases after rule: rev_cases) auto
    then have "tr = before @ Exec l # after'" using e by simp
    then show "Attempt u p \<in> set before" using a unfolding authorised_def by blast
  qed
qed

lemma authorised_snoc_exec: "authorised u p tr \<Longrightarrow> Attempt u p \<in> set tr \<Longrightarrow> authorised u p (tr @ [Exec l])"
  unfolding authorised_def
proof (intro allI impI)
  fix before l' after
  assume a: "\<forall>before l after. tr = before @ Exec l # after \<longrightarrow> Attempt u p \<in> set before" "Attempt u p \<in> set tr"
    and e: "tr @ [Exec l] = before @ Exec l' # after"
  show "Attempt u p \<in> set before"
  proof (cases after rule: rev_cases)
    case Nil
    then show ?thesis using a e by simp
  next
    case (snoc after' x)
    then have "tr = before @ Exec l' # after'" using e by simp
    then show ?thesis using a by blast
  qed
qed

definition auth_inv :: "cstring \<Rightarrow> cstring \<Rightarrow> nv_telnet_sess_t \<Rightarrow> cli_world \<Rightarrow> bool" where
  "auth_inv u p sess w \<longleftrightarrow> sess_wf sess \<and> cstr u \<and> cstr p \<and> authorised u p (s_trace sess) \<and>
     (Attempt u p \<in> set (s_trace sess) \<or> s_state sess \<noteq> NV_TELNET_ST_SHELL \<and> credentials (w_ctx w) = (u, p))"

text \<open>Editing changes neither the state of the login nor the trace.\<close>

lemma edit_frames:
  "s_state (set_line str sess) = s_state sess \<and> s_trace (set_line str sess) = s_trace sess"
  "s_state (nv_telnet_history_up sess) = s_state sess \<and> s_trace (nv_telnet_history_up sess) = s_trace sess"
  "s_state (nv_telnet_history_down sess) = s_state sess \<and> s_trace (nv_telnet_history_down sess) = s_trace sess"
  "s_state (nv_telnet_history_add line sess) = s_state sess \<and> s_trace (nv_telnet_history_add line sess) = s_trace sess"
  "s_state (put_char c sess) = s_state sess \<and> s_trace (put_char c sess) = s_trace sess"
  "s_state (terminate sess) = s_state sess \<and> s_trace (terminate sess) = s_trace sess"
  by (auto simp: set_line_def nv_telnet_redraw_line_def terminate_def nv_telnet_history_up_def nv_telnet_history_down_def
      nv_telnet_history_add_def put_char_def Let_def)

lemma escape_frames: "s_state (snd (nv_telnet_escape_feed c sess)) = s_state sess \<and> s_trace (snd (nv_telnet_escape_feed c sess)) = s_trace sess"
  by (auto simp: nv_telnet_escape_feed_def edit_frames Let_def)

lemma complete_frames: "nv_telnet_tab_complete env sess w = (sess', w') \<Longrightarrow>
    s_state sess' = s_state sess \<and> s_trace sess' = s_trace sess \<and> (s_state sess \<noteq> NV_TELNET_ST_SHELL \<longrightarrow> w' = w)"
  by (auto simp: nv_telnet_tab_complete_def nv_telnet_redraw_line_def edit_frames Let_def split: prod.splits option.splits if_splits)

lemma auth_equal: "cstr user \<Longrightarrow> cstr pass \<Longrightarrow> cstr u \<Longrightarrow> cstr p \<Longrightarrow> credentials ctx = (u, p) \<Longrightarrow>
    nv_telnet_auth ctx user pass \<longleftrightarrow> user = u \<and> pass = p"
  by (auto simp: nv_telnet_auth_def credentials_def str_equal_iff)

lemma auth_process:
  assumes "auth_inv u p sess w" "nv_telnet_process_line env sess w = (Some sess', w')"
  shows "auth_inv u p sess' w'"
proof -
  have wf: "sess_wf sess'" using assms wf.process[of sess env w sess' w'] by (simp add: auth_inv_def)
  let ?t = "terminate sess" and ?l = "cstr_of (s_line (terminate sess))"
  have u: "cstr (s_user ?t)" using assms(1) by (simp add: auth_inv_def sess_wf_def terminate_def)
  show ?thesis
  proof (cases "s_state sess")
    case NV_TELNET_ST_USER
    then show ?thesis
      using assms wf by (auto simp: nv_telnet_process_line_def nv_telnet_send_login_pass_def edit_frames auth_inv_def Let_def)
  next
    case NV_TELNET_ST_PASS
    have "nv_telnet_auth (w_ctx w) (s_user ?t) ?l \<longleftrightarrow> s_user ?t = u \<and> ?l = p" if "credentials (w_ctx w) = (u, p)"
      using auth_equal[OF u _ _ _ that] assms(1) by (simp add: auth_inv_def)
    then show ?thesis
      using assms NV_TELNET_ST_PASS wf
      by (auto simp: nv_telnet_process_line_def nv_telnet_send_shell_def nv_telnet_send_login_user_def edit_frames auth_inv_def
          authorised_snoc_attempt Let_def split: if_splits)
  next
    case NV_TELNET_ST_SHELL
    then show ?thesis
      using assms wf
      by (auto simp: nv_telnet_process_line_def edit_frames auth_inv_def authorised_snoc_exec Let_def split: prod.splits if_splits)
  qed
qed

interpretation auth: session_invariant "auth_inv u p" for u p
proof unfold_locales
  fix sess sess' :: nv_telnet_sess_t and w w' :: cli_world and env c
  assume a: "auth_inv u p sess w"
  note wf = a[unfolded auth_inv_def, THEN conjunct1]
  show "auth_inv u p (snd (nv_telnet_escape_feed c sess)) w"
    using a wf.escape[OF wf, of c] by (simp add: auth_inv_def escape_frames)
  show "auth_inv u p (sess\<lparr>s_line_len := s_line_len sess - 1\<rparr>) w" using a wf.backspace[OF wf] by (simp add: auth_inv_def)
  show "auth_inv u p (put_char c sess) w" if "32 \<le> (of_char c :: nat)"
    using a wf.put[OF wf that] by (simp add: auth_inv_def edit_frames)
  show "auth_inv u p sess' w'" if "nv_telnet_process_line env sess w = (Some sess', w')" using auth_process[OF a that] .
  show "auth_inv u p sess' w'" if "nv_telnet_tab_complete env sess w = (sess', w')"
    using a wf.complete[OF wf that] complete_frames[OF that] by (auto simp: auth_inv_def)
qed

text \<open>A session receives input; in between other handlers run, which do not change the credentials.\<close>

datatype telnet_act = Input "char list" | Others

inductive telnet_step :: "nv_telnet_sess_t \<times> cli_world \<Rightarrow> telnet_act \<Rightarrow> nv_telnet_sess_t \<times> cli_world \<Rightarrow> bool" where
  telnet_input: "nv_telnet_feed env data sess w = Some (Some sess', w') \<Longrightarrow> telnet_step (sess, w) (Input data) (sess', w')"
| telnet_others: "credentials (w_ctx w') = credentials (w_ctx w) \<Longrightarrow> telnet_step (sess, w) Others (sess, w')"

inductive_cases telnet_stepE [elim!]: "telnet_step s a s'"

definition telnet_start :: "cstring \<Rightarrow> cstring \<Rightarrow> nv_telnet_sess_t \<times> cli_world \<Rightarrow> bool" where
  "telnet_start u p s \<longleftrightarrow> cstr u \<and> cstr p \<and> credentials (w_ctx (snd s)) = (u, p) \<and>
     (\<exists>cfd. fst s = nv_telnet_send_login_user (new_session cfd))"

lemma new_session_wf: "sess_wf (nv_telnet_send_login_user (new_session cfd))"
  by (auto simp: sess_wf_def new_session_def nv_telnet_send_login_user_def telnet_max cstr_def)

interpretation telnet: step_invariant "telnet_start u p" telnet_step "\<lambda>(sess, w). auth_inv u p sess w" for u p
proof unfold_locales
  fix s assume "telnet_start u p s"
  then show "case s of (sess, w) \<Rightarrow> auth_inv u p sess w"
    using new_session_wf
    by (auto simp: telnet_start_def auth_inv_def new_session_def nv_telnet_send_login_user_def authorised_def)
next
  fix s l s' assume "case s of (sess, w) \<Rightarrow> auth_inv u p sess w" "telnet_step s l s'"
  then show "case s' of (sess, w) \<Rightarrow> auth_inv u p sess w"
    by (auto dest: auth.feed) (simp add: auth_inv_def)
qed

text \<open>C8.  No command runs without a login: in every session, whatever bytes arrive in whatever pieces, every line that is
  executed comes after an attempt to log in with exactly the configured user name and password.\<close>
theorem nv_telnet_no_command_without_login:
  assumes "reach (telnet_start u p) telnet_step (sess, w)" "s_trace sess = before @ Exec l # after"
  shows "Attempt u p \<in> set before"
  using telnet.reach_inv[OF assms(1)] assms(2) by (auto simp: auth_inv_def authorised_def)


section \<open>History\<close>

definition hist :: "nv_telnet_sess_t \<Rightarrow> cstring list" where
  "hist sess = take (s_history_count sess) (s_history sess)"

definition last_n :: "nat \<Rightarrow> 'a list \<Rightarrow> 'a list" where
  "last_n n xs = drop (length xs - n) xs"

lemma last_n_snoc: "0 < n \<Longrightarrow> last_n n (last_n n xs @ [x]) = last_n n (xs @ [x])"
  by (cases "length xs \<le> n") (auto simp: last_n_def Suc_diff_le)

lemma hist_add:
  assumes wf: "sess_wf sess" and "s_state sess = NV_TELNET_ST_SHELL" "line \<noteq> []" "length line < NV_TELNET_LINE_MAX"
  shows "hist (nv_telnet_history_add line sess) =
    (if hist sess \<noteq> [] \<and> last (hist sess) = line then hist sess else last_n NV_TELNET_HISTORY_MAX (hist sess @ [line]))"
proof -
  let ?n = "s_history_count sess"
  have n: "?n \<le> 32" "length (s_history sess) = 32" using wf by (simp_all add: sess_wf_def telnet_max)
  have len: "length (hist sess) = ?n" using n by (simp add: hist_def)
  have dup: "?n > 0 \<and> s_history sess ! (?n - 1) = line \<longleftrightarrow> hist sess \<noteq> [] \<and> last (hist sess) = line"
    using n by (cases ?n) (auto simp: hist_def take_Suc_conv_app_nth)
  show ?thesis
  proof (cases "hist sess \<noteq> [] \<and> last (hist sess) = line")
    case True
    then show ?thesis using assms dup by (simp add: nv_telnet_history_add_def)
  next
    case False
    show ?thesis
    proof (cases "?n < 32")
      case True
      then show ?thesis using False assms dup n
        by (simp add: nv_telnet_history_add_def hist_def last_n_def ctrunc_id telnet_max take_Suc_conv_app_nth Let_def)
    next
      case full: False
      have "(tl h @ [x])[31 := line] = drop 1 h @ [line]" if "length h = 32" for h x
        using that by (simp add: list_update_append drop_Suc)
      then show ?thesis using False full assms dup n
        by (auto simp: nv_telnet_history_add_def hist_def last_n_def ctrunc_id telnet_max Let_def)
    qed
  qed
qed

lemma hist_adds:
  assumes "sess_wf sess" "s_state sess = NV_TELNET_ST_SHELL" "s_history_count sess = 0"
    and "\<forall>l \<in> set ls. cstr l \<and> l \<noteq> [] \<and> length l < NV_TELNET_LINE_MAX"
  shows "sess_wf (fold nv_telnet_history_add ls sess) \<and> s_state (fold nv_telnet_history_add ls sess) = NV_TELNET_ST_SHELL \<and>
    hist (fold nv_telnet_history_add ls sess) = last_n NV_TELNET_HISTORY_MAX (remdups_adj ls)"
  using assms(4)
proof (induction ls rule: rev_induct)
  case Nil
  then show ?case using assms by (simp add: hist_def last_n_def)
next
  case (snoc l ls)
  let ?s = "fold nv_telnet_history_add ls sess"
  have ne: "last_n NV_TELNET_HISTORY_MAX xs \<noteq> [] \<longleftrightarrow> xs \<noteq> []" for xs :: "cstring list"
    by (cases xs) (auto simp: last_n_def telnet_max Suc_diff_le)
  have la: "xs \<noteq> [] \<Longrightarrow> last (last_n NV_TELNET_HISTORY_MAX xs) = last xs" for xs :: "cstring list"
    by (simp add: last_n_def telnet_max)
  have r: "remdups_adj (ls @ [l]) = (if ls \<noteq> [] \<and> last ls = l then remdups_adj ls else remdups_adj ls @ [l])"
    by (cases ls rule: rev_cases) (auto simp: remdups_adj_append_two)
  note IH = snoc.IH
  have "hist (nv_telnet_history_add l ?s) = last_n NV_TELNET_HISTORY_MAX (remdups_adj (ls @ [l]))"
    using hist_add[of ?s l] IH snoc.prems ne[of "remdups_adj ls"] la[of "remdups_adj ls"]
      last_n_snoc[of NV_TELNET_HISTORY_MAX "remdups_adj ls" l]
    by (auto simp: r telnet_max)
  then show ?case using IH snoc.prems wf_history_add[of ?s l] by (simp add: edit_frames)
qed

lemma set_line_text: "sess_wf sess \<Longrightarrow> cstr str \<Longrightarrow> length str < NV_TELNET_LINE_MAX \<Longrightarrow>
    take (s_line_len (set_line str sess)) (s_line (set_line str sess)) = str \<and>
    cstr_of (s_line (set_line str sess)) = str \<and> s_line_len (set_line str sess) = length str"
proof -
  assume "sess_wf sess" "cstr str" and l: "length str < NV_TELNET_LINE_MAX"
  let ?buf = "copy_into NV_TELNET_LINE_MAX str (s_line sess)"
  have c: "cstr_of ?buf = str" using \<open>cstr str\<close> l by (simp add: copy_into_cstr ctrunc_id)
  have b: "?buf = str @ CHR 0x00 # drop (length str + 1) (s_line sess)" using l by (simp add: copy_into_def ctrunc_id)
  have "?buf[length str := CHR 0x00] = ?buf" unfolding b by (simp add: list_update_append)
  then show ?thesis using c b
    by (simp add: set_line_def nv_telnet_redraw_line_def terminate_def Let_def)
qed

lemma up_frames: "s_history (set_line str sess) = s_history sess \<and> s_history_count (set_line str sess) = s_history_count sess \<and>
    s_history_pos (set_line str sess) = s_history_pos sess \<and> s_history_draft (set_line str sess) = s_history_draft sess"
  by (simp add: set_line_def nv_telnet_redraw_line_def terminate_def Let_def)

lemma up_shows:
  assumes "sess_wf sess" "s_state sess = NV_TELNET_ST_SHELL" "s_history_count sess > 0" "s_history_pos sess \<noteq> 0"
  defines "pos \<equiv> (if s_history_pos sess < 0 then int (s_history_count sess) - 1 else s_history_pos sess - 1)"
  shows "sess_wf (nv_telnet_history_up sess) \<and> s_state (nv_telnet_history_up sess) = NV_TELNET_ST_SHELL \<and>
    hist (nv_telnet_history_up sess) = hist sess \<and> s_history_count (nv_telnet_history_up sess) = s_history_count sess \<and>
    s_history_pos (nv_telnet_history_up sess) = pos \<and>
    take (s_line_len (nv_telnet_history_up sess)) (s_line (nv_telnet_history_up sess)) = hist sess ! nat pos"
proof -
  let ?n = "s_history_count sess"
  have n: "?n \<le> 32" "length (s_history sess) = 32" "0 \<le> pos" "nat pos < ?n"
    using assms by (auto simp: hist_def sess_wf_def telnet_max)
  define s1 where "s1 = (if s_history_pos sess < 0
      then sess\<lparr>s_history_draft := ctrunc NV_TELNET_LINE_MAX (cstr_of (s_line sess)), s_history_pos := pos\<rparr>
      else sess\<lparr>s_history_pos := pos\<rparr>)"
  have u: "nv_telnet_history_up sess = set_line (s_history sess ! nat pos) s1"
    using assms(2-4) by (auto simp: nv_telnet_history_up_def s1_def pos_def Let_def)
  have "sess_wf s1" using assms(1) n by (auto simp: s1_def sess_wf_def cstr_ctrunc length_ctrunc telnet_max)
  moreover have "cstr (s_history sess ! nat pos) \<and> length (s_history sess ! nat pos) < NV_TELNET_LINE_MAX"
    using assms(1) n by (simp add: sess_wf_def telnet_max)
  moreover have "s_state s1 = s_state sess" "s_history s1 = s_history sess" "s_history_count s1 = ?n" "s_history_pos s1 = pos"
    by (simp_all add: s1_def)
  ultimately show ?thesis
    using set_line_text[of s1 "s_history sess ! nat pos"] wf_set_line[of s1 "s_history sess ! nat pos"] assms(2) n
    by (auto simp: u up_frames edit_frames hist_def)
qed

lemma ups_recall:
  assumes "sess_wf sess" "s_state sess = NV_TELNET_ST_SHELL" "s_history_pos sess = -1" "k < length (hist sess)"
  shows "let t = (nv_telnet_history_up ^^ Suc k) sess in
    sess_wf t \<and> s_state t = NV_TELNET_ST_SHELL \<and> hist t = hist sess \<and> s_history_count t = s_history_count sess \<and>
    s_history_pos t = int (length (hist sess)) - 1 - int k \<and> take (s_line_len t) (s_line t) = rev (hist sess) ! k"
  using assms(4)
proof (induction k)
  case 0
  have "length (hist sess) = s_history_count sess" using assms(1) by (simp add: hist_def sess_wf_def)
  then show ?case using up_shows[OF assms(1,2)] assms(3) 0 by (simp add: rev_nth nat_diff_distrib Let_def)
next
  case (Suc k)
  define t where "t = (nv_telnet_history_up ^^ Suc k) sess"
  note IH = Suc.IH[OF Suc_lessD[OF Suc.prems], folded t_def, unfolded Let_def]
  have n: "length (hist sess) = s_history_count sess" using assms(1) by (simp add: hist_def sess_wf_def)
  have "nat (int (length (hist sess)) - 1 - int k - 1) = length (hist sess) - Suc (Suc k)" using Suc.prems by simp
  moreover have "(nv_telnet_history_up ^^ Suc (Suc k)) sess = nv_telnet_history_up t" by (simp add: t_def)
  ultimately show ?case
    using up_shows[of t] IH Suc.prems n by (simp add: rev_nth Let_def del: funpow.simps)
qed

text \<open>The history recalls what was entered: after any sequence of lines it holds the last 32 of them, a line repeated at
  once counted once, and pressing the up key \<open>k + 1\<close> times brings the \<open>k\<close>-th last of them back into the line.\<close>
theorem nv_telnet_history_recalls:
  assumes "sess_wf sess" "s_state sess = NV_TELNET_ST_SHELL" "s_history_count sess = 0" "s_history_pos sess = -1"
    and "\<forall>l \<in> set ls. cstr l \<and> l \<noteq> [] \<and> length l < NV_TELNET_LINE_MAX"
    and "k < min NV_TELNET_HISTORY_MAX (length (remdups_adj ls))"
  shows "let t = (nv_telnet_history_up ^^ Suc k) (fold nv_telnet_history_add ls sess) in
    take (s_line_len t) (s_line t) = rev (remdups_adj ls) ! k"
proof -
  let ?s = "fold nv_telnet_history_add ls sess"
  note h = hist_adds[OF assms(1-3,5)]
  have p: "s_history_pos (nv_telnet_history_add l s) = -1" if "s_history_pos s = -1" for l s
    using that by (simp add: nv_telnet_history_add_def Let_def)
  have "s_history_pos (fold nv_telnet_history_add ls s) = -1" if "s_history_pos s = -1" for s
    using that p by (induction ls arbitrary: s) auto
  moreover have "k < length (hist ?s)" "rev (hist ?s) ! k = rev (remdups_adj ls) ! k"
    using h assms(6) by (auto simp: last_n_def rev_nth)
  ultimately show ?thesis using ups_recall[of ?s k] h assms(4) by (simp add: Let_def)
qed

text \<open>The draft is not the line the user was typing: the up key saves the whole C string in the line buffer, which still holds the
  rest of the previous line, so that going up and down again brings back a line that was never typed.\<close>
theorem nv_telnet_draft_is_stale:
  assumes "sess_wf sess" "s_state sess = NV_TELNET_ST_SHELL" "s_history_count sess > 0" "s_history_pos sess = -1"
    and "s_line_len sess < length (cstr_of (s_line sess))" "length (cstr_of (s_line sess)) < NV_TELNET_LINE_MAX"
  shows "s_line_len (nv_telnet_history_down (nv_telnet_history_up sess)) = length (cstr_of (s_line sess))"
proof -
  let ?d = "cstr_of (s_line sess)" and ?u = "nv_telnet_history_up sess"
  note u = up_shows[OF assms(1-3)]
  have d: "s_history_draft ?u = ?d"
    using assms(2-4,6) by (simp add: nv_telnet_history_up_def up_frames ctrunc_id Let_def)
  have "nv_telnet_history_down ?u = set_line ?d (?u\<lparr>s_history_pos := -1\<rparr>)"
    using u assms(3,4) d by (simp add: nv_telnet_history_down_def)
  moreover have "sess_wf (?u\<lparr>s_history_pos := -1\<rparr>)" using u assms(4) by (auto simp: sess_wf_def)
  ultimately show ?thesis using set_line_text[of "?u\<lparr>s_history_pos := -1\<rparr>" ?d] assms(6) by simp
qed

text \<open>Leaving a session reads freed memory: when a line closes the session, which frees it, the handler of the connection goes on to use
  the session, whatever else was received.\<close>
theorem nv_telnet_exit_uses_freed_session:
  assumes "map_of (g_telnet_sessions t) i = Some sess" "s_fd sess \<ge> 0" "s_esc_len sess = 0"
    and "nv_telnet_process_line env sess w = (None, w')"
  shows "nv_telnet_client_handler env i (CHR 0x0D # cs) (t, w) = None"
  using assms by (simp add: nv_telnet_client_handler_def)

lemma accept_closes_twice: "conn_alloc c \<Longrightarrow> \<not> conn_add c \<Longrightarrow> conn_fd c \<ge> 0 \<Longrightarrow>
    closed_fds (accept_one c t) = conn_fd c # conn_fd c # closed_fds t"
  by (simp add: accept_one_def nv_telnet_sess_start_def nv_codes)

section \<open>Typing lines\<close>

definition printable :: "char \<Rightarrow> bool" where
  "printable c \<longleftrightarrow> 32 \<le> (of_char c :: nat) \<and> (of_char c :: nat) < 127"

lemma printable_simps:
  assumes "printable c"
  shows "c \<noteq> CHR 0x1B" "c \<noteq> CHR 0xFF" "c \<noteq> CHR 0x0D" "c \<noteq> CHR 0x0A" "c \<noteq> CHR 0x7F" "c \<noteq> CHR 0x08" "c \<noteq> CHR 0x09" "c \<noteq> CHR 0x00"
    "\<not> (of_char c :: nat) < 32"
  using assms by (auto simp: printable_def)

lemma printable_cstr: "\<forall>c \<in> set cs. printable c \<Longrightarrow> cstr cs"
  using printable_simps(8) by (auto simp: cstr_def)

lemma feed_printable: "printable c \<Longrightarrow> s_esc_len sess = 0 \<Longrightarrow>
    nv_telnet_feed env (c # cs) sess w = nv_telnet_feed env cs (put_char c sess) w"
  by (simp add: printable_simps)

lemma put_char_plain: "s_history_pos sess < 0 \<Longrightarrow> s_line_len sess < NV_TELNET_LINE_MAX - 1 \<Longrightarrow>
    put_char c sess = sess\<lparr>s_line := (s_line sess)[s_line_len sess := c], s_line_len := s_line_len sess + 1\<rparr>"
  by (simp add: put_char_def)

lemma feed_text:
  assumes "length (s_line sess) = NV_TELNET_LINE_MAX" "s_history_pos sess < 0" "s_esc_len sess = 0"
    and "\<forall>c \<in> set cs. printable c" "s_line_len sess + length cs < NV_TELNET_LINE_MAX"
  shows "nv_telnet_feed env (cs @ rest) sess w =
    nv_telnet_feed env rest (sess\<lparr>s_line := take (s_line_len sess) (s_line sess) @ cs @ drop (s_line_len sess + length cs) (s_line sess),
      s_line_len := s_line_len sess + length cs\<rparr>) w"
  using assms
proof (induction cs arbitrary: sess)
  case (Cons c cs)
  let ?s = "put_char c sess" and ?n = "s_line_len sess"
  have p: "?s = sess\<lparr>s_line := (s_line sess)[?n := c], s_line_len := ?n + 1\<rparr>"
    using Cons.prems by (intro put_char_plain) auto
  have "nv_telnet_feed env ((c # cs) @ rest) sess w = nv_telnet_feed env (cs @ rest) ?s w"
    using Cons.prems feed_printable[of c sess env "cs @ rest" w] by (simp del: nv_telnet_feed.simps)
  also have "\<dots> = nv_telnet_feed env rest (?s\<lparr>s_line := take (?n + 1) (s_line ?s) @ cs @ drop (?n + 1 + length cs) (s_line ?s),
      s_line_len := ?n + 1 + length cs\<rparr>) w"
    using Cons.IH[of ?s] Cons.prems by (simp add: p)
  also have "take (?n + 1) (s_line ?s) = take ?n (s_line sess) @ [c]"
    using Cons.prems by (simp add: p take_Suc_conv_app_nth)
  also have "drop (?n + 1 + length cs) (s_line ?s) = drop (?n + length (c # cs)) (s_line sess)" by (simp add: p)
  finally show ?case by (simp add: p)
qed simp

text \<open>A session that waits for a line, and the session with a line typed into it.\<close>

definition idle :: "nv_telnet_sess_t \<Rightarrow> bool" where
  "idle sess \<longleftrightarrow> sess_wf sess \<and> s_line_len sess = 0 \<and> s_history_pos sess = -1 \<and> s_esc_len sess = 0"

definition typed :: "cstring \<Rightarrow> nv_telnet_sess_t \<Rightarrow> nv_telnet_sess_t" where
  "typed cs sess = sess\<lparr>s_line := cs @ drop (length cs) (s_line sess), s_line_len := length cs\<rparr>"

definition line_ok :: "cstring \<Rightarrow> bool" where
  "line_ok cs \<longleftrightarrow> (\<forall>c \<in> set cs. printable c) \<and> length cs < NV_TELNET_LINE_MAX"

lemma feed_line:
  assumes "idle sess" "line_ok cs"
  shows "nv_telnet_feed env (cs @ CHR 0x0D # rest) sess w =
    (case nv_telnet_process_line env (typed cs sess) w of
       (Some sess, w) \<Rightarrow> nv_telnet_feed env rest sess w | (None, w) \<Rightarrow> if rest = [] then Some (None, w) else None)"
proof -
  have e: "s_esc_len (typed cs sess) = 0" using assms by (simp add: typed_def idle_def)
  have "nv_telnet_feed env (cs @ CHR 0x0D # rest) sess w = nv_telnet_feed env (CHR 0x0D # rest) (typed cs sess) w"
    using feed_text[of sess cs env "CHR 0x0D # rest" w] assms by (simp add: idle_def line_ok_def sess_wf_def typed_def)
  then show ?thesis using e by simp
qed

lemma typed_text: "idle sess \<Longrightarrow> line_ok cs \<Longrightarrow> cstr_of (s_line (terminate (typed cs sess))) = cs"
proof -
  assume "idle sess" "line_ok cs"
  then have "s_line (terminate (typed cs sess)) = cs @ CHR 0x00 # drop (length cs + 1) (s_line sess)"
    by (simp add: terminate_def typed_def idle_def sess_wf_def line_ok_def list_update_append upd_conv_take_nth_drop)
  moreover have "cstr cs" using \<open>line_ok cs\<close> by (simp add: line_ok_def printable_cstr)
  ultimately show ?thesis by (simp add: cstr_of_def) (auto intro!: takeWhile_stop simp: cstr_def)
qed

lemma login_user:
  assumes "idle sess" "s_state sess = NV_TELNET_ST_USER" "line_ok cs" "length cs < NV_TELNET_USER_MAX"
  shows "\<exists>s1. nv_telnet_process_line env (typed cs sess) w = (Some s1, w) \<and> idle s1 \<and> s_state s1 = NV_TELNET_ST_PASS \<and>
    s_user s1 = cs \<and> s_trace s1 = s_trace sess \<and> s_fd s1 = s_fd sess"
proof -
  let ?s1 = "nv_telnet_send_login_pass ((terminate (typed cs sess))\<lparr>s_user := cs, s_line_len := 0\<rparr>)"
  have "nv_telnet_process_line env (typed cs sess) w = (Some ?s1, w)"
    using assms typed_text[OF assms(1,3)] by (simp add: nv_telnet_process_line_def ctrunc_id edit_frames typed_def[of cs sess] Let_def)
  moreover have "idle ?s1"
    using assms by (auto simp: idle_def sess_wf_def nv_telnet_send_login_pass_def terminate_def typed_def line_ok_def printable_cstr telnet_max)
  ultimately show ?thesis
    using assms by (auto simp: nv_telnet_send_login_pass_def terminate_def typed_def)
qed

lemma login_pass:
  assumes "idle sess" "s_state sess = NV_TELNET_ST_PASS" "line_ok cs" "credentials (w_ctx w) = (u, p)" "cstr u" "cstr p"
  shows "\<exists>s1. nv_telnet_process_line env (typed cs sess) w = (Some s1, w) \<and> idle s1 \<and>
    s_state s1 = (if s_user sess = u \<and> cs = p then NV_TELNET_ST_SHELL else NV_TELNET_ST_USER) \<and>
    s_trace s1 = s_trace sess @ [Attempt (s_user sess) cs] \<and> s_fd s1 = s_fd sess"
proof -
  let ?t = "(terminate (typed cs sess))\<lparr>s_trace := s_trace sess @ [Attempt (s_user sess) cs], s_line_len := 0\<rparr>"
  let ?s1 = "if s_user sess = u \<and> cs = p then nv_telnet_send_shell ?t else nv_telnet_send_login_user ?t"
  have a: "nv_telnet_auth (w_ctx w) (s_user sess) cs \<longleftrightarrow> s_user sess = u \<and> cs = p"
    using auth_equal[OF _ _ assms(5,6,4)] assms(1,3) by (simp add: idle_def sess_wf_def line_ok_def printable_cstr)
  have f: "s_user (terminate (typed cs sess)) = s_user sess" "s_trace (terminate (typed cs sess)) = s_trace sess"
    "s_state (terminate (typed cs sess)) = s_state sess"
    by (simp_all add: terminate_def typed_def)
  have "nv_telnet_process_line env (typed cs sess) w = (Some ?s1, w)"
    using assms(2) typed_text[OF assms(1,3)] a by (simp add: nv_telnet_process_line_def f Let_def)
  moreover have "idle ?s1"
    using assms(1,3) by (auto simp: idle_def sess_wf_def nv_telnet_send_shell_def nv_telnet_send_login_user_def terminate_def
        typed_def line_ok_def telnet_max)
  ultimately show ?thesis
    by (auto simp: nv_telnet_send_shell_def nv_telnet_send_login_user_def terminate_def typed_def)
qed

lemma new_session_idle: "idle (nv_telnet_send_login_user (new_session cfd))"
  using new_session_wf by (simp add: idle_def new_session_def nv_telnet_send_login_user_def)


section \<open>Sample sessions\<close>

definition sample_env :: cli_env where
  "sample_env = \<lparr>env_strdup = Some, env_alloc = True, env_config = None, env_plugin = \<lambda>_ _ w. (NV_OK, w)\<rparr>"

definition sample_world :: cli_world where
  "sample_world = (empty_world (sample_ctx ''/p''))\<lparr>g_cli_inited := True, g_cli_cmds :=
     [\<lparr>cmd_name = ''exit'', cmd_help = '''', cmd_handler = nv_cli_cmd_exit, cmd_userdata = 0\<rparr>]\<rparr>"

lemma sample_credentials: "credentials (w_ctx sample_world) = (''admin'', '''')"
  by (simp add: sample_world_def empty_world_def credentials_def sample_ctx_def default_opts_def)

lemma sample_lines: "line_ok ''admin''" "line_ok ''''" "line_ok ''exit''" "line_ok ''x''" "cstr ''admin''" "cstr ''''"
  by (simp_all add: line_ok_def printable_def cstr_def telnet_max)

lemma sample_execute:
  "nv_core_cli_execute_line sample_env 3 ''x'' True sample_world = (NV_ERROR, sample_world)"
  "nv_core_cli_execute_line sample_env 3 ''exit'' True sample_world = (NV_CLI_CLOSE_SESSION, sample_world)"
proof -
  have n: "map to_lower ''exit'' = ''exit''" "map to_lower ''x'' = ''x''" by code_simp+
  have l: "chomp ''x'' = ''x''" "chomp ''exit'' = ''exit''" "nv_cli_split_args ''x'' 16 = [''x'']" "nv_cli_split_args ''exit'' 16 = [''exit'']"
    by code_simp+
  have i: "nv_core_cli_init a sample_world = sample_world" for a by (simp add: nv_core_cli_init_def sample_world_def)
  have f: "nv_cli_find ''x'' v = None"
      "nv_cli_find ''exit'' v = Some \<lparr>cmd_name = ''exit'', cmd_help = '''', cmd_handler = nv_cli_cmd_exit, cmd_userdata = 0\<rparr>"
    if "g_cli_cmds v = g_cli_cmds sample_world" for v
    using that unfolding nv_cli_find_def strcaseeq_def n by (simp_all add: sample_world_def n del: list.map)
  show "nv_core_cli_execute_line sample_env 3 ''x'' True sample_world = (NV_ERROR, sample_world)"
    "nv_core_cli_execute_line sample_env 3 ''exit'' True sample_world = (NV_CLI_CLOSE_SESSION, sample_world)"
    by (simp_all add: nv_core_cli_execute_line_def i ctrunc_id l f run_handler_def telnet_max Let_def)
       (simp_all add: sample_world_def empty_world_def)
qed

text \<open>A session after a login, and the execution of a line in it.\<close>

lemma sample_login: "\<exists>sess. nv_telnet_feed sample_env (''admin'' @ CHR 0x0D # '''' @ [CHR 0x0D])
      (nv_telnet_send_login_user (new_session 3)) sample_world = Some (Some sess, sample_world) \<and>
    s_state sess = NV_TELNET_ST_SHELL \<and> idle sess \<and> s_trace sess = [Attempt ''admin'' ''''] \<and> s_fd sess = 3"
proof -
  let ?s = "nv_telnet_send_login_user (new_session 3)"
  have s: "s_state ?s = NV_TELNET_ST_USER" "s_trace ?s = []" "s_fd ?s = 3"
    by (simp_all add: nv_telnet_send_login_user_def new_session_def)
  obtain s1 where s1: "nv_telnet_process_line sample_env (typed ''admin'' ?s) sample_world = (Some s1, sample_world)" "idle s1"
      "s_state s1 = NV_TELNET_ST_PASS" "s_user s1 = ''admin''" "s_trace s1 = []" "s_fd s1 = 3"
    using login_user[OF new_session_idle s(1) sample_lines(1)] s by (auto simp: telnet_max)
  obtain s2 where s2: "nv_telnet_process_line sample_env (typed '''' s1) sample_world = (Some s2, sample_world)" "idle s2"
      "s_state s2 = NV_TELNET_ST_SHELL" "s_trace s2 = [Attempt ''admin'' '''']" "s_fd s2 = 3"
    using login_pass[OF s1(2,3) sample_lines(2) sample_credentials sample_lines(5,6)] s1(4-6) by auto
  then show ?thesis
    using feed_line[OF new_session_idle sample_lines(1), of sample_env "'''' @ [CHR 0x0D]" 3 sample_world]
      feed_line[OF s1(2) sample_lines(2), of sample_env "[]" sample_world] s1(1) by simp
qed

lemma shell_line:
  assumes "idle sess" "s_state sess = NV_TELNET_ST_SHELL" "line_ok cs"
    and "nv_core_cli_execute_line env (s_fd sess) cs True w = (rc, w')"
  shows "nv_telnet_process_line env (typed cs sess) w =
    (if rc = NV_CLI_CLOSE_SESSION then (None, w')
     else (Some ((nv_telnet_history_add cs (terminate (typed cs sess)))\<lparr>s_trace := s_trace sess @ [Exec cs], s_line_len := 0,
             s_history_pos := -1, s_esc_len := 0\<rparr>), w'))"
proof -
  have "s_fd (nv_telnet_history_add cs s) = s_fd s" for s by (simp add: nv_telnet_history_add_def Let_def)
  then show ?thesis
    using assms typed_text[OF assms(1,3)]
    by (simp add: nv_telnet_process_line_def edit_frames Let_def) (simp add: terminate_def typed_def edit_frames Let_def)
qed

lemma session_start: "telnet_start ''admin'' '''' (nv_telnet_send_login_user (new_session 3), sample_world)"
  using sample_credentials sample_lines by (auto simp: telnet_start_def)

theorem nv_telnet_no_command_without_login_witness:
  "\<exists>sess. reach (telnet_start ''admin'' '''') telnet_step (sess, sample_world) \<and>
     (\<exists>before after. s_trace sess = before @ Exec ''x'' # after \<and> Attempt ''admin'' '''' \<in> set before)"
proof -
  obtain s where s: "nv_telnet_feed sample_env (''admin'' @ CHR 0x0D # '''' @ [CHR 0x0D])
        (nv_telnet_send_login_user (new_session 3)) sample_world = Some (Some s, sample_world)"
      "s_state s = NV_TELNET_ST_SHELL" "idle s" "s_trace s = [Attempt ''admin'' '''']" "s_fd s = 3"
    using sample_login by blast
  let ?s = "(nv_telnet_history_add ''x'' (terminate (typed ''x'' s)))\<lparr>s_trace := s_trace s @ [Exec ''x''], s_line_len := 0,
      s_history_pos := -1, s_esc_len := 0\<rparr>"
  have "nv_telnet_process_line sample_env (typed ''x'' s) sample_world = (Some ?s, sample_world)"
    using shell_line[OF s(3,2) sample_lines(4), of sample_env sample_world] sample_execute(1) s(5)
    by (simp add: NV_CLI_CLOSE_SESSION_def nv_codes)
  then have "nv_telnet_feed sample_env (''x'' @ [CHR 0x0D]) s sample_world = Some (Some ?s, sample_world)"
    using feed_line[OF s(3) sample_lines(4), of sample_env "[]" sample_world] by simp
  then have st: "telnet_step (s, sample_world) (Input (''x'' @ [CHR 0x0D])) (?s, sample_world)" by (rule telnet_input)
  have r: "reach (telnet_start ''admin'' '''') telnet_step (?s, sample_world)"
    by (intro reach_step[where step = telnet_step, OF reach_step[where step = telnet_step, OF reach_start telnet_input[OF s(1)]] st] session_start)
  have t: "s_trace ?s = [Attempt ''admin'' ''''] @ Exec ''x'' # []" using s(4) by simp
  show ?thesis using r t nv_telnet_no_command_without_login[OF r t] by blast
qed



theorem nv_telnet_exit_uses_freed_session_witness:
  "\<exists>t sess. map_of (g_telnet_sessions t) 1 = Some (typed ''exit'' sess) \<and>
     nv_telnet_client_handler sample_env 1 [CHR 0x0D] (t, sample_world) = None"
proof -
  obtain s where s: "s_state s = NV_TELNET_ST_SHELL" "idle s" "s_fd s = 3" using sample_login by blast
  let ?t = "\<lparr>telnet_inited = True, telnet_listen_fd = 2, g_telnet_sessions = [(1, typed ''exit'' s)], closed_fds = []\<rparr>"
  have p: "nv_telnet_process_line sample_env (typed ''exit'' s) sample_world = (None, sample_world)"
    using shell_line[OF s(2,1) sample_lines(3)] sample_execute(2) s(3) by simp
  have m: "map_of (g_telnet_sessions ?t) 1 = Some (typed ''exit'' s)" by simp
  have "s_fd (typed ''exit'' s) \<ge> 0" "s_esc_len (typed ''exit'' s) = 0" using s by (simp_all add: typed_def idle_def)
  then show ?thesis using nv_telnet_exit_uses_freed_session[OF m _ _ p, of "[]"] m by blast
qed

definition sample_shell :: nv_telnet_sess_t where
  "sample_shell = nv_telnet_send_shell (new_session 3)"

lemma sample_shell_wf: "sess_wf sample_shell" "s_state sample_shell = NV_TELNET_ST_SHELL" "s_history_count sample_shell = 0"
  "s_history_pos sample_shell = -1"
  by (auto simp: sample_shell_def nv_telnet_send_shell_def new_session_def sess_wf_def telnet_max cstr_def)

theorem nv_telnet_history_recalls_witness:
  "let t = (nv_telnet_history_up ^^ Suc 1) (fold nv_telnet_history_add [''a'', ''b'', ''b'', ''c''] sample_shell) in
   take (s_line_len t) (s_line t) = ''b''"
proof -
  have "\<forall>l \<in> set [''a'', ''b'', ''b'', ''c'']. cstr l \<and> l \<noteq> [] \<and> length l < NV_TELNET_LINE_MAX" by (simp add: cstr_def telnet_max)
  from nv_telnet_history_recalls[OF sample_shell_wf this, of 1] show ?thesis by (simp add: telnet_max Let_def del: funpow.simps)
qed

theorem nv_telnet_draft_is_stale_witness:
  "\<exists>sess. s_line_len sess = 0 \<and> s_line_len (nv_telnet_history_down (nv_telnet_history_up sess)) = 1"
proof -
  let ?s = "(nv_telnet_history_add ''x'' sample_shell)\<lparr>s_line := ''x'' @ replicate 511 CHR 0x00\<rparr>"
  have h: "nv_telnet_history_add ''x'' sample_shell =
      sample_shell\<lparr>s_history_count := 1, s_history := (s_history sample_shell)[0 := ''x''], s_history_pos := -1\<rparr>"
    using sample_shell_wf by (simp add: nv_telnet_history_add_def ctrunc_id telnet_max)
  have wf: "sess_wf ?s"
    using wf_history_add[OF sample_shell_wf(1), of "''x''"] by (simp add: sess_wf_def cstr_def telnet_max)
  have c: "cstr_of (s_line ?s) = ''x''" by (simp add: cstr_of_def)
  have z: "s_line_len ?s = 0" "s_state ?s = NV_TELNET_ST_SHELL" "s_history_count ?s > 0" "s_history_pos ?s = -1"
    unfolding h by (simp_all add: sample_shell_def nv_telnet_send_shell_def new_session_def)
  show ?thesis using nv_telnet_draft_is_stale[OF wf z(2-4)] z(1) c by (intro exI[of _ ?s]) (simp add: telnet_max)
qed

end
