(* ===== verification/Nv_PubSub.thy ===== *)
theory Nv_PubSub
  imports Nv_Prelude Nv_Interfaces
begin

text \<open>
  The publish/subscribe bus (\<open>core/bus/nv_core_pubsub.c\<close>).  In the first part, activations of \<open>nv_core_pubsub_publish\<close> and
  \<open>nv_core_pubsub_unsubscribe\<close> run concurrently; a step is a critical section under \<open>pubsub_mutex\<close>.  A subscription is
  identified by its number.  The field \<open>delivered\<close> records the calls of handlers; the code has no such field.  In the
  second part, packets arrive at the broker of other processes; an address is a number.
\<close>

section \<open>Subscriptions\<close>

record nv_core_pubsub_t =
  sub_id :: nat
  sub_topic :: cstring
  sub_handler :: nat
  sub_active :: bool
  sub_calls :: int

text \<open>An activation is publishing (with the calls still to make, the first one running), waiting in an unsubscription, woken there, or
  done with it.  \<open>InHandler\<close> is a publishing activation whose running handler has called the unsubscription of a number and waits there; the
  flag says whether it has been woken.\<close>

datatype 'd activation = Done | Calling "nat list" 'd | Waiting nat | Woken nat | Unsubscribed nat | InHandler "nat list" 'd nat bool

record 'd bus =
  pubsubs :: "nv_core_pubsub_t list"
  pubsub_next_id :: nat
  acts :: "'d activation list"
  delivered :: "(nat \<times> 'd) list"

definition upd_sub :: "nat \<Rightarrow> (nv_core_pubsub_t \<Rightarrow> nv_core_pubsub_t) \<Rightarrow> 'd bus \<Rightarrow> 'd bus" where
  "upd_sub k f b = b\<lparr>pubsubs := map (\<lambda>s. if sub_id s = k then f s else s) (pubsubs b)\<rparr>"

definition sub_of :: "'d bus \<Rightarrow> nat \<Rightarrow> nv_core_pubsub_t option" where
  "sub_of b k = find (\<lambda>s. sub_id s = k) (pubsubs b)"

definition set_act :: "nat \<Rightarrow> 'd activation \<Rightarrow> 'd bus \<Rightarrow> 'd bus" where
  "set_act i a b = b\<lparr>acts := (acts b)[i := a]\<rparr>"

definition nv_core_pubsub_subscribe :: "bool \<Rightarrow> cstring \<Rightarrow> nat \<Rightarrow> 'd bus \<Rightarrow> int \<times> 'd bus" where
  "nv_core_pubsub_subscribe alloc_ok topic handler b =
     (if topic = [] \<or> \<not> alloc_ok then (NV_ERROR, b)
      else (NV_OK, b\<lparr>pubsubs := \<lparr>sub_id = pubsub_next_id b, sub_topic = topic, sub_handler = handler, sub_active = True,
              sub_calls = 0\<rparr> # pubsubs b, pubsub_next_id := pubsub_next_id b + 1\<rparr>))"

text \<open>The first section of \<open>nv_core_pubsub_publish\<close>: it collects the active subscriptions of the topic and counts the calls.
  The data are those left after the cut to \<open>NV_PUBSUB_DATA_MAX\<close> bytes.\<close>

definition matching :: "cstring \<Rightarrow> 'd bus \<Rightarrow> nv_core_pubsub_t list" where
  "matching topic b = filter (\<lambda>s. sub_active s \<and> sub_topic s = topic) (pubsubs b)"

definition publish_section :: "bool \<Rightarrow> cstring \<Rightarrow> 'd \<Rightarrow> nat \<Rightarrow> 'd bus \<Rightarrow> int \<times> 'd bus" where
  "publish_section alloc_ok topic d i b =
     (if topic = [] \<or> matching topic b \<noteq> [] \<and> \<not> alloc_ok then (NV_ERROR, b)
      else (NV_OK, set_act i (Calling (map sub_id (matching topic b)) d)
             (b\<lparr>pubsubs := map (\<lambda>s. if sub_active s \<and> sub_topic s = topic then s\<lparr>sub_calls := sub_calls s + 1\<rparr> else s) (pubsubs b)\<rparr>)))"

fun wake :: "'d activation \<Rightarrow> 'd activation" where
  "wake (Waiting k) = Woken k"
| "wake (InHandler ks d k _) = InHandler ks d k True"
| "wake a = a"

text \<open>A handler returns: the section after the call.\<close>

definition call_returned :: "nat \<Rightarrow> 'd bus \<Rightarrow> 'd bus" where
  "call_returned i b =
     (case acts b ! i of
        Calling (k # ks) d \<Rightarrow>
          (let b = upd_sub k (\<lambda>s. s\<lparr>sub_calls := sub_calls s - 1\<rparr>) b in
           b\<lparr>acts := map wake ((acts b)[i := Calling ks d]), delivered := delivered b @ [(k, d)]\<rparr>)
      | _ \<Rightarrow> b)"

text \<open>The loop of \<open>nv_core_pubsub_unsubscribe\<close>: it is left when no call is running.\<close>

definition wait_calls :: "nat \<Rightarrow> 'd activation \<Rightarrow> 'd activation \<Rightarrow> nat \<Rightarrow> 'd bus \<Rightarrow> 'd bus" where
  "wait_calls k waiting left i b =
     (case sub_of b k of None \<Rightarrow> b
      | Some s \<Rightarrow> set_act i (if sub_calls s > 0 then waiting else left) b)"

definition nv_core_pubsub_unsubscribe :: "nat \<Rightarrow> 'd activation \<Rightarrow> 'd activation \<Rightarrow> nat \<Rightarrow> 'd bus \<Rightarrow> 'd bus" where
  "nv_core_pubsub_unsubscribe k waiting left i b = wait_calls k waiting left i (upd_sub k (\<lambda>s. s\<lparr>sub_active := False\<rparr>) b)"

datatype 'd bus_act = Subscribe cstring nat | Publish cstring 'd | Return_call nat | Unsubscribe nat | Wake nat | Nested nat nat

inductive bus_step :: "'d bus \<Rightarrow> 'd bus_act \<Rightarrow> 'd bus \<Rightarrow> bool" where
  bus_subscribe: "nv_core_pubsub_subscribe ok topic h b = (rc, b') \<Longrightarrow> bus_step b (Subscribe topic h) b'"
| bus_publish: "publish_section ok topic d (length (acts b)) (b\<lparr>acts := acts b @ [Done]\<rparr>) = (rc, b') \<Longrightarrow> bus_step b (Publish topic d) b'"
| bus_return: "i < length (acts b) \<Longrightarrow> acts b ! i = Calling (k # ks) d \<Longrightarrow> bus_step b (Return_call i) (call_returned i b)"
| bus_unsubscribe: "sub_of b k \<noteq> None \<Longrightarrow>
    bus_step b (Unsubscribe k) (nv_core_pubsub_unsubscribe k (Waiting k) (Unsubscribed k) (length (acts b)) (b\<lparr>acts := acts b @ [Done]\<rparr>))"
| bus_wake: "i < length (acts b) \<Longrightarrow> acts b ! i = Woken k \<Longrightarrow>
    bus_step b (Wake i) (wait_calls k (Waiting k) (Unsubscribed k) i b)"
| bus_nested: "i < length (acts b) \<Longrightarrow> acts b ! i = Calling (k # ks) d \<Longrightarrow> sub_of b k' \<noteq> None \<Longrightarrow>
    bus_step b (Nested i k') (nv_core_pubsub_unsubscribe k' (InHandler (k # ks) d k' False) (Calling (k # ks) d) i b)"
| bus_nested_wake: "i < length (acts b) \<Longrightarrow> acts b ! i = InHandler ks d k' True \<Longrightarrow>
    bus_step b (Wake i) (wait_calls k' (InHandler ks d k' False) (Calling ks d) i b)"

inductive_cases bus_stepE: "bus_step b a b'"

definition bus_start :: "'d bus \<Rightarrow> bool" where
  "bus_start b \<longleftrightarrow> pubsubs b = [] \<and> acts b = [] \<and> delivered b = []"

section \<open>The invariant\<close>

fun pending :: "'d activation \<Rightarrow> nat list" where
  "pending (Calling ks d) = ks"
| "pending (InHandler ks d k w) = ks"
| "pending _ = []"

definition calls_to :: "nat \<Rightarrow> 'd activation list \<Rightarrow> nat" where
  "calls_to k as = (\<Sum>a\<leftarrow>as. count_list (pending a) k)"

fun act_ok :: "'d bus \<Rightarrow> 'd activation \<Rightarrow> bool" where
  "act_ok b (Waiting k) = (\<exists>s. sub_of b k = Some s \<and> \<not> sub_active s \<and> sub_calls s > 0)"
| "act_ok b (Woken k) = (\<exists>s. sub_of b k = Some s \<and> \<not> sub_active s)"
| "act_ok b (Unsubscribed k) = (\<exists>s. sub_of b k = Some s \<and> \<not> sub_active s \<and> sub_calls s = 0)"
| "act_ok b (InHandler ks d k w) = (\<exists>s. sub_of b k = Some s \<and> \<not> sub_active s \<and> (w \<or> sub_calls s > 0))"
| "act_ok b _ = True"

definition calls_ok :: "'d bus \<Rightarrow> nat \<Rightarrow> bool" where
  "calls_ok b k \<longleftrightarrow> int (calls_to k (acts b)) = (case sub_of b k of None \<Rightarrow> 0 | Some s \<Rightarrow> sub_calls s)"

definition ids_ok :: "'d bus \<Rightarrow> bool" where
  "ids_ok b \<longleftrightarrow> distinct (map sub_id (pubsubs b)) \<and> (\<forall>s \<in> set (pubsubs b). sub_id s < pubsub_next_id b)"

definition bus_inv :: "'d bus \<Rightarrow> bool" where
  "bus_inv b \<longleftrightarrow> ids_ok b \<and> (\<forall>k. calls_ok b k) \<and> (\<forall>a \<in> set (acts b). act_ok b a)"

lemma sub_of_id: "sub_of b k = Some s \<Longrightarrow> sub_id s = k"
  by (auto simp: sub_of_def find_Some_iff)

lemma find_map: "(\<And>x. P (f x) = P x) \<Longrightarrow> find P (map f xs) = map_option f (find P xs)"
  by (induction xs) auto

lemma sub_of_upd: "(\<And>s. sub_id (f s) = sub_id s) \<Longrightarrow> sub_of (upd_sub k f b) k' = (if k' = k then map_option f (sub_of b k) else sub_of b k')"
proof -
  assume f: "\<And>s. sub_id (f s) = sub_id s"
  have "sub_of (upd_sub k f b) k' = map_option (\<lambda>s. if sub_id s = k then f s else s) (sub_of b k')"
    unfolding sub_of_def upd_sub_def by (simp add: find_map f)
  also have "\<dots> = (if k' = k then map_option f (sub_of b k) else sub_of b k')"
    using sub_of_id[of b k'] by (cases "sub_of b k'") auto
  finally show ?thesis .
qed

lemma ids_ok_map:
  assumes "pubsubs b' = map f (pubsubs b)" "pubsub_next_id b' = pubsub_next_id b" "\<And>s. sub_id (f s) = sub_id s"
  shows "ids_ok b' = ids_ok b"
proof -
  have "sub_id \<circ> f = sub_id" using assms(3) by auto
  then show ?thesis using assms by (simp add: ids_ok_def)
qed

lemma calls_to_simps [simp]:
  "calls_to k [] = 0" "calls_to k (a # as) = count_list (pending a) k + calls_to k as"
  "calls_to k (as @ bs) = calls_to k as + calls_to k bs"
  by (simp_all add: calls_to_def)

lemma calls_to_update: "i < length as \<Longrightarrow>
    calls_to k (as[i := a]) + count_list (pending (as ! i)) k = calls_to k as + count_list (pending a) k"
  by (induction as arbitrary: i) (auto simp: nth_Cons split: nat.splits)

lemma pending_wake [simp]: "pending (wake a) = pending a"
  by (cases a) auto

lemma calls_to_wake [simp]: "calls_to k (map wake as) = calls_to k as"
  by (simp add: calls_to_def comp_def)

lemma calls_to_member: "a \<in> set as \<Longrightarrow> k \<in> set (pending a) \<Longrightarrow> calls_to k as > 0"
  by (induction as) (auto simp: count_list_0_iff simp flip: neq0_conv)

lemma calls_to_obtain: "calls_to k as > 0 \<Longrightarrow> \<exists>a \<in> set as. k \<in> set (pending a)"
  by (induction as) (auto simp: count_list_0_iff dest: gr_implies_not0)

text \<open>Whether an activation is in order depends on the subscriptions only.\<close>

lemma act_ok_cong: "sub_of b' = sub_of b \<Longrightarrow> act_ok b' a = act_ok b a"
  by (cases a) auto

lemma act_ok_mono:
  assumes "act_ok b a" "\<And>k s. sub_of b k = Some s \<Longrightarrow> \<not> sub_active s \<Longrightarrow>
    \<exists>s'. sub_of b' k = Some s' \<and> \<not> sub_active s' \<and> sub_calls s' = sub_calls s"
  shows "act_ok b' a"
  using assms by (cases a) (auto, metis+)

lemma sub_of_acts [simp]: "sub_of (b\<lparr>acts := as\<rparr>) = sub_of b" "sub_of (b\<lparr>delivered := ds\<rparr>) = sub_of b"
  by (rule ext, simp add: sub_of_def)+

lemma ids_ok_acts [simp]: "ids_ok (b\<lparr>acts := as\<rparr>) = ids_ok b" "ids_ok (b\<lparr>delivered := ds\<rparr>) = ids_ok b"
  by (simp_all add: ids_ok_def)

lemma act_ok_acts [simp]: "act_ok (b\<lparr>acts := as\<rparr>) a = act_ok b a" "act_ok (b\<lparr>delivered := ds\<rparr>) a = act_ok b a"
  by (rule act_ok_cong, simp)+

lemma inv_set_acts:
  assumes "bus_inv b" "\<And>k. calls_to k as = calls_to k (acts b)" "\<And>a. a \<in> set as \<Longrightarrow> act_ok b a"
  shows "bus_inv (b\<lparr>acts := as\<rparr>)"
  using assms by (simp add: bus_inv_def calls_ok_def)

lemma inv_done: "bus_inv b \<Longrightarrow> bus_inv (b\<lparr>acts := acts b @ [Done]\<rparr>)"
  by (rule inv_set_acts) (auto simp: bus_inv_def)

lemma inv_subscribe:
  assumes "bus_inv b" "nv_core_pubsub_subscribe ok topic h b = (rc, b')"
  shows "bus_inv b'"
proof (cases "topic = [] \<or> \<not> ok")
  case True
  then show ?thesis using assms by (simp add: nv_core_pubsub_subscribe_def)
next
  case False
  let ?n = "pubsub_next_id b"
  have none: "sub_of b ?n = None" using assms(1) by (auto simp: bus_inv_def ids_ok_def sub_of_def find_None_iff)
  have b': "pubsubs b' = \<lparr>sub_id = ?n, sub_topic = topic, sub_handler = h, sub_active = True, sub_calls = 0\<rparr> # pubsubs b"
      "acts b' = acts b" "pubsub_next_id b' = ?n + 1"
    using assms(2) False by (auto simp: nv_core_pubsub_subscribe_def)
  have s: "sub_of b' k = (if k = ?n then Some \<lparr>sub_id = ?n, sub_topic = topic, sub_handler = h, sub_active = True, sub_calls = 0\<rparr>
      else sub_of b k)" for k
    by (auto simp: sub_of_def b')
  have old: "calls_ok b k" for k using assms(1) by (simp add: bus_inv_def)
  have "calls_ok b' k" for k using old[of k] old[of ?n] none by (auto simp: calls_ok_def s b' split: option.splits)
  moreover have "act_ok b' a" if "a \<in> set (acts b)" for a
  proof (rule act_ok_mono)
    show "act_ok b a" using assms(1) that by (simp add: bus_inv_def)
    show "\<exists>s'. sub_of b' k = Some s' \<and> \<not> sub_active s' \<and> sub_calls s' = sub_calls x"
      if "sub_of b k = Some x" "\<not> sub_active x" for k x
      using that none by (cases "k = ?n") (simp_all add: s)
  qed
  moreover have "ids_ok b'" using assms(1) by (auto simp: bus_inv_def ids_ok_def b')
  ultimately show ?thesis by (simp add: bus_inv_def b')
qed

lemma count_matching: "distinct (map sub_id ss) \<Longrightarrow> count_list (map sub_id (filter P ss)) k =
    (case find (\<lambda>s. sub_id s = k) ss of None \<Rightarrow> 0 | Some s \<Rightarrow> if P s then 1 else 0)"
  by (induction ss) (auto simp: count_list_0_iff image_iff split: option.splits)

lemma inv_publish:
  assumes "bus_inv b" "publish_section ok topic d (length (acts b)) (b\<lparr>acts := acts b @ [Done]\<rparr>) = (rc, b')"
  shows "bus_inv b'"
proof (cases "topic = [] \<or> matching topic b \<noteq> [] \<and> \<not> ok")
  case True
  then have "b' = b\<lparr>acts := acts b @ [Done]\<rparr>"
    using assms(2) by (auto simp: publish_section_def matching_def)
  then show ?thesis using inv_done[OF assms(1)] by simp
next
  case False
  let ?f = "\<lambda>s. if sub_active s \<and> sub_topic s = topic then s\<lparr>sub_calls := sub_calls s + 1\<rparr> else s"
  have b': "pubsubs b' = map ?f (pubsubs b)" "acts b' = acts b @ [Calling (map sub_id (matching topic b)) d]"
      "pubsub_next_id b' = pubsub_next_id b"
    using assms(2) False by (auto simp: publish_section_def set_act_def matching_def)
  have s: "sub_of b' k = map_option ?f (sub_of b k)" for k
    unfolding sub_of_def b' by (rule find_map) simp
  have dist: "distinct (map sub_id (pubsubs b))" using assms(1) by (simp add: bus_inv_def ids_ok_def)
  have c: "count_list (map sub_id (matching topic b)) k =
      (case sub_of b k of None \<Rightarrow> 0 | Some s \<Rightarrow> if sub_active s \<and> sub_topic s = topic then 1 else 0)" for k
    unfolding matching_def sub_of_def by (rule count_matching[OF dist])
  have "calls_ok b' k" for k
  proof -
    have "calls_ok b k" using assms(1) by (simp add: bus_inv_def)
    then show ?thesis using c[of k] by (auto simp: calls_ok_def s b' split: option.splits)
  qed
  moreover have "act_ok b' a" if "a \<in> set (acts b')" for a
    using that assms(1) by (auto simp: b' bus_inv_def s intro: act_ok_mono[of b])
  moreover have "ids_ok b' = ids_ok b" by (rule ids_ok_map[OF b'(1,3)]) simp
  ultimately show ?thesis using assms(1) by (simp add: bus_inv_def)
qed

lemma inv_wait_calls:
  assumes "bus_inv b" "i < length (acts b)" "sub_of b k = Some s"
    and "pending waiting = pending (acts b ! i)" "pending left = pending (acts b ! i)"
    and "sub_calls s > 0 \<Longrightarrow> act_ok b waiting" "sub_calls s = 0 \<Longrightarrow> act_ok b left"
  shows "bus_inv (wait_calls k waiting left i b)"
proof -
  have "calls_ok b k" using assms(1) by (simp add: bus_inv_def)
  then have "sub_calls s \<ge> 0" using assms(3) by (simp add: calls_ok_def)
  let ?a = "if sub_calls s > 0 then waiting else left"
  have "calls_to k' ((acts b)[i := ?a]) = calls_to k' (acts b)" for k'
    using calls_to_update[OF assms(2), of k' ?a] assms(4,5) by (simp split: if_splits)
  moreover have "act_ok b ?a" using assms(6,7) \<open>sub_calls s \<ge> 0\<close> by auto
  ultimately have "bus_inv (b\<lparr>acts := (acts b)[i := ?a]\<rparr>)"
    using assms(1) by (intro inv_set_acts) (auto simp: bus_inv_def dest!: set_updateD)
  then show ?thesis using assms(3) by (simp add: wait_calls_def set_act_def)
qed

lemma inv_deactivate:
  assumes "bus_inv b"
  shows "bus_inv (upd_sub k (\<lambda>s. s\<lparr>sub_active := False\<rparr>) b)"
proof -
  let ?b = "upd_sub k (\<lambda>s. s\<lparr>sub_active := False\<rparr>) b"
  have s: "sub_of ?b k' = (if k' = k then map_option (\<lambda>s. s\<lparr>sub_active := False\<rparr>) (sub_of b k) else sub_of b k')" for k'
    by (rule sub_of_upd) simp
  have a: "acts ?b = acts b" by (simp add: upd_sub_def)
  have ids: "ids_ok ?b = ids_ok b"
    by (rule ids_ok_map[of _ "\<lambda>s. if sub_id s = k then s\<lparr>sub_active := False\<rparr> else s"]) (simp_all add: upd_sub_def)
  have "calls_ok ?b k'" for k'
  proof -
    have "calls_ok b k'" using assms by (simp add: bus_inv_def)
    then show ?thesis by (auto simp: calls_ok_def s a split: option.splits)
  qed
  moreover have "act_ok ?b x" if "x \<in> set (acts b)" for x
  proof (rule act_ok_mono)
    show "act_ok b x" using assms that by (simp add: bus_inv_def)
    show "\<exists>s'. sub_of ?b k' = Some s' \<and> \<not> sub_active s' \<and> sub_calls s' = sub_calls y"
      if "sub_of b k' = Some y" "\<not> sub_active y" for k' y
      using that by (cases "k' = k") (auto simp: s)
  qed
  ultimately show ?thesis using assms by (simp add: bus_inv_def a ids)
qed

lemma inv_return:
  assumes "bus_inv b" "i < length (acts b)" "acts b ! i = Calling (k # ks) d"
  shows "bus_inv (call_returned i b)"
proof -
  let ?b = "upd_sub k (\<lambda>s. s\<lparr>sub_calls := sub_calls s - 1\<rparr>) b"
  let ?as = "map wake ((acts b)[i := Calling ks d])"
  have r: "call_returned i b = ?b\<lparr>acts := ?as, delivered := delivered b @ [(k, d)]\<rparr>"
    using assms(3) by (simp add: call_returned_def upd_sub_def Let_def)
  have s: "sub_of ?b k' = (if k' = k then map_option (\<lambda>s. s\<lparr>sub_calls := sub_calls s - 1\<rparr>) (sub_of b k) else sub_of b k')" for k'
    by (rule sub_of_upd) simp
  have "ids_ok ?b = ids_ok b"
    by (rule ids_ok_map[of _ "\<lambda>s. if sub_id s = k then s\<lparr>sub_calls := sub_calls s - 1\<rparr> else s"]) (simp_all add: upd_sub_def)
  then have ids: "ids_ok ?b" using assms(1) by (simp add: bus_inv_def)
  have pos: "calls_to k (acts b) > 0" using assms(2,3) nth_mem[OF assms(2)] by (intro calls_to_member[of "acts b ! i"]) auto
  have c: "calls_to k' ((acts b)[i := Calling ks d]) = calls_to k' (acts b) - (if k' = k then 1 else 0)" for k'
    using calls_to_update[OF assms(2), of k' "Calling ks d"] assms(3) pos by (auto split: if_splits)
  have "calls_ok (call_returned i b) k'" for k'
  proof -
    have "calls_ok b k'" using assms(1) by (simp add: bus_inv_def)
    then show ?thesis using pos by (auto simp: calls_ok_def r s c split: option.splits)
  qed
  moreover have "act_ok ?b (wake a)" if "a \<in> set (acts b)" for a
  proof -
    have ok: "act_ok b a" and "calls_ok b k" using assms(1) that by (auto simp: bus_inv_def)
    then show ?thesis using pos by (cases a) (auto simp: s calls_ok_def split: if_splits)
  qed
  ultimately show ?thesis using ids by (auto simp: bus_inv_def r dest!: set_updateD)
qed

lemma inv_unsubscribe:
  assumes "bus_inv b" "i < length (acts b)" "sub_of b k \<noteq> None"
    and "pending waiting = pending (acts b ! i)" "pending left = pending (acts b ! i)"
    and "\<And>b' s. sub_of b' k = Some s \<Longrightarrow> \<not> sub_active s \<Longrightarrow> sub_calls s > 0 \<Longrightarrow> act_ok b' waiting"
    and "\<And>b' s. sub_of b' k = Some s \<Longrightarrow> \<not> sub_active s \<Longrightarrow> sub_calls s = 0 \<Longrightarrow> act_ok b' left"
  shows "bus_inv (nv_core_pubsub_unsubscribe k waiting left i b)"
proof -
  let ?b = "upd_sub k (\<lambda>s. s\<lparr>sub_active := False\<rparr>) b"
  obtain s0 where s0: "sub_of b k = Some s0" using assms(3) by blast
  have s: "sub_of ?b k = Some (s0\<lparr>sub_active := False\<rparr>)" using sub_of_upd[of "\<lambda>s. s\<lparr>sub_active := False\<rparr>" k b k] s0 by simp
  have a: "acts ?b = acts b" by (simp add: upd_sub_def)
  show ?thesis
    unfolding nv_core_pubsub_unsubscribe_def
    using inv_wait_calls[OF inv_deactivate[OF assms(1)] _ s] assms(2,4,5) assms(6,7)[OF s] by (simp add: a)
qed

lemma bus_start_inv: "bus_start b \<Longrightarrow> bus_inv b"
  by (auto simp: bus_start_def bus_inv_def ids_ok_def calls_ok_def sub_of_def)

lemma bus_step_inv:
  assumes "bus_step b a b'" "bus_inv b"
  shows "bus_inv b'"
  using assms
proof (cases rule: bus_step.cases)
  case bus_subscribe
  show ?thesis by (rule inv_subscribe[OF assms(2) bus_subscribe(2)])
next
  case bus_publish
  show ?thesis by (rule inv_publish[OF assms(2) bus_publish(2)])
next
  case bus_return
  then show ?thesis using inv_return[OF assms(2)] by blast
next
  case (bus_unsubscribe k)
  then show ?thesis using inv_done[OF assms(2)] by (auto intro!: inv_unsubscribe)
next
  case (bus_wake i k)
  then obtain s where "sub_of b k = Some s" "\<not> sub_active s" using assms(2) nth_mem[of i "acts b"] by (force simp: bus_inv_def)
  then show ?thesis using bus_wake assms(2) by (auto intro!: inv_wait_calls)
next
  case bus_nested
  then show ?thesis using assms(2) by (auto intro!: inv_unsubscribe)
next
  case (bus_nested_wake i ks d k)
  then obtain s where "sub_of b k = Some s" "\<not> sub_active s" using assms(2) nth_mem[of i "acts b"] by (force simp: bus_inv_def)
  then show ?thesis using bus_nested_wake assms(2) by (auto intro!: inv_wait_calls)
qed

interpretation bus: step_invariant bus_start bus_step bus_inv
  by unfold_locales (auto intro: bus_start_inv bus_step_inv)

text \<open>C9.  When an unsubscription has returned, no handler of that subscription is running or will still be called, whatever
  publications ran at the same time.\<close>
theorem nv_core_pubsub_unsubscribed_is_quiet:
  assumes "reach bus_start bus_step b" "Unsubscribed k \<in> set (acts b)" "a \<in> set (acts b)"
  shows "k \<notin> set (pending a)"
proof
  assume "k \<in> set (pending a)"
  then have "calls_to k (acts b) > 0" using assms(3) by (simp add: calls_to_member)
  moreover have "act_ok b (Unsubscribed k)" "calls_ok b k" using bus.reach_inv[OF assms(1)] assms(2) by (auto simp: bus_inv_def)
  ultimately show False by (auto simp: calls_ok_def)
qed

text \<open>C28.  No wakeup is lost in an unsubscription: as long as it waits, a call of a handler of this subscription is still to return, and its
  return wakes the unsubscription.\<close>
theorem nv_core_pubsub_no_lost_wakeup:
  assumes "reach bus_start bus_step b" "Waiting k \<in> set (acts b)"
  shows "\<exists>a \<in> set (acts b). k \<in> set (pending a)"
proof -
  have "act_ok b (Waiting k)" "calls_ok b k" using bus.reach_inv[OF assms(1)] assms(2) by (auto simp: bus_inv_def)
  then show ?thesis by (intro calls_to_obtain) (auto simp: calls_ok_def)
qed

text \<open>A handler that unsubscribes itself.\<close>

definition hung :: "nat \<Rightarrow> nat \<Rightarrow> nat list \<Rightarrow> 'd \<Rightarrow> 'd bus \<Rightarrow> bool" where
  "hung i k ks d b \<longleftrightarrow> bus_inv b \<and> i < length (acts b) \<and> (\<exists>w. acts b ! i = InHandler (k # ks) d k w)"

lemma hung_calls: "hung i k ks d b \<Longrightarrow> sub_of b k = Some s \<Longrightarrow> sub_calls s > 0"
proof -
  assume h: "hung i k ks d b" and s: "sub_of b k = Some s"
  then obtain w where "acts b ! i = InHandler (k # ks) d k w" "i < length (acts b)" by (auto simp: hung_def)
  then have "InHandler (k # ks) d k w \<in> set (acts b)" by (metis nth_mem)
  then have "calls_to k (acts b) > 0" by (rule calls_to_member) simp
  moreover have "calls_ok b k" using h by (simp add: hung_def bus_inv_def)
  ultimately show ?thesis using s by (simp add: calls_ok_def)
qed

lemma act_frames:
  "acts (upd_sub k f b) = acts b"
  "sub_of b k = Some s \<Longrightarrow> acts (wait_calls k waiting left i b) = (acts b)[i := (if sub_calls s > 0 then waiting else left)]"
  by (simp_all add: upd_sub_def wait_calls_def set_act_def)

lemma unsubscribe_acts: "sub_of b k \<noteq> None \<Longrightarrow>
    \<exists>a \<in> {waiting, left}. acts (nv_core_pubsub_unsubscribe k waiting left i b) = (acts b)[i := a]"
  using sub_of_upd[of "\<lambda>s. s\<lparr>sub_active := False\<rparr>" k b k]
  by (auto simp: nv_core_pubsub_unsubscribe_def act_frames)

lemma hung_step:
  assumes "bus_step b a b'" "hung i k ks d b"
  shows "hung i k ks d b'"
proof -
  have inv: "bus_inv b'" using bus_step_inv[OF assms(1)] assms(2) by (simp add: hung_def)
  obtain w where w: "i < length (acts b)" "acts b ! i = InHandler (k # ks) d k w" using assms(2) by (auto simp: hung_def)
  have "i < length (acts b') \<and> (\<exists>w. acts b' ! i = InHandler (k # ks) d k w)"
    using assms(1)
  proof (cases rule: bus_step.cases)
    case bus_subscribe
    then show ?thesis using w by (auto simp: nv_core_pubsub_subscribe_def split: if_splits)
  next
    case bus_publish
    then show ?thesis using w by (auto simp: publish_section_def set_act_def nth_append split: if_splits)
  next
    case (bus_return j k' ks' d')
    then show ?thesis using w by (cases "j = i") (auto simp: call_returned_def act_frames Let_def)
  next
    case (bus_unsubscribe k')
    then show ?thesis
      using w unsubscribe_acts[of "b\<lparr>acts := acts b @ [Done]\<rparr>" k' "Waiting k'" "Unsubscribed k'" "length (acts b)"]
      by (auto simp: nth_append)
  next
    case (bus_wake j k')
    then show ?thesis using w by (cases "j = i") (auto simp: wait_calls_def set_act_def split: option.splits)
  next
    case (bus_nested j k1 ks1 d1 k')
    then show ?thesis
      using w unsubscribe_acts[of b k' "InHandler (k1 # ks1) d1 k' False" "Calling (k1 # ks1) d1" j] by (cases "j = i") auto
  next
    case (bus_nested_wake j ks1 d1 k')
    then show ?thesis
      using w hung_calls[OF assms(2)] by (cases "j = i") (auto simp: wait_calls_def set_act_def split: option.splits)
  qed
  then show ?thesis using inv by (simp add: hung_def)
qed

interpretation hang: step_invariant "hung i k ks d" bus_step "hung i k ks d" for i k ks d
  by unfold_locales (auto intro: hung_step)

text \<open>A handler that unsubscribes its own subscription never returns: it waits for the calls of this subscription to end, and its own call
  is one of them.  No sequence of steps gets it out of this wait.\<close>
theorem nv_core_pubsub_self_unsubscribe_hangs:
  assumes "reach bus_start bus_step b" "i < length (acts b)" "acts b ! i = InHandler (k # ks) d k w" "steps bus_step b as b'"
  shows "\<exists>w. acts b' ! i = InHandler (k # ks) d k w"
proof -
  have "hung i k ks d b" using bus.reach_inv[OF assms(1)] assms(2,3) by (simp add: hung_def)
  from hang.steps_inv[OF assms(4) this] show ?thesis by (simp add: hung_def)
qed

lemma returns_deliver:
  assumes "i < length (acts b)" "acts b ! i = Calling ks d"
  shows "acts ((call_returned i ^^ length ks) b) ! i = Calling [] d \<and>
    delivered ((call_returned i ^^ length ks) b) = delivered b @ map (\<lambda>k. (k, d)) ks"
  using assms
proof (induction ks arbitrary: b)
  case (Cons k ks)
  have "acts (call_returned i b) ! i = Calling ks d" "i < length (acts (call_returned i b))"
      "delivered (call_returned i b) = delivered b @ [(k, d)]"
    using Cons.prems by (simp_all add: call_returned_def upd_sub_def Let_def)
  then show ?case using Cons.IH[of "call_returned i b"] by (simp add: funpow_swap1)
qed simp

text \<open>A publication calls the handler of every active subscription of its topic exactly once, the newest subscription first.\<close>
theorem nv_core_pubsub_publish_delivers:
  assumes "publish_section ok topic d (length (acts b)) (b\<lparr>acts := acts b @ [Done]\<rparr>) = (NV_OK, b')"
  shows "delivered ((call_returned (length (acts b)) ^^ length (matching topic b)) b') =
    delivered b @ map (\<lambda>s. (sub_id s, d)) (matching topic b)"
proof -
  have "acts b' ! length (acts b) = Calling (map sub_id (matching topic b)) d" "length (acts b) < length (acts b')" "delivered b' = delivered b"
    using assms by (auto simp: publish_section_def set_act_def matching_def nv_codes split: if_splits)
  then show ?thesis using returns_deliver[of "length (acts b)" b' "map sub_id (matching topic b)" d] by (simp add: comp_def)
qed

section \<open>Sample runs\<close>

definition sample_bus :: "nat activation list \<Rightarrow> int \<Rightarrow> bool \<Rightarrow> nat bus" where
  "sample_bus as calls active =
     \<lparr>pubsubs = [\<lparr>sub_id = 1, sub_topic = ''t'', sub_handler = 0, sub_active = active, sub_calls = calls\<rparr>],
      pubsub_next_id = 2, acts = as, delivered = []\<rparr>"

lemmas sample_bus_defs = sample_bus_def sub_of_def upd_sub_def set_act_def matching_def wait_calls_def
  nv_core_pubsub_subscribe_def nv_core_pubsub_unsubscribe_def publish_section_def

lemma bus_subscribed: "reach bus_start bus_step (sample_bus [] 0 True)"
proof -
  let ?b = "\<lparr>pubsubs = [], pubsub_next_id = 1, acts = [], delivered = []\<rparr> :: nat bus"
  have r: "reach bus_start bus_step ?b" by (rule reach_start) (simp add: bus_start_def)
  have "nv_core_pubsub_subscribe True ''t'' 0 ?b = (NV_OK, sample_bus [] 0 True)" by (simp add: sample_bus_defs numeral_2_eq_2)
  then have "bus_step ?b (Subscribe ''t'' 0) (sample_bus [] 0 True)" by (rule bus_subscribe)
  from reach_step[OF r this] show ?thesis .
qed

lemma bus_published: "reach bus_start bus_step (sample_bus [Calling [1] 7] 1 True)"
proof (rule reach_step[OF bus_subscribed])
  show "bus_step (sample_bus [] 0 True) (Publish ''t'' 7) (sample_bus [Calling [1] 7] 1 True)"
    by (rule bus_publish[of True]) (simp add: sample_bus_defs)
qed

theorem nv_core_pubsub_publish_delivers_witness:
  "delivered ((call_returned 0 ^^ 1) (sample_bus [Calling [1] 7] 1 True)) = [(1, 7)]"
  using nv_core_pubsub_publish_delivers[of True "''t''" 7 "sample_bus [] 0 True" "sample_bus [Calling [1] 7] 1 True"]
  by (simp add: sample_bus_defs)

lemma bus_unsubscribed: "reach bus_start bus_step (sample_bus [Unsubscribed 1] 0 False)"
proof (rule reach_step[OF bus_subscribed])
  show "bus_step (sample_bus [] 0 True) (Unsubscribe 1) (sample_bus [Unsubscribed 1] 0 False)"
    using bus_unsubscribe[of "sample_bus [] 0 True" 1] by (simp add: sample_bus_defs)
qed

theorem nv_core_pubsub_unsubscribed_is_quiet_witness: "1 \<notin> set (pending (Unsubscribed 1 :: nat activation))"
  using nv_core_pubsub_unsubscribed_is_quiet[OF bus_unsubscribed, of 1 "Unsubscribed 1"] by (simp add: sample_bus_def)

lemma bus_waiting: "reach bus_start bus_step (sample_bus [Calling [1] 7, Waiting 1] 1 False)"
proof (rule reach_step[OF bus_published])
  show "bus_step (sample_bus [Calling [1] 7] 1 True) (Unsubscribe 1) (sample_bus [Calling [1] 7, Waiting 1] 1 False)"
    using bus_unsubscribe[of "sample_bus [Calling [1] 7] 1 True" 1] by (simp add: sample_bus_defs)
qed

theorem nv_core_pubsub_no_lost_wakeup_witness:
  "\<exists>a \<in> set (acts (sample_bus [Calling [1] 7, Waiting 1] 1 False)). 1 \<in> set (pending a)"
  by (rule nv_core_pubsub_no_lost_wakeup[OF bus_waiting]) (simp add: sample_bus_def)

theorem nv_core_pubsub_self_unsubscribe_hangs_witness:
  "\<exists>w. acts (sample_bus [InHandler [1] 7 1 False] 1 False) ! 0 = InHandler [1] 7 1 w"
proof -
  have "bus_step (sample_bus [Calling [1] 7] 1 True) (Nested 0 1) (sample_bus [InHandler [1] 7 1 False] 1 False)"
    using bus_nested[of 0 "sample_bus [Calling [1] 7] 1 True" 1 "[]" 7 1] by (simp add: sample_bus_defs)
  from reach_step[OF bus_published this] have r: "reach bus_start bus_step (sample_bus [InHandler [1] 7 1 False] 1 False)" .
  have "acts (sample_bus [InHandler [1] 7 1 False] 1 False) ! 0 = InHandler (1 # []) 7 1 False" by (simp add: sample_bus_def)
  from nv_core_pubsub_self_unsubscribe_hangs[OF r _ this steps_nil] show ?thesis by (simp add: sample_bus_def)
qed

section \<open>The broker of other processes\<close>

definition NV_PUBSUB_TOPIC_MAX :: nat where "NV_PUBSUB_TOPIC_MAX = 64"
definition NV_PUBSUB_DATA_MAX :: nat where "NV_PUBSUB_DATA_MAX = 512"
definition NV_PUBSUB_MAGIC :: nat where "NV_PUBSUB_MAGIC = 0x4e565053"

lemmas pubsub_max = NV_PUBSUB_TOPIC_MAX_def NV_PUBSUB_DATA_MAX_def

datatype nv_pubsub_op_t = NV_PUBSUB_OP_PUB | NV_PUBSUB_OP_SUB | NV_PUBSUB_OP_UNSUB

fun op_val :: "nv_pubsub_op_t \<Rightarrow> nat" where
  "op_val NV_PUBSUB_OP_PUB = 1"
| "op_val NV_PUBSUB_OP_SUB = 2"
| "op_val NV_PUBSUB_OP_UNSUB = 3"

record nv_pubsub_packet_t =
  pkt_magic :: nat
  pkt_op :: nat
  pkt_len :: nat
  pkt_topic :: "char list"
  pkt_data :: "char list"

record ipc_client =
  client_topic :: cstring
  client_addr :: nat

definition padded :: "nat \<Rightarrow> char list \<Rightarrow> char list" where
  "padded n s = s @ replicate (n - length s) CHR 0x00"

definition nv_pubsub_fill_packet :: "nv_pubsub_op_t \<Rightarrow> cstring \<Rightarrow> char list \<Rightarrow> nv_pubsub_packet_t" where
  "nv_pubsub_fill_packet op topic data =
     \<lparr>pkt_magic = NV_PUBSUB_MAGIC, pkt_op = op_val op, pkt_len = min (length data) NV_PUBSUB_DATA_MAX,
      pkt_topic = padded NV_PUBSUB_TOPIC_MAX (ctrunc NV_PUBSUB_TOPIC_MAX topic),
      pkt_data = padded NV_PUBSUB_DATA_MAX (take NV_PUBSUB_DATA_MAX data)\<rparr>"

fun nv_core_pubsub_remove_ipc_client :: "cstring \<Rightarrow> nat \<Rightarrow> ipc_client list \<Rightarrow> ipc_client list" where
  "nv_core_pubsub_remove_ipc_client topic addr [] = []"
| "nv_core_pubsub_remove_ipc_client topic addr (c # cs) =
     (if client_topic c = topic \<and> client_addr c = addr then cs else c # nv_core_pubsub_remove_ipc_client topic addr cs)"

definition nv_core_pubsub_add_ipc_client :: "bool \<Rightarrow> cstring \<Rightarrow> nat \<Rightarrow> ipc_client list \<Rightarrow> int \<times> ipc_client list" where
  "nv_core_pubsub_add_ipc_client alloc_ok topic addr cs =
     (let cs = nv_core_pubsub_remove_ipc_client topic addr cs in
      if \<not> alloc_ok then (NV_ERROR, cs)
      else (NV_OK, \<lparr>client_topic = ctrunc NV_PUBSUB_TOPIC_MAX topic, client_addr = addr\<rparr> # cs))"

text \<open>The packets that are sent, with the addresses they are sent to.\<close>

definition nv_core_pubsub_publish_ipc :: "int \<Rightarrow> cstring \<Rightarrow> char list \<Rightarrow> ipc_client list \<Rightarrow> (nat \<times> nv_pubsub_packet_t) list" where
  "nv_core_pubsub_publish_ipc fd topic data cs =
     (if fd < 0 then []
      else map (\<lambda>c. (client_addr c, nv_pubsub_fill_packet NV_PUBSUB_OP_PUB topic data)) (filter (\<lambda>c. client_topic c = topic) cs))"

text \<open>One round of the thread: \<open>None\<close> when the topic of the packet is not terminated and the code reads beyond it.  A publication is
  returned as the topic and the data that \<open>nv_core_pubsub_publish\<close> is called with.\<close>

definition nv_core_pubsub_ipc_receive ::
    "bool \<Rightarrow> nv_pubsub_packet_t \<Rightarrow> nat \<Rightarrow> ipc_client list \<Rightarrow> (ipc_client list \<times> (cstring \<times> char list) option) option" where
  "nv_core_pubsub_ipc_receive alloc_ok pkt peer cs =
     (if pkt_magic pkt \<noteq> NV_PUBSUB_MAGIC \<or> hd (pkt_topic pkt) = CHR 0x00 then Some (cs, None)
      else if CHR 0x00 \<notin> set (pkt_topic pkt) then None
      else
        (let len = min (pkt_len pkt) NV_PUBSUB_DATA_MAX; topic = cstr_of (pkt_topic pkt) in
         if pkt_op pkt = op_val NV_PUBSUB_OP_SUB then Some (snd (nv_core_pubsub_add_ipc_client alloc_ok topic peer cs), None)
         else if pkt_op pkt = op_val NV_PUBSUB_OP_UNSUB then Some (nv_core_pubsub_remove_ipc_client topic peer cs, None)
         else if pkt_op pkt = op_val NV_PUBSUB_OP_PUB then Some (cs, Some (topic, take len (pkt_data pkt)))
         else Some (cs, None)))"

text \<open>What a client does with a received packet in \<open>nv_core_pubsub_client_subscribe\<close>: the data its handler gets.\<close>

definition nv_core_pubsub_client_receive :: "cstring \<Rightarrow> nv_pubsub_packet_t \<Rightarrow> (cstring \<times> char list) option" where
  "nv_core_pubsub_client_receive topic pkt =
     (if pkt_magic pkt = NV_PUBSUB_MAGIC \<and> pkt_op pkt = op_val NV_PUBSUB_OP_PUB \<and> cstr_of (pkt_topic pkt) = topic
      then Some (cstr_of (pkt_topic pkt), take (min (pkt_len pkt) NV_PUBSUB_DATA_MAX) (pkt_data pkt)) else None)"

definition nv_core_pubsub_client_publish :: "int \<Rightarrow> bool \<Rightarrow> cstring \<Rightarrow> char list \<Rightarrow> int \<times> nv_pubsub_packet_t option" where
  "nv_core_pubsub_client_publish fd send_ok topic data =
     (if topic = [] \<or> fd < 0 then (NV_ERROR, None)
      else (if send_ok then NV_OK else NV_ERROR, Some (nv_pubsub_fill_packet NV_PUBSUB_OP_PUB topic data)))"

text \<open>The packets received until the client is told to stop, the calls of its handler, and the packets it sends.\<close>

definition nv_core_pubsub_client_subscribe ::
    "int \<Rightarrow> bool \<Rightarrow> cstring \<Rightarrow> nv_pubsub_packet_t list \<Rightarrow> int \<times> (cstring \<times> char list) list \<times> nv_pubsub_packet_t list" where
  "nv_core_pubsub_client_subscribe fd send_ok topic received =
     (if topic = [] \<or> fd < 0 then (NV_ERROR, [], [])
      else if \<not> send_ok then (NV_ERROR, [], [nv_pubsub_fill_packet NV_PUBSUB_OP_SUB topic []])
      else (NV_OK, List.map_filter (nv_core_pubsub_client_receive topic) received,
            [nv_pubsub_fill_packet NV_PUBSUB_OP_SUB topic [], nv_pubsub_fill_packet NV_PUBSUB_OP_UNSUB topic []]))"

section \<open>Starting and stopping\<close>

text \<open>The flags of the context that belong to the bus; \<open>socket_fd\<close> is the new socket, and the other arguments are the results of \<open>bind\<close>,
  \<open>pthread_create\<close>, \<open>pthread_mutex_init\<close> and \<open>pthread_cond_init\<close>.\<close>

record pubsub_server =
  pubsub_inited :: bool
  pubsub_ipc_fd :: int
  pubsub_ipc_running :: bool
  pubsub_ipc_thread_started :: bool
  pubsub_ipc_clients :: "ipc_client list"

definition nv_core_pubsub_start_ipc :: "int \<Rightarrow> bool \<Rightarrow> bool \<Rightarrow> pubsub_server \<Rightarrow> int \<times> pubsub_server" where
  "nv_core_pubsub_start_ipc socket_fd bind_ok create_ok p =
     (if pubsub_ipc_thread_started p then (NV_OK, p)
      else if socket_fd < 0 \<or> \<not> bind_ok then (NV_ERROR, p)
      else if \<not> create_ok then (NV_ERROR, p\<lparr>pubsub_ipc_fd := -1, pubsub_ipc_running := False\<rparr>)
      else (NV_OK, p\<lparr>pubsub_ipc_fd := socket_fd, pubsub_ipc_running := True, pubsub_ipc_thread_started := True\<rparr>))"

definition nv_core_pubsub_init ::
    "bool \<Rightarrow> bool \<Rightarrow> int \<Rightarrow> bool \<Rightarrow> bool \<Rightarrow> pubsub_server \<times> 'd bus \<Rightarrow> int \<times> pubsub_server \<times> 'd bus" where
  "nv_core_pubsub_init mutex_ok cond_ok socket_fd bind_ok create_ok pb =
     (case pb of (p, b) \<Rightarrow>
        if pubsub_inited p then (NV_OK, p, b)
        else if \<not> mutex_ok \<or> \<not> cond_ok then (NV_ERROR, p, b)
        else (NV_OK, snd (nv_core_pubsub_start_ipc socket_fd bind_ok create_ok (p\<lparr>pubsub_inited := True, pubsub_ipc_fd := -1\<rparr>)),
              b\<lparr>pubsub_next_id := 1\<rparr>))"

text \<open>The cleanup waits until no handler runs any more: \<open>None\<close> as long as one does.\<close>

definition nv_core_pubsub_cleanup :: "pubsub_server \<times> 'd bus \<Rightarrow> (pubsub_server \<times> 'd bus) option" where
  "nv_core_pubsub_cleanup pb =
     (case pb of (p, b) \<Rightarrow>
        if \<not> pubsub_inited p then Some (p, b)
        else if list_ex (\<lambda>s. sub_calls s > 0) (pubsubs b) then None
        else Some (p\<lparr>pubsub_inited := False, pubsub_ipc_running := False, pubsub_ipc_fd := -1, pubsub_ipc_thread_started := False,
                     pubsub_ipc_clients := []\<rparr>,
                   b\<lparr>pubsubs := [], pubsub_next_id := 0\<rparr>))"

text \<open>The cleanup frees no subscription whose handler still runs.\<close>

lemma cleanup_quiet:
  assumes "bus_inv b" "pubsub_inited p" "nv_core_pubsub_cleanup (p, b) = Some (p', b')" "a \<in> set (acts b)"
  shows "pending a = []"
proof (rule ccontr)
  assume "pending a \<noteq> []"
  then obtain k where k: "k \<in> set (pending a)" by (cases "pending a") auto
  then have "calls_to k (acts b) > 0" using assms(4) by (simp add: calls_to_member)
  moreover have "calls_ok b k" using assms(1) by (simp add: bus_inv_def)
  ultimately obtain s where "sub_of b k = Some s" "sub_calls s > 0" by (auto simp: calls_ok_def split: option.splits)
  then have "\<exists>s \<in> set (pubsubs b). sub_calls s > 0" by (auto simp: sub_of_def find_Some_iff)
  then show False using assms(2,3) by (auto simp: nv_core_pubsub_cleanup_def list_ex_iff split: if_splits)
qed

section \<open>Delivery to other processes\<close>

lemma padded_cstr: "cstr s \<Longrightarrow> length s < n \<Longrightarrow> cstr_of (padded n s) = s \<and> CHR 0x00 \<in> set (padded n s)"
  by (cases "n - length s") (auto simp: padded_def cstr_of_def cstr_def intro!: takeWhile_stop)

lemma packet_topic: "cstr topic \<Longrightarrow> topic \<noteq> [] \<Longrightarrow>
    hd (pkt_topic (nv_pubsub_fill_packet op topic data)) \<noteq> CHR 0x00 \<and> CHR 0x00 \<in> set (pkt_topic (nv_pubsub_fill_packet op topic data)) \<and>
    cstr_of (pkt_topic (nv_pubsub_fill_packet op topic data)) = ctrunc NV_PUBSUB_TOPIC_MAX topic"
proof -
  assume t: "cstr topic" "topic \<noteq> []"
  have p: "pkt_topic (nv_pubsub_fill_packet op topic data) = padded NV_PUBSUB_TOPIC_MAX (ctrunc NV_PUBSUB_TOPIC_MAX topic)"
    by (simp add: nv_pubsub_fill_packet_def)
  have "hd (padded NV_PUBSUB_TOPIC_MAX (ctrunc NV_PUBSUB_TOPIC_MAX topic)) \<noteq> CHR 0x00"
    using t by (cases topic) (auto simp: padded_def ctrunc_def cstr_def pubsub_max)
  then show ?thesis
    using padded_cstr[of "ctrunc NV_PUBSUB_TOPIC_MAX topic" NV_PUBSUB_TOPIC_MAX] t
    unfolding p by (simp add: cstr_ctrunc length_ctrunc pubsub_max)
qed

lemma packet_data: "take (min (pkt_len (nv_pubsub_fill_packet op topic data)) NV_PUBSUB_DATA_MAX) (pkt_data (nv_pubsub_fill_packet op topic data)) =
    take NV_PUBSUB_DATA_MAX data"
  by (simp add: nv_pubsub_fill_packet_def padded_def min_def)

lemma packet_frames: "pkt_magic (nv_pubsub_fill_packet op topic data) = NV_PUBSUB_MAGIC" "pkt_op (nv_pubsub_fill_packet op topic data) = op_val op"
  by (simp_all add: nv_pubsub_fill_packet_def)

text \<open>Messages of clients, each with the address it comes from, and what they mean for the set of subscriptions.\<close>

record ipc_msg =
  msg_op :: nv_pubsub_op_t
  msg_topic :: cstring
  msg_data :: "char list"
  msg_addr :: nat

fun ipc_run :: "ipc_msg list \<Rightarrow> ipc_client list \<Rightarrow> ipc_client list option" where
  "ipc_run [] cs = Some cs"
| "ipc_run (m # ms) cs =
     (case nv_core_pubsub_ipc_receive True (nv_pubsub_fill_packet (msg_op m) (msg_topic m) (msg_data m)) (msg_addr m) cs of
        None \<Rightarrow> None | Some (cs, _) \<Rightarrow> ipc_run ms cs)"

definition msg_key :: "ipc_msg \<Rightarrow> cstring \<times> nat" where
  "msg_key m = (ctrunc NV_PUBSUB_TOPIC_MAX (msg_topic m), msg_addr m)"

fun subscriptions :: "ipc_msg list \<Rightarrow> (cstring \<times> nat) set \<Rightarrow> (cstring \<times> nat) set" where
  "subscriptions [] S = S"
| "subscriptions (m # ms) S =
     subscriptions ms (case msg_op m of NV_PUBSUB_OP_SUB \<Rightarrow> insert (msg_key m) S | NV_PUBSUB_OP_UNSUB \<Rightarrow> S - {msg_key m}
       | NV_PUBSUB_OP_PUB \<Rightarrow> S)"

definition client_key :: "ipc_client \<Rightarrow> cstring \<times> nat" where
  "client_key c = (client_topic c, client_addr c)"

lemma remove_keys: "distinct (map client_key cs) \<Longrightarrow>
    distinct (map client_key (nv_core_pubsub_remove_ipc_client t a cs)) \<and>
    client_key ` set (nv_core_pubsub_remove_ipc_client t a cs) = client_key ` set cs - {(t, a)}"
proof (induction cs)
  case (Cons c cs)
  have "client_topic c = t \<and> client_addr c = a \<longleftrightarrow> client_key c = (t, a)" by (simp add: client_key_def)
  then show ?case using Cons by auto
qed simp

lemma receive_msg:
  assumes "cstr (msg_topic m)" "msg_topic m \<noteq> []" "distinct (map client_key cs)"
  shows "\<exists>cs' r. nv_core_pubsub_ipc_receive True (nv_pubsub_fill_packet (msg_op m) (msg_topic m) (msg_data m)) (msg_addr m) cs = Some (cs', r) \<and>
    distinct (map client_key cs') \<and>
    client_key ` set cs' = (case msg_op m of NV_PUBSUB_OP_SUB \<Rightarrow> insert (msg_key m) (client_key ` set cs)
       | NV_PUBSUB_OP_UNSUB \<Rightarrow> client_key ` set cs - {msg_key m} | NV_PUBSUB_OP_PUB \<Rightarrow> client_key ` set cs)"
proof -
  note p = packet_topic[OF assms(1,2), of "msg_op m" "msg_data m"]
  note r = remove_keys[OF assms(3), of "ctrunc NV_PUBSUB_TOPIC_MAX (msg_topic m)" "msg_addr m"]
  show ?thesis
    using p r assms(3)
    by (cases "msg_op m")
       (simp_all add: nv_core_pubsub_ipc_receive_def packet_frames nv_core_pubsub_add_ipc_client_def msg_key_def ctrunc_idem
         client_key_def[of "\<lparr>client_topic = _, client_addr = _\<rparr>"] Let_def)
qed

lemma ipc_run_subscriptions:
  assumes "\<forall>m \<in> set ms. cstr (msg_topic m) \<and> msg_topic m \<noteq> []" "distinct (map client_key cs)"
  shows "\<exists>cs'. ipc_run ms cs = Some cs' \<and> distinct (map client_key cs') \<and>
    client_key ` set cs' = subscriptions ms (client_key ` set cs)"
  using assms
proof (induction ms arbitrary: cs)
  case (Cons m ms)
  from receive_msg[of m cs] obtain cs1 r where
    r: "nv_core_pubsub_ipc_receive True (nv_pubsub_fill_packet (msg_op m) (msg_topic m) (msg_data m)) (msg_addr m) cs = Some (cs1, r)"
      "distinct (map client_key cs1)"
      "client_key ` set cs1 = (case msg_op m of NV_PUBSUB_OP_SUB \<Rightarrow> insert (msg_key m) (client_key ` set cs)
       | NV_PUBSUB_OP_UNSUB \<Rightarrow> client_key ` set cs - {msg_key m} | NV_PUBSUB_OP_PUB \<Rightarrow> client_key ` set cs)"
    using Cons.prems by auto
  show ?case using Cons.IH[OF _ r(2)] Cons.prems(1) by (simp add: r)
qed simp



end
