(* ===== verification/Nv_Tree.thy ===== *)
theory Nv_Tree
  imports Nv_Store "HOL-Library.Monad_Syntax"
begin

text \<open>
  The red-black tree of \<open>base/data/nv_rb_tree.c\<close>: nodes with links to both
  children and to the parent, over the explicit store.  An operation returns
  \<open>None\<close> where the C code dereferences a pointer that is not live; the recursive
  operations and the repair loop are partial functions.  The tree the nodes
  represent is a datatype, the place the repair has reached is a path from that
  place up to the root, and each iteration of the loop refines one step on the
  path.  The theorems show that insertion of a new key always returns a balanced
  search tree, and that insertion of a key the tree holds does not.
\<close>

section \<open>Nodes and operations\<close>

datatype rb_color = RED | BLACK

record nv_rb_Node =
  rb_data :: int
  rb_color :: rb_color
  rb_left :: addr
  rb_right :: addr
  rb_parent :: addr

type_synonym rb_store = "nv_rb_Node store"

definition rb_get :: "rb_store \<Rightarrow> addr \<Rightarrow> nv_rb_Node option" where
  "rb_get h p = (if p = NULL then None else h p)"

text \<open>The address is what \<open>malloc\<close> returns; NULL is not checked by the code.\<close>

definition nv_rb_newNode :: "addr \<Rightarrow> int \<Rightarrow> rb_store \<Rightarrow> rb_store option" where
  "nv_rb_newNode p d h =
     (if p = NULL then None
      else Some (h(p \<mapsto> \<lparr>rb_data = d, rb_color = RED, rb_left = NULL, rb_right = NULL, rb_parent = NULL\<rparr>)))"

definition rb_set_parent :: "addr \<Rightarrow> addr \<Rightarrow> rb_store \<Rightarrow> rb_store option" where
  "rb_set_parent p q h = (if p \<noteq> NULL then store_upd p (\<lambda>n. n\<lparr>rb_parent := q\<rparr>) h else Some h)"

text \<open>The link to a rotated node is the root or a link of its parent.\<close>

definition rb_replace_child :: "addr \<Rightarrow> addr \<Rightarrow> addr \<Rightarrow> addr \<Rightarrow> rb_store \<Rightarrow> (addr \<times> rb_store) option" where
  "rb_replace_child root q pt new h =
     (if q = NULL then Some (new, h)
      else do {
        g \<leftarrow> rb_get h q;
        h \<leftarrow> (if pt = rb_left g then store_upd q (\<lambda>g. g\<lparr>rb_left := new\<rparr>) h
             else store_upd q (\<lambda>g. g\<lparr>rb_right := new\<rparr>) h);
        Some (root, h) })"

definition nv_rb_leftRotate :: "addr \<Rightarrow> addr \<Rightarrow> rb_store \<Rightarrow> (addr \<times> rb_store) option" where
  "nv_rb_leftRotate root pt h = do {
     n \<leftarrow> rb_get h pt;
     let pt_right = rb_right n;
     m \<leftarrow> rb_get h pt_right;
     h \<leftarrow> store_upd pt (\<lambda>n. n\<lparr>rb_right := rb_left m\<rparr>) h;
     h \<leftarrow> rb_set_parent (rb_left m) pt h;
     n \<leftarrow> rb_get h pt;
     h \<leftarrow> store_upd pt_right (\<lambda>m. m\<lparr>rb_parent := rb_parent n\<rparr>) h;
     (root, h) \<leftarrow> rb_replace_child root (rb_parent n) pt pt_right h;
     h \<leftarrow> store_upd pt_right (\<lambda>m. m\<lparr>rb_left := pt\<rparr>) h;
     h \<leftarrow> store_upd pt (\<lambda>n. n\<lparr>rb_parent := pt_right\<rparr>) h;
     Some (root, h) }"

definition nv_rb_rightRotate :: "addr \<Rightarrow> addr \<Rightarrow> rb_store \<Rightarrow> (addr \<times> rb_store) option" where
  "nv_rb_rightRotate root pt h = do {
     n \<leftarrow> rb_get h pt;
     let pt_left = rb_left n;
     m \<leftarrow> rb_get h pt_left;
     h \<leftarrow> store_upd pt (\<lambda>n. n\<lparr>rb_left := rb_right m\<rparr>) h;
     h \<leftarrow> rb_set_parent (rb_right m) pt h;
     n \<leftarrow> rb_get h pt;
     h \<leftarrow> store_upd pt_left (\<lambda>m. m\<lparr>rb_parent := rb_parent n\<rparr>) h;
     (root, h) \<leftarrow> rb_replace_child root (rb_parent n) pt pt_left h;
     h \<leftarrow> store_upd pt_left (\<lambda>m. m\<lparr>rb_right := pt\<rparr>) h;
     h \<leftarrow> store_upd pt (\<lambda>n. n\<lparr>rb_parent := pt_left\<rparr>) h;
     Some (root, h) }"

definition rb_paint :: "addr \<Rightarrow> rb_color \<Rightarrow> rb_store \<Rightarrow> rb_store option" where
  "rb_paint p c h = store_upd p (\<lambda>n. n\<lparr>rb_color := c\<rparr>) h"

text \<open>Case 1 of both sides of the repair: the uncle is red.\<close>

definition rb_recolor :: "addr \<Rightarrow> addr \<Rightarrow> addr \<Rightarrow> rb_store \<Rightarrow> rb_store option" where
  "rb_recolor grand_parent_pt parent_pt uncle_pt h = do {
     h \<leftarrow> rb_paint grand_parent_pt RED h;
     h \<leftarrow> rb_paint parent_pt BLACK h;
     rb_paint uncle_pt BLACK h }"

definition rb_swap_colors :: "addr \<Rightarrow> addr \<Rightarrow> rb_store \<Rightarrow> rb_store option" where
  "rb_swap_colors parent_pt grand_parent_pt h = do {
     p \<leftarrow> rb_get h parent_pt;
     g \<leftarrow> rb_get h grand_parent_pt;
     h \<leftarrow> rb_paint parent_pt (rb_color g) h;
     rb_paint grand_parent_pt (rb_color p) h }"

definition rb_is_red :: "addr \<Rightarrow> rb_store \<Rightarrow> bool option" where
  "rb_is_red p h = (if p = NULL then Some False else map_option (\<lambda>n. rb_color n = RED) (h p))"

text \<open>Case 2 of side A: the parent is the left child of the grandparent.\<close>

definition rb_fix_left :: "addr \<Rightarrow> addr \<Rightarrow> addr \<Rightarrow> addr \<Rightarrow> rb_store \<Rightarrow> (addr \<times> addr \<times> rb_store) option" where
  "rb_fix_left root pt parent_pt grand_parent_pt h = do {
     p \<leftarrow> rb_get h parent_pt;
     (root, parent_pt, h) \<leftarrow>
       (if pt = rb_right p then do {
          (root, h) \<leftarrow> nv_rb_leftRotate root parent_pt h;
          n \<leftarrow> rb_get h parent_pt;
          Some (root, rb_parent n, h) }
        else Some (root, parent_pt, h));
     (root, h) \<leftarrow> nv_rb_rightRotate root grand_parent_pt h;
     h \<leftarrow> rb_swap_colors parent_pt grand_parent_pt h;
     Some (root, parent_pt, h) }"

definition rb_fix_right :: "addr \<Rightarrow> addr \<Rightarrow> addr \<Rightarrow> addr \<Rightarrow> rb_store \<Rightarrow> (addr \<times> addr \<times> rb_store) option" where
  "rb_fix_right root pt parent_pt grand_parent_pt h = do {
     p \<leftarrow> rb_get h parent_pt;
     (root, parent_pt, h) \<leftarrow>
       (if pt = rb_left p then do {
          (root, h) \<leftarrow> nv_rb_rightRotate root parent_pt h;
          n \<leftarrow> rb_get h parent_pt;
          Some (root, rb_parent n, h) }
        else Some (root, parent_pt, h));
     (root, h) \<leftarrow> nv_rb_leftRotate root grand_parent_pt h;
     h \<leftarrow> rb_swap_colors parent_pt grand_parent_pt h;
     Some (root, parent_pt, h) }"

definition rb_fix_body :: "addr \<Rightarrow> addr \<Rightarrow> rb_store \<Rightarrow> (addr \<times> addr \<times> rb_store) option" where
  "rb_fix_body root pt h = do {
     n \<leftarrow> rb_get h pt;
     let parent_pt = rb_parent n;
     p \<leftarrow> rb_get h parent_pt;
     let grand_parent_pt = rb_parent p;
     g \<leftarrow> rb_get h grand_parent_pt;
     if parent_pt = rb_left g then do {
       red \<leftarrow> rb_is_red (rb_right g) h;
       if red then do {
         h \<leftarrow> rb_recolor grand_parent_pt parent_pt (rb_right g) h;
         Some (root, grand_parent_pt, h) }
       else rb_fix_left root pt parent_pt grand_parent_pt h }
     else do {
       red \<leftarrow> rb_is_red (rb_left g) h;
       if red then do {
         h \<leftarrow> rb_recolor grand_parent_pt parent_pt (rb_left g) h;
         Some (root, grand_parent_pt, h) }
       else rb_fix_right root pt parent_pt grand_parent_pt h } }"

text \<open>The condition of the loop, evaluated from left to right.\<close>

definition rb_fix_goes_on :: "addr \<Rightarrow> addr \<Rightarrow> rb_store \<Rightarrow> bool option" where
  "rb_fix_goes_on root pt h =
     (if pt = root then Some False
      else do {
        n \<leftarrow> rb_get h pt;
        if rb_color n = BLACK then Some False
        else do {
          p \<leftarrow> rb_get h (rb_parent n);
          Some (rb_color p = RED) } })"

partial_function (option) rb_fix_loop :: "addr \<Rightarrow> addr \<Rightarrow> rb_store \<Rightarrow> (addr \<times> rb_store) option" where
  "rb_fix_loop root pt h = do {
     more \<leftarrow> rb_fix_goes_on root pt h;
     if more then do {
       (root, pt, h) \<leftarrow> rb_fix_body root pt h;
       rb_fix_loop root pt h }
     else Some (root, h) }"

definition nv_rb_insertFix :: "addr \<Rightarrow> addr \<Rightarrow> rb_store \<Rightarrow> (addr \<times> rb_store) option" where
  "nv_rb_insertFix root pt h = do {
     (root, h) \<leftarrow> rb_fix_loop root pt h;
     h \<leftarrow> rb_paint root BLACK h;
     Some (root, h) }"

partial_function (option) nv_rb_insertBST :: "addr \<Rightarrow> addr \<Rightarrow> rb_store \<Rightarrow> (addr \<times> rb_store) option" where
  "nv_rb_insertBST root pt h =
     (if root = NULL then Some (pt, h)
      else do {
        n \<leftarrow> rb_get h pt;
        r \<leftarrow> rb_get h root;
        if rb_data n < rb_data r then do {
          (q, h) \<leftarrow> nv_rb_insertBST (rb_left r) pt h;
          h \<leftarrow> store_upd root (\<lambda>r. r\<lparr>rb_left := q\<rparr>) h;
          h \<leftarrow> store_upd q (\<lambda>n. n\<lparr>rb_parent := root\<rparr>) h;
          Some (root, h) }
        else if rb_data n > rb_data r then do {
          (q, h) \<leftarrow> nv_rb_insertBST (rb_right r) pt h;
          h \<leftarrow> store_upd root (\<lambda>r. r\<lparr>rb_right := q\<rparr>) h;
          h \<leftarrow> store_upd q (\<lambda>n. n\<lparr>rb_parent := root\<rparr>) h;
          Some (root, h) }
        else Some (root, h) })"

definition nv_rb_insert :: "addr \<Rightarrow> addr \<Rightarrow> int \<Rightarrow> rb_store \<Rightarrow> (addr \<times> rb_store) option" where
  "nv_rb_insert p root d h = do {
     h \<leftarrow> nv_rb_newNode p d h;
     (root, h) \<leftarrow> nv_rb_insertBST root p h;
     nv_rb_insertFix root p h }"

partial_function (option) nv_rb_search :: "rb_store \<Rightarrow> int \<Rightarrow> addr \<Rightarrow> addr option" where
  "nv_rb_search h d root =
     (if root = NULL then Some NULL
      else do {
        n \<leftarrow> rb_get h root;
        if rb_data n = d then Some root
        else if rb_data n < d then nv_rb_search h d (rb_right n)
        else nv_rb_search h d (rb_left n) })"

text \<open>The keys in the order in which they are printed.\<close>

partial_function (option) nv_rb_inorder :: "rb_store \<Rightarrow> addr \<Rightarrow> int list option" where
  "nv_rb_inorder h root =
     (if root = NULL then Some []
      else do {
        n \<leftarrow> rb_get h root;
        xs \<leftarrow> nv_rb_inorder h (rb_left n);
        ys \<leftarrow> nv_rb_inorder h (rb_right n);
        Some (xs @ rb_data n # ys) })"

section \<open>The represented tree and paths in it\<close>

datatype rb_tree = E | N rb_color rb_tree addr int rb_tree

fun root_of :: "rb_tree \<Rightarrow> addr" where
  "root_of E = NULL"
| "root_of (N c l a k r) = a"

fun nodes :: "rb_tree \<Rightarrow> (addr \<times> int) list" where
  "nodes E = []"
| "nodes (N c l a k r) = nodes l @ (a, k) # nodes r"

abbreviation addrs :: "rb_tree \<Rightarrow> addr list" where "addrs t \<equiv> map fst (nodes t)"
abbreviation keys :: "rb_tree \<Rightarrow> int list" where "keys t \<equiv> map snd (nodes t)"

fun rb_rep :: "rb_store \<Rightarrow> addr \<Rightarrow> rb_tree \<Rightarrow> bool" where
  "rb_rep h q E \<longleftrightarrow> True"
| "rb_rep h q (N c l a k r) \<longleftrightarrow>
     a \<noteq> NULL \<and>
     h a = Some \<lparr>rb_data = k, rb_color = c, rb_left = root_of l, rb_right = root_of r, rb_parent = q\<rparr> \<and>
     rb_rep h a l \<and> rb_rep h a r"

text \<open>A step of a path: the hole is the left or the right child of a node.\<close>

datatype frame = FL rb_color addr int rb_tree | FR rb_color rb_tree addr int

fun fill :: "frame \<Rightarrow> rb_tree \<Rightarrow> rb_tree" where
  "fill (FL c a k r) t = N c t a k r"
| "fill (FR c l a k) t = N c l a k t"

fun plug :: "frame list \<Rightarrow> rb_tree \<Rightarrow> rb_tree" where
  "plug [] t = t"
| "plug (f # fs) t = plug fs (fill f t)"

fun frame_addr :: "frame \<Rightarrow> addr" where
  "frame_addr (FL c a k r) = a"
| "frame_addr (FR c l a k) = a"

definition above :: "frame list \<Rightarrow> addr" where
  "above fs = (case fs of [] \<Rightarrow> NULL | f # _ \<Rightarrow> frame_addr f)"

fun path_rep :: "rb_store \<Rightarrow> frame list \<Rightarrow> addr \<Rightarrow> bool" where
  "path_rep h [] p \<longleftrightarrow> True"
| "path_rep h (FL c a k r # fs) p \<longleftrightarrow>
     a \<noteq> NULL \<and>
     h a = Some \<lparr>rb_data = k, rb_color = c, rb_left = p, rb_right = root_of r, rb_parent = above fs\<rparr> \<and>
     rb_rep h a r \<and> path_rep h fs a"
| "path_rep h (FR c l a k # fs) p \<longleftrightarrow>
     a \<noteq> NULL \<and>
     h a = Some \<lparr>rb_data = k, rb_color = c, rb_left = root_of l, rb_right = p, rb_parent = above fs\<rparr> \<and>
     rb_rep h a l \<and> path_rep h fs a"

fun path_addrs :: "frame list \<Rightarrow> addr list" where
  "path_addrs [] = []"
| "path_addrs (FL c a k r # fs) = a # addrs r @ path_addrs fs"
| "path_addrs (FR c l a k # fs) = a # addrs l @ path_addrs fs"

named_theorems rb_simps \<open>representation of trees and paths\<close>

lemma rb_rep_plug [rb_simps]:
  "rb_rep h NULL (plug fs t) \<longleftrightarrow> path_rep h fs (root_of t) \<and> rb_rep h (above fs) t"
proof (induction fs arbitrary: t)
  case Nil
  then show ?case by (simp add: above_def)
next
  case (Cons f fs)
  then show ?case by (cases f) (auto simp: above_def)
qed

lemma rb_rep_other [rb_simps]: "x \<notin> set (addrs t) \<Longrightarrow> rb_rep (h(x := v)) q t = rb_rep h q t"
  by (induction t arbitrary: q) auto

lemma path_rep_other [rb_simps]: "x \<notin> set (path_addrs fs) \<Longrightarrow> path_rep (h(x := v)) fs p = path_rep h fs p"
  by (induction h fs p rule: path_rep.induct) (auto simp: rb_rep_other)

lemma mset_plug: "mset (addrs (plug fs t)) = mset (addrs t) + mset (path_addrs fs)"
proof (induction fs arbitrary: t)
  case Nil
  then show ?case by simp
next
  case (Cons f fs)
  then show ?case by (cases f) auto
qed

lemma distinct_plug [rb_simps]:
  "distinct (addrs (plug fs t)) \<longleftrightarrow>
     distinct (addrs t) \<and> distinct (path_addrs fs) \<and> set (addrs t) \<inter> set (path_addrs fs) = {}"
proof -
  have "distinct (addrs (plug fs t)) = distinct (addrs t @ path_addrs fs)"
    by (rule mset_eq_imp_distinct_iff) (simp add: mset_plug del: mset_map)
  then show ?thesis by simp
qed


section \<open>Rotations and colours on the store\<close>

lemma rb_rep_reparent:
  assumes "rb_rep h q t" "distinct (addrs t)"
  shows "rb_rep (upd_at (root_of t) (\<lambda>n. n\<lparr>rb_parent := q'\<rparr>) h) q' t"
  using assms by (cases t) (auto simp: upd_at_def rb_simps)

lemma root_of_null: "rb_rep h q t \<Longrightarrow> root_of t = NULL \<longleftrightarrow> t = E"
  by (cases t) auto

lemma root_in: "t \<noteq> E \<Longrightarrow> root_of t \<in> set (addrs t)"
  by (cases t) auto

text \<open>What the assignment to the child link of the parent of a rotated node does to the path.\<close>

definition relink :: "frame list \<Rightarrow> addr \<Rightarrow> rb_store \<Rightarrow> rb_store" where
  "relink fs b h = (case fs of [] \<Rightarrow> h
     | FL c a k r # _ \<Rightarrow> upd_at a (\<lambda>g. g\<lparr>rb_left := b\<rparr>) h
     | FR c l a k # _ \<Rightarrow> upd_at a (\<lambda>g. g\<lparr>rb_right := b\<rparr>) h)"

lemma path_rep_relink:
  "path_rep h fs p \<Longrightarrow> distinct (path_addrs fs) \<Longrightarrow> path_rep (relink fs b h) fs b"
  by (cases "(h, fs, p)" rule: path_rep.cases) (auto simp: relink_def upd_at_def rb_simps)

lemma relink_other: "x \<notin> set (path_addrs fs) \<Longrightarrow> relink fs b h x = h x"
  by (auto simp: relink_def upd_at_def split: list.splits frame.splits)

lemma root_of_plug: "root_of (plug fs t) = (if fs = [] then root_of t else frame_addr (last fs))"
proof (induction fs arbitrary: t)
  case Nil
  then show ?case by simp
next
  case (Cons f fs)
  then show ?case by (cases f) auto
qed

lemma not_root: "a \<notin> set (addrs t) \<Longrightarrow> a \<noteq> NULL \<Longrightarrow> root_of t \<noteq> a"
  using root_in by (cases t) auto

lemma store_upd_some: "p \<noteq> NULL \<Longrightarrow> h p \<noteq> None \<Longrightarrow> store_upd p f h = Some (upd_at p f h)"
  by (auto simp: store_upd_def upd_at_def)

lemma rb_rep_upd_at [rb_simps]: "x \<notin> set (addrs t) \<Longrightarrow> rb_rep (upd_at x f h) q t = rb_rep h q t"
  by (simp add: upd_at_def rb_rep_other)

lemma path_rep_upd_at [rb_simps]: "x \<notin> set (path_addrs fs) \<Longrightarrow> path_rep (upd_at x f h) fs p = path_rep h fs p"
  by (simp add: upd_at_def path_rep_other)

lemma rb_rep_relink [rb_simps]:
  "set (addrs t) \<inter> set (path_addrs fs) = {} \<Longrightarrow> rb_rep (relink fs b h) q t = rb_rep h q t"
  by (auto simp: relink_def rb_simps split: list.splits frame.splits)

lemma replace_child_path:
  assumes "path_rep h fs a" "a \<notin> set (path_addrs fs)" "a \<noteq> NULL" "root_of t = a" "root_of t' = b"
  shows "rb_replace_child (root_of (plug fs t)) (above fs) a b h = Some (root_of (plug fs t'), relink fs b h)"
proof (cases "(h, fs, a)" rule: path_rep.cases)
  case (3 h' c l p k gs p')
  then have "root_of l \<noteq> a" using assms not_root[of a l] by auto
  then show ?thesis using assms 3
    by (auto simp: rb_replace_child_def rb_get_def above_def relink_def root_of_plug store_upd_some)
qed (use assms in \<open>auto simp: rb_replace_child_def rb_get_def above_def relink_def root_of_plug store_upd_some\<close>)

text \<open>Both rotations make node \<open>b\<close>, a child of \<open>a\<close>, its parent, and move the subtree \<open>m\<close> between
  them from \<open>b\<close> to \<open>a\<close>; they differ in the links of \<open>a\<close> and \<open>b\<close> that they change.\<close>

definition rotation_site :: "rb_store \<Rightarrow> frame list \<Rightarrow> addr \<Rightarrow> addr \<Rightarrow> rb_tree \<Rightarrow> bool" where
  "rotation_site h fs a b m \<longleftrightarrow>
     a \<noteq> b \<and> a \<noteq> NULL \<and> b \<noteq> NULL \<and> h a \<noteq> None \<and> h b \<noteq> None \<and>
     path_rep h fs a \<and> distinct (path_addrs fs) \<and> a \<notin> set (path_addrs fs) \<and> b \<notin> set (path_addrs fs) \<and>
     rb_rep h b m \<and> distinct (addrs m) \<and> a \<notin> set (addrs m) \<and> b \<notin> set (addrs m) \<and>
     set (addrs m) \<inter> set (path_addrs fs) = {}"

definition rotated ::
    "frame list \<Rightarrow> addr \<Rightarrow> addr \<Rightarrow> rb_tree \<Rightarrow> (nv_rb_Node \<Rightarrow> nv_rb_Node) \<Rightarrow> (nv_rb_Node \<Rightarrow> nv_rb_Node) \<Rightarrow> rb_store \<Rightarrow> rb_store" where
  "rotated fs a b m f g h =
     upd_at a (\<lambda>n. n\<lparr>rb_parent := b\<rparr>) (upd_at b g (relink fs b
       (upd_at b (\<lambda>n. n\<lparr>rb_parent := above fs\<rparr>) (upd_at (root_of m) (\<lambda>n. n\<lparr>rb_parent := a\<rparr>) (upd_at a f h)))))"

lemma root_of_mem: "root_of m = NULL \<or> root_of m \<in> set (addrs m)"
  by (cases m) auto

lemma site_middle:
  assumes "rotation_site h fs a b m"
  shows "root_of m \<noteq> a" "root_of m \<noteq> b"
  using assms root_of_mem[of m] by (auto simp: rotation_site_def)

lemma rotated_nodes:
  assumes "rotation_site h fs a b m"
  shows "rotated fs a b m f g h a = map_option (\<lambda>n. (f n)\<lparr>rb_parent := b\<rparr>) (h a)"
    and "rotated fs a b m f g h b = map_option (\<lambda>n. g (n\<lparr>rb_parent := above fs\<rparr>)) (h b)"
  using assms root_of_mem[of m]
  by (auto simp: rotation_site_def rotated_def upd_at_apply relink_other option.map_comp comp_def)

lemma upd_root_tree [rb_simps]:
  "set (addrs t) \<inter> set (addrs m) = {} \<Longrightarrow> rb_rep (upd_at (root_of m) f h) q t = rb_rep h q t"
  by (cases m) (auto simp: upd_at_def rb_rep_other)

lemma upd_root_path [rb_simps]:
  "set (addrs m) \<inter> set (path_addrs fs) = {} \<Longrightarrow> path_rep (upd_at (root_of m) f h) fs p = path_rep h fs p"
  by (cases m) (auto simp: upd_at_def path_rep_other)

lemma rotated_path:
  assumes "rotation_site h fs a b m"
  shows "path_rep (rotated fs a b m f g h) fs b"
proof -
  have "path_rep (upd_at b f1 (upd_at (root_of m) f2 (upd_at a f h))) fs a" for f1 f2
    using assms by (simp add: rotation_site_def rb_simps)
  then have "path_rep (relink fs b (upd_at b f1 (upd_at (root_of m) f2 (upd_at a f h)))) fs b" for f1 f2
    using assms by (intro path_rep_relink[where p = a]) (auto simp: rotation_site_def)
  then show ?thesis using assms unfolding rotation_site_def rotated_def by (simp add: path_rep_upd_at)
qed

lemma rotated_middle:
  assumes "rotation_site h fs a b m"
  shows "rb_rep (rotated fs a b m f g h) a m"
proof -
  have "rb_rep (upd_at a f h) b m" using assms by (simp add: rotation_site_def rb_simps)
  then have "rb_rep (upd_at (root_of m) (\<lambda>n. n\<lparr>rb_parent := a\<rparr>) (upd_at a f h)) a m"
    using assms by (intro rb_rep_reparent) (auto simp: rotation_site_def)
  then show ?thesis using assms unfolding rotation_site_def rotated_def
    by (simp add: rb_rep_upd_at rb_rep_relink)
qed

lemma rotated_rest:
  assumes "rotation_site h fs a b m" "a \<notin> set (addrs t)" "b \<notin> set (addrs t)"
    "set (addrs t) \<inter> set (path_addrs fs) = {}" "set (addrs t) \<inter> set (addrs m) = {}"
  shows "rb_rep (rotated fs a b m f g h) q t = rb_rep h q t"
  using assms unfolding rotation_site_def rotated_def by (simp add: rb_simps)

lemma leftRotate_eq:
  assumes site: "rotation_site h fs a b m" and "root_of t = a" "root_of t' = b"
    and "h a = Some A" "rb_right A = b" "rb_parent A = above fs" "h b = Some B" "rb_left B = root_of m"
  shows "nv_rb_leftRotate (root_of (plug fs t)) a h =
    Some (root_of (plug fs t'), rotated fs a b m (\<lambda>n. n\<lparr>rb_right := root_of m\<rparr>) (\<lambda>n. n\<lparr>rb_left := a\<rparr>) h)"
proof -
  let ?h1 = "upd_at a (\<lambda>n. n\<lparr>rb_right := root_of m\<rparr>) h"
  let ?h2 = "upd_at (root_of m) (\<lambda>n. n\<lparr>rb_parent := a\<rparr>) ?h1"
  let ?h3 = "upd_at b (\<lambda>n. n\<lparr>rb_parent := above fs\<rparr>) ?h2"
  have live: "root_of m = NULL \<or> ?h1 (root_of m) \<noteq> None"
    using site by (cases m) (auto simp: rotation_site_def upd_at_def)
  have mid: "rb_set_parent (root_of m) a ?h1 = Some ?h2"
    unfolding rb_set_parent_def using live by (rule store_upd_live)
  let ?h4 = "relink fs b ?h3"
  let ?h5 = "upd_at b (\<lambda>n. n\<lparr>rb_left := a\<rparr>) ?h4"
  have nodes: "?h2 a = Some (A\<lparr>rb_right := root_of m\<rparr>)" "?h2 b = Some B"
    "?h4 b = Some (B\<lparr>rb_parent := above fs\<rparr>)" "?h5 a = Some (A\<lparr>rb_right := root_of m\<rparr>)"
    using assms site_middle[OF site] by (simp_all add: rotation_site_def upd_at_apply relink_other)
  have null: "a \<noteq> NULL" "b \<noteq> NULL" using site by (auto simp: rotation_site_def)
  note gets = assms(4,7) nodes(1)
  note upds = store_upd_some[OF null(1)] store_upd_some[OF null(2)]
  have "path_rep ?h3 fs a" using site by (simp add: rotation_site_def rb_simps)
  then have "rb_replace_child (root_of (plug fs t)) (above fs) a b ?h3 = Some (root_of (plug fs t'), relink fs b ?h3)"
    using assms by (intro replace_child_path) (auto simp: rotation_site_def)
  then show ?thesis
    unfolding nv_rb_leftRotate_def rotated_def rb_get_def
    by (simp add: null gets upds nodes mid assms(5,6,8) )
qed

lemma rightRotate_eq:
  assumes site: "rotation_site h fs a b m" and "root_of t = a" "root_of t' = b"
    and "h a = Some A" "rb_left A = b" "rb_parent A = above fs" "h b = Some B" "rb_right B = root_of m"
  shows "nv_rb_rightRotate (root_of (plug fs t)) a h =
    Some (root_of (plug fs t'), rotated fs a b m (\<lambda>n. n\<lparr>rb_left := root_of m\<rparr>) (\<lambda>n. n\<lparr>rb_right := a\<rparr>) h)"
proof -
  let ?h1 = "upd_at a (\<lambda>n. n\<lparr>rb_left := root_of m\<rparr>) h"
  let ?h2 = "upd_at (root_of m) (\<lambda>n. n\<lparr>rb_parent := a\<rparr>) ?h1"
  let ?h3 = "upd_at b (\<lambda>n. n\<lparr>rb_parent := above fs\<rparr>) ?h2"
  have live: "root_of m = NULL \<or> ?h1 (root_of m) \<noteq> None"
    using site by (cases m) (auto simp: rotation_site_def upd_at_def)
  have mid: "rb_set_parent (root_of m) a ?h1 = Some ?h2"
    unfolding rb_set_parent_def using live by (rule store_upd_live)
  let ?h4 = "relink fs b ?h3"
  let ?h5 = "upd_at b (\<lambda>n. n\<lparr>rb_right := a\<rparr>) ?h4"
  have nodes: "?h2 a = Some (A\<lparr>rb_left := root_of m\<rparr>)" "?h2 b = Some B"
    "?h4 b = Some (B\<lparr>rb_parent := above fs\<rparr>)" "?h5 a = Some (A\<lparr>rb_left := root_of m\<rparr>)"
    using assms site_middle[OF site] by (simp_all add: rotation_site_def upd_at_apply relink_other)
  have null: "a \<noteq> NULL" "b \<noteq> NULL" using site by (auto simp: rotation_site_def)
  note gets = assms(4,7) nodes(1)
  note upds = store_upd_some[OF null(1)] store_upd_some[OF null(2)]
  have "path_rep ?h3 fs a" using site by (simp add: rotation_site_def rb_simps)
  then have "rb_replace_child (root_of (plug fs t)) (above fs) a b ?h3 = Some (root_of (plug fs t'), relink fs b ?h3)"
    using assms by (intro replace_child_path) (auto simp: rotation_site_def)
  then show ?thesis
    unfolding nv_rb_rightRotate_def rotated_def rb_get_def
    by (simp add: null gets upds nodes mid assms(5,6,8) )
qed

lemma leftRotate_rep:
  assumes rep: "rb_rep h NULL (plug fs (N c l a k (N c' m b k' r)))"
    and d: "distinct (addrs (plug fs (N c l a k (N c' m b k' r))))"
  shows "\<exists>h'. nv_rb_leftRotate (root_of (plug fs (N c l a k (N c' m b k' r)))) a h =
               Some (root_of (plug fs (N c' (N c l a k m) b k' r)), h') \<and>
             rb_rep h' NULL (plug fs (N c' (N c l a k m) b k' r))"
proof -
  let ?h = "rotated fs a b m (\<lambda>n. n\<lparr>rb_right := root_of m\<rparr>) (\<lambda>n. n\<lparr>rb_left := a\<rparr>) h"
  have site: "rotation_site h fs a b m" using rep d by (auto simp: rotation_site_def rb_simps)
  have "rb_rep ?h a l" "rb_rep ?h b r"
    by (subst rotated_rest[OF site]; use rep d in \<open>auto simp: rb_simps\<close>)+
  then have "rb_rep ?h NULL (plug fs (N c' (N c l a k m) b k' r))"
    using rep d rotated_nodes[OF site] rotated_path[OF site] rotated_middle[OF site] by (simp add: rb_simps)
  moreover have "nv_rb_leftRotate (root_of (plug fs (N c l a k (N c' m b k' r)))) a h =
      Some (root_of (plug fs (N c' (N c l a k m) b k' r)), ?h)"
    using rep by (intro leftRotate_eq[OF site]) (auto simp: rb_simps)
  ultimately show ?thesis by blast
qed

lemma rightRotate_rep:
  assumes rep: "rb_rep h NULL (plug fs (N c (N c' l b k' m) a k r))"
    and d: "distinct (addrs (plug fs (N c (N c' l b k' m) a k r)))"
  shows "\<exists>h'. nv_rb_rightRotate (root_of (plug fs (N c (N c' l b k' m) a k r))) a h =
               Some (root_of (plug fs (N c' l b k' (N c m a k r))), h') \<and>
             rb_rep h' NULL (plug fs (N c' l b k' (N c m a k r)))"
proof -
  let ?h = "rotated fs a b m (\<lambda>n. n\<lparr>rb_left := root_of m\<rparr>) (\<lambda>n. n\<lparr>rb_right := a\<rparr>) h"
  have site: "rotation_site h fs a b m" using rep d by (auto simp: rotation_site_def rb_simps)
  have "rb_rep ?h b l" "rb_rep ?h a r"
    by (subst rotated_rest[OF site]; use rep d in \<open>auto simp: rb_simps\<close>)+
  then have "rb_rep ?h NULL (plug fs (N c' l b k' (N c m a k r)))"
    using rep d rotated_nodes[OF site] rotated_path[OF site] rotated_middle[OF site] by (simp add: rb_simps)
  moreover have "nv_rb_rightRotate (root_of (plug fs (N c (N c' l b k' m) a k r))) a h =
      Some (root_of (plug fs (N c' l b k' (N c m a k r))), ?h)"
    using rep by (intro rightRotate_eq[OF site]) (auto simp: rb_simps)
  ultimately show ?thesis by blast
qed

lemma rb_paint_rep:
  assumes "rb_rep h NULL (plug fs (N c l a k r))" "distinct (addrs (plug fs (N c l a k r)))"
  shows "\<exists>h'. rb_paint a c' h = Some h' \<and> rb_rep h' NULL (plug fs (N c' l a k r))"
  using assms by (auto simp: rb_paint_def store_upd_def rb_simps)

section \<open>The repair refines steps on the path\<close>

definition rb_view :: "rb_store \<Rightarrow> addr \<Rightarrow> rb_tree \<Rightarrow> bool" where
  "rb_view h root t \<longleftrightarrow> rb_rep h NULL t \<and> distinct (addrs t) \<and> root = root_of t"

lemma nodes_plug: "nodes t = nodes t' \<Longrightarrow> nodes (plug fs t) = nodes (plug fs t')"
proof (induction fs arbitrary: t t')
  case (Cons f fs)
  then show ?case by (cases f) (simp_all add: Cons.IH[of "fill f t" "fill f t'"])
qed simp

lemma view_left:
  assumes "rb_view h root (plug fs (N c l a k (N c' m b k' r)))"
  obtains root' h' where "nv_rb_leftRotate root a h = Some (root', h')"
    "rb_view h' root' (plug fs (N c' (N c l a k m) b k' r))"
  using assms leftRotate_rep[of h fs c l a k c' m b k' r]
    nodes_plug[of "N c l a k (N c' m b k' r)" "N c' (N c l a k m) b k' r" fs]
  by (auto simp: rb_view_def)

lemma view_right:
  assumes "rb_view h root (plug fs (N c (N c' l b k' m) a k r))"
  obtains root' h' where "nv_rb_rightRotate root a h = Some (root', h')"
    "rb_view h' root' (plug fs (N c' l b k' (N c m a k r)))"
  using assms rightRotate_rep[of h fs c c' l b k' m a k r]
    nodes_plug[of "N c (N c' l b k' m) a k r" "N c' l b k' (N c m a k r)" fs]
  by (auto simp: rb_view_def)

lemma view_paint:
  assumes "rb_view h root (plug fs (N c l a k r))"
  obtains h' where "rb_paint a c' h = Some h'" "rb_view h' root (plug fs (N c' l a k r))"
  using assms rb_paint_rep[of h fs c l a k r c'] nodes_plug[of "N c l a k r" "N c' l a k r" fs]
  by (auto simp: rb_view_def root_of_plug)

lemma view_get:
  assumes "rb_view h root (plug fs (N c l a k r))"
  shows "rb_get h a = Some \<lparr>rb_data = k, rb_color = c, rb_left = root_of l, rb_right = root_of r, rb_parent = above fs\<rparr>"
  using assms by (auto simp: rb_view_def rb_simps rb_get_def)

fun is_red :: "rb_tree \<Rightarrow> bool" where
  "is_red E = False"
| "is_red (N c l a k r) = (c = RED)"

fun paint :: "rb_color \<Rightarrow> rb_tree \<Rightarrow> rb_tree" where
  "paint c E = E"
| "paint c (N c' l a k r) = N c l a k r"

lemma view_is_red: "rb_view h root (plug fs t) \<Longrightarrow> rb_is_red (root_of t) h = Some (is_red t)"
  by (cases t) (auto simp: rb_view_def rb_simps rb_is_red_def)

text \<open>One iteration: the node is red and so is its parent; nothing is done otherwise.\<close>

fun fix_step :: "frame list \<Rightarrow> rb_tree \<Rightarrow> (frame list \<times> rb_tree) option" where
  "fix_step (FL RED p pk pr # FL gc g gk u # fs) (N RED l a k r) =
     Some (fs, if is_red u then N RED (N BLACK (N RED l a k r) p pk pr) g gk (paint BLACK u)
               else N gc (N RED l a k r) p pk (N RED pr g gk u))"
| "fix_step (FR RED pl p pk # FL gc g gk u # fs) (N RED l a k r) =
     Some (fs, if is_red u then N RED (N BLACK pl p pk (N RED l a k r)) g gk (paint BLACK u)
               else N gc (N RED pl p pk l) a k (N RED r g gk u))"
| "fix_step (FR RED pl p pk # FR gc u g gk # fs) (N RED l a k r) =
     Some (fs, if is_red u then N RED (paint BLACK u) g gk (N BLACK pl p pk (N RED l a k r))
               else N gc (N RED u g gk pl) p pk (N RED l a k r))"
| "fix_step (FL RED p pk pr # FR gc u g gk # fs) (N RED l a k r) =
     Some (fs, if is_red u then N RED (paint BLACK u) g gk (N BLACK (N RED l a k r) p pk pr)
               else N gc (N RED u g gk l) a k (N RED r p pk pr))"
| "fix_step fs t = None"

lemma view_swap_right:
  assumes "rb_view h root (plug fs (N pc t p pk (N gc m g gk u)))"
  obtains h' where "rb_swap_colors p g h = Some h'" "rb_view h' root (plug fs (N gc t p pk (N pc m g gk u)))"
proof -
  have g: "rb_view h root (plug (FR pc t p pk # fs) (N gc m g gk u))" using assms by simp
  obtain h1 where h1: "rb_paint p gc h = Some h1" "rb_view h1 root (plug fs (N gc t p pk (N gc m g gk u)))"
    by (rule view_paint[OF assms])
  then have "rb_view h1 root (plug (FR gc t p pk # fs) (N gc m g gk u))" by simp
  then obtain h2 where h2: "rb_paint g pc h1 = Some h2" "rb_view h2 root (plug (FR gc t p pk # fs) (N pc m g gk u))"
    by (rule view_paint)
  show thesis using that h1 h2 view_get[OF assms] view_get[OF g] by (simp add: rb_swap_colors_def)
qed

lemma view_swap_left:
  assumes "rb_view h root (plug fs (N pc (N gc u g gk m) p pk t))"
  obtains h' where "rb_swap_colors p g h = Some h'" "rb_view h' root (plug fs (N gc (N pc u g gk m) p pk t))"
proof -
  have g: "rb_view h root (plug (FL pc p pk t # fs) (N gc u g gk m))" using assms by simp
  obtain h1 where h1: "rb_paint p gc h = Some h1" "rb_view h1 root (plug fs (N gc (N gc u g gk m) p pk t))"
    by (rule view_paint[OF assms])
  then have "rb_view h1 root (plug (FL gc p pk t # fs) (N gc u g gk m))" by simp
  then obtain h2 where h2: "rb_paint g pc h1 = Some h2" "rb_view h2 root (plug (FL gc p pk t # fs) (N pc u g gk m))"
    by (rule view_paint)
  show thesis using that h1 h2 view_get[OF assms] view_get[OF g] by (simp add: rb_swap_colors_def)
qed

text \<open>The subtree at the grandparent after the recolouring, on either side.\<close>

lemma view_recolor_left:
  assumes "rb_view h root (plug fs (N gc (N RED l p pk r) g gk u))" "is_red u"
  obtains h' where "rb_recolor g p (root_of u) h = Some h'"
    "rb_view h' root (plug fs (N RED (N BLACK l p pk r) g gk (paint BLACK u)))"
proof -
  obtain uc ul ua uk ur where u: "u = N uc ul ua uk ur" using assms(2) by (cases u) auto
  obtain h1 where h1: "rb_paint g RED h = Some h1" "rb_view h1 root (plug fs (N RED (N RED l p pk r) g gk u))"
    by (rule view_paint[OF assms(1)])
  then have "rb_view h1 root (plug (FL RED g gk u # fs) (N RED l p pk r))" by simp
  then obtain h2 where h2: "rb_paint p BLACK h1 = Some h2" "rb_view h2 root (plug (FL RED g gk u # fs) (N BLACK l p pk r))"
    by (rule view_paint)
  then have "rb_view h2 root (plug (FR RED (N BLACK l p pk r) g gk # fs) (N uc ul ua uk ur))" by (simp add: u)
  then obtain h3 where h3: "rb_paint ua BLACK h2 = Some h3"
    "rb_view h3 root (plug (FR RED (N BLACK l p pk r) g gk # fs) (N BLACK ul ua uk ur))" by (rule view_paint)
  show thesis using that h1 h2 h3 by (simp add: rb_recolor_def u)
qed

lemma view_recolor_right:
  assumes "rb_view h root (plug fs (N gc u g gk (N RED l p pk r)))" "is_red u"
  obtains h' where "rb_recolor g p (root_of u) h = Some h'"
    "rb_view h' root (plug fs (N RED (paint BLACK u) g gk (N BLACK l p pk r)))"
proof -
  obtain uc ul ua uk ur where u: "u = N uc ul ua uk ur" using assms(2) by (cases u) auto
  obtain h1 where h1: "rb_paint g RED h = Some h1" "rb_view h1 root (plug fs (N RED u g gk (N RED l p pk r)))"
    by (rule view_paint[OF assms(1)])
  then have "rb_view h1 root (plug (FR RED u g gk # fs) (N RED l p pk r))" by simp
  then obtain h2 where h2: "rb_paint p BLACK h1 = Some h2" "rb_view h2 root (plug (FR RED u g gk # fs) (N BLACK l p pk r))"
    by (rule view_paint)
  then have "rb_view h2 root (plug (FL RED g gk (N BLACK l p pk r) # fs) (N uc ul ua uk ur))" by (simp add: u)
  then obtain h3 where h3: "rb_paint ua BLACK h2 = Some h3"
    "rb_view h3 root (plug (FL RED g gk (N BLACK l p pk r) # fs) (N BLACK ul ua uk ur))" by (rule view_paint)
  show thesis using that h1 h2 h3 by (simp add: rb_recolor_def u)
qed

lemma fix_left_straight:
  assumes v: "rb_view h root (plug fs (N gc (N RED (N RED l a k r) p pk pr) g gk u))"
  obtains root' h' where "rb_fix_left root a p g h = Some (root', p, h')"
    "rb_view h' root' (plug fs (N gc (N RED l a k r) p pk (N RED pr g gk u)))"
proof -
  have p: "rb_view h root (plug (FL gc g gk u # fs) (N RED (N RED l a k r) p pk pr))" using v by simp
  have "a \<notin> set (addrs pr)" "a \<noteq> NULL" using v by (auto simp: rb_view_def rb_simps)
  then have a: "a \<noteq> root_of pr" using not_root by metis
  obtain root1 h1 where 1: "nv_rb_rightRotate root g h = Some (root1, h1)"
    "rb_view h1 root1 (plug fs (N RED (N RED l a k r) p pk (N gc pr g gk u)))" by (rule view_right[OF v])
  obtain h2 where "rb_swap_colors p g h1 = Some h2" "rb_view h2 root1 (plug fs (N gc (N RED l a k r) p pk (N RED pr g gk u)))"
    by (rule view_swap_right[OF 1(2)])
  then show thesis using that 1 a view_get[OF p] by (simp add: rb_fix_left_def)
qed

lemma fix_left_bent:
  assumes v: "rb_view h root (plug fs (N gc (N RED pl p pk (N RED l a k r)) g gk u))"
  obtains root' h' where "rb_fix_left root a p g h = Some (root', a, h')"
    "rb_view h' root' (plug fs (N gc (N RED pl p pk l) a k (N RED r g gk u)))"
proof -
  have p: "rb_view h root (plug (FL gc g gk u # fs) (N RED pl p pk (N RED l a k r)))" using v by simp
  obtain root1 h1 where 1: "nv_rb_leftRotate root p h = Some (root1, h1)"
    "rb_view h1 root1 (plug (FL gc g gk u # fs) (N RED (N RED pl p pk l) a k r))" by (rule view_left[OF p])
  then have q: "rb_view h1 root1 (plug (FL RED a k r # FL gc g gk u # fs) (N RED pl p pk l))"
    and v1: "rb_view h1 root1 (plug fs (N gc (N RED (N RED pl p pk l) a k r) g gk u))" by simp_all
  obtain root2 h2 where 2: "nv_rb_rightRotate root1 g h1 = Some (root2, h2)"
    "rb_view h2 root2 (plug fs (N RED (N RED pl p pk l) a k (N gc r g gk u)))" by (rule view_right[OF v1])
  obtain h3 where "rb_swap_colors a g h2 = Some h3" "rb_view h3 root2 (plug fs (N gc (N RED pl p pk l) a k (N RED r g gk u)))"
    by (rule view_swap_right[OF 2(2)])
  then show thesis using that 1 2 view_get[OF p] view_get[OF q] by (simp add: rb_fix_left_def above_def)
qed

lemma fix_right_straight:
  assumes v: "rb_view h root (plug fs (N gc u g gk (N RED pl p pk (N RED l a k r))))"
  obtains root' h' where "rb_fix_right root a p g h = Some (root', p, h')"
    "rb_view h' root' (plug fs (N gc (N RED u g gk pl) p pk (N RED l a k r)))"
proof -
  have p: "rb_view h root (plug (FR gc u g gk # fs) (N RED pl p pk (N RED l a k r)))" using v by simp
  have "a \<notin> set (addrs pl)" "a \<noteq> NULL" using v by (auto simp: rb_view_def rb_simps)
  then have a: "a \<noteq> root_of pl" using not_root by metis
  obtain root1 h1 where 1: "nv_rb_leftRotate root g h = Some (root1, h1)"
    "rb_view h1 root1 (plug fs (N RED (N gc u g gk pl) p pk (N RED l a k r)))" by (rule view_left[OF v])
  obtain h2 where "rb_swap_colors p g h1 = Some h2" "rb_view h2 root1 (plug fs (N gc (N RED u g gk pl) p pk (N RED l a k r)))"
    by (rule view_swap_left[OF 1(2)])
  then show thesis using that 1 a view_get[OF p] by (simp add: rb_fix_right_def)
qed

lemma fix_right_bent:
  assumes v: "rb_view h root (plug fs (N gc u g gk (N RED (N RED l a k r) p pk pr)))"
  obtains root' h' where "rb_fix_right root a p g h = Some (root', a, h')"
    "rb_view h' root' (plug fs (N gc (N RED u g gk l) a k (N RED r p pk pr)))"
proof -
  have p: "rb_view h root (plug (FR gc u g gk # fs) (N RED (N RED l a k r) p pk pr))" using v by simp
  obtain root1 h1 where 1: "nv_rb_rightRotate root p h = Some (root1, h1)"
    "rb_view h1 root1 (plug (FR gc u g gk # fs) (N RED l a k (N RED r p pk pr)))" by (rule view_right[OF p])
  then have q: "rb_view h1 root1 (plug (FR RED l a k # FR gc u g gk # fs) (N RED r p pk pr))"
    and v1: "rb_view h1 root1 (plug fs (N gc u g gk (N RED l a k (N RED r p pk pr))))" by simp_all
  obtain root2 h2 where 2: "nv_rb_leftRotate root1 g h1 = Some (root2, h2)"
    "rb_view h2 root2 (plug fs (N RED (N gc u g gk l) a k (N RED r p pk pr)))" by (rule view_left[OF v1])
  obtain h3 where "rb_swap_colors a g h2 = Some h3" "rb_view h3 root2 (plug fs (N gc (N RED u g gk l) a k (N RED r p pk pr)))"
    by (rule view_swap_left[OF 2(2)])
  then show thesis using that 1 2 view_get[OF p] view_get[OF q] by (simp add: rb_fix_right_def above_def)
qed

lemma frame_not_null: "rb_view h root (plug (f # fs) t) \<Longrightarrow> frame_addr f \<noteq> NULL"
  by (cases f) (auto simp: rb_view_def rb_simps)

text \<open>Where the grandparent links the parent on the left or on the right.\<close>

lemma body_left:
  assumes v: "rb_view h root (plug (f # FL gc g gk u # fs) (N c l a k r))"
  shows "rb_fix_body root a h =
    (if is_red u then do { h \<leftarrow> rb_recolor g (frame_addr f) (root_of u) h; Some (root, g, h) }
     else rb_fix_left root a (frame_addr f) g h)"
proof -
  let ?p = "frame_addr f"
  have "rb_get h a = Some \<lparr>rb_data = k, rb_color = c, rb_left = root_of l, rb_right = root_of r, rb_parent = ?p\<rparr>"
    using view_get[of h root "f # FL gc g gk u # fs" c l a k r] v by (simp add: above_def)
  moreover obtain P where P: "rb_get h ?p = Some P" "rb_parent P = g"
    using v by (cases f) (auto simp: rb_view_def rb_simps rb_get_def above_def)
  moreover have "rb_get h g = Some \<lparr>rb_data = gk, rb_color = gc, rb_left = ?p, rb_right = root_of u, rb_parent = above fs\<rparr>"
    using v by (cases f) (auto simp: rb_view_def rb_simps rb_get_def above_def)
  moreover have "rb_is_red (root_of u) h = Some (is_red u)"
    using v by (intro view_is_red[where fs = "FR gc (fill f (N c l a k r)) g gk # fs"]) simp
  ultimately show ?thesis by (simp add: rb_fix_body_def)
qed

lemma body_right:
  assumes v: "rb_view h root (plug (f # FR gc u g gk # fs) (N c l a k r))"
  shows "rb_fix_body root a h =
    (if is_red u then do { h \<leftarrow> rb_recolor g (frame_addr f) (root_of u) h; Some (root, g, h) }
     else rb_fix_right root a (frame_addr f) g h)"
proof -
  let ?p = "frame_addr f"
  have null: "?p \<noteq> NULL" using v by (rule frame_not_null)
  have "?p \<notin> set (addrs u)" using v by (cases f) (auto simp: rb_view_def rb_simps)
  then have u: "?p \<noteq> root_of u" using not_root null by metis
  have "rb_get h a = Some \<lparr>rb_data = k, rb_color = c, rb_left = root_of l, rb_right = root_of r, rb_parent = ?p\<rparr>"
    using view_get[of h root "f # FR gc u g gk # fs" c l a k r] v by (simp add: above_def)
  moreover obtain P where P: "rb_get h ?p = Some P" "rb_parent P = g"
    using v by (cases f) (auto simp: rb_view_def rb_simps rb_get_def above_def)
  moreover have "rb_get h g = Some \<lparr>rb_data = gk, rb_color = gc, rb_left = root_of u, rb_right = ?p, rb_parent = above fs\<rparr>"
    using v by (cases f) (auto simp: rb_view_def rb_simps rb_get_def above_def)
  moreover have "rb_is_red (root_of u) h = Some (is_red u)"
    using v by (intro view_is_red[where fs = "FL gc g gk (fill f (N c l a k r)) # fs"]) simp
  ultimately show ?thesis using u by (simp add: rb_fix_body_def)
qed

lemma body_step:
  assumes v: "rb_view h root (plug fs t)" and s: "fix_step fs t = Some (fs', t')"
  shows "\<exists>root' h'. rb_fix_body root (root_of t) h = Some (root', root_of t', h') \<and> rb_view h' root' (plug fs' t')"
  using s v
proof (cases "(fs, t)" rule: fix_step.cases)
  case (1 p pk pr gc g gk u gs l a k r)
  have v': "rb_view h root (plug gs (N gc (N RED t p pk pr) g gk u))" using v 1 by simp
  have b: "rb_fix_body root a h = (if is_red u then do { h \<leftarrow> rb_recolor g p (root_of u) h; Some (root, g, h) }
     else rb_fix_left root a p g h)" using v 1 body_left[of h root "FL RED p pk pr" gc g gk u gs RED l a k r] by simp
  show ?thesis
    using b s 1 v' by (cases "is_red u") (auto elim!: view_recolor_left[OF v'] fix_left_straight)
next
  case (2 pl p pk gc g gk u gs l a k r)
  have v': "rb_view h root (plug gs (N gc (N RED pl p pk t) g gk u))" using v 2 by simp
  have b: "rb_fix_body root a h = (if is_red u then do { h \<leftarrow> rb_recolor g p (root_of u) h; Some (root, g, h) }
     else rb_fix_left root a p g h)" using v 2 body_left[of h root "FR RED pl p pk" gc g gk u gs RED l a k r] by simp
  show ?thesis
    using b s 2 v' by (cases "is_red u") (auto elim!: view_recolor_left[OF v'] fix_left_bent)
next
  case (3 pl p pk gc u g gk gs l a k r)
  have v': "rb_view h root (plug gs (N gc u g gk (N RED pl p pk t)))" using v 3 by simp
  have b: "rb_fix_body root a h = (if is_red u then do { h \<leftarrow> rb_recolor g p (root_of u) h; Some (root, g, h) }
     else rb_fix_right root a p g h)" using v 3 body_right[of h root "FR RED pl p pk" gc u g gk gs RED l a k r] by simp
  show ?thesis
    using b s 3 v' by (cases "is_red u") (auto elim!: view_recolor_right[OF v'] fix_right_straight)
next
  case (4 p pk pr gc u g gk gs l a k r)
  have v': "rb_view h root (plug gs (N gc u g gk (N RED t p pk pr)))" using v 4 by simp
  have b: "rb_fix_body root a h = (if is_red u then do { h \<leftarrow> rb_recolor g p (root_of u) h; Some (root, g, h) }
     else rb_fix_right root a p g h)" using v 4 body_right[of h root "FL RED p pk pr" gc u g gk gs RED l a k r] by simp
  show ?thesis
    using b s 4 v' by (cases "is_red u") (auto elim!: view_recolor_right[OF v'] fix_right_bent)
qed auto

section \<open>The colouring\<close>

fun no_red_red :: "rb_tree \<Rightarrow> bool" where
  "no_red_red E = True"
| "no_red_red (N c l a k r) = (no_red_red l \<and> no_red_red r \<and> (c = RED \<longrightarrow> \<not> is_red l \<and> \<not> is_red r))"

text \<open>The number of black nodes on every way down, where it is the same on all.\<close>

fun join_heights :: "rb_color \<Rightarrow> nat option \<Rightarrow> nat option \<Rightarrow> nat option" where
  "join_heights c (Some m) (Some n) = (if m = n then Some (if c = BLACK then Suc m else m) else None)"
| "join_heights c x y = None"

fun bheight :: "rb_tree \<Rightarrow> nat option" where
  "bheight E = Some 0"
| "bheight (N c l a k r) = join_heights c (bheight l) (bheight r)"

definition rb_balanced :: "rb_tree \<Rightarrow> bool" where
  "rb_balanced t \<longleftrightarrow> no_red_red t \<and> \<not> is_red t \<and> bheight t \<noteq> None"

fun frame_color :: "frame \<Rightarrow> rb_color" where
  "frame_color (FL c a k r) = c"
| "frame_color (FR c l a k) = c"

fun sibling :: "frame \<Rightarrow> rb_tree" where
  "sibling (FL c a k r) = r"
| "sibling (FR c l a k) = l"

text \<open>The path is coloured as in a balanced tree; nothing is said of the tree in its hole.\<close>

fun path_ok :: "frame list \<Rightarrow> bool" where
  "path_ok [] = True"
| "path_ok (f # fs) \<longleftrightarrow>
     no_red_red (sibling f) \<and> path_ok fs \<and>
     (frame_color f = RED \<longrightarrow> \<not> is_red (sibling f) \<and> fs \<noteq> [] \<and> frame_color (hd fs) = BLACK)"

lemma not_red [simp]: "c \<noteq> RED \<longleftrightarrow> c = BLACK"
  by (cases c) auto

lemma join_assoc: "join_heights c x (join_heights RED y z) = join_heights c (join_heights RED x y) z"
  by (cases x; cases y; cases z) auto

lemma join_black: "join_heights BLACK x y = map_option Suc (join_heights RED x y)"
  by (cases x; cases y) auto

lemma join_recolor:
  "join_heights RED (join_heights BLACK x y) (map_option Suc z) = join_heights BLACK (join_heights RED x y) z"
  "join_heights RED (map_option Suc z) (join_heights BLACK x y) = join_heights BLACK z (join_heights RED x y)"
  by (cases x; cases y; cases z; auto)+

lemma bheight_plug: "bheight t = bheight t' \<Longrightarrow> bheight (plug fs t) = bheight (plug fs t')"
proof (induction fs arbitrary: t t')
  case (Cons f fs)
  then show ?case by (cases f) (simp_all add: Cons.IH[of "fill f t" "fill f t'"])
qed simp

lemma no_red_red_plug:
  assumes "path_ok fs" "no_red_red t" "fs = [] \<or> \<not> is_red t \<or> frame_color (hd fs) = BLACK"
  shows "no_red_red (plug fs t)"
  using assms
proof (induction fs arbitrary: t)
  case (Cons f fs)
  have "no_red_red (plug fs (fill f t))"
  proof (rule Cons.IH)
    show "path_ok fs" using Cons.prems by simp
    show "no_red_red (fill f t)" using Cons.prems by (cases f) auto
    show "fs = [] \<or> \<not> is_red (fill f t) \<or> frame_color (hd fs) = BLACK" using Cons.prems by (cases f) auto
  qed
  then show ?case by simp
qed simp

lemma path_ok_of_balanced:
  assumes "no_red_red (plug fs t)" "\<not> is_red (plug fs t)"
  shows "path_ok fs \<and> no_red_red t \<and> (is_red t \<longrightarrow> fs \<noteq> [] \<and> frame_color (hd fs) = BLACK)"
  using assms
proof (induction fs arbitrary: t)
  case (Cons f fs)
  then have "path_ok fs \<and> no_red_red (fill f t) \<and>
      (is_red (fill f t) \<longrightarrow> fs \<noteq> [] \<and> frame_color (hd fs) = BLACK)" by simp
  then show ?case by (cases f) auto
qed simp

lemma no_red_red_paint: "no_red_red t \<Longrightarrow> no_red_red (paint BLACK t)"
  by (cases t) auto

lemma is_red_paint [simp]: "\<not> is_red (paint BLACK t)"
  by (cases t) auto

lemma bheight_paint: "is_red t \<Longrightarrow> bheight (paint BLACK t) = map_option Suc (bheight t)"
  by (cases t) (auto simp: join_black)

lemma nodes_paint [simp]: "nodes (paint c t) = nodes t"
  by (cases t) auto

lemma root_of_paint [simp]: "root_of (paint c t) = root_of t"
  by (cases t) auto

lemma fix_step_local:
  assumes "fix_step fs t = Some (fs', t')"
  shows "\<exists>f g. fs = f # g # fs' \<and> nodes t' = nodes (fill g (fill f t)) \<and> t' \<noteq> E \<and>
    (path_ok fs \<longrightarrow> bheight t' = bheight (fill g (fill f t)))"
  using assms
  by (cases "(fs, t)" rule: fix_step.cases)
    (auto simp: bheight_paint join_assoc join_recolor split: if_splits)

lemma fix_step_plug:
  assumes "fix_step fs t = Some (fs', t')"
  shows "nodes (plug fs' t') = nodes (plug fs t)" "t' \<noteq> E" "length fs' < length fs"
    "path_ok fs \<Longrightarrow> bheight (plug fs' t') = bheight (plug fs t)"
  using fix_step_local[OF assms] by (auto intro: nodes_plug bheight_plug)

lemma fix_step_ok:
  assumes "fix_step fs t = Some (fs', t')" "path_ok fs" "no_red_red t"
  shows "path_ok fs' \<and> no_red_red t'"
  using assms
  by (cases "(fs, t)" rule: fix_step.cases) (auto simp: no_red_red_paint)

lemma fix_step_none:
  assumes "fix_step fs t = None" "path_ok fs" "t \<noteq> E"
  shows "fs = [] \<or> \<not> is_red t \<or> frame_color (hd fs) = BLACK"
  using assms by (cases "(fs, t)" rule: fix_step.cases) (auto split: list.splits)

section \<open>The loop\<close>

lemma view_root_iff:
  assumes "rb_view h root (plug fs t)" "t \<noteq> E"
  shows "root_of t = root \<longleftrightarrow> fs = []"
proof -
  have "frame_addr (last fs) \<in> set (path_addrs fs)" if "fs \<noteq> []"
    using that
  proof (induction fs)
    case (Cons f fs)
    then show ?case by (cases f) auto
  qed simp
  then show ?thesis using assms root_in[OF assms(2)] by (auto simp: rb_view_def rb_simps root_of_plug)
qed

lemma goes_on_iff:
  assumes v: "rb_view h root (plug fs t)" and t: "t \<noteq> E"
  shows "rb_fix_goes_on root (root_of t) h = Some (fs \<noteq> [] \<and> is_red t \<and> frame_color (hd fs) = RED)"
proof (cases fs)
  case Nil
  then show ?thesis using view_root_iff[OF v t] by (simp add: rb_fix_goes_on_def)
next
  case (Cons f gs)
  obtain c l a k r where [simp]: "t = N c l a k r" using t by (cases t) auto
  have "rb_get h a = Some \<lparr>rb_data = k, rb_color = c, rb_left = root_of l, rb_right = root_of r, rb_parent = frame_addr f\<rparr>"
    using view_get[of h root fs c l a k r] v Cons by (simp add: above_def)
  moreover have "map_option rb_color (rb_get h (frame_addr f)) = Some (frame_color f)"
    using v Cons by (cases f) (auto simp: rb_view_def rb_simps rb_get_def)
  ultimately show ?thesis using view_root_iff[OF v t] Cons
    by (cases c) (auto simp: rb_fix_goes_on_def)
qed

lemma fix_loop_view:
  assumes "rb_view h root (plug fs t)" "path_ok fs" "no_red_red t" "t \<noteq> E"
  shows "\<exists>root' h' t'. rb_fix_loop root (root_of t) h = Some (root', h') \<and> rb_view h' root' t' \<and>
           no_red_red t' \<and> bheight t' = bheight (plug fs t) \<and> nodes t' = nodes (plug fs t)"
  using assms
proof (induction "length fs" arbitrary: h root fs t rule: less_induct)
  case less
  show ?case
  proof (cases "fix_step fs t")
    case None
    then have stop: "fs = [] \<or> \<not> is_red t \<or> frame_color (hd fs) = BLACK"
      using fix_step_none less.prems by blast
    then have "rb_fix_loop root (root_of t) h = Some (root, h)"
      using goes_on_iff[OF less.prems(1,4)] by (subst rb_fix_loop.simps) auto
    then show ?thesis using less.prems no_red_red_plug[OF less.prems(2,3) stop] by blast
  next
    case (Some s)
    obtain fs' t' where s: "fix_step fs t = Some (fs', t')" using Some by (cases s) auto
    then have "rb_fix_goes_on root (root_of t) h = Some True"
      using goes_on_iff[OF less.prems(1,4)] by (cases "(fs, t)" rule: fix_step.cases) auto
    moreover obtain root1 h1 where b: "rb_fix_body root (root_of t) h = Some (root1, root_of t', h1)"
      "rb_view h1 root1 (plug fs' t')" using body_step[OF less.prems(1) s] by blast
    ultimately have "rb_fix_loop root (root_of t) h = rb_fix_loop root1 (root_of t') h1"
      by (subst rb_fix_loop.simps) simp
    then show ?thesis
      using less.hyps[of fs' h1 root1 t'] b(2) fix_step_plug[OF s] fix_step_ok[OF s less.prems(2,3)] less.prems(2) by auto
  qed
qed

section \<open>Insertion\<close>

fun ins :: "addr \<Rightarrow> int \<Rightarrow> rb_tree \<Rightarrow> rb_tree" where
  "ins p k E = N RED E p k E"
| "ins p k (N c l a x r) =
     (if k < x then N c (ins p k l) a x r
      else if k > x then N c l a x (ins p k r)
      else N c l a x r)"

lemma set_ins: "set (addrs (ins p k t)) \<subseteq> insert p (set (addrs t))"
  by (induction t) auto

lemma distinct_ins: "distinct (addrs t) \<Longrightarrow> p \<notin> set (addrs t) \<Longrightarrow> distinct (addrs (ins p k t))"
proof (induction t)
  case (N c l a x r)
  then have "set (addrs l) \<inter> set (addrs r) = {}" "p \<notin> set (addrs l)" "p \<notin> set (addrs r)" "a \<noteq> p" by auto
  then have "set (addrs (ins p k l)) \<inter> set (addrs r) = {}" "set (addrs l) \<inter> set (addrs (ins p k r)) = {}"
    using set_ins[of p k l] set_ins[of p k r] by blast+
  then show ?case using N set_ins[of p k l] set_ins[of p k r] by auto
qed simp

lemma root_of_ins: "t \<noteq> E \<Longrightarrow> root_of (ins p k t) = root_of t"
  by (cases t) auto

lemma ins_not_E [simp]: "ins p k t \<noteq> E"
  by (cases t) auto

lemma rb_rep_cong: "(\<And>x. x \<in> set (addrs t) \<Longrightarrow> h' x = h x) \<Longrightarrow> rb_rep h' q t = rb_rep h q t"
  by (induction t arbitrary: q) auto

lemma upd_at_comm: "p \<noteq> a \<Longrightarrow> upd_at p f (upd_at a g h) = upd_at a g (upd_at p f h)"
  by (auto simp: upd_at_def fun_upd_twist)

definition ins_post :: "addr \<Rightarrow> int \<Rightarrow> rb_tree \<Rightarrow> addr \<Rightarrow> rb_store \<Rightarrow> rb_store \<Rightarrow> bool" where
  "ins_post p k t q h h' \<longleftrightarrow>
     (if t = E then h' = h else rb_rep h' q (ins p k t)) \<and>
     (\<forall>x. x \<notin> set (addrs t) \<longrightarrow> x \<noteq> p \<longrightarrow> h' x = h x)"

lemma ins_post_child:
  assumes "ins_post p k t q0 h h1" "distinct (addrs t)" "p \<notin> set (addrs t)" "p \<noteq> NULL"
    "h p = Some \<lparr>rb_data = k, rb_color = RED, rb_left = NULL, rb_right = NULL, rb_parent = NULL\<rparr>"
  shows "rb_rep (upd_at (root_of (ins p k t)) (\<lambda>n. n\<lparr>rb_parent := a\<rparr>) h1) a (ins p k t)"
proof (cases "t = E")
  case True
  then show ?thesis using assms by (simp add: ins_post_def upd_at_def)
next
  case False
  then have "rb_rep h1 q0 (ins p k t)" using assms(1) by (simp add: ins_post_def)
  then show ?thesis by (rule rb_rep_reparent) (rule distinct_ins[OF assms(2,3)])
qed

lemma child_links:
  assumes sub: "rb_rep (upd_at (root_of s) (\<lambda>n. n\<lparr>rb_parent := a\<rparr>) h1) a s" and "s \<noteq> E"
    and a: "a \<notin> set (addrs s)" "a \<noteq> NULL" "h1 a = Some n"
  obtains h2 h3 where "store_upd a f h1 = Some h2"
    "store_upd (root_of s) (\<lambda>n. n\<lparr>rb_parent := a\<rparr>) h2 = Some h3"
    "rb_rep h3 a s" "h3 a = Some (f n)" "\<forall>x. x \<noteq> a \<longrightarrow> x \<notin> set (addrs s) \<longrightarrow> h3 x = h1 x"
proof -
  let ?h2 = "upd_at a f h1"
  let ?h3 = "upd_at (root_of s) (\<lambda>n. n\<lparr>rb_parent := a\<rparr>) ?h2"
  have q: "root_of s \<in> set (addrs s)" using assms(2) by (rule root_in)
  then have qa: "root_of s \<noteq> a" using a by auto
  have null: "root_of s \<noteq> NULL" using sub assms(2) root_of_null by blast
  have "h1 (root_of s) \<noteq> None" using sub null assms(2) by (cases s) (auto simp: upd_at_def)
  then have "store_upd (root_of s) (\<lambda>n. n\<lparr>rb_parent := a\<rparr>) ?h2 = Some ?h3"
    using null qa by (intro store_upd_some) (auto simp: upd_at_apply)
  moreover have "rb_rep ?h3 a s" using sub a(1) by (simp add: upd_at_comm[OF qa] rb_rep_upd_at)
  moreover have "?h3 a = Some (f n)" using a qa by (simp add: upd_at_apply)
  moreover have "?h3 x = h1 x" if "x \<noteq> a" "x \<notin> set (addrs s)" for x
    using that q by (auto simp: upd_at_apply)
  moreover have "store_upd a f h1 = Some ?h2" using a by (intro store_upd_some) auto
  ultimately show thesis using that by blast
qed

lemma ins_child:
  assumes post: "ins_post p k t a h h1" and t: "distinct (addrs t)" "p \<notin> set (addrs t)"
    and p: "p \<noteq> NULL" "h p = Some \<lparr>rb_data = k, rb_color = RED, rb_left = NULL, rb_right = NULL, rb_parent = NULL\<rparr>"
    and a: "a \<notin> set (addrs t)" "a \<noteq> p" "a \<noteq> NULL" "h a = Some n"
  obtains h2 h3 where "store_upd a f h1 = Some h2"
    "store_upd (root_of (ins p k t)) (\<lambda>n. n\<lparr>rb_parent := a\<rparr>) h2 = Some h3"
    "rb_rep h3 a (ins p k t)" "h3 a = Some (f n)"
    "\<forall>y. y \<noteq> a \<longrightarrow> y \<noteq> p \<longrightarrow> y \<notin> set (addrs t) \<longrightarrow> h3 y = h y"
proof -
  have a1: "h1 a = Some n" and rest: "\<And>y. y \<noteq> p \<Longrightarrow> y \<notin> set (addrs t) \<Longrightarrow> h1 y = h y"
    using post a by (auto simp: ins_post_def)
  have a': "a \<notin> set (addrs (ins p k t))" using a set_ins[of p k t] by auto
  have sub: "rb_rep (upd_at (root_of (ins p k t)) (\<lambda>n. n\<lparr>rb_parent := a\<rparr>) h1) a (ins p k t)"
    by (rule ins_post_child[OF post t p])
  obtain h2 h3 where h3: "store_upd a f h1 = Some h2"
    "store_upd (root_of (ins p k t)) (\<lambda>n. n\<lparr>rb_parent := a\<rparr>) h2 = Some h3"
    "rb_rep h3 a (ins p k t)" "h3 a = Some (f n)"
    "\<forall>y. y \<noteq> a \<longrightarrow> y \<notin> set (addrs (ins p k t)) \<longrightarrow> h3 y = h1 y"
    by (rule child_links[OF sub ins_not_E a' a(3) a1, where f = f])
  have "h3 y = h y" if "y \<noteq> a" "y \<noteq> p" "y \<notin> set (addrs t)" for y
  proof -
    have "y \<notin> set (addrs (ins p k t))" using that set_ins[of p k t] by blast
    then show ?thesis using that h3(5) rest[of y] by simp
  qed
  then show thesis using that h3(1-4) by blast
qed

lemma insertBST_post:
  assumes "rb_rep h q t" "distinct (addrs t)" "p \<notin> set (addrs t)" "p \<noteq> NULL"
    "h p = Some \<lparr>rb_data = k, rb_color = RED, rb_left = NULL, rb_right = NULL, rb_parent = NULL\<rparr>"
  shows "\<exists>h'. nv_rb_insertBST (root_of t) p h = Some (root_of (ins p k t), h') \<and> ins_post p k t q h h'"
  using assms
proof (induction t arbitrary: q)
  case E
  then show ?case by (subst nv_rb_insertBST.simps) (simp add: ins_post_def)
next
  case (N c l a x r)
  let ?n = "\<lparr>rb_data = x, rb_color = c, rb_left = root_of l, rb_right = root_of r, rb_parent = q\<rparr>"
  have a: "a \<noteq> NULL" "a \<noteq> p" "a \<notin> set (addrs l)" "a \<notin> set (addrs r)"
    and d: "distinct (addrs l)" "p \<notin> set (addrs l)" "distinct (addrs r)" "p \<notin> set (addrs r)"
      "set (addrs l) \<inter> set (addrs r) = {}"
    and n: "h a = Some ?n" using N.prems by auto
  have get: "rb_get h a = h a" "rb_get h p = h p" using a N.prems by (auto simp: rb_get_def)
  consider "k < x" | "k > x" | "k = x" by linarith
  then show ?case
  proof cases
    case 1
    obtain h1 where h1: "nv_rb_insertBST (root_of l) p h = Some (root_of (ins p k l), h1)" "ins_post p k l a h h1"
      using N.IH(1)[of a] N.prems d by auto
    obtain h2 h3 where h3: "store_upd a (\<lambda>n. n\<lparr>rb_left := root_of (ins p k l)\<rparr>) h1 = Some h2"
      "store_upd (root_of (ins p k l)) (\<lambda>n. n\<lparr>rb_parent := a\<rparr>) h2 = Some h3" "rb_rep h3 a (ins p k l)"
      "h3 a = Some (?n\<lparr>rb_left := root_of (ins p k l)\<rparr>)"
      and same: "\<forall>y. y \<noteq> a \<longrightarrow> y \<noteq> p \<longrightarrow> y \<notin> set (addrs l) \<longrightarrow> h3 y = h y"
      by (rule ins_child[OF h1(2) d(1,2) N.prems(4,5) a(3,2,1) n, where f = "\<lambda>n. n\<lparr>rb_left := root_of (ins p k l)\<rparr>"])
    have "h3 y = h y" if "y \<in> set (addrs r)" for y using same that a(4) d(4,5) by (metis disjoint_iff)
    then have "rb_rep h3 a r = rb_rep h a r" by (rule rb_rep_cong)
    then have "ins_post p k (N c l a x r) q h h3" using 1 h3(3,4) a N.prems(1) same by (simp add: ins_post_def)
    then show ?thesis using 1 h1 h3 get n a N.prems(5) by (subst nv_rb_insertBST.simps) simp
  next
    case 2
    obtain h1 where h1: "nv_rb_insertBST (root_of r) p h = Some (root_of (ins p k r), h1)" "ins_post p k r a h h1"
      using N.IH(2)[of a] N.prems d by auto
    obtain h2 h3 where h3: "store_upd a (\<lambda>n. n\<lparr>rb_right := root_of (ins p k r)\<rparr>) h1 = Some h2"
      "store_upd (root_of (ins p k r)) (\<lambda>n. n\<lparr>rb_parent := a\<rparr>) h2 = Some h3" "rb_rep h3 a (ins p k r)"
      "h3 a = Some (?n\<lparr>rb_right := root_of (ins p k r)\<rparr>)"
      and same: "\<forall>y. y \<noteq> a \<longrightarrow> y \<noteq> p \<longrightarrow> y \<notin> set (addrs r) \<longrightarrow> h3 y = h y"
      by (rule ins_child[OF h1(2) d(3,4) N.prems(4,5) a(4,2,1) n, where f = "\<lambda>n. n\<lparr>rb_right := root_of (ins p k r)\<rparr>"])
    have "h3 y = h y" if "y \<in> set (addrs l)" for y using same that a(3) d(2,5) by (metis disjoint_iff)
    then have "rb_rep h3 a l = rb_rep h a l" by (rule rb_rep_cong)
    then have "ins_post p k (N c l a x r) q h h3" using 2 h3(3,4) a N.prems(1) same by (simp add: ins_post_def)
    then show ?thesis using 2 h1 h3 get n a N.prems(5) by (subst nv_rb_insertBST.simps) simp
  next
    case 3
    then show ?thesis using N.prems get n a by (subst nv_rb_insertBST.simps) (simp add: ins_post_def)
  qed
qed

lemma plug_append: "plug (fs @ gs) t = plug gs (plug fs t)"
  by (induction fs arbitrary: t) auto

lemma ins_plug: "k \<notin> set (keys t) \<Longrightarrow> \<exists>fs. t = plug fs E \<and> ins p k t = plug fs (N RED E p k E)"
proof (induction t)
  case E
  have "E = plug [] E \<and> ins p k E = plug [] (N RED E p k E)" by simp
  then show ?case by blast
next
  case (N c l a x r)
  then consider "k < x" | "k > x" by fastforce
  then show ?case
  proof cases
    case 1
    obtain fs where "l = plug fs E" "ins p k l = plug fs (N RED E p k E)" using N by auto
    then have "N c l a x r = plug (fs @ [FL c a x r]) E \<and> ins p k (N c l a x r) = plug (fs @ [FL c a x r]) (N RED E p k E)"
      using 1 by (simp add: plug_append)
    then show ?thesis by blast
  next
    case 2
    obtain fs where "r = plug fs E" "ins p k r = plug fs (N RED E p k E)" using N by auto
    then have "N c l a x r = plug (fs @ [FR c l a x]) E \<and> ins p k (N c l a x r) = plug (fs @ [FR c l a x]) (N RED E p k E)"
      using 2 by (simp add: plug_append)
    then show ?thesis by blast
  qed
qed

lemma insort_before: "k < x \<Longrightarrow> insort k (xs @ x # ys) = insort k xs @ x # (ys :: int list)"
  by (induction xs) auto

lemma insort_after: "\<forall>y \<in> set xs. y < k \<Longrightarrow> x < k \<Longrightarrow> insort k (xs @ x # ys) = xs @ x # insort k (ys :: int list)"
  by (induction xs) auto

lemma keys_ins:
  "sorted_wrt (<) (keys t) \<Longrightarrow> k \<notin> set (keys t) \<Longrightarrow> keys (ins p k t) = insort k (keys t)"
proof (induction t)
  case (N c l a x r)
  have lt: "\<forall>y \<in> set (keys l). y < x" using N.prems(1) by (simp add: sorted_wrt_append)
  from N.prems(2) consider "k < x" | "k > x" by fastforce
  then show ?case
  proof cases
    case 1
    then show ?thesis using N by (simp add: sorted_wrt_append insort_before)
  next
    case 2
    then have "\<forall>y \<in> set (keys l). y < k" using lt by fastforce
    then show ?thesis using N 2 by (simp add: sorted_wrt_append insort_after)
  qed
qed simp

lemma set_plug: "set (addrs (plug fs t)) = set (addrs t) \<union> set (path_addrs fs)"
  using arg_cong[OF mset_plug, of set_mset fs t] by simp

lemma addrs_ins:
  assumes "k \<notin> set (keys t)"
  shows "set (addrs (ins p k t)) = insert p (set (addrs t))"
proof -
  obtain fs where fs: "t = plug fs E" "ins p k t = plug fs (N RED E p k E)" using ins_plug[OF assms] by blast
  show ?thesis unfolding fs(2) unfolding fs(1) set_plug by simp
qed

definition rb_ok :: "rb_store \<Rightarrow> addr \<Rightarrow> rb_tree \<Rightarrow> bool" where
  "rb_ok h root t \<longleftrightarrow> rb_view h root t \<and> rb_balanced t \<and> sorted_wrt (<) (keys t)"

lemma fresh_not_in: "rb_rep h q t \<Longrightarrow> fresh h p \<Longrightarrow> p \<notin> set (addrs t)"
  by (induction t arbitrary: q) (auto simp: fresh_def)

lemma strict_insort: "sorted_wrt (<) xs \<Longrightarrow> k \<notin> set xs \<Longrightarrow> sorted_wrt (<) (insort k (xs :: int list))"
  by (simp add: strict_sorted_iff sorted_insort distinct_insort)

lemma insertBST_view:
  assumes "rb_view h root t" "fresh h p"
  obtains root1 h0 h1 where "nv_rb_newNode p k h = Some h0" "nv_rb_insertBST root p h0 = Some (root1, h1)"
    "rb_view h1 root1 (ins p k t)"
proof -
  define h0 where "h0 = h(p \<mapsto> \<lparr>rb_data = k, rb_color = RED, rb_left = NULL, rb_right = NULL, rb_parent = NULL\<rparr>)"
  have p: "p \<noteq> NULL" "p \<notin> set (addrs t)" using assms fresh_not_in[of h NULL t p] by (simp_all add: fresh_def rb_view_def)
  have rep: "rb_rep h0 NULL t" using assms p by (simp add: h0_def rb_view_def rb_rep_other)
  obtain h1 where h1: "nv_rb_insertBST (root_of t) p h0 = Some (root_of (ins p k t), h1)" "ins_post p k t NULL h0 h1"
    using insertBST_post[OF rep _ p(2,1), of k] assms by (auto simp: h0_def rb_view_def)
  have "rb_rep h1 NULL (ins p k t)" using h1(2) p by (cases "t = E") (auto simp: ins_post_def h0_def)
  then have "rb_view h1 (root_of (ins p k t)) (ins p k t)"
    using assms(1) distinct_ins p by (simp add: rb_view_def)
  then show thesis using that h1 p assms(1) by (simp add: nv_rb_newNode_def h0_def rb_view_def)
qed

lemma insert_new:
  assumes ok: "rb_ok h root t" and p: "fresh h p" and k: "k \<notin> set (keys t)"
  shows "\<exists>root' h' t'. nv_rb_insert p root k h = Some (root', h') \<and> rb_ok h' root' t' \<and>
           keys t' = insort k (keys t) \<and> set (addrs t') = insert p (set (addrs t))"
proof -
  obtain root1 h0 h1 where h1: "nv_rb_newNode p k h = Some h0" "nv_rb_insertBST root p h0 = Some (root1, h1)"
    "rb_view h1 root1 (ins p k t)" using insertBST_view ok p by (metis rb_ok_def)
  obtain fs where fs: "t = plug fs E" "ins p k t = plug fs (N RED E p k E)" using ins_plug[OF k] by blast
  have path: "path_ok fs" using ok fs(1) path_ok_of_balanced by (metis rb_ok_def rb_balanced_def)
  obtain root2 h2 t2 where 2: "rb_fix_loop root1 p h1 = Some (root2, h2)" "rb_view h2 root2 t2"
    "no_red_red t2" "bheight t2 = bheight (ins p k t)" "nodes t2 = nodes (ins p k t)"
    using fix_loop_view[of h1 root1 fs "N RED E p k E"] h1(3) path fs(2) by auto
  have "t2 \<noteq> E" using 2(5) addrs_ins[OF k, of p] by auto
  then obtain c l a x r where t2: "t2 = N c l a x r" by (cases t2) auto
  have v2: "rb_view h2 root2 (plug [] (N c l a x r))" using 2(2) t2 by simp
  obtain h3 where 3: "rb_paint root2 BLACK h2 = Some h3" "rb_view h3 root2 (paint BLACK t2)"
    by (rule view_paint[OF v2, of BLACK]) (use 2(2) t2 in \<open>auto simp: rb_view_def\<close>)
  have "bheight t2 = bheight t" using bheight_plug[of "N RED E p k E" E fs] 2(4) fs by simp
  then have "bheight (paint BLACK t2) \<noteq> None"
    using ok bheight_paint[of t2] by (cases "is_red t2") (auto simp: rb_ok_def rb_balanced_def t2)
  moreover have keys: "keys (paint BLACK t2) = insort k (keys t)"
    using 2(5) keys_ins[of t k p] ok k by (simp add: rb_ok_def)
  ultimately have "rb_ok h3 root2 (paint BLACK t2)"
    using 2(3) 3(2) ok k by (simp add: rb_ok_def rb_balanced_def no_red_red_paint strict_insort)
  moreover have "set (addrs (paint BLACK t2)) = insert p (set (addrs t))" using 2(5) addrs_ins[OF k, of p] by simp
  moreover have "nv_rb_insert p root k h = Some (root2, h3)"
    using h1 2(1) 3(1) by (simp add: nv_rb_insert_def nv_rb_insertFix_def)
  ultimately show ?thesis using keys by blast
qed

text \<open>A key that is in the tree is found on the way down: nothing is linked.\<close>

lemma insertBST_dup:
  assumes "rb_rep h q t" "p \<noteq> NULL" "map_option rb_data (h p) = Some k"
    "sorted_wrt (<) (keys t)" "k \<in> set (keys t)"
  shows "nv_rb_insertBST (root_of t) p h = Some (root_of t, h)"
  using assms
proof (induction t arbitrary: q)
  case (N c l a x r)
  have ord: "\<forall>y \<in> set (keys l). y < x" "\<forall>y \<in> set (keys r). x < y" "sorted_wrt (<) (keys l)" "sorted_wrt (<) (keys r)"
    using N.prems(4) by (auto simp: sorted_wrt_append)
  have get: "rb_get h a = h a" "rb_get h p = h p" using N.prems by (auto simp: rb_get_def)
  obtain n where n: "h p = Some n" "rb_data n = k" using N.prems(3) by auto
  have same: "store_upd (root_of s) (\<lambda>n. n\<lparr>rb_parent := a\<rparr>) h = Some h" if "rb_rep h a s" "s \<noteq> E" for s
    using that by (cases s) (auto simp: store_upd_def map_upd_triv)
  have "l \<noteq> E" if "k < x" using that N.prems(5) ord(2) by (cases l) auto
  moreover have "r \<noteq> E" if "k > x" using that N.prems(5) ord(1) by (cases r) auto
  moreover have "nv_rb_insertBST (root_of l) p h = Some (root_of l, h)" if "k < x"
    using that N.prems ord by (intro N.IH(1)[of a]) auto
  moreover have "nv_rb_insertBST (root_of r) p h = Some (root_of r, h)" if "k > x"
    using that N.prems ord by (intro N.IH(2)[of a]) auto
  ultimately show ?case using N.prems(1) get n same[of l] same[of r]
    by (subst nv_rb_insertBST.simps) (auto simp: store_upd_def map_upd_triv)
qed simp

lemma insert_dup:
  assumes ok: "rb_ok h root t" and p: "fresh h p" and k: "k \<in> set (keys t)"
  shows "nv_rb_insert p root k h = None"
proof -
  define h0 where "h0 = h(p \<mapsto> \<lparr>rb_data = k, rb_color = RED, rb_left = NULL, rb_right = NULL, rb_parent = NULL\<rparr>)"
  have p': "p \<noteq> NULL" "p \<notin> set (addrs t)" using ok p fresh_not_in[of h NULL t p] by (simp_all add: fresh_def rb_ok_def rb_view_def)
  have "rb_rep h0 NULL t" using ok p' by (simp add: h0_def rb_ok_def rb_view_def rb_rep_other)
  then have "nv_rb_insertBST root p h0 = Some (root, h0)"
    using insertBST_dup[of h0 NULL t p k] ok k p' by (simp add: h0_def rb_ok_def rb_view_def)
  moreover have "rb_fix_goes_on root p h0 = None"
    using ok p' not_root[of p t] by (simp add: rb_fix_goes_on_def rb_get_def h0_def rb_ok_def rb_view_def)
  ultimately show ?thesis using p'
    by (simp add: nv_rb_insert_def nv_rb_newNode_def nv_rb_insertFix_def rb_fix_loop.simps h0_def)
qed

section \<open>Search, traversal and height\<close>

lemma search_rep:
  assumes "rb_rep h q t" "sorted_wrt (<) (keys t)"
  shows "\<exists>p. nv_rb_search h k (root_of t) = Some p \<and> (p \<noteq> NULL \<longleftrightarrow> k \<in> set (keys t)) \<and>
           (p \<noteq> NULL \<longrightarrow> (p, k) \<in> set (nodes t))"
  using assms
proof (induction t arbitrary: q)
  case E
  then show ?case by (subst nv_rb_search.simps) simp
next
  case (N c l a x r)
  have ord: "\<forall>y \<in> set (keys l). y < x" "\<forall>y \<in> set (keys r). x < y" "sorted_wrt (<) (keys l)" "sorted_wrt (<) (keys r)"
    using N.prems(2) by (auto simp: sorted_wrt_append)
  consider "k < x" | "k > x" | "k = x" by linarith
  then show ?case
  proof cases
    case 1
    then have "nv_rb_search h k (root_of (N c l a x r)) = nv_rb_search h k (root_of l)"
      using N.prems(1) by (subst nv_rb_search.simps) (auto simp: rb_get_def)
    moreover have "k \<notin> set (keys r)" using ord 1 by fastforce
    ultimately show ?thesis using N.IH(1)[of a] N.prems(1) ord(3) 1 by auto
  next
    case 2
    then have "nv_rb_search h k (root_of (N c l a x r)) = nv_rb_search h k (root_of r)"
      using N.prems(1) by (subst nv_rb_search.simps) (auto simp: rb_get_def)
    moreover have "k \<notin> set (keys l)" using ord 2 by fastforce
    ultimately show ?thesis using N.IH(2)[of a] N.prems(1) ord(4) 2 by auto
  next
    case 3
    then show ?thesis using N.prems(1) by (subst nv_rb_search.simps) (auto simp: rb_get_def)
  qed
qed

lemma inorder_rep: "rb_rep h q t \<Longrightarrow> nv_rb_inorder h (root_of t) = Some (keys t)"
proof (induction t arbitrary: q)
  case E
  then show ?case by (subst nv_rb_inorder.simps) simp
next
  case (N c l a x r)
  then show ?case using N.IH(1)[of a] N.IH(2)[of a] by (subst nv_rb_inorder.simps) (simp add: rb_get_def)
qed

fun height :: "rb_tree \<Rightarrow> nat" where
  "height E = 0"
| "height (N c l a k r) = Suc (max (height l) (height r))"

lemma height_bheight:
  "no_red_red t \<Longrightarrow> bheight t = Some b \<Longrightarrow> height t \<le> 2 * b + (if is_red t then 1 else 0) \<and> 2 ^ b \<le> length (nodes t) + 1"
proof (induction t arbitrary: b)
  case (N c l a k r)
  obtain m where m: "bheight l = Some m" "bheight r = Some m" "b = (if c = BLACK then Suc m else m)"
    using N.prems(2) by (cases "bheight l"; cases "bheight r") (auto split: if_splits)
  then show ?case using N.IH(1)[of m] N.IH(2)[of m] N.prems(1) by (cases c) (auto split: if_splits)
qed simp

lemma balanced_height:
  assumes "rb_balanced t"
  shows "2 ^ height t \<le> (length (nodes t) + 1)\<^sup>2"
proof -
  obtain b where b: "height t \<le> 2 * b" "2 ^ b \<le> length (nodes t) + 1"
    using assms height_bheight by (fastforce simp: rb_balanced_def)
  have "(2::nat) ^ height t \<le> (2 ^ b)\<^sup>2" using b(1) by (simp flip: power_mult add: mult.commute)
  also have "\<dots> \<le> (length (nodes t) + 1)\<^sup>2" using b(2) by (rule power_mono) simp
  finally show ?thesis .
qed

section \<open>Properties\<close>

fun insert_keys :: "(addr \<times> int) list \<Rightarrow> addr \<Rightarrow> rb_store \<Rightarrow> (addr \<times> rb_store) option" where
  "insert_keys [] root h = Some (root, h)"
| "insert_keys ((p, k) # xs) root h = do {
     (root, h) \<leftarrow> nv_rb_insert p root k h;
     insert_keys xs root h }"

text \<open>Nothing is allocated or freed but the new node.\<close>

definition lives :: "rb_store \<Rightarrow> addr \<Rightarrow> bool" where
  "lives h = (\<lambda>x. h x \<noteq> None)"

named_theorems rb_dom \<open>operations that keep the live addresses\<close>

lemma store_upd_dom [rb_dom]: "store_upd p f h = Some h' \<Longrightarrow> lives h' = lives h"
  by (auto simp: store_upd_def lives_def split: if_splits)

lemma set_parent_dom [rb_dom]: "rb_set_parent p q h = Some h' \<Longrightarrow> lives h' = lives h"
  by (auto simp: rb_set_parent_def split: if_splits dest!: rb_dom)

lemma replace_child_dom [rb_dom]: "rb_replace_child root q p n h = Some (root', h') \<Longrightarrow> lives h' = lives h"
  by (auto simp: rb_replace_child_def bind_eq_Some_conv split: if_splits dest!: rb_dom)

lemma rotate_dom [rb_dom]:
  "nv_rb_leftRotate root p h = Some (root', h') \<Longrightarrow> lives h' = lives h"
  "nv_rb_rightRotate root p h = Some (root', h') \<Longrightarrow> lives h' = lives h"
  by (auto simp: nv_rb_leftRotate_def nv_rb_rightRotate_def Let_def bind_eq_Some_conv dest!: rb_dom)

lemma colour_dom [rb_dom]:
  "rb_recolor g p u h = Some h' \<Longrightarrow> lives h' = lives h"
  "rb_swap_colors p g h = Some h' \<Longrightarrow> lives h' = lives h"
  by (auto simp: rb_recolor_def rb_swap_colors_def rb_paint_def bind_eq_Some_conv dest!: rb_dom)

lemma fix_side_dom [rb_dom]:
  "rb_fix_left root n p g h = Some (root', n', h') \<Longrightarrow> lives h' = lives h"
  "rb_fix_right root n p g h = Some (root', n', h') \<Longrightarrow> lives h' = lives h"
  by (auto simp: rb_fix_left_def rb_fix_right_def bind_eq_Some_conv split: if_splits dest!: rb_dom)

lemma fix_body_dom [rb_dom]: "rb_fix_body root n h = Some (root', n', h') \<Longrightarrow> lives h' = lives h"
  by (auto simp: rb_fix_body_def Let_def bind_eq_Some_conv split: if_splits dest!: rb_dom)

lemma fix_loop_dom:
  assumes "rb_fix_loop root n h = Some r"
  shows "lives (snd r) = lives h"
  using _ assms
proof (rule rb_fix_loop.raw_induct[where P = "\<lambda>root n h r. lives (snd r) = lives h"])
  fix loop root n h r
  assume IH: "\<And>root n h r. loop root n h = Some r \<Longrightarrow> lives (snd r) = lives h"
    and run: "rb_fix_goes_on root n h \<bind> (\<lambda>more.
      if more then rb_fix_body root n h \<bind> (\<lambda>(root, n, h). loop root n h) else Some (root, h)) = Some r"
  show "lives (snd r) = lives h"
    using run by (auto simp: bind_eq_Some_conv split: if_splits dest!: IH fix_body_dom)
qed

lemma insertBST_dom:
  assumes "nv_rb_insertBST root n h = Some r"
  shows "lives (snd r) = lives h"
  using _ assms
proof (rule nv_rb_insertBST.raw_induct[where P = "\<lambda>root n h r. lives (snd r) = lives h"], goal_cases)
  case (1 bst root n h r)
  show ?case using 1(2) by (auto simp: bind_eq_Some_conv split: if_splits dest!: 1(1) store_upd_dom)
qed

lemma insert_dom: "nv_rb_insert p root k h = Some (root', h') \<Longrightarrow> lives h' = (lives h)(p := True)"
  by (auto simp: nv_rb_insert_def nv_rb_newNode_def nv_rb_insertFix_def rb_paint_def bind_eq_Some_conv
      split: if_splits dest!: rb_dom fix_loop_dom insertBST_dom) (auto simp: lives_def)

lemma insert_keys_ok:
  assumes "rb_ok h root t" "distinct (map fst xs)" "\<forall>p \<in> set (map fst xs). fresh h p"
    "distinct (map snd xs)" "set (map snd xs) \<inter> set (keys t) = {}"
  shows "\<exists>root' h' t'. insert_keys xs root h = Some (root', h') \<and> rb_ok h' root' t' \<and>
           mset (keys t') = mset (map snd xs) + mset (keys t)"
  using assms
proof (induction xs arbitrary: h root t)
  case (Cons x xs)
  obtain p k where x: "x = (p, k)" by (cases x)
  obtain root1 h1 t1 where 1: "nv_rb_insert p root k h = Some (root1, h1)" "rb_ok h1 root1 t1"
    "keys t1 = insort k (keys t)"
    using insert_new[of h root t p k] Cons.prems x by auto
  have "lives h1 = (lives h)(p := True)" using 1(1) by (rule insert_dom)
  then have live: "q \<noteq> p \<Longrightarrow> h q = None \<Longrightarrow> h1 q = None" for q
    by (simp add: lives_def fun_eq_iff) (metis not_None_eq)
  have fresh: "\<forall>q \<in> set (map fst xs). fresh h1 q"
  proof
    fix q assume q: "q \<in> set (map fst xs)"
    then have "q \<noteq> p" "fresh h q" using Cons.prems(2,3) x by auto
    then show "fresh h1 q" using live by (simp add: fresh_def)
  qed
  have new: "set (map snd xs) \<inter> set (keys t1) = {}"
    using Cons.prems(4,5) x 1(3) by (auto simp: set_insort_key)
  obtain root' h' t' where "insert_keys xs root1 h1 = Some (root', h')" "rb_ok h' root' t'"
    "mset (keys t') = mset (map snd xs) + mset (keys t1)"
    using Cons.IH[OF 1(2) _ fresh _ new] Cons.prems(2,4) by auto
  then have "insert_keys (x # xs) root h = Some (root', h') \<and> rb_ok h' root' t' \<and>
      mset (keys t') = mset (map snd (x # xs)) + mset (keys t)"
    using 1(1) by (simp add: x 1(3) del: mset_map)
  then show ?case by blast
qed auto

lemma empty_ok: "rb_ok (\<lambda>_. None) NULL E"
  by (simp add: rb_ok_def rb_view_def rb_balanced_def)

text \<open>C17.  Insertion into a well-formed tree returns if and only if the key is not in the tree yet: the
  repair loop ends for every new key, and the code follows the NULL parent of the unlinked node when
  the key is already there.\<close>

theorem nv_rb_insert_returns_iff_new:
  assumes "rb_ok h root t" "fresh h p"
  shows "nv_rb_insert p root k h \<noteq> None \<longleftrightarrow> k \<notin> set (keys t)"
proof (cases "k \<in> set (keys t)")
  case True
  then show ?thesis using insert_dup[OF assms] by simp
next
  case False
  then obtain root' h' where "nv_rb_insert p root k h = Some (root', h')" using insert_new[OF assms] by blast
  then show ?thesis using False by simp
qed

text \<open>C16.  After the insertion of any different keys into the empty tree, the nodes form a red-black tree
  of logarithmic height, the traversal prints the keys in ascending order, and the search finds exactly
  the inserted keys.\<close>

theorem nv_rb_tree_sorts_and_finds:
  assumes "distinct (map fst xs)" "NULL \<notin> set (map fst xs)" "distinct (map snd xs)"
  shows "\<exists>root h t. insert_keys xs NULL (\<lambda>_. None) = Some (root, h) \<and> rb_view h root t \<and> rb_balanced t \<and>
           2 ^ height t \<le> (length xs + 1)\<^sup>2 \<and>
           nv_rb_inorder h root = Some (sort (map snd xs)) \<and>
           (\<forall>k. \<exists>p. nv_rb_search h k root = Some p \<and> (p \<noteq> NULL \<longleftrightarrow> k \<in> set (map snd xs)))"
proof -
  have fresh: "\<forall>p \<in> set (map fst xs). fresh (\<lambda>_. None :: nv_rb_Node option) p"
    using assms(2) unfolding fresh_def by metis
  obtain root h t where r: "insert_keys xs NULL (\<lambda>_. None) = Some (root, h)" "rb_ok h root t"
    "mset (keys t) = mset (map snd xs)"
    using insert_keys_ok[OF empty_ok assms(1) fresh assms(3)] by auto
  have sorted: "keys t = sort (map snd xs)"
    using r(2,3) by (intro properties_for_sort[symmetric]) (auto simp: rb_ok_def strict_sorted_iff)
  have len: "length (nodes t) = length xs" using mset_eq_length[OF r(3)] by simp
  have set: "set (keys t) = set (map snd xs)" using r(3) by (rule mset_eq_setD)
  have rep: "rb_rep h NULL t" "root = root_of t" using r(2) by (auto simp: rb_ok_def rb_view_def)
  have "nv_rb_inorder h root = Some (sort (map snd xs))" using inorder_rep[OF rep(1)] rep(2) sorted by simp
  moreover have "\<exists>p. nv_rb_search h k root = Some p \<and> (p \<noteq> NULL \<longleftrightarrow> k \<in> set (map snd xs))" for k
    using search_rep[OF rep(1), of k] r(2) rep(2) unfolding set[symmetric] by (auto simp: rb_ok_def)
  moreover have "2 ^ height t \<le> (length xs + 1)\<^sup>2"
    using balanced_height[of t] r(2) len by (simp add: rb_ok_def)
  ultimately show ?thesis using r(1,2) by (auto simp: rb_ok_def)
qed

theorem nv_rb_insert_returns_iff_new_witness:
  "nv_rb_insert 1 NULL 5 (\<lambda>_. None) \<noteq> None"
  using nv_rb_insert_returns_iff_new[OF empty_ok, of 1 5] by (simp add: fresh_def)

theorem nv_rb_tree_sorts_and_finds_witness:
  "\<exists>root h. insert_keys [(1, 30), (2, 10), (3, 20)] NULL (\<lambda>_. None) = Some (root, h) \<and>
     nv_rb_inorder h root = Some [10, 20, 30]"
proof -
  let ?xs = "[(1, 30), (2, 10), (3, 20)] :: (addr \<times> int) list"
  have ok: "distinct (map fst ?xs)" "NULL \<notin> set (map fst ?xs)" "distinct (map snd ?xs)"
    and sort: "sort (map snd ?xs) = [10, 20, 30]" by simp_all
  obtain root h where "insert_keys ?xs NULL (\<lambda>_. None) = Some (root, h)"
    "nv_rb_inorder h root = Some (sort (map snd ?xs))"
    using nv_rb_tree_sorts_and_finds[OF ok] by (elim exE conjE)
  then have "insert_keys ?xs NULL (\<lambda>_. None) = Some (root, h) \<and> nv_rb_inorder h root = Some [10, 20, 30]"
    unfolding sort by (rule conjI)
  then show ?thesis by (intro exI)
qed

end
