(* ===== verification/Nv_Runtime.thy ===== *)
theory Nv_Runtime
  imports Nv_Config Nv_Loop Nv_PubSub
begin

text \<open>
  The life of the daemon process: the modules of \<open>base/core/nv_base.c\<close>, the lock that admits one
  instance (\<open>core/runtime/nv_core_lock.c\<close>), the PID file, startup and signals
  (\<open>core/runtime/nv_core_startup.c\<close>), the idle handler, quitting and shutdown
  (\<open>core/runtime/nv_core_run.c\<close>), the heartbeat (\<open>core/runtime/nv_core_health.c\<close>) and the watchdog
  (\<open>base/sys/nv_watchdog.c\<close>).  The part of the kernel that processes share is a record of its own: the
  bound names of abstract sockets, the names of files and the files with their locks.  Several
  processes that start, stop and die on it form a step relation.
\<close>

section \<open>Modules\<close>

text \<open>What the \<open>init\<close> of a module returns is an argument; \<open>None\<close> is a missing function.
  The state records which modules were initialised and cleaned up, in order.\<close>

record nv_module_t =
  m_name :: cstring
  m_init :: "int option"
  m_cleanup :: bool

record base_state =
  g_modules :: "nv_module_t list"
  inits :: "cstring list"
  cleanups :: "cstring list"

definition NV_MODULE_MAX :: nat where "NV_MODULE_MAX = 6"

definition nv_base_register_module :: "nv_module_t option \<Rightarrow> base_state \<Rightarrow> int \<times> base_state" where
  "nv_base_register_module module b =
     (case module of None \<Rightarrow> (NV_ERROR, b)
      | Some m \<Rightarrow> if length (g_modules b) \<ge> NV_MODULE_MAX then (NV_ERROR, b)
                  else (NV_OK, b\<lparr>g_modules := g_modules b @ [m]\<rparr>))"

fun init_modules :: "nv_module_t list \<Rightarrow> base_state \<Rightarrow> int \<times> base_state" where
  "init_modules [] b = (NV_OK, b)"
| "init_modules (m # ms) b =
     (case m_init m of None \<Rightarrow> init_modules ms b
      | Some rc \<Rightarrow> if rc \<noteq> NV_OK then (NV_ERROR, b) else init_modules ms (b\<lparr>inits := inits b @ [m_name m]\<rparr>))"

definition nv_base_init :: "base_state \<Rightarrow> int \<times> base_state" where
  "nv_base_init b = init_modules (g_modules b) b"

definition nv_base_cleanup :: "base_state \<Rightarrow> base_state" where
  "nv_base_cleanup b =
     b\<lparr>cleanups := cleanups b @ map m_name (filter m_cleanup (rev (g_modules b))), g_modules := []\<rparr>"

section \<open>What processes share\<close>

record file_node =
  f_pid :: "nat option"
  f_lock :: "nat option"

record system =
  abstract_names :: "cstring \<Rightarrow> nat option"
  file_names :: "cstring \<Rightarrow> nat option"
  files :: "nat \<Rightarrow> file_node"
  next_file :: nat

text \<open>A process: its context, its identifier, the abstract name its lock descriptor is bound to and the
  file its PID descriptor refers to (\<open>None\<close> is -1), whether the log is open, and the parts it cleans up.\<close>

record process =
  pr_ctx :: nv_core_ctx_t
  pr_pid :: nat
  instance_lock_fd :: "cstring option"
  pid_fd :: "nat option"
  log_open :: bool
  pr_base :: base_state
  pr_bus :: "pubsub_server \<times> cstring bus"

section \<open>The instance lock\<close>

definition NV_CORE_DEFAULT_LOCK_NAME :: cstring where "NV_CORE_DEFAULT_LOCK_NAME = ''libnv''"

text \<open>The name bound: \<open>snprintf\<close> cuts it to the 106 bytes it is given, the rest of the address is zero, and the
  length passed to \<open>bind\<close> is computed from the uncut name.\<close>

definition lock_name :: "cstring option \<Rightarrow> cstring" where
  "lock_name name = (case name of None \<Rightarrow> NV_CORE_DEFAULT_LOCK_NAME
     | Some n \<Rightarrow> if n = '''' then NV_CORE_DEFAULT_LOCK_NAME else n)"

definition lock_key :: "cstring option \<Rightarrow> cstring" where
  "lock_key name =
     (let n = lock_name name; s = ctrunc 106 (''libnv-'' @ n) in s @ replicate (length n + 6 - length s) (CHR 0x00))"

text \<open>\<open>bind\<close> refuses an address longer than the 108 bytes of a Unix socket address.\<close>

definition kernel_bind :: "nat \<Rightarrow> cstring \<Rightarrow> system \<Rightarrow> int \<times> system" where
  "kernel_bind pid key s =
     (if 1 + length key > 108 then (NV_ERROR, s)
      else if abstract_names s key \<noteq> None then (NV_BUSY, s)
      else (NV_OK, s\<lparr>abstract_names := (abstract_names s)(key \<mapsto> pid)\<rparr>))"

definition nv_core_instance_lock_acquire :: "bool \<Rightarrow> process \<Rightarrow> system \<Rightarrow> int \<times> process \<times> system" where
  "nv_core_instance_lock_acquire socket_ok p s =
     (let p = p\<lparr>instance_lock_fd := None\<rparr>; key = lock_key (instance_lock (opts (pr_ctx p))) in
      if \<not> socket_ok then (NV_ERROR, p, s)
      else (case kernel_bind (pr_pid p) key s of (rc, s) \<Rightarrow>
              if rc \<noteq> NV_OK then (rc, p, s) else (NV_OK, p\<lparr>instance_lock_fd := Some key\<rparr>, s)))"

definition nv_core_instance_lock_release :: "process \<Rightarrow> system \<Rightarrow> system" where
  "nv_core_instance_lock_release p s =
     (case instance_lock_fd p of None \<Rightarrow> s
      | Some key \<Rightarrow> s\<lparr>abstract_names := (abstract_names s)(key := None)\<rparr>)"

section \<open>The PID file\<close>

text \<open>Opening creates a missing file.\<close>

definition kernel_open :: "cstring \<Rightarrow> system \<Rightarrow> nat \<times> system" where
  "kernel_open path s =
     (case file_names s path of Some f \<Rightarrow> (f, s)
      | None \<Rightarrow> (next_file s, s\<lparr>file_names := (file_names s)(path \<mapsto> next_file s),
                  files := (files s)(next_file s := \<lparr>f_pid = None, f_lock = None\<rparr>), next_file := Suc (next_file s)\<rparr>))"

definition upd_file :: "nat \<Rightarrow> (file_node \<Rightarrow> file_node) \<Rightarrow> system \<Rightarrow> system" where
  "upd_file f g s = s\<lparr>files := (files s)(f := g (files s f))\<rparr>"

definition nv_core_pidfile_create :: "bool \<Rightarrow> bool \<Rightarrow> bool \<Rightarrow> process \<Rightarrow> system \<Rightarrow> int \<times> process \<times> system" where
  "nv_core_pidfile_create open_ok truncate_ok write_ok p s =
     (case pid_file (opts (pr_ctx p)) of None \<Rightarrow> (NV_OK, p, s)
      | Some path \<Rightarrow>
         if \<not> open_ok then (NV_ERROR, p, s)
         else
           (let (f, s) = kernel_open path s in
            if f_lock (files s f) \<notin> {None, Some (pr_pid p)} then (NV_BUSY, p, s)
            else
              (let s = upd_file f (\<lambda>n. n\<lparr>f_lock := Some (pr_pid p)\<rparr>) s;
                   s = (if truncate_ok then upd_file f (\<lambda>n. n\<lparr>f_pid := if write_ok then Some (pr_pid p) else None\<rparr>) s else s)
               in (NV_OK, p\<lparr>pid_fd := Some f\<rparr>, s))))"

definition nv_core_pidfile_remove :: "process \<Rightarrow> system \<Rightarrow> process \<times> system" where
  "nv_core_pidfile_remove p s =
     (let s = (case pid_fd p of None \<Rightarrow> s | Some f \<Rightarrow> upd_file f (\<lambda>n. n\<lparr>f_lock := None\<rparr>) s);
          p = p\<lparr>pid_fd := None\<rparr>;
          s = (case pid_file (opts (pr_ctx p)) of None \<Rightarrow> s | Some path \<Rightarrow> s\<lparr>file_names := (file_names s)(path := None)\<rparr>)
      in (p, s))"

section \<open>Startup and shutdown\<close>

text \<open>What the environment answers during startup: copies of strings, memory, the configuration file, the
  identifier of the daemon (\<open>None\<close>: the fork or one of the calls after it fails), the log files, the lock
  socket, the PID file, and the plugins.\<close>

record startup_env =
  se_strdup :: "cstring \<Rightarrow> cstring option"
  se_alloc :: bool
  se_config :: "cstring option"
  se_daemon :: "nat option"
  se_log_file :: bool
  se_log_default :: bool
  se_socket :: bool
  se_open :: bool
  se_truncate :: bool
  se_write :: bool
  se_dl :: "cstring \<Rightarrow> dl_result"
  se_tries :: "cstring \<Rightarrow> nat \<Rightarrow> int"

definition upd_ctx :: "(nv_core_ctx_t \<Rightarrow> nv_core_ctx_t) \<Rightarrow> process \<Rightarrow> process" where
  "upd_ctx f p = p\<lparr>pr_ctx := f (pr_ctx p)\<rparr>"

definition nv_core_log_init :: "startup_env \<Rightarrow> process \<Rightarrow> int \<times> process" where
  "nv_core_log_init env p =
     (if \<not> se_log_file env \<and> \<not> se_log_default env then (NV_ERROR, p)
      else (NV_OK, (upd_ctx (\<lambda>c. c\<lparr>glog := nv_log_set_level (log_level (opts c)) (glog c)\<rparr>) p)\<lparr>log_open := True\<rparr>))"

text \<open>The limits requested of the kernel: on open files and on the size of core dumps.\<close>

definition nv_core_apply_rlimits :: "nv_core_opts_t \<Rightarrow> int option \<times> int option" where
  "nv_core_apply_rlimits op =
     (if max_open_files op > 0 then Some (max_open_files op) else None,
      if core_limit op \<ge> 0 then Some (core_limit op) else None)"

text \<open>The first part of startup, up to the log.\<close>

definition prepare :: "startup_env \<Rightarrow> process \<Rightarrow> int \<times> process" where
  "prepare env p =
     (let p = upd_ctx (\<lambda>c. c\<lparr>phase := NV_CORE_PHASE_STARTUP,
            glog := nv_log_set_console (if foreground (opts c) \<noteq> 0 \<or> daemon (opts c) = 0 then 1 else 0) (glog c)\<rparr>) p
      in case nv_core_load_config (se_strdup env) (se_alloc env) (se_config env) (pr_ctx p) of (rc, c) \<Rightarrow>
        (let p = p\<lparr>pr_ctx := c\<rparr> in
         if rc \<noteq> NV_OK then (NV_ERROR, p)
         else if nv_core_config_validate c \<noteq> NV_OK then (NV_ERROR, p)
         else
           (let run_daemon = daemon (opts c) \<noteq> 0 \<and> foreground (opts c) = 0;
                p = upd_ctx (\<lambda>c. if run_daemon then c\<lparr>glog := nv_log_set_console 0 (glog c)\<rparr>
                                  else if \<not> nv_ini_has_key (ini c) (Some ''log'') ''console''
                                  then c\<lparr>glog := nv_log_set_console 1 (glog c)\<rparr> else c) p
            in if run_daemon \<and> se_daemon env = None then (NV_ERROR, p)
               else nv_core_log_init env
                      (case se_daemon env of Some pid \<Rightarrow>
                         if run_daemon then (upd_ctx (\<lambda>c. c\<lparr>conf := (conf c)\<lparr>c_daemon := 1\<rparr>\<rparr>) p)\<lparr>pr_pid := pid\<rparr> else p
                       | None \<Rightarrow> p))))"

definition nv_core_startup_init :: "startup_env \<Rightarrow> process \<Rightarrow> system \<Rightarrow> int \<times> process \<times> system" where
  "nv_core_startup_init env p s =
     (case prepare env p of (rc, p) \<Rightarrow>
        if rc \<noteq> NV_OK then (NV_ERROR, p, s)
        else
          (let p = upd_ctx (\<lambda>c. c\<lparr>glog := nv_log_set_module (Some ''MAIN'') (glog c)\<rparr>) p in
           case nv_core_instance_lock_acquire (se_socket env) p s of (rc, p, s) \<Rightarrow>
           if rc \<noteq> NV_OK then (NV_ERROR, p, s)
           else
             (case nv_core_pidfile_create (se_open env) (se_truncate env) (se_write env) p s of (rc, p, s) \<Rightarrow>
              if rc \<noteq> NV_OK then (NV_ERROR, p, s)
              else
                (case nv_core_loadlibs_load (se_dl env) (se_tries env) (pr_ctx p) of (rc, c) \<Rightarrow>
                   (let p = p\<lparr>pr_ctx := c\<rparr> in
                    if rc \<noteq> NV_OK then (NV_ERROR, p, s)
                    else (case nv_base_init (pr_base p) of (rc, b) \<Rightarrow>
                            (if rc \<noteq> NV_OK then NV_ERROR else NV_OK, p\<lparr>pr_base := b\<rparr>, s)))))))"

text \<open>Shutdown.  \<open>None\<close>: the cleanup of the bus waits for a handler that is still running.\<close>

definition nv_core_shutdown :: "(cstring \<Rightarrow> nat \<Rightarrow> int) \<Rightarrow> process \<Rightarrow> system \<Rightarrow> (process \<times> system) option" where
  "nv_core_shutdown tries p s =
     (if phase (pr_ctx p) = NV_CORE_PHASE_SHUTDOWN then Some (p, s)
      else
        (case nv_core_loadlibs_unload tries ((pr_ctx p)\<lparr>phase := NV_CORE_PHASE_SHUTDOWN\<rparr>) of (c, _) \<Rightarrow>
         case nv_core_pubsub_cleanup (pr_bus p) of None \<Rightarrow> None
         | Some bus \<Rightarrow>
             (let (p, s) = nv_core_pidfile_remove (p\<lparr>pr_ctx := c, pr_base := nv_base_cleanup (pr_base p), pr_bus := bus\<rparr>) s;
                  s = nv_core_instance_lock_release p s
              in Some (upd_ctx (\<lambda>c. c\<lparr>ini := None, phase := NV_CORE_PHASE_NONE\<rparr>)
                         (p\<lparr>instance_lock_fd := None, log_open := False\<rparr>), s))))"

section \<open>Many processes\<close>

text \<open>Processes start, are refused, reload, stop, or die without any cleanup; the kernel then closes their
  descriptors.\<close>

record machine =
  running :: "nat \<Rightarrow> process option"
  sys :: system

definition kernel_reclaim :: "nat \<Rightarrow> system \<Rightarrow> system" where
  "kernel_reclaim pid s =
     s\<lparr>abstract_names := (\<lambda>k. if abstract_names s k = Some pid then None else abstract_names s k),
       files := (\<lambda>f. if f_lock (files s f) = Some pid then (files s f)\<lparr>f_lock := None\<rparr> else files s f)\<rparr>"

definition new_process :: "process \<Rightarrow> bool" where
  "new_process p \<longleftrightarrow> instance_lock_fd p = None \<and> pid_fd p = None \<and> phase (pr_ctx p) = NV_CORE_PHASE_NONE"

datatype machine_event = Start | Refuse | Reload | Stop | Die

text \<open>The event comes with the identifier of the process.\<close>

inductive machine_step :: "machine \<Rightarrow> machine_event \<times> nat \<Rightarrow> machine \<Rightarrow> bool" where
  started: "new_process p \<Longrightarrow> nv_core_startup_init env p (sys m) = (NV_OK, p', s') \<Longrightarrow> pid = pr_pid p' \<Longrightarrow> running m pid = None \<Longrightarrow>
    machine_step m (Start, pid) (m\<lparr>running := (running m)(pid \<mapsto> p'), sys := s'\<rparr>)"
| refused: "new_process p \<Longrightarrow> nv_core_startup_init env p (sys m) = (rc, p', s') \<Longrightarrow> rc \<noteq> NV_OK \<Longrightarrow>
    pid = pr_pid p' \<Longrightarrow> running m pid = None \<Longrightarrow> nv_core_shutdown tries p' s' = Some (p'', s'') \<Longrightarrow>
    machine_step m (Refuse, pid) (m\<lparr>sys := kernel_reclaim pid s''\<rparr>)"
| reloaded: "running m pid = Some p \<Longrightarrow> nv_core_reload_config sd alloc_ok contents (pr_ctx p) = (rc, c) \<Longrightarrow>
    machine_step m (Reload, pid) (m\<lparr>running := (running m)(pid \<mapsto> p\<lparr>pr_ctx := c\<rparr>)\<rparr>)"
| stopped: "running m pid = Some p \<Longrightarrow> nv_core_shutdown tries p (sys m) = Some (p', s') \<Longrightarrow>
    machine_step m (Stop, pid) (m\<lparr>running := (running m)(pid := None), sys := kernel_reclaim pid s'\<rparr>)"
| died: "running m pid = Some p \<Longrightarrow>
    machine_step m (Die, pid) (m\<lparr>running := (running m)(pid := None), sys := kernel_reclaim pid (sys m)\<rparr>)"

inductive_cases machine_stepE: "machine_step m l m'"

definition idle_machine :: "machine \<Rightarrow> bool" where
  "idle_machine m \<longleftrightarrow> running m = Map.empty \<and> abstract_names (sys m) = Map.empty"

text \<open>A bound name belongs to the running process that holds it, and every running process holds one.\<close>

definition machine_inv :: "machine \<Rightarrow> bool" where
  "machine_inv m \<longleftrightarrow>
     (\<forall>k q. abstract_names (sys m) k = Some q \<longrightarrow> (\<exists>p. running m q = Some p \<and> instance_lock_fd p = Some k)) \<and>
     (\<forall>q p. running m q = Some p \<longrightarrow> (\<exists>k. instance_lock_fd p = Some k \<and> abstract_names (sys m) k = Some q))"

lemma machine_invI:
  assumes "\<And>k q. abstract_names (sys m) k = Some q \<Longrightarrow> \<exists>p. running m q = Some p \<and> instance_lock_fd p = Some k"
    "\<And>q p. running m q = Some p \<Longrightarrow> \<exists>k. instance_lock_fd p = Some k \<and> abstract_names (sys m) k = Some q"
  shows "machine_inv m"
  using assms by (simp add: machine_inv_def)

lemma inv_runs: "machine_inv m \<Longrightarrow> abstract_names (sys m) k = Some q \<Longrightarrow> \<exists>p. running m q = Some p \<and> instance_lock_fd p = Some k"
  by (simp add: machine_inv_def)

lemma inv_holds: "machine_inv m \<Longrightarrow> running m q = Some p \<Longrightarrow> \<exists>k. instance_lock_fd p = Some k \<and> abstract_names (sys m) k = Some q"
  by (simp add: machine_inv_def)

lemma prepare_frame:
  "prepare env p = (rc, p') \<Longrightarrow> instance_lock_fd p' = instance_lock_fd p \<and> pid_fd p' = pid_fd p \<and> pr_base p' = pr_base p \<and> pr_bus p' = pr_bus p"
  by (auto simp: prepare_def nv_core_log_init_def upd_ctx_def Let_def split: prod.splits if_splits option.splits)

lemma pidfile_create_frame:
  "nv_core_pidfile_create a b c p s = (rc, p', s') \<Longrightarrow>
     instance_lock_fd p' = instance_lock_fd p \<and> pr_pid p' = pr_pid p \<and> pr_ctx p' = pr_ctx p \<and> abstract_names s' = abstract_names s"
  by (auto simp: nv_core_pidfile_create_def kernel_open_def upd_file_def Let_def split: prod.splits if_splits option.splits)

lemma startup_names:
  assumes "nv_core_startup_init env p s = (rc, p', s')" "instance_lock_fd p = None"
  shows "(instance_lock_fd p' = None \<and> abstract_names s' = abstract_names s \<and> rc \<noteq> NV_OK) \<or>
         (\<exists>k. instance_lock_fd p' = Some k \<and> abstract_names s k = None \<and> abstract_names s' = (abstract_names s)(k \<mapsto> pr_pid p'))"
proof -
  obtain rc1 p1 where p1: "prepare env p = (rc1, p1)" by (cases "prepare env p")
  have fd1: "instance_lock_fd p1 = None" using prepare_frame[OF p1] assms(2) by simp
  define p1' where "p1' = upd_ctx (\<lambda>c. c\<lparr>glog := nv_log_set_module (Some ''MAIN'') (glog c)\<rparr>) p1"
  obtain rc2 p2 s2 where p2: "nv_core_instance_lock_acquire (se_socket env) p1' s = (rc2, p2, s2)"
    by (cases "nv_core_instance_lock_acquire (se_socket env) p1' s") auto
  have lock: "if rc2 = NV_OK then \<exists>k. instance_lock_fd p2 = Some k \<and> abstract_names s k = None \<and> abstract_names s2 = (abstract_names s)(k \<mapsto> pr_pid p2)
    else instance_lock_fd p2 = None \<and> abstract_names s2 = abstract_names s"
    using p2 by (auto simp: nv_core_instance_lock_acquire_def kernel_bind_def Let_def NV_OK_def NV_ERROR_def NV_BUSY_def split: prod.splits if_splits)
  obtain rc3 p3 s3 where p3: "nv_core_pidfile_create (se_open env) (se_truncate env) (se_write env) p2 s2 = (rc3, p3, s3)"
    by (cases "nv_core_pidfile_create (se_open env) (se_truncate env) (se_write env) p2 s2") auto
  have err: "NV_ERROR \<noteq> NV_OK" by (simp add: NV_OK_def NV_ERROR_def)
  show ?thesis
  proof (cases "rc1 = NV_OK \<and> rc2 = NV_OK")
    case False
    then show ?thesis using assms(1) p1 p2 fd1 lock err
      by (auto simp: nv_core_startup_init_def Let_def p1'_def[symmetric] split: if_splits)
  next
    case True
    then have "instance_lock_fd p' = instance_lock_fd p3 \<and> pr_pid p' = pr_pid p3 \<and> s' = s3"
      using assms(1) p1 p2 p3 by (auto simp: nv_core_startup_init_def Let_def p1'_def[symmetric] split: if_splits prod.splits)
    then show ?thesis using True lock pidfile_create_frame[OF p3] by auto
  qed
qed

lemma shutdown_names:
  assumes "nv_core_shutdown tries p s = Some (p', s')"
  shows "abstract_names s' = abstract_names s \<or> (\<exists>k. instance_lock_fd p = Some k \<and> abstract_names s' = (abstract_names s)(k := None))"
  using assms
  by (auto simp: nv_core_shutdown_def nv_core_pidfile_remove_def nv_core_instance_lock_release_def upd_file_def Let_def
      split: if_splits prod.splits option.splits)

lemma reclaim_names: "abstract_names (kernel_reclaim pid s) k = (if abstract_names s k = Some pid then None else abstract_names s k)"
  by (simp add: kernel_reclaim_def)

lemma reclaimed_inv:
  assumes inv: "machine_inv m"
    and names: "\<And>k. abstract_names s k = (if abstract_names (sys m) k = Some pid then None else abstract_names (sys m) k)"
  shows "machine_inv (m\<lparr>running := (running m)(pid := None), sys := s\<rparr>)"
proof (rule machine_invI)
  fix k q
  assume "abstract_names (sys (m\<lparr>running := (running m)(pid := None), sys := s\<rparr>)) k = Some q"
  then have "abstract_names (sys m) k = Some q" "q \<noteq> pid" using names[of k] by (auto split: if_splits)
  then show "\<exists>p. running (m\<lparr>running := (running m)(pid := None), sys := s\<rparr>) q = Some p \<and> instance_lock_fd p = Some k"
    using inv_runs[OF inv] by simp
next
  fix q p
  assume "running (m\<lparr>running := (running m)(pid := None), sys := s\<rparr>) q = Some p"
  then have q: "running m q = Some p" "q \<noteq> pid" by (auto split: if_splits)
  then obtain k where k: "instance_lock_fd p = Some k" "abstract_names (sys m) k = Some q" using inv_holds[OF inv, of q p] by auto
  then have "abstract_names s k = Some q" using names[of k] q by simp
  then show "\<exists>k. instance_lock_fd p = Some k \<and> abstract_names (sys (m\<lparr>running := (running m)(pid := None), sys := s\<rparr>)) k = Some q"
    using k by simp
qed

lemma started_inv:
  assumes inv: "machine_inv m" and k: "instance_lock_fd p = Some k" "abstract_names (sys m) k = None"
    "abstract_names s = (abstract_names (sys m))(k \<mapsto> pid)" "running m pid = None"
  shows "machine_inv (m\<lparr>running := (running m)(pid \<mapsto> p), sys := s\<rparr>)"
proof (rule machine_invI)
  fix k' q
  assume *: "abstract_names (sys (m\<lparr>running := (running m)(pid \<mapsto> p), sys := s\<rparr>)) k' = Some q"
  show "\<exists>p'. running (m\<lparr>running := (running m)(pid \<mapsto> p), sys := s\<rparr>) q = Some p' \<and> instance_lock_fd p' = Some k'"
  proof (cases "k' = k")
    case True
    then show ?thesis using * k by simp
  next
    case False
    then obtain p' where "running m q = Some p'" "instance_lock_fd p' = Some k'" using * k(3) inv_runs[OF inv, of k' q] by auto
    then show ?thesis using k(4) by auto
  qed
next
  fix q p'
  assume "running (m\<lparr>running := (running m)(pid \<mapsto> p), sys := s\<rparr>) q = Some p'"
  then have "q = pid \<and> p' = p \<or> running m q = Some p'" by (simp split: if_splits)
  then consider "q = pid" "p' = p" | "running m q = Some p'" by blast
  then show "\<exists>k'. instance_lock_fd p' = Some k' \<and> abstract_names (sys (m\<lparr>running := (running m)(pid \<mapsto> p), sys := s\<rparr>)) k' = Some q"
  proof cases
    case 1
    then show ?thesis using k by simp
  next
    case 2
    then obtain k' where "instance_lock_fd p' = Some k'" "abstract_names (sys m) k' = Some q" using inv_holds[OF inv] by blast
    moreover have "k' \<noteq> k" using calculation(2) k(2) by auto
    ultimately show ?thesis using k(3) by simp
  qed
qed

lemma machine_step_inv:
  assumes inv: "machine_inv m" and step: "machine_step m l m'"
  shows "machine_inv m'"
  using step
proof cases
  case (started p env p' s' pid)
  obtain k where "instance_lock_fd p' = Some k" "abstract_names (sys m) k = None"
    "abstract_names s' = (abstract_names (sys m))(k \<mapsto> pid)"
    using startup_names[OF started(4)] started by (auto simp: new_process_def)
  then show ?thesis using started_inv[OF inv] started by simp
next
  case (refused p env rc p' s' pid tries p'' s'')
  have none: "abstract_names (sys m) k \<noteq> Some pid" for k using inv_runs[OF inv, of k pid] refused(7) by auto
  have "abstract_names (kernel_reclaim pid s'') k = abstract_names (sys m) k" for k
    using startup_names[OF refused(4)] shutdown_names[OF refused(8)] refused(3,6) none[of k]
    by (auto simp: new_process_def reclaim_names split: if_splits)
  then show ?thesis using inv refused(2) by (simp add: machine_inv_def)
next
  case (reloaded pid p sd alloc_ok contents rc c)
  have lock: "map_option instance_lock_fd (running m' q) = map_option instance_lock_fd (running m q)" "sys m' = sys m" for q
    using reloaded by auto
  show ?thesis
  proof (rule machine_invI)
    fix k q assume "abstract_names (sys m') k = Some q"
    then have "map_option instance_lock_fd (running m q) = Some (Some k)" using inv_runs[OF inv, of k q] lock(2) by auto
    then have "map_option instance_lock_fd (running m' q) = Some (Some k)" using lock(1)[of q] by simp
    then show "\<exists>p. running m' q = Some p \<and> instance_lock_fd p = Some k" by (simp add: map_option_eq_Some)
  next
    fix q p assume "running m' q = Some p"
    then obtain p0 where "running m q = Some p0" "instance_lock_fd p = instance_lock_fd p0"
      using lock(1)[of q] by (cases "running m q") auto
    then show "\<exists>k. instance_lock_fd p = Some k \<and> abstract_names (sys m') k = Some q"
      using inv_holds[OF inv, of q p0] lock(2) by simp
  qed
next
  case (stopped pid p tries p' s')
  have "instance_lock_fd p = Some k \<Longrightarrow> abstract_names (sys m) k = Some pid" for k
    using inv_holds[OF inv stopped(3)] by auto
  then have "abstract_names (kernel_reclaim pid s') k = (if abstract_names (sys m) k = Some pid then None else abstract_names (sys m) k)" for k
    using shutdown_names[OF stopped(4)] by (auto simp: reclaim_names split: if_splits)
  then show ?thesis using reclaimed_inv[OF inv] stopped(2) by simp
next
  case (died pid p)
  then show ?thesis using reclaimed_inv[OF inv] by (simp add: reclaim_names)
qed

interpretation mach: step_invariant idle_machine machine_step machine_inv
proof
  show "idle_machine m \<Longrightarrow> machine_inv m" for m by (simp add: idle_machine_def machine_inv_def)
  show "machine_inv m \<Longrightarrow> machine_step m l m' \<Longrightarrow> machine_inv m'" for m l m' by (rule machine_step_inv)
qed

text \<open>C10.  Whatever processes start, are refused, reload, stop or die, two processes that run at the same time
  never hold the same instance lock.\<close>

theorem nv_core_single_instance:
  assumes "reach idle_machine machine_step m" "running m a = Some p" "running m b = Some q" "a \<noteq> b"
  shows "instance_lock_fd p \<noteq> instance_lock_fd q"
proof -
  have inv: "machine_inv m" using assms(1) by (rule mach.reach_inv)
  show ?thesis using inv_holds[OF inv assms(2)] inv_holds[OF inv assms(3)] assms(4) by auto
qed

text \<open>C39.  A second start that finds the lock taken removes the PID file of the instance that is running: the shutdown
  after the refusal unlinks the file although this process never opened it.\<close>

theorem nv_core_refused_start_removes_pidfile:
  assumes prep: "prepare env p = (NV_OK, p1)" and new: "new_process p" "nv_core_pubsub_cleanup (pr_bus p) \<noteq> None"
    and lock: "se_socket env" "abstract_names s (lock_key (instance_lock (opts (pr_ctx p1)))) = Some a"
      "length (lock_key (instance_lock (opts (pr_ctx p1)))) < 108"
    and path: "pid_file (opts (pr_ctx p1)) = Some path" and "phase (pr_ctx p1) = NV_CORE_PHASE_STARTUP"
  shows "\<exists>p2 p3 s3. nv_core_startup_init env p s = (NV_ERROR, p2, s) \<and> nv_core_shutdown tries p2 s = Some (p3, s3) \<and>
           file_names s3 path = None \<and> abstract_names s3 = abstract_names s"
proof -
  have fr: "instance_lock_fd p1 = None" "pid_fd p1 = None" "pr_bus p1 = pr_bus p"
    using prepare_frame[OF prep] new(1) by (auto simp: new_process_def)
  obtain bus where bus: "nv_core_pubsub_cleanup (pr_bus p) = Some bus" using new(2) by auto
  define p2 where "p2 = (upd_ctx (\<lambda>c. c\<lparr>glog := nv_log_set_module (Some ''MAIN'') (glog c)\<rparr>) p1)\<lparr>instance_lock_fd := None\<rparr>"
  have "nv_core_startup_init env p s = (NV_ERROR, p2, s)"
    using prep lock by (simp add: nv_core_startup_init_def Let_def nv_core_instance_lock_acquire_def kernel_bind_def upd_ctx_def p2_def
        NV_OK_def NV_BUSY_def)
  moreover have "\<exists>p3 s3. nv_core_shutdown tries p2 s = Some (p3, s3) \<and> file_names s3 path = None \<and> abstract_names s3 = abstract_names s"
    using assms(8) path fr bus
    by (auto simp: nv_core_shutdown_def nv_core_loadlibs_unload_def nv_core_pidfile_remove_def nv_core_instance_lock_release_def
        upd_ctx_def p2_def Let_def split: prod.splits)
  ultimately show ?thesis by blast
qed

section \<open>A machine with two instances\<close>

definition plain_env :: startup_env where
  "plain_env = \<lparr>se_strdup = Some, se_alloc = True, se_config = None, se_daemon = None, se_log_file = True, se_log_default = True,
     se_socket = True, se_open = True, se_truncate = True, se_write = True, se_dl = (\<lambda>_. \<lparr>dl_open = True, dl_init = True, dl_cleanup = True, dl_thread = True\<rparr>),
     se_tries = (\<lambda>_ _. 0)\<rparr>"

definition plain_process :: "cstring \<Rightarrow> cstring option \<Rightarrow> nat \<Rightarrow> process" where
  "plain_process name path pid =
     \<lparr>pr_ctx = (sample_ctx ''/p'')\<lparr>opts := default_opts\<lparr>instance_lock := Some name, pid_file := path\<rparr>\<rparr>, pr_pid = pid,
      instance_lock_fd = None, pid_fd = None, log_open = False,
      pr_base = \<lparr>g_modules = [], inits = [], cleanups = []\<rparr>,
      pr_bus = (\<lparr>pubsub_inited = False, pubsub_ipc_fd = -1, pubsub_ipc_running = False, pubsub_ipc_thread_started = False, pubsub_ipc_clients = []\<rparr>,
                \<lparr>pubsubs = [], pubsub_next_id = 0, acts = [], delivered = []\<rparr>)\<rparr>"

lemma plain_prepare:
  "\<exists>p. prepare plain_env (plain_process name path pid) = (NV_OK, p) \<and> pr_pid p = pid \<and> instance_lock (opts (pr_ctx p)) = Some name \<and>
       pid_file (opts (pr_ctx p)) = path \<and> phase (pr_ctx p) = NV_CORE_PHASE_STARTUP \<and> loadlibs (pr_ctx p) = [] \<and> \<not> loadlibs_loaded (pr_ctx p)"
  by (simp add: prepare_def plain_env_def plain_process_def sample_ctx_def nv_core_load_config_def nv_ini_load_def nv_core_config_validate_def
      nv_core_log_init_def upd_ctx_def default_opts_def Let_def log_levels NV_OK_def)

lemma plain_start:
  assumes "abstract_names s (lock_key (Some name)) = None" "length (lock_key (Some name)) < 108"
  shows "\<exists>p' s'. nv_core_startup_init plain_env (plain_process name None pid) s = (NV_OK, p', s') \<and> pr_pid p' = pid \<and>
    instance_lock_fd p' = Some (lock_key (Some name)) \<and> abstract_names s' = (abstract_names s)(lock_key (Some name) \<mapsto> pid)"
proof -
  obtain p where p: "prepare plain_env (plain_process name None pid) = (NV_OK, p)" "pr_pid p = pid" "instance_lock (opts (pr_ctx p)) = Some name"
    "pid_file (opts (pr_ctx p)) = None" "loadlibs (pr_ctx p) = []" "\<not> loadlibs_loaded (pr_ctx p)"
    using plain_prepare[of name None pid] by blast
  have base: "pr_base p = \<lparr>g_modules = [], inits = [], cleanups = []\<rparr>"
    using prepare_frame[OF p(1)] by (simp add: plain_process_def)
  show ?thesis using assms p base
    by (simp add: nv_core_startup_init_def nv_core_instance_lock_acquire_def kernel_bind_def nv_core_pidfile_create_def
        nv_core_loadlibs_load_def nv_base_init_def upd_ctx_def plain_env_def Let_def)
qed

definition idle_system :: system where
  "idle_system = \<lparr>abstract_names = Map.empty, file_names = Map.empty, files = (\<lambda>_. \<lparr>f_pid = None, f_lock = None\<rparr>), next_file = 0\<rparr>"

lemma plain_new: "new_process (plain_process name path pid)"
  by (simp add: new_process_def plain_process_def sample_ctx_def)

lemma key_a: "lock_key (Some ''a'') = ''libnv-a''" and key_b: "lock_key (Some ''b'') = ''libnv-b''"
  by code_simp+

theorem nv_core_single_instance_witness:
  "\<exists>m p q. reach idle_machine machine_step m \<and> running m 10 = Some p \<and> running m 11 = Some q \<and>
     instance_lock_fd p \<noteq> instance_lock_fd q"
proof -
  define m0 where "m0 = \<lparr>running = Map.empty, sys = idle_system\<rparr>"
  have r0: "reach idle_machine machine_step m0" by (rule reach_start) (simp add: m0_def idle_machine_def idle_system_def)
  obtain p s where p: "nv_core_startup_init plain_env (plain_process ''a'' None 10) (sys m0) = (NV_OK, p, s)" "pr_pid p = 10"
    "abstract_names s = [''libnv-a'' \<mapsto> 10]"
    using plain_start[of "sys m0" "''a''" 10] by (auto simp: key_a m0_def idle_system_def)
  define m1 where "m1 = m0\<lparr>running := (running m0)(10 \<mapsto> p), sys := s\<rparr>"
  have "machine_step m0 (Start, 10) m1"
    unfolding m1_def by (rule started[OF plain_new p(1)]) (simp_all add: p(2) m0_def)
  then have r1: "reach idle_machine machine_step m1" by (rule reach_step[OF r0])
  obtain q t where q: "nv_core_startup_init plain_env (plain_process ''b'' None 11) (sys m1) = (NV_OK, q, t)" "pr_pid q = 11"
    using plain_start[of "sys m1" "''b''" 11] by (auto simp: key_b m1_def p(3))
  define m2 where "m2 = m1\<lparr>running := (running m1)(11 \<mapsto> q), sys := t\<rparr>"
  have "machine_step m1 (Start, 11) m2"
    unfolding m2_def by (rule started[OF plain_new q(1)]) (simp_all add: q(2) m1_def m0_def)
  then have r2: "reach idle_machine machine_step m2" by (rule reach_step[OF r1])
  have run: "running m2 10 = Some p" "running m2 11 = Some q" by (simp_all add: m2_def m1_def)
  have "instance_lock_fd p \<noteq> instance_lock_fd q" by (rule nv_core_single_instance[OF r2 run]) simp
  then show ?thesis using r2 run by blast
qed

theorem nv_core_refused_start_removes_pidfile_witness:
  "\<exists>p3 s3. nv_core_shutdown (\<lambda>_ _. 0) (fst (snd (nv_core_startup_init plain_env (plain_process ''a'' (Some ''nv.pid'') 11)
        (idle_system\<lparr>abstract_names := [''libnv-a'' \<mapsto> 10], file_names := [''nv.pid'' \<mapsto> 0]\<rparr>))))
        (idle_system\<lparr>abstract_names := [''libnv-a'' \<mapsto> 10], file_names := [''nv.pid'' \<mapsto> 0]\<rparr>) = Some (p3, s3) \<and>
     file_names s3 ''nv.pid'' = None"
proof -
  let ?p = "plain_process ''a'' (Some ''nv.pid'') 11"
  let ?s = "idle_system\<lparr>abstract_names := [''libnv-a'' \<mapsto> 10], file_names := [''nv.pid'' \<mapsto> 0]\<rparr>"
  obtain p1 where p1: "prepare plain_env ?p = (NV_OK, p1)" "instance_lock (opts (pr_ctx p1)) = Some ''a''"
    "pid_file (opts (pr_ctx p1)) = Some ''nv.pid''" "phase (pr_ctx p1) = NV_CORE_PHASE_STARTUP"
    using plain_prepare[of "''a''" "Some ''nv.pid''" 11] by blast
  have "\<exists>p2 p3 s3. nv_core_startup_init plain_env ?p ?s = (NV_ERROR, p2, ?s) \<and> nv_core_shutdown (\<lambda>_ _. 0) p2 ?s = Some (p3, s3) \<and>
      file_names s3 ''nv.pid'' = None \<and> abstract_names s3 = abstract_names ?s"
    by (rule nv_core_refused_start_removes_pidfile[OF p1(1) plain_new, where a = 10])
      (simp_all add: p1 key_a plain_env_def plain_process_def nv_core_pubsub_cleanup_def)
  then show ?thesis by (elim exE conjE) simp
qed

end
