(* ===== verification/Nv_Signal.thy ===== *)
theory Nv_Signal
  imports Nv_Interfaces
begin

text \<open>
  Signals read from a descriptor (\<open>base/ipc/nv_signal.c\<close>): the table of handlers, the mask and the
  descriptor.  The kernel's part of the state is explicit: the signals the process blocks, those that wait
  because they are blocked, and those whose default action was taken because they were not.  \<open>sfd\<close> is the
  result of \<open>signalfd\<close> for the descriptor passed to it.  Handlers are values of any type; \<open>call\<close> says what they do.
\<close>

section \<open>State\<close>

record 'h nv_signal_slot_t =
  sg_used :: bool
  sg_signum :: int
  sg_handler :: "'h option"

record 'h signals =
  g_mask :: "int list"
  g_signalfd :: int
  g_slots :: "'h nv_signal_slot_t list"
  g_inited :: bool
  fd_mask :: "int list"
  sig_blocked :: "int list"
  sig_pending :: "int list"
  sig_default :: "int list"

definition NV_SIGNAL_SLOT_MAX :: nat where "NV_SIGNAL_SLOT_MAX = 32"
definition NSIG :: int where "NSIG = 65"

definition zero_slots :: "'h nv_signal_slot_t list" where
  "zero_slots = replicate NV_SIGNAL_SLOT_MAX \<lparr>sg_used = False, sg_signum = 0, sg_handler = None\<rparr>"

text \<open>The mask is added to what the process blocks.\<close>

definition kernel_block :: "'h signals \<Rightarrow> 'h signals" where
  "kernel_block s = s\<lparr>sig_blocked := sig_blocked s @ filter (\<lambda>n. n \<notin> set (sig_blocked s)) (g_mask s)\<rparr>"

definition kernel_unblock :: "'h signals \<Rightarrow> 'h signals" where
  "kernel_unblock s = s\<lparr>sig_blocked := filter (\<lambda>n. n \<notin> set (g_mask s)) (sig_blocked s)\<rparr>"

text \<open>A signal arrives.  One that waits already is not queued again.\<close>

definition kernel_signal :: "int \<Rightarrow> 'h signals \<Rightarrow> 'h signals" where
  "kernel_signal n s =
     (if n \<in> set (sig_blocked s)
      then (if n \<in> set (sig_pending s) then s else s\<lparr>sig_pending := sig_pending s @ [n]\<rparr>)
      else s\<lparr>sig_default := sig_default s @ [n]\<rparr>)"

section \<open>Operations\<close>

definition nv_signal_update_fd :: "(int \<Rightarrow> int) \<Rightarrow> 'h signals \<Rightarrow> int \<times> 'h signals" where
  "nv_signal_update_fd sfd s =
     (let nfd = sfd (if g_signalfd s < 0 then -1 else g_signalfd s) in
      if nfd < 0 then (-1, s) else (0, s\<lparr>g_signalfd := nfd, fd_mask := g_mask s\<rparr>))"

fun find_slot :: "int \<Rightarrow> 'h nv_signal_slot_t list \<Rightarrow> 'h option" where
  "find_slot n [] = None"
| "find_slot n (x # xs) = (if sg_used x \<and> sg_signum x = n then sg_handler x else find_slot n xs)"

definition nv_signal_find_handler :: "int \<Rightarrow> 'h signals \<Rightarrow> 'h option" where
  "nv_signal_find_handler n s = find_slot n (g_slots s)"

definition nv_signal_init :: "(int \<Rightarrow> int) \<Rightarrow> 'h signals \<Rightarrow> int \<times> 'h signals" where
  "nv_signal_init sfd s =
     (if g_inited s then (0, s)
      else (case nv_signal_update_fd sfd ((kernel_block (s\<lparr>g_mask := []\<rparr>))\<lparr>g_slots := zero_slots\<rparr>) of (rc, s) \<Rightarrow>
              if rc \<noteq> 0 then (-1, s) else (0, s\<lparr>g_inited := True\<rparr>)))"

definition nv_signal_shutdown :: "'h signals \<Rightarrow> 'h signals" where
  "nv_signal_shutdown s =
     (kernel_unblock (s\<lparr>g_signalfd := -1, fd_mask := [], g_mask := []\<rparr>))\<lparr>g_slots := zero_slots, g_inited := False\<rparr>"

fun replace_slot :: "int \<Rightarrow> 'h \<Rightarrow> 'h nv_signal_slot_t list \<Rightarrow> 'h nv_signal_slot_t list option" where
  "replace_slot n h [] = None"
| "replace_slot n h (x # xs) =
     (if sg_used x \<and> sg_signum x = n then Some (x\<lparr>sg_handler := Some h\<rparr> # xs) else map_option (Cons x) (replace_slot n h xs))"

fun fill_slot :: "int \<Rightarrow> 'h \<Rightarrow> 'h nv_signal_slot_t list \<Rightarrow> 'h nv_signal_slot_t list option" where
  "fill_slot n h [] = None"
| "fill_slot n h (x # xs) =
     (if \<not> sg_used x then Some (\<lparr>sg_used = True, sg_signum = n, sg_handler = Some h\<rparr> # xs) else map_option (Cons x) (fill_slot n h xs))"

definition nv_signal_register :: "(int \<Rightarrow> int) \<Rightarrow> int \<Rightarrow> 'h option \<Rightarrow> 'h signals \<Rightarrow> int \<times> 'h signals" where
  "nv_signal_register sfd n handler s =
     (case handler of None \<Rightarrow> (-1, s)
      | Some h \<Rightarrow>
         if n \<le> 0 \<or> n \<ge> NSIG then (-1, s)
         else (case (if g_inited s then (0, s) else nv_signal_init sfd s) of (rc, s) \<Rightarrow>
           if rc \<noteq> 0 then (-1, s)
           else case replace_slot n h (g_slots s) of Some xs \<Rightarrow> (0, s\<lparr>g_slots := xs\<rparr>)
             | None \<Rightarrow>
                (case fill_slot n h (g_slots s) of None \<Rightarrow> (-1, s)
                 | Some xs \<Rightarrow> nv_signal_update_fd sfd
                     (kernel_block (s\<lparr>g_slots := xs, g_mask := (if n \<in> set (g_mask s) then g_mask s else g_mask s @ [n])\<rparr>)))))"

definition nv_signal_fd :: "'h signals \<Rightarrow> int" where
  "nv_signal_fd s = g_signalfd s"

text \<open>\<open>reads\<close> is what successive reads of the descriptor return; a read returns a waiting signal of the
  descriptor's mask and takes it off, and an input that is none stands for a read that fails.  \<open>w\<close> is what the handlers
  work on.\<close>

fun dispatch_loop :: "('h \<Rightarrow> int \<Rightarrow> 'w \<Rightarrow> 'w) \<Rightarrow> int list \<Rightarrow> 'w \<times> 'h signals \<Rightarrow> 'w \<times> 'h signals" where
  "dispatch_loop call [] ws = ws"
| "dispatch_loop call (n # ns) (w, s) =
     (if n \<in> set (sig_pending s) \<and> n \<in> set (fd_mask s)
      then (let s = s\<lparr>sig_pending := remove1 n (sig_pending s)\<rparr>
            in dispatch_loop call ns
                 (case nv_signal_find_handler n s of None \<Rightarrow> (w, s) | Some h \<Rightarrow> (call h n w, s)))
      else (w, s))"

definition nv_signal_dispatch :: "('h \<Rightarrow> int \<Rightarrow> 'w \<Rightarrow> 'w) \<Rightarrow> int list \<Rightarrow> int \<Rightarrow> 'w \<times> 'h signals \<Rightarrow> 'w \<times> 'h signals" where
  "nv_signal_dispatch call reads fd ws = (if fd < 0 then ws else dispatch_loop call reads ws)"

text \<open>Registrations in order, up to the first that fails.\<close>

fun register_all :: "(int \<Rightarrow> int) \<Rightarrow> (int \<times> 'h) list \<Rightarrow> 'h signals \<Rightarrow> int \<times> 'h signals" where
  "register_all sfd [] s = (0, s)"
| "register_all sfd ((n, h) # xs) s =
     (case nv_signal_register sfd n (Some h) s of (rc, s) \<Rightarrow> if rc \<noteq> 0 then (-1, s) else register_all sfd xs s)"

definition no_signals :: "'h signals" where
  "no_signals = \<lparr>g_mask = [], g_signalfd = -1, g_slots = zero_slots, g_inited = False, fd_mask = [],
     sig_blocked = [], sig_pending = [], sig_default = []\<rparr>"

section \<open>The table of handlers\<close>

definition used_signums :: "'h nv_signal_slot_t list \<Rightarrow> int set" where
  "used_signums xs = sg_signum ` {x \<in> set xs. sg_used x}"

lemma used_simps [simp]:
  "used_signums [] = {}"
  "used_signums (x # xs) = (if sg_used x then insert (sg_signum x) (used_signums xs) else used_signums xs)"
  by (auto simp: used_signums_def)

lemma zero_slots_find [simp]: "find_slot n zero_slots = None" "used_signums zero_slots = {}"
proof -
  have "find_slot n (replicate k \<lparr>sg_used = False, sg_signum = 0, sg_handler = None\<rparr>) = None" for k
    by (induction k) auto
  then show "find_slot n zero_slots = None" by (simp add: zero_slots_def)
qed (auto simp: zero_slots_def used_signums_def)

lemma replace_slot_find:
  "replace_slot n h xs = Some ys \<Longrightarrow> find_slot k ys = (if k = n then Some h else find_slot k xs) \<and> used_signums ys = used_signums xs"
  by (induction xs arbitrary: ys) (auto split: if_splits)

lemma replace_slot_None: "replace_slot n h xs = None \<longleftrightarrow> n \<notin> used_signums xs"
  by (induction xs) auto

lemma fill_slot_find:
  "n \<notin> used_signums xs \<Longrightarrow> fill_slot n h xs = Some ys \<Longrightarrow>
     find_slot k ys = (if k = n then Some h else find_slot k xs) \<and> used_signums ys = insert n (used_signums xs)"
proof (induction xs arbitrary: ys)
  case Nil
  then show ?case by simp
next
  case (Cons x xs)
  then show ?case
  proof (cases "sg_used x")
    case True
    then obtain zs where "fill_slot n h xs = Some zs" "ys = x # zs" using Cons.prems(2) by auto
    then show ?thesis using Cons.IH[of zs] Cons.prems(1) True by auto
  next
    case False
    then show ?thesis using Cons.prems by auto
  qed
qed

definition sig_inv :: "'h signals \<Rightarrow> bool" where
  "sig_inv s \<longleftrightarrow> (g_inited s \<longrightarrow>
     used_signums (g_slots s) = set (g_mask s) \<and> fd_mask s = g_mask s \<and> set (g_mask s) \<subseteq> set (sig_blocked s) \<and> 0 \<le> g_signalfd s)"

definition handlers_of :: "'h signals \<Rightarrow> int \<Rightarrow> 'h option" where
  "handlers_of s n = (if g_inited s then nv_signal_find_handler n s else None)"

lemma block_frame:
  "g_mask (kernel_block s) = g_mask s" "g_slots (kernel_block s) = g_slots s" "g_inited (kernel_block s) = g_inited s"
  "sig_pending (kernel_block s) = sig_pending s" "sig_default (kernel_block s) = sig_default s"
  "set (sig_blocked (kernel_block s)) = set (sig_blocked s) \<union> set (g_mask s)"
  by (auto simp: kernel_block_def)

lemma init_inv:
  assumes "nv_signal_init sfd s = (0, s')" "sig_inv s"
  shows "sig_inv s' \<and> g_inited s' \<and> handlers_of s' = handlers_of s \<and> sig_pending s' = sig_pending s \<and> sig_default s' = sig_default s"
proof (cases "g_inited s")
  case True
  then show ?thesis using assms by (simp add: nv_signal_init_def)
next
  case False
  then obtain nfd where s': "s' = (kernel_block (s\<lparr>g_mask := []\<rparr>))\<lparr>g_slots := zero_slots, g_signalfd := nfd, fd_mask := [], g_inited := True\<rparr>" "0 \<le> nfd"
    using assms(1) by (auto simp: nv_signal_init_def nv_signal_update_fd_def Let_def block_frame split: if_splits)
  show ?thesis using False s'(2)
    by (simp add: s'(1) sig_inv_def block_frame handlers_of_def nv_signal_find_handler_def fun_eq_iff)
qed

lemma register_inited:
  assumes "nv_signal_register sfd n (Some h) s = (0, s')" "sig_inv s" "g_inited s"
  shows "sig_inv s' \<and> g_inited s' \<and> handlers_of s' = (handlers_of s)(n \<mapsto> h) \<and> n \<in> set (g_mask s') \<and>
    sig_pending s' = sig_pending s \<and> sig_default s' = sig_default s"
proof (cases "replace_slot n h (g_slots s)")
  case (Some xs)
  then have s': "s' = s\<lparr>g_slots := xs\<rparr>" using assms(1,3) by (auto simp: nv_signal_register_def split: if_splits)
  have "n \<in> used_signums (g_slots s)" using replace_slot_None[of n h "g_slots s"] Some by auto
  then show ?thesis using assms(2,3) replace_slot_find[OF Some]
    by (simp add: s' sig_inv_def nv_signal_find_handler_def handlers_of_def fun_eq_iff)
next
  case None
  define m where "m = (if n \<in> set (g_mask s) then g_mask s else g_mask s @ [n])"
  have m: "set m = insert n (set (g_mask s))" by (auto simp: m_def)
  obtain xs where xs: "fill_slot n h (g_slots s) = Some xs" "nv_signal_update_fd sfd (kernel_block (s\<lparr>g_slots := xs, g_mask := m\<rparr>)) = (0, s')"
    using None assms(1,3) by (auto simp: nv_signal_register_def m_def split: if_splits option.splits)
  have new: "n \<notin> used_signums (g_slots s)" using None by (simp add: replace_slot_None)
  obtain nfd where s': "s' = (kernel_block (s\<lparr>g_slots := xs, g_mask := m\<rparr>))\<lparr>g_signalfd := nfd, fd_mask := m\<rparr>" "0 \<le> nfd"
    using xs(2) by (auto simp: nv_signal_update_fd_def Let_def block_frame split: if_splits)
  show ?thesis using assms(2,3) fill_slot_find[OF new xs(1)] s'(2)
    by (simp add: s'(1) sig_inv_def block_frame nv_signal_find_handler_def handlers_of_def fun_eq_iff m subset_insertI2)
qed

lemma register_init:
  assumes "nv_signal_register sfd n (Some h) s = (0, s')"
  shows "\<exists>t. nv_signal_init sfd s = (0, t) \<and> nv_signal_register sfd n (Some h) t = (0, s')"
proof (cases "g_inited s")
  case True
  then show ?thesis using assms by (simp add: nv_signal_init_def)
next
  case False
  obtain rc t where t: "nv_signal_init sfd s = (rc, t)" by force
  then have "rc = 0" using assms False by (auto simp: nv_signal_register_def split: if_splits)
  then have "g_inited t" using t False by (auto simp: nv_signal_init_def split: if_splits prod.splits)
  then show ?thesis using assms t False \<open>rc = 0\<close> by (auto simp: nv_signal_register_def split: if_splits)
qed

lemma register_inv:
  assumes "nv_signal_register sfd n (Some h) s = (0, s')" "sig_inv s"
  shows "sig_inv s' \<and> g_inited s' \<and> handlers_of s' = (handlers_of s)(n \<mapsto> h) \<and> n \<in> set (g_mask s') \<and>
    sig_pending s' = sig_pending s \<and> sig_default s' = sig_default s"
proof -
  obtain t where t: "nv_signal_init sfd s = (0, t)" "nv_signal_register sfd n (Some h) t = (0, s')"
    using register_init[OF assms(1)] by blast
  show ?thesis using register_inited[OF t(2)] init_inv[OF t(1) assms(2)] by (simp add: fun_upd_def)
qed

lemma register_all_inv:
  "register_all sfd xs s = (0, s') \<Longrightarrow> sig_inv s \<Longrightarrow>
     sig_inv s' \<and> (xs \<noteq> [] \<longrightarrow> g_inited s') \<and> handlers_of s' = handlers_of s ++ map_of (rev xs) \<and>
     sig_pending s' = sig_pending s \<and> sig_default s' = sig_default s"
proof (induction xs arbitrary: s)
  case Nil
  then show ?case by simp
next
  case (Cons x xs)
  obtain n h where x: "x = (n, h)" by force
  obtain t where t: "nv_signal_register sfd n (Some h) s = (0, t)" "register_all sfd xs t = (0, s')"
    using Cons.prems(1) x by (auto split: prod.splits if_splits)
  have r: "sig_inv t" "g_inited t" "handlers_of t = (handlers_of s)(n \<mapsto> h)" "sig_pending t = sig_pending s" "sig_default t = sig_default s"
    using register_inv[OF t(1) Cons.prems(2)] by simp_all
  have "handlers_of t ++ map_of (rev xs) = handlers_of s ++ map_of (rev (x # xs))"
    by (auto simp: r(3) x map_add_def fun_eq_iff split: option.splits)
  then have "handlers_of s' = handlers_of s ++ map_of (rev (x # xs))" using Cons.IH[OF t(2) r(1)] by argo
  moreover have "g_inited s'" using Cons.IH[OF t(2) r(1)] r(2) t(2) by (cases "xs = []") auto
  ultimately show ?case using Cons.IH[OF t(2) r(1)] r(4,5) by argo
qed

section \<open>Delivery\<close>

lemma signals_wait:
  assumes "set ns \<subseteq> set (sig_blocked s)"
  shows "\<exists>ps. fold kernel_signal ns s = s\<lparr>sig_pending := ps\<rparr> \<and> set ps = set (sig_pending s) \<union> set ns \<and>
           (distinct (sig_pending s) \<longrightarrow> distinct ps)"
  using assms
proof (induction ns arbitrary: s)
  case Nil
  then show ?case by (intro exI[of _ "sig_pending s"]) simp
next
  case (Cons n ns)
  define t where "t = kernel_signal n s"
  have t: "\<exists>qs. t = s\<lparr>sig_pending := qs\<rparr> \<and> set qs = insert n (set (sig_pending s)) \<and> (distinct (sig_pending s) \<longrightarrow> distinct qs)"
    using Cons.prems by (cases "n \<in> set (sig_pending s)") (auto simp: t_def kernel_signal_def intro: exI[of _ "sig_pending s"])
  then have "set ns \<subseteq> set (sig_blocked t)" using Cons.prems by auto
  from Cons.IH[OF this] t show ?case by (auto simp: t_def[symmetric])
qed

lemma dispatch_reads:
  assumes "distinct ns" "set ns \<subseteq> set (sig_pending s)" "set ns \<subseteq> set (fd_mask s)"
    and "\<forall>n \<in> set ns. nv_signal_find_handler n s = Some (h n)"
  shows "\<exists>ps. dispatch_loop call ns (w, s) = (fold (\<lambda>n. call (h n) n) ns w, s\<lparr>sig_pending := ps\<rparr>) \<and>
    ps = fold remove1 ns (sig_pending s)"
  using assms
proof (induction ns arbitrary: s w)
  case Nil
  then show ?case by simp
next
  case (Cons n ns)
  define t where "t = s\<lparr>sig_pending := remove1 n (sig_pending s)\<rparr>"
  have "dispatch_loop call (n # ns) (w, s) = dispatch_loop call ns (call (h n) n w, t)"
    using Cons.prems by (simp add: t_def Let_def nv_signal_find_handler_def)
  moreover have "m \<in> set (remove1 n (sig_pending s))" if "m \<in> set ns" for m
    using that Cons.prems(1,2) by (subst in_set_remove1) auto
  then have "distinct ns" "set ns \<subseteq> set (sig_pending t)" "set ns \<subseteq> set (fd_mask t)" "\<forall>n \<in> set ns. nv_signal_find_handler n t = Some (h n)"
    using Cons.prems by (auto simp: t_def nv_signal_find_handler_def)
  note Cons.IH[OF this, of "call (h n) n w"]
  ultimately show ?case by (simp add: t_def)
qed

lemma fold_remove1_set: "distinct xs \<Longrightarrow> set (fold remove1 ns xs) = set xs - set ns"
  by (induction ns arbitrary: xs) auto

lemma find_used: "find_slot n xs = Some h \<Longrightarrow> n \<in> used_signums xs"
  by (induction xs) (auto split: if_splits)

lemma no_signals_inv: "sig_inv no_signals" "handlers_of no_signals = Map.empty" "sig_pending no_signals = []" "sig_default no_signals = []"
  by (simp_all add: no_signals_def sig_inv_def handlers_of_def fun_eq_iff)

lemma registered:
  assumes "register_all sfd regs no_signals = (0, s)" "n \<in> fst ` set regs"
  shows "nv_signal_find_handler n s = Some (the (map_of (rev regs) n))" "n \<in> set (sig_blocked s)" "n \<in> set (fd_mask s)" "0 \<le> g_signalfd s"
    "sig_pending s = []" "sig_default s = []"
proof -
  have r: "sig_inv s" "regs \<noteq> [] \<longrightarrow> g_inited s" "handlers_of s = map_of (rev regs)" "sig_pending s = []" "sig_default s = []"
    using register_all_inv[OF assms(1) no_signals_inv(1)] by (simp_all add: no_signals_inv)
  have i: "g_inited s" using r(2) assms(2) by (cases regs) auto
  have "map_of (rev regs) n \<noteq> None" using assms(2) by (auto simp: map_of_eq_None_iff)
  then show h: "nv_signal_find_handler n s = Some (the (map_of (rev regs) n))" using i fun_cong[OF r(3), of n] by (auto simp: handlers_of_def)
  then have "n \<in> used_signums (g_slots s)" using find_used[of n "g_slots s"] by (simp add: nv_signal_find_handler_def)
  then show "n \<in> set (sig_blocked s)" "n \<in> set (fd_mask s)" "0 \<le> g_signalfd s" using r(1) i by (auto simp: sig_inv_def)
  show "sig_pending s = []" "sig_default s = []" using r(4,5) by simp_all
qed

section \<open>Properties\<close>


text \<open>Shutting down does not undo the blocking: the mask is emptied before it is passed to the kernel, so a
  registered signal stays blocked, and when it arrives later it neither takes its default action nor reaches a handler.\<close>

theorem nv_signal_shutdown_keeps_blocked:
  assumes "register_all sfd regs no_signals = (0, s)" "n \<in> fst ` set regs"
  shows "let t = kernel_signal n (nv_signal_shutdown s) in
           n \<in> set (sig_pending t) \<and> sig_default t = [] \<and> nv_signal_dispatch call reads (nv_signal_fd t) (w, t) = (w, t)"
  using registered(2,5,6)[OF assms]
  by (simp add: nv_signal_shutdown_def kernel_unblock_def kernel_signal_def nv_signal_dispatch_def nv_signal_fd_def Let_def)

lemma sample_register:
  "\<exists>s. register_all (\<lambda>fd. if fd < 0 then 7 else fd) [(2, ''quit''), (15, ''quit''), (1, ''reload''), (2, ''stop'')] no_signals = (0, s)"
  by (simp add: nv_signal_register_def nv_signal_init_def nv_signal_update_fd_def no_signals_def NSIG_def kernel_block_def Let_def
      zero_slots_def NV_SIGNAL_SLOT_MAX_def numeral_eq_Suc)


theorem nv_signal_shutdown_keeps_blocked_witness:
  "\<exists>s. register_all (\<lambda>fd. if fd < 0 then 7 else fd) [(2, ''quit''), (15, ''quit''), (1, ''reload''), (2, ''stop'')] no_signals = (0, s) \<and>
     15 \<in> set (sig_pending (kernel_signal 15 (nv_signal_shutdown s)))"
proof -
  obtain s where s: "register_all (\<lambda>fd. if fd < 0 then 7 else fd) [(2, ''quit''), (15, ''quit''), (1, ''reload''), (2, ''stop'')] no_signals = (0, s)"
    using sample_register by blast
  show ?thesis using nv_signal_shutdown_keeps_blocked[OF s, of 15 "\<lambda>h n w. w" "[]" "()"] s by (auto simp: Let_def)
qed

end
