(* ===== verification/Nv_Worker.thy ===== *)
theory Nv_Worker
  imports Nv_Loadlib Nv_Signal
begin

text \<open>
  The master process and its workers (\<open>core/runtime/nv_core_worker.c\<close>): launching, reaping,
  respawning and stopping.  The state holds the slots of the workers in use and the kernel's table of
  the children of the master, each of them running or exited and not yet waited for.  What the kernel
  and the other processes do is an input: which children exit, which of them \<open>waitpid\<close> returns,
  which process identifiers \<open>fork\<close> returns and which signals arrive.  The kernel never
  returns a child from \<open>waitpid\<close> that has not exited, nor from \<open>fork\<close> an identifier in use; inputs
  that would are read as no child and as a failure.  The supervision loop runs on a list of
  rounds; \<open>None\<close> is a master that does not return: it still supervises when the list ends, or a signal has
  ended it.  The master registers its handler with \<^typ>\<open>'h signals\<close>, which blocks the signals, but its loop
  never dispatches them.
\<close>

section \<open>Processes and slots\<close>

datatype child_state = Running | Zombie

record nv_worker_slot_t =
  w_pid :: int
  w_id :: int
  w_alive :: bool

datatype worker_handler = on_master_signal

record master =
  g_workers :: "nv_worker_slot_t list"
  g_master_quit :: bool
  children :: "int \<Rightarrow> child_state option"
  kills :: "(int \<times> int) list"
  m_sig :: "worker_handler signals"

definition NV_CORE_WORKER_MAX :: int where "NV_CORE_WORKER_MAX = 128"
definition SIGTERM :: int where "SIGTERM = 15"
definition SIGKILL :: int where "SIGKILL = 9"
definition SIGINT :: int where "SIGINT = 2"
definition SIGCHLD :: int where "SIGCHLD = 17"

definition kernel_fork :: "int \<Rightarrow> (int \<Rightarrow> child_state option) \<Rightarrow> int" where
  "kernel_fork pid t = (if pid > 0 \<and> t pid = None then pid else -1)"

definition kernel_exit :: "int \<Rightarrow> master \<Rightarrow> master" where
  "kernel_exit p m = (if children m p = Some Running then m\<lparr>children := (children m)(p \<mapsto> Zombie)\<rparr> else m)"

definition kernel_kill :: "int \<Rightarrow> int \<Rightarrow> master \<Rightarrow> master" where
  "kernel_kill p sig m =
     (let m = m\<lparr>kills := kills m @ [(p, sig)]\<rparr> in if sig = SIGKILL then kernel_exit p m else m)"

section \<open>Supervision\<close>

definition nv_core_master_on_signal :: "int \<Rightarrow> master \<Rightarrow> master" where
  "nv_core_master_on_signal signum m = (if signum = SIGINT \<or> signum = SIGTERM then m\<lparr>g_master_quit := True\<rparr> else m)"

definition master_call :: "worker_handler \<Rightarrow> int \<Rightarrow> master \<Rightarrow> master" where
  "master_call h n m = (case h of on_master_signal \<Rightarrow> nv_core_master_on_signal n m)"

text \<open>The default action of the signals 17 (\<open>SIGCHLD\<close>) to 23 and 28 does not end the process.\<close>

definition ends_process :: "int \<Rightarrow> bool" where
  "ends_process n \<longleftrightarrow> n \<notin> {17, 18, 19, 20, 21, 22, 23, 28}"

fun mark_dead :: "int \<Rightarrow> nv_worker_slot_t list \<Rightarrow> nv_worker_slot_t list" where
  "mark_dead p [] = []"
| "mark_dead p (s # ss) = (if w_alive s \<and> w_pid s = p then s\<lparr>w_alive := False\<rparr> # ss else s # mark_dead p ss)"

definition reap_one :: "int \<Rightarrow> master \<Rightarrow> master" where
  "reap_one p m =
     (if children m p = Some Zombie
      then m\<lparr>children := (children m)(p := None), g_workers := mark_dead p (g_workers m)\<rparr> else m)"

definition nv_core_worker_reap_all :: "int list \<Rightarrow> master \<Rightarrow> master" where
  "nv_core_worker_reap_all ps m = fold reap_one ps m"

fun respawn :: "(nat \<Rightarrow> int) \<Rightarrow> nat \<Rightarrow> nv_worker_slot_t list \<Rightarrow> (int \<Rightarrow> child_state option) \<Rightarrow>
    nv_worker_slot_t list \<times> (int \<Rightarrow> child_state option)" where
  "respawn f i [] t = ([], t)"
| "respawn f i (s # ss) t =
     (if w_alive s then (let (ss, t) = respawn f (Suc i) ss t in (s # ss, t))
      else
        (let npid = kernel_fork (f i) t in
         if npid < 0 then (let (ss, t) = respawn f (Suc i) ss t in (s # ss, t))
         else (let (ss, t) = respawn f (Suc i) ss (t(npid \<mapsto> Running)) in (s\<lparr>w_pid := npid, w_alive := True\<rparr> # ss, t))))"

record supervision_round =
  rd_signals :: "int list"
  rd_exits :: "int list"
  rd_waits :: "int list"
  rd_forks :: "nat \<Rightarrow> int"

definition alive_count :: "nv_worker_slot_t list \<Rightarrow> nat" where
  "alive_count ss = length (filter w_alive ss)"

definition respawn_all :: "(nat \<Rightarrow> int) \<Rightarrow> master \<Rightarrow> master" where
  "respawn_all f m = (let (ss, t) = respawn f 0 (g_workers m) (children m) in m\<lparr>g_workers := ss, children := t\<rparr>)"

text \<open>The work of one iteration.\<close>

definition supervise_once :: "bool \<Rightarrow> supervision_round \<Rightarrow> master \<Rightarrow> master" where
  "supervise_once respawning r m =
     (let m = fold kernel_exit (rd_exits r) m;
          m = nv_core_worker_reap_all (rd_waits r) m
      in if respawning then respawn_all (rd_forks r) m else m)"

fun supervise_loop :: "bool \<Rightarrow> supervision_round list \<Rightarrow> master \<Rightarrow> master option" where
  "supervise_loop respawning [] m = (if g_master_quit m then Some m else None)"
| "supervise_loop respawning (r # rs) m =
     (if g_master_quit m then Some m
      else
        (let m = supervise_once respawning r m
         in if alive_count (g_workers m) = 0 \<and> \<not> respawning then Some m
            else
              (let m = m\<lparr>m_sig := fold kernel_signal (rd_signals r) (m_sig m)\<rparr>
               in if list_ex ends_process (sig_default (m_sig m)) then None else supervise_loop respawning rs m)))"

text \<open>The end: a signal to every live worker, thirty rounds of reaping, and the rest is killed
  and waited for; \<open>stops\<close> are the exits and the results of \<open>waitpid\<close> of these rounds.\<close>

definition signal_all :: "master \<Rightarrow> master" where
  "signal_all m = fold (\<lambda>s m. if w_alive s \<and> w_pid s > 0 then kernel_kill (w_pid s) SIGTERM m else m) (g_workers m) m"

definition reap_round :: "int list \<times> int list \<Rightarrow> master \<Rightarrow> master" where
  "reap_round x m = nv_core_worker_reap_all (snd x) (fold kernel_exit (fst x) m)"

definition kill_and_wait :: "nv_worker_slot_t \<Rightarrow> master \<Rightarrow> master" where
  "kill_and_wait s m =
     (if w_alive s \<and> w_pid s > 0
      then (let m = kernel_kill (w_pid s) SIGKILL m in m\<lparr>children := (children m)(w_pid s := None)\<rparr>) else m)"

definition register_master :: "(int \<Rightarrow> int) \<Rightarrow> worker_handler signals \<Rightarrow> worker_handler signals" where
  "register_master sfd s =
     fold (\<lambda>n s. snd (nv_signal_register sfd n (Some on_master_signal) s)) [SIGINT, SIGTERM, SIGCHLD] (snd (nv_signal_init sfd s))"

definition nv_core_master_supervise ::
    "(int \<Rightarrow> int) \<Rightarrow> supervision_round list \<Rightarrow> (nat \<Rightarrow> int list \<times> int list) \<Rightarrow> nv_core_ctx_t \<Rightarrow> master \<Rightarrow> (nv_core_ctx_t \<times> master) option" where
  "nv_core_master_supervise sfd rounds stops ctx m =
     (let m = m\<lparr>g_master_quit := False, m_sig := register_master sfd (m_sig m)\<rparr>;
          ctx = ctx\<lparr>is_master := True, phase := NV_CORE_PHASE_LOOP\<rparr>
      in case supervise_loop (worker_respawn (opts ctx) \<noteq> 0) rounds m of None \<Rightarrow> None
         | Some m \<Rightarrow>
            (let m = signal_all m;
                 m = fold (\<lambda>i. reap_round (stops i)) [0..<30] m;
                 m = fold kill_and_wait (g_workers m) m
             in Some (ctx, m\<lparr>m_sig := nv_signal_shutdown (m_sig m)\<rparr>)))"

section \<open>Launching\<close>

text \<open>The master's side of the forks: \<open>None\<close> when one of them fails.\<close>

fun launch_workers :: "(nat \<Rightarrow> int) \<Rightarrow> nat \<Rightarrow> nat \<Rightarrow> master \<Rightarrow> bool \<times> master" where
  "launch_workers f 0 i m = (True, m)"
| "launch_workers f (Suc n) i m =
     (let pid = kernel_fork (f i) (children m) in
      if pid < 0 then (False, m)
      else launch_workers f n (Suc i)
             (m\<lparr>children := (children m)(pid \<mapsto> Running),
                g_workers := g_workers m @ [\<lparr>w_pid = pid, w_id = int i + 1, w_alive = True\<rparr>]\<rparr>))"

definition nv_core_workers_launch ::
    "(int \<Rightarrow> int) \<Rightarrow> (nat \<Rightarrow> int) \<Rightarrow> supervision_round list \<Rightarrow> (nat \<Rightarrow> int list \<times> int list) \<Rightarrow> nv_core_ctx_t \<Rightarrow> master \<Rightarrow>
     (int \<times> nv_core_ctx_t \<times> master) option" where
  "nv_core_workers_launch sfd forks rounds stops ctx m =
     (if worker_processes (opts ctx) \<le> 1
      then Some (NV_OK, ctx\<lparr>is_master := False, is_worker := False, worker_id := 0\<rparr>, m)
      else
        (let n = min (worker_processes (opts ctx)) NV_CORE_WORKER_MAX in
         case launch_workers forks (nat n) 0 (m\<lparr>g_workers := []\<rparr>) of
           (False, m) \<Rightarrow> Some (NV_ERROR, ctx, m)
         | (True, m) \<Rightarrow>
             (case nv_core_master_supervise sfd rounds stops (ctx\<lparr>is_master := True\<rparr>) m of None \<Rightarrow> None
              | Some (ctx, m) \<Rightarrow> Some (NV_DECLINED, ctx, m))))"

text \<open>What \<open>nv_core_workers_launch\<close> returns in the child of the fork with index \<open>i\<close>.\<close>

definition launched_worker :: "nat \<Rightarrow> nv_core_ctx_t \<Rightarrow> int \<times> nv_core_ctx_t" where
  "launched_worker i ctx = (NV_OK, ctx\<lparr>worker_id := int i + 1, is_worker := True, is_master := False\<rparr>)"

definition nv_core_worker_is_master :: "nv_core_ctx_t option \<Rightarrow> bool" where
  "nv_core_worker_is_master ctx = (case ctx of None \<Rightarrow> False | Some c \<Rightarrow> is_master c)"

definition nv_core_worker_is_worker :: "nv_core_ctx_t option \<Rightarrow> bool" where
  "nv_core_worker_is_worker ctx = (case ctx of None \<Rightarrow> False | Some c \<Rightarrow> is_worker c)"

section \<open>The slots agree with the kernel\<close>

definition live_pids :: "nv_worker_slot_t list \<Rightarrow> int list" where
  "live_pids ss = map w_pid (filter w_alive ss)"

definition slots_agree :: "nv_worker_slot_t list \<Rightarrow> (int \<Rightarrow> child_state option) \<Rightarrow> bool" where
  "slots_agree ss t \<longleftrightarrow> distinct (live_pids ss) \<and> set (live_pids ss) = dom t \<and> (\<forall>p \<in> dom t. p > 0)"

abbreviation master_inv :: "master \<Rightarrow> bool" where
  "master_inv m \<equiv> slots_agree (g_workers m) (children m)"

lemma live_simps [simp]:
  "live_pids [] = []"
  "live_pids (s # ss) = (if w_alive s then w_pid s # live_pids ss else live_pids ss)"
  "live_pids (ss @ ss') = live_pids ss @ live_pids ss'"
  by (simp_all add: live_pids_def)

lemma live_mark_dead: "live_pids (mark_dead p ss) = remove1 p (live_pids ss)"
  by (induction ss) auto

lemma exit_inv: "master_inv m \<Longrightarrow> master_inv (kernel_exit p m)"
  by (auto simp: kernel_exit_def slots_agree_def)

lemma exits_inv: "master_inv m \<Longrightarrow> master_inv (fold kernel_exit ps m)"
  by (induction ps arbitrary: m) (auto intro: exit_inv)

lemma reap_inv: "master_inv m \<Longrightarrow> master_inv (reap_one p m)"
  by (auto simp: reap_one_def slots_agree_def live_mark_dead)

lemma reap_all_inv: "master_inv m \<Longrightarrow> master_inv (nv_core_worker_reap_all ps m)"
  unfolding nv_core_worker_reap_all_def by (induction ps arbitrary: m) (auto intro: reap_inv)

lemma respawn_agree:
  "slots_agree (us @ ss) t \<Longrightarrow> respawn f i ss t = (ss', t') \<Longrightarrow> slots_agree (us @ ss') t'"
proof (induction ss arbitrary: us i t ss' t')
  case Nil
  then show ?case by simp
next
  case (Cons s ss)
  let ?pid = "kernel_fork (f i) t"
  show ?case
  proof (cases "w_alive s \<or> ?pid < 0")
    case True
    then obtain rs where "respawn f (Suc i) ss t = (rs, t')" "ss' = s # rs"
      using Cons.prems(2) by (auto simp: Let_def split: prod.splits if_splits)
    then show ?thesis using Cons.IH[of "us @ [s]" t "Suc i" rs t'] Cons.prems(1) by simp
  next
    case False
    then obtain rs where r: "respawn f (Suc i) ss (t(?pid \<mapsto> Running)) = (rs, t')" "ss' = s\<lparr>w_pid := ?pid, w_alive := True\<rparr> # rs"
      using Cons.prems(2) by (auto simp: Let_def split: prod.splits if_splits)
    have new: "?pid > 0" "t ?pid = None" using False by (auto simp: kernel_fork_def split: if_splits)
    then have "slots_agree ((us @ [s\<lparr>w_pid := ?pid, w_alive := True\<rparr>]) @ ss) (t(?pid \<mapsto> Running))"
      using Cons.prems(1) False by (auto simp: slots_agree_def)
    then show ?thesis using Cons.IH[OF _ r(1)] r(2) by fastforce
  qed
qed

lemma respawn_inv: "master_inv m \<Longrightarrow> master_inv (respawn_all f m)"
  using respawn_agree[of "[]" "g_workers m" "children m" f 0]
  by (auto simp: respawn_all_def split: prod.splits)

lemma supervise_inv: "master_inv m \<Longrightarrow> supervise_loop b rs m = Some m' \<Longrightarrow> master_inv m'"
proof (induction rs arbitrary: m)
  case Nil
  then show ?case by (simp split: if_splits)
next
  case (Cons r rs)
  define m1 where "m1 = supervise_once b r m"
  define m2 where "m2 = m1\<lparr>m_sig := fold kernel_signal (rd_signals r) (m_sig m1)\<rparr>"
  have "master_inv m1"
    using Cons.prems(1) by (simp add: m1_def supervise_once_def Let_def respawn_inv reap_all_inv exits_inv)
  moreover from this have "master_inv m2" by (simp add: m2_def)
  moreover have "m' = m \<or> m' = m1 \<or> supervise_loop b rs m2 = Some m'"
    using Cons.prems(2) by (auto simp: m1_def[symmetric] m2_def[symmetric] Let_def split: if_splits)
  ultimately show ?case using Cons.IH[of m2] Cons.prems(1) by blast
qed

lemma kill_term_frame:
  "g_workers (kernel_kill p SIGTERM m) = g_workers m" "children (kernel_kill p SIGTERM m) = children m"
  by (simp_all add: kernel_kill_def SIGTERM_def SIGKILL_def)

lemma signal_all_frame:
  "g_workers (signal_all m) = g_workers m" "children (signal_all m) = children m"
proof -
  have "g_workers (fold (\<lambda>s m. if w_alive s \<and> w_pid s > 0 then kernel_kill (w_pid s) SIGTERM m else m) ss m) = g_workers m \<and>
        children (fold (\<lambda>s m. if w_alive s \<and> w_pid s > 0 then kernel_kill (w_pid s) SIGTERM m else m) ss m) = children m" for ss
    by (induction ss arbitrary: m) (auto simp: kill_term_frame)
  then show "g_workers (signal_all m) = g_workers m" "children (signal_all m) = children m"
    by (auto simp: signal_all_def)
qed

lemma reap_rounds_inv: "master_inv m \<Longrightarrow> master_inv (fold (\<lambda>i. reap_round (stops i)) is m)"
  by (induction "is" arbitrary: m) (auto simp: reap_round_def intro: reap_all_inv exits_inv)

lemma kill_and_wait_children:
  "children (fold kill_and_wait ss m) = children m |` (- {p \<in> set (live_pids ss). p > 0})"
proof (induction ss arbitrary: m)
  case Nil
  then show ?case by simp
next
  case (Cons s ss)
  have "children (kill_and_wait s m) = (if w_alive s \<and> w_pid s > 0 then (children m)(w_pid s := None) else children m)"
    by (auto simp: kill_and_wait_def kernel_kill_def kernel_exit_def Let_def fun_eq_iff)
  then show ?case using Cons by (auto simp: restrict_map_def fun_eq_iff)
qed

lemma supervise_ends_empty:
  assumes "master_inv m" "nv_core_master_supervise sfd rounds stops ctx m = Some (ctx', m')"
  shows "children m' = Map.empty"
proof -
  obtain m1 where m1: "supervise_loop (worker_respawn (opts ctx) \<noteq> 0) rounds (m\<lparr>g_master_quit := False, m_sig := register_master sfd (m_sig m)\<rparr>) = Some m1"
    "children m' = children (let m = fold (\<lambda>i. reap_round (stops i)) [0..<30] (signal_all m1) in fold kill_and_wait (g_workers m) m)"
    using assms(2) by (auto simp: nv_core_master_supervise_def Let_def split: option.splits)
  define m2 where "m2 = fold (\<lambda>i. reap_round (stops i)) [0..<30] (signal_all m1)"
  have "master_inv m1" using supervise_inv[OF _ m1(1)] assms(1) by simp
  then have "master_inv m2" unfolding m2_def by (intro reap_rounds_inv) (simp add: signal_all_frame)
  then have "{p \<in> set (live_pids (g_workers m2)). p > 0} = dom (children m2)" by (auto simp: slots_agree_def)
  then show ?thesis using m1(2) by (simp add: m2_def[symmetric] Let_def kill_and_wait_children restrict_map_def fun_eq_iff) auto
qed

lemma launch_workers_inv:
  "master_inv m \<Longrightarrow> launch_workers f n i m = (ok, m') \<Longrightarrow>
     master_inv m' \<and> (ok \<longrightarrow> length (g_workers m') = length (g_workers m) + n)"
proof (induction n arbitrary: i m)
  case 0
  then show ?case by simp
next
  case (Suc n)
  let ?pid = "kernel_fork (f i) (children m)"
  show ?case
  proof (cases "?pid < 0")
    case True
    then show ?thesis using Suc.prems by simp
  next
    case False
    let ?m = "m\<lparr>children := (children m)(?pid \<mapsto> Running), g_workers := g_workers m @ [\<lparr>w_pid = ?pid, w_id = int i + 1, w_alive = True\<rparr>]\<rparr>"
    have "?pid > 0" "children m ?pid = None" using False by (auto simp: kernel_fork_def split: if_splits)
    then have inv: "master_inv ?m" using Suc.prems(1) by (auto simp: slots_agree_def)
    have "launch_workers f n (Suc i) ?m = (ok, m')" using Suc.prems(2) False by (simp add: Let_def)
    from Suc.IH[OF inv this] show ?thesis by simp
  qed
qed

lemma once_quit: "g_master_quit (supervise_once b r m) = g_master_quit m"
proof -
  have "g_master_quit (fold kernel_exit ps m) = g_master_quit m" for ps m
    by (induction ps arbitrary: m) (auto simp: kernel_exit_def)
  moreover have "g_master_quit (fold reap_one ps m) = g_master_quit m" for ps m
    by (induction ps arbitrary: m) (auto simp: reap_one_def)
  ultimately show ?thesis
    by (simp add: supervise_once_def Let_def nv_core_worker_reap_all_def respawn_all_def split: prod.split)
qed

section \<open>Properties\<close>

definition no_master :: master where
  "no_master = \<lparr>g_workers = [], g_master_quit = False, children = Map.empty, kills = [], m_sig = no_signals\<rparr>"

lemma no_master_inv: "master_inv no_master"
  by (simp add: no_master_def slots_agree_def)


text \<open> When the fork of a later worker fails, the launch fails and the workers started before keep running
  without a master: they are neither signalled nor waited for.\<close>

theorem nv_core_failed_launch_leaves_workers:
  assumes "1 < worker_processes (opts ctx)" "forks 0 > 0" "forks 1 \<le> 0"
  shows "\<exists>m. nv_core_workers_launch sfd forks rounds stops ctx no_master = Some (NV_ERROR, ctx, m) \<and>
           children m (forks 0) = Some Running \<and> kills m = []"
proof -
  obtain n where n: "nat (min (worker_processes (opts ctx)) NV_CORE_WORKER_MAX) = Suc (Suc n)"
    using assms(1) by (auto simp: NV_CORE_WORKER_MAX_def intro: that[of "nat (min (worker_processes (opts ctx)) 128) - 2"])
  show ?thesis using assms
    by (simp add: nv_core_workers_launch_def n Let_def no_master_def kernel_fork_def)
qed


definition two_workers :: nv_core_ctx_t where
  "two_workers = (sample_ctx ''/p'')\<lparr>opts := default_opts\<lparr>worker_processes := 2\<rparr>\<rparr>"

definition two_plain_workers :: nv_core_ctx_t where
  "two_plain_workers = (sample_ctx ''/p'')\<lparr>opts := default_opts\<lparr>worker_processes := 2, worker_respawn := 0\<rparr>\<rparr>"

text \<open>The first worker exits and is reaped while a signal to quit arrives; then the other exits.\<close>

definition crash_rounds :: "supervision_round list" where
  "crash_rounds = [\<lparr>rd_signals = [SIGTERM], rd_exits = [100], rd_waits = [100], rd_forks = (\<lambda>_. 102)\<rparr>,
     \<lparr>rd_signals = [], rd_exits = [101], rd_waits = [101], rd_forks = (\<lambda>_. 102)\<rparr>]"

abbreviation fd7 :: "int \<Rightarrow> int" where "fd7 fd \<equiv> if fd < 0 then 7 else fd"

lemma quiet_stops: "fold (\<lambda>i. reap_round ([], [])) is m = m"
  by (induction "is") (auto simp: reap_round_def nv_core_worker_reap_all_def)

lemma master_registered:
  "SIGTERM \<in> set (sig_blocked (register_master fd7 no_signals))" "sig_default (register_master fd7 no_signals) = []"
  by (simp_all add: register_master_def nv_signal_register_def nv_signal_init_def nv_signal_update_fd_def no_signals_def NSIG_def
      kernel_block_def Let_def zero_slots_def NV_SIGNAL_SLOT_MAX_def numeral_eq_Suc SIGINT_def SIGTERM_def SIGCHLD_def)

lemma crash_run:
  "\<exists>ctx m. nv_core_workers_launch fd7 (\<lambda>i. 100 + int i) crash_rounds (\<lambda>_. ([], [])) two_plain_workers no_master = Some (NV_DECLINED, ctx, m)"
proof -
  have two: "worker_processes (opts two_plain_workers) = 2" "worker_respawn (opts two_plain_workers) = 0"
    by (simp_all add: two_plain_workers_def default_opts_def)
  have n: "nat (min 2 NV_CORE_WORKER_MAX) = Suc (Suc 0)" by (simp add: NV_CORE_WORKER_MAX_def)
  have sig: "sig_default (kernel_signal SIGTERM (register_master fd7 no_signals)) = []"
    using master_registered by (simp add: kernel_signal_def)
  show ?thesis using sig
    by (simp add: nv_core_workers_launch_def two n Let_def no_master_def kernel_fork_def nv_core_master_supervise_def quiet_stops
        crash_rounds_def supervise_once_def kernel_exit_def nv_core_worker_reap_all_def reap_one_def alive_count_def)
qed



theorem nv_core_failed_launch_leaves_workers_witness:
  "\<exists>m. nv_core_workers_launch fd7 (\<lambda>i. if i = 0 then 100 else -1) [] (\<lambda>_. ([], [])) two_workers no_master = Some (NV_ERROR, two_workers, m) \<and>
     children m 100 = Some Running"
  using nv_core_failed_launch_leaves_workers[of two_workers "\<lambda>i. if i = 0 then 100 else -1" fd7 "[]" "\<lambda>_. ([], [])"]
  by (auto simp: two_workers_def default_opts_def)

end
