(* ===== verification/Nv_Service.thy ===== *)
theory Nv_Service
  imports Nv_Runtime Nv_Worker Nv_Telnet
begin

text \<open>
  What runs inside the daemon while its loop turns: signals and requests to quit
  (\<open>core/runtime/nv_core_startup.c\<close>, \<open>core/runtime/nv_core_run.c\<close>), the idle handler, the periodic tick of
  the event module (\<open>core/runtime/nv_core_modules.c\<close>), heartbeat, metrics and watchdog
  (\<open>core/runtime/nv_core_health.c\<close>, \<open>base/sys/nv_watchdog.c\<close>).  The handlers are values of a datatype, and
  \<open>core_call\<close> is the interpretation the event loop runs them with.
\<close>

section \<open>Handlers on the loop\<close>

datatype core_handler = nv_core_idle | nv_core_heartbeat | nv_mod_tick | nv_signalfd

record service =
  sv_ctx :: nv_core_ctx_t
  sv_loop :: "core_handler nv_loop_t"
  fatal_signum :: int
  health_inited :: bool
  g_systemd_notify :: bool
  g_wdt_fd :: int
  notified :: "(cstring \<times> cstring) list"
  published :: "(cstring \<times> cstring) list"
  exit_status :: "int option"

definition upd_sv :: "(nv_core_ctx_t \<Rightarrow> nv_core_ctx_t) \<Rightarrow> service \<Rightarrow> service" where
  "upd_sv f v = v\<lparr>sv_ctx := f (sv_ctx v)\<rparr>"

section \<open>Signals and quitting\<close>

definition SIGHUP :: int where "SIGHUP = 1"
definition SIGUSR1 :: int where "SIGUSR1 = 10"

definition begin_shutdown :: "nat \<Rightarrow> nv_core_ctx_t \<Rightarrow> nv_core_ctx_t" where
  "begin_shutdown now c = (if shutdown_started_at c = 0 then c\<lparr>shutdown_started_at := now\<rparr> else c)"

definition nv_core_request_quit :: "nat \<Rightarrow> service \<Rightarrow> int \<times> service" where
  "nv_core_request_quit now v =
     (NV_OK, (upd_sv (\<lambda>c. begin_shutdown now (c\<lparr>quit := True\<rparr>)) v)\<lparr>sv_loop := nv_loop_stop (sv_loop v)\<rparr>)"

definition nv_core_is_quitting :: "nv_core_ctx_t option \<Rightarrow> bool" where
  "nv_core_is_quitting ctx = (case ctx of None \<Rightarrow> False | Some c \<Rightarrow> quit c)"

definition nv_core_on_signal :: "nat \<Rightarrow> int \<Rightarrow> service \<Rightarrow> service" where
  "nv_core_on_signal now signum v =
     (if signum = SIGINT \<or> signum = SIGTERM
      then (upd_sv (\<lambda>c. begin_shutdown now (c\<lparr>quit := True\<rparr>)) v)\<lparr>sv_loop := nv_loop_stop (sv_loop v)\<rparr>
      else if signum = SIGHUP then upd_sv (\<lambda>c. c\<lparr>reload := True\<rparr>) v
      else if signum = SIGUSR1
      then (upd_sv (\<lambda>c. begin_shutdown now (c\<lparr>restart := True, quit := True\<rparr>)) v)\<lparr>sv_loop := nv_loop_stop (sv_loop v)\<rparr>
      else v)"

definition nv_core_exception_handler :: "int \<Rightarrow> service \<Rightarrow> service" where
  "nv_core_exception_handler signum v =
     (upd_sv (\<lambda>c. c\<lparr>quit := True\<rparr>) v)\<lparr>fatal_signum := signum, sv_loop := nv_loop_stop (sv_loop v)\<rparr>"

text \<open>The process ends by raising the signal again.\<close>

definition nv_core_handle_fatal :: "service \<Rightarrow> service" where
  "nv_core_handle_fatal v =
     (if fatal_signum v = 0 then v
      else (upd_sv (\<lambda>c. c\<lparr>phase := NV_CORE_PHASE_EXCEPTION\<rparr>) v)\<lparr>fatal_signum := 0, exit_status := Some (128 + fatal_signum v)\<rparr>)"

definition nv_core_check_shutdown_timeout :: "nat \<Rightarrow> service \<Rightarrow> service" where
  "nv_core_check_shutdown_timeout now v =
     (let c = sv_ctx v in
      if \<not> quit c \<or> shutdown_timeout_sec (opts c) \<le> 0 then v
      else
        (let c = begin_shutdown now c; v = v\<lparr>sv_ctx := c\<rparr> in
         if int now - int (shutdown_started_at c) \<ge> shutdown_timeout_sec (opts c) then v\<lparr>exit_status := Some 1\<rparr> else v))"

section \<open>The watchdog\<close>

text \<open>\<open>fd\<close> is what \<open>open\<close> returns; feeding succeeds when the control call or the write does.\<close>

definition nv_watchdog_open :: "int \<Rightarrow> service \<Rightarrow> int \<times> service" where
  "nv_watchdog_open fd v =
     (if g_wdt_fd v \<ge> 0 then (NV_OK, v)
      else if fd < 0 then (NV_ERROR, v\<lparr>g_wdt_fd := fd\<rparr>) else (NV_OK, v\<lparr>g_wdt_fd := fd\<rparr>))"

definition nv_watchdog_feed :: "bool \<Rightarrow> bool \<Rightarrow> service \<Rightarrow> int" where
  "nv_watchdog_feed ioctl_ok write_ok v =
     (if g_wdt_fd v < 0 then NV_DECLINED else if ioctl_ok \<or> write_ok then NV_OK else NV_ERROR)"

definition nv_watchdog_close :: "service \<Rightarrow> service" where
  "nv_watchdog_close v = (if g_wdt_fd v \<ge> 0 then v\<lparr>g_wdt_fd := -1\<rparr> else v)"

definition nv_watchdog_feed_cmd :: "(cstring \<Rightarrow> int) \<Rightarrow> cstring option \<Rightarrow> int" where
  "nv_watchdog_feed_cmd shell cmd =
     (case cmd of None \<Rightarrow> NV_DECLINED
      | Some c \<Rightarrow> if c = '''' then NV_DECLINED else if shell c = 0 then NV_OK else NV_ERROR)"

definition nv_core_feed_watchdog :: "(cstring \<Rightarrow> int) \<Rightarrow> bool \<Rightarrow> bool \<Rightarrow> service \<Rightarrow> int" where
  "nv_core_feed_watchdog shell ioctl_ok write_ok v =
     (let op = opts (sv_ctx v) in
      if watchdog_enable op = 0 then NV_DECLINED
      else if watchdog_cmd op \<notin> {None, Some ''''} then nv_watchdog_feed_cmd shell (watchdog_cmd op)
      else nv_watchdog_feed ioctl_ok write_ok v)"

section \<open>Health\<close>

text \<open>\<open>sock\<close> is the value of \<open>NOTIFY_SOCKET\<close>.  A message is a datagram to the address it names: a leading
  \<open>@\<close> stands for the abstract name space.  The path is cut to the room of the address, the length of an abstract name
  is that of the uncut name, and the kernel refuses an address beyond its 108 bytes.  \<open>socket_ok\<close> and \<open>send_ok\<close> are
  the results of the two calls.\<close>

definition notify_address :: "cstring \<Rightarrow> cstring \<times> nat" where
  "notify_address sock =
     (if hd sock = CHR ''@'' then (CHR 0x00 # take 106 (tl sock), 1 + length (tl sock)) else (take 107 sock, length (take 107 sock)))"

definition nv_core_systemd_notify :: "cstring option \<Rightarrow> bool \<Rightarrow> bool \<Rightarrow> cstring \<Rightarrow> service \<Rightarrow> int \<times> service" where
  "nv_core_systemd_notify sock socket_ok send_ok state v =
     (if \<not> g_systemd_notify v then (NV_OK, v)
      else if sock = None \<or> sock = Some '''' then (NV_OK, v)
      else if \<not> socket_ok then (NV_ERROR, v)
      else (let (addr, len) = notify_address (the sock) in
            if len > 108 \<or> \<not> send_ok then (NV_ERROR, v)
            else (NV_OK, v\<lparr>notified := notified v @ [(addr, state)]\<rparr>)))"

record nv_core_runtime_stats_t =
  st_started_at :: nat
  st_uptime_sec :: nat
  st_quitting :: bool
  st_reloading :: bool
  st_loop_events :: nat
  st_loop_timers :: nat
  st_loop_idle :: nat

definition nv_core_get_runtime_stats :: "nat \<Rightarrow> service \<Rightarrow> nv_core_runtime_stats_t" where
  "nv_core_get_runtime_stats time v =
     (let c = sv_ctx v; l = l_stats (sv_loop v) in
      \<lparr>st_started_at = started_at c,
       st_uptime_sec = (if started_at c > 0 then ulong (nat ((int time - int (started_at c)) mod 2 ^ 64)) else 0),
       st_quitting = quit c, st_reloading = reload c, st_loop_events = events_processed l,
       st_loop_timers = timers_processed l, st_loop_idle = idle_events_processed l\<rparr>)"

text \<open>The metrics of the process as a JSON text handed to the bus; \<open>queued\<close> and \<open>dropped\<close> are the counters of the
  log ring.  The result is that of the publication, \<open>None\<close> when nothing is published.\<close>

fun dec_digits :: "nat \<Rightarrow> cstring" where
  "dec_digits n = (if n < 10 then [char_of (48 + n)] else dec_digits (n div 10) @ [char_of (48 + n mod 10)])"

declare dec_digits.simps [simp del]

definition metrics_text :: "nat \<Rightarrow> nat \<Rightarrow> nv_core_runtime_stats_t \<Rightarrow> cstring" where
  "metrics_text queued dropped st =
     ''{\"uptime\":'' @ dec_digits (st_uptime_sec st) @ '',\"loop_events\":'' @ dec_digits (st_loop_events st) @
     '',\"loop_timers\":'' @ dec_digits (st_loop_timers st) @ '',\"log_pending\":'' @ dec_digits queued @
     '',\"log_dropped\":'' @ dec_digits dropped @ '',\"quitting\":'' @ (if st_quitting st then ''1'' else ''0'') @ ''}''"

definition nv_core_publish_metrics :: "bool \<Rightarrow> nat \<Rightarrow> nat \<Rightarrow> nat \<Rightarrow> service \<Rightarrow> int \<times> service" where
  "nv_core_publish_metrics bus_on queued dropped time v =
     (let op = opts (sv_ctx v) in
      if metrics_publish op = 0 \<or> \<not> bus_on then (NV_DECLINED, v)
      else case metrics_topic op of None \<Rightarrow> (NV_DECLINED, v)
        | Some topic \<Rightarrow>
           if topic = '''' then (NV_DECLINED, v)
           else (let buf = metrics_text queued dropped (nv_core_get_runtime_stats time v) in
                 if length buf \<ge> 640 then (NV_ERROR, v)
                 else (NV_OK, v\<lparr>published := published v @ [(topic, buf)]\<rparr>)))"

definition heartbeat_ms :: "nv_core_ctx_t \<Rightarrow> nat" where
  "heartbeat_ms c = ulong (nat (heartbeat_interval_sec (opts c)) * 1000)"

text \<open>The heartbeat and the tick arm their own timer again.  Feeding the watchdog has no effect on the process.\<close>

definition heartbeat_rearm :: "nv_core_ctx_t \<Rightarrow> nat \<Rightarrow> addr \<Rightarrow> core_handler nv_loop_t \<Rightarrow> core_handler nv_loop_t option" where
  "heartbeat_rearm c now tev s =
     (if heartbeat_interval_sec (opts c) > 0 then nv_loop_add_timer now tev (heartbeat_ms c) s else Some s)"

definition nv_core_heartbeat_handler ::
    "cstring option \<Rightarrow> bool \<Rightarrow> bool \<Rightarrow> bool \<Rightarrow> nat \<Rightarrow> nat \<Rightarrow> nat \<Rightarrow> nat \<Rightarrow> addr \<Rightarrow> service \<Rightarrow> service option" where
  "nv_core_heartbeat_handler sock socket_ok send_ok bus_on queued dropped time now tev v =
     (let v = (if g_systemd_notify v then snd (nv_core_systemd_notify sock socket_ok send_ok ''WATCHDOG=1'' v) else v);
          v = snd (nv_core_publish_metrics bus_on queued dropped time v)
      in map_option (\<lambda>s. v\<lparr>sv_loop := s\<rparr>) (heartbeat_rearm (sv_ctx v) now tev (sv_loop v)))"

definition nv_mod_event_tick :: "nat \<Rightarrow> addr \<Rightarrow> core_handler nv_loop_t \<Rightarrow> core_handler nv_loop_t option" where
  "nv_mod_event_tick now tev s = nv_loop_add_timer now tev 5000 s"

definition put_event :: "addr \<Rightarrow> core_handler nv_event_ext_t \<Rightarrow> core_handler nv_loop_t \<Rightarrow> core_handler nv_loop_t" where
  "put_event p e s = s\<lparr>l_mem := (l_mem s)(p \<mapsto> e)\<rparr>"

definition nv_mod_event_loop_init :: "nat \<Rightarrow> addr \<Rightarrow> core_handler nv_loop_t \<Rightarrow> core_handler nv_loop_t option" where
  "nv_mod_event_loop_init now tick s =
     nv_loop_add_timer now tick 5000
       (put_event tick (zero_event\<lparr>ev_type := NV_EVENT_TYPE_TIMER, ev_handler := Some nv_mod_tick\<rparr>) s)"

definition nv_mod_event_loop_cleanup :: "addr \<Rightarrow> core_handler nv_loop_t \<Rightarrow> core_handler nv_loop_t option" where
  "nv_mod_event_loop_cleanup tick s = nv_loop_del_timer tick s"

text \<open>\<open>hb\<close> is the address of the heartbeat event in the context.\<close>

definition nv_core_health_init :: "cstring option \<Rightarrow> bool \<Rightarrow> bool \<Rightarrow> int \<Rightarrow> nat \<Rightarrow> nat \<Rightarrow> addr \<Rightarrow> service \<Rightarrow> service option" where
  "nv_core_health_init sock socket_ok send_ok wdt_fd time now hb v =
     (let v = upd_sv (\<lambda>c. c\<lparr>started_at := time\<rparr>) v; op = opts (sv_ctx v);
          v = v\<lparr>g_systemd_notify := if systemd_notify op = NV_CORE_SYSTEMD_AUTO then sock \<noteq> None else systemd_notify op \<noteq> 0\<rparr>;
          v = (if g_systemd_notify v then snd (nv_core_systemd_notify sock socket_ok send_ok ''READY=1'' v) else v);
          v = (if watchdog_enable op \<noteq> 0 \<and> watchdog_device op \<notin> {None, Some ''''} then snd (nv_watchdog_open wdt_fd v) else v)
      in if heartbeat_interval_sec op > 0 then do {
           s \<leftarrow> nv_loop_add_timer now hb (heartbeat_ms (sv_ctx v))
                 (put_event hb (zero_event\<lparr>ev_type := NV_EVENT_TYPE_TIMER, ev_handler := Some nv_core_heartbeat\<rparr>) (sv_loop v));
           Some (v\<lparr>sv_loop := s, health_inited := True\<rparr>) }
         else Some (v\<lparr>health_inited := True\<rparr>))"

definition nv_core_health_cleanup :: "cstring option \<Rightarrow> bool \<Rightarrow> bool \<Rightarrow> addr \<Rightarrow> service \<Rightarrow> service option" where
  "nv_core_health_cleanup sock socket_ok send_ok hb v =
     (if \<not> health_inited v then Some v
      else
        (let v = (if g_systemd_notify v then snd (nv_core_systemd_notify sock socket_ok send_ok ''STOPPING=1'' v) else v) in do {
           s \<leftarrow> (if heartbeat_interval_sec (opts (sv_ctx v)) > 0 then nv_loop_del_timer hb (sv_loop v) else Some (sv_loop v));
           Some ((nv_watchdog_close (v\<lparr>sv_loop := s\<rparr>))\<lparr>health_inited := False, g_systemd_notify := False\<rparr>) }))"

section \<open>The idle handler\<close>

text \<open>The handler of the loop's idle event.  \<open>now\<close> is the time in seconds; the arguments of a reload are those of
  \<open>nv_core_reload_config\<close>.  The hooks of the application are not modelled.\<close>

definition nv_core_idle_handler ::
    "(cstring \<Rightarrow> cstring option) \<Rightarrow> bool \<Rightarrow> cstring option \<Rightarrow> nat \<Rightarrow> service \<Rightarrow> service" where
  "nv_core_idle_handler sd alloc_ok contents now v =
     (let v = nv_core_check_shutdown_timeout now v in
      if exit_status v \<noteq> None then v
      else
        (let v = (if reload (sv_ctx v)
                  then upd_sv (\<lambda>c. snd (nv_core_reload_config sd alloc_ok contents (c\<lparr>reload := False\<rparr>))) v else v)
         in if fatal_signum v \<noteq> 0 then v\<lparr>sv_loop := nv_loop_stop (sv_loop v)\<rparr> else v))"

text \<open>What the loop calls for the timers of the core; the idle and the signal handler leave the loop's lists alone.\<close>

definition core_call :: "nv_core_ctx_t \<Rightarrow> nat \<Rightarrow> core_handler handlers" where
  "core_call c now h p s =
     (case h of nv_core_heartbeat \<Rightarrow> heartbeat_rearm c now p s
      | nv_mod_tick \<Rightarrow> nv_mod_event_tick now p s
      | _ \<Rightarrow> Some s)"

section \<open>The default heartbeat\<close>

text \<open>The two timers of the core as the initialisation leaves them: the heartbeat first, then the tick.\<close>

definition core_timers :: "addr \<Rightarrow> addr \<Rightarrow> nat \<Rightarrow> nat \<Rightarrow> core_handler nv_loop_t \<Rightarrow> bool" where
  "core_timers hb tick beat due s \<longleftrightarrow>
     tick \<noteq> NULL \<and> hb \<noteq> NULL \<and> hb \<noteq> tick \<and> l_timers_head s = hb \<and>
     (\<exists>e f. l_mem s hb = Some e \<and> l_mem s tick = Some f \<and>
        ev_prev e = NULL \<and> ev_next e = tick \<and> ev_expire_time e = beat \<and>
        ev_next f = NULL \<and> ev_expire_time f = due \<and> ev_handler f = Some nv_mod_tick)"

definition tick_state :: "addr \<Rightarrow> addr \<Rightarrow> bool \<Rightarrow> core_handler nv_loop_t \<Rightarrow> bool" where
  "tick_state tick prv on s \<longleftrightarrow> (\<exists>f. l_mem s tick = Some f \<and> ev_prev f = prv \<and> ev_loop f = on)"

lemma notify_frame:
  "sv_loop (snd (nv_core_systemd_notify sock socket_ok send_ok state v)) = sv_loop v"
  "sv_ctx (snd (nv_core_systemd_notify sock socket_ok send_ok state v)) = sv_ctx v"
  by (simp_all add: nv_core_systemd_notify_def split: prod.split)

lemma publish_frame:
  "sv_loop (snd (nv_core_publish_metrics on queued dropped time v)) = sv_loop v"
  "sv_ctx (snd (nv_core_publish_metrics on queued dropped time v)) = sv_ctx v"
  by (simp_all add: nv_core_publish_metrics_def Let_def split: option.split)

text \<open>On the loop, the heartbeat handler is what \<open>core_call\<close> runs.\<close>

lemma heartbeat_on_loop:
  "map_option sv_loop (nv_core_heartbeat_handler sock socket_ok send_ok on queued dropped time now p v) =
     core_call (sv_ctx v) now nv_core_heartbeat p (sv_loop v)"
  by (cases "heartbeat_rearm (sv_ctx v) now p (sv_loop v)")
     (simp_all add: nv_core_heartbeat_handler_def core_call_def Let_def notify_frame publish_frame)

lemma health_loop:
  assumes "heartbeat_interval_sec (opts (sv_ctx v)) > 0"
    and "nv_loop_add_timer now hb (heartbeat_ms (sv_ctx v))
           (put_event hb (zero_event\<lparr>ev_type := NV_EVENT_TYPE_TIMER, ev_handler := Some nv_core_heartbeat\<rparr>) (sv_loop v)) = Some s"
  shows "\<exists>v2. nv_core_health_init sock socket_ok send_ok wdt time now hb v = Some v2 \<and> sv_loop v2 = s \<and> opts (sv_ctx v2) = opts (sv_ctx v)"
proof -
  define v1 where "v1 = upd_sv (\<lambda>c. c\<lparr>started_at := time\<rparr>) v"
  define v2 where "v2 = v1\<lparr>g_systemd_notify := if systemd_notify (opts (sv_ctx v1)) = NV_CORE_SYSTEMD_AUTO then sock \<noteq> None
    else systemd_notify (opts (sv_ctx v1)) \<noteq> 0\<rparr>"
  define v3 where "v3 = (if g_systemd_notify v2 then snd (nv_core_systemd_notify sock socket_ok send_ok ''READY=1'' v2) else v2)"
  define v4 where "v4 = (if watchdog_enable (opts (sv_ctx v1)) \<noteq> 0 \<and> watchdog_device (opts (sv_ctx v1)) \<notin> {None, Some ''''}
    then snd (nv_watchdog_open wdt v3) else v3)"
  have "sv_loop v1 = sv_loop v" "opts (sv_ctx v1) = opts (sv_ctx v)" by (simp_all add: v1_def upd_sv_def)
  moreover have "sv_loop v2 = sv_loop v1" "sv_ctx v2 = sv_ctx v1" by (simp_all add: v2_def)
  moreover have "sv_loop v3 = sv_loop v2" "sv_ctx v3 = sv_ctx v2" by (simp_all add: v3_def notify_frame)
  moreover have "sv_loop v4 = sv_loop v3" "sv_ctx v4 = sv_ctx v3" by (simp_all add: v4_def nv_watchdog_open_def)
  ultimately have v: "sv_loop v4 = sv_loop v" "opts (sv_ctx v1) = opts (sv_ctx v)" "opts (sv_ctx v4) = opts (sv_ctx v)"
    "heartbeat_ms (sv_ctx v4) = heartbeat_ms (sv_ctx v)" by (simp_all add: heartbeat_ms_def)
  have "nv_core_health_init sock socket_ok send_ok wdt time now hb v = Some (v4\<lparr>sv_loop := s, health_inited := True\<rparr>)"
    using assms v unfolding nv_core_health_init_def Let_def v1_def[symmetric] v2_def[symmetric] v3_def[symmetric] v4_def[symmetric] by simp
  then show ?thesis using v by simp
qed

lemma init_timers:
  assumes v: "l_timers_head (sv_loop v) = NULL" "tick \<noteq> NULL" "hb \<noteq> NULL" "tick \<noteq> hb"
    and hb: "heartbeat_interval_sec (opts (sv_ctx v)) > 0"
  shows "\<exists>s1 v2. nv_mod_event_loop_init t0 tick (sv_loop v) = Some s1 \<and>
    nv_core_health_init sock socket_ok send_ok wdt time t1 hb (v\<lparr>sv_loop := s1\<rparr>) = Some v2 \<and> opts (sv_ctx v2) = opts (sv_ctx v) \<and>
    core_timers hb tick (ulong (t1 + heartbeat_ms (sv_ctx v))) (ulong (t0 + 5000)) (sv_loop v2) \<and>
    tick_state tick hb True (sv_loop v2) \<and> l_calls (sv_loop v2) = l_calls (sv_loop v)"
proof -
  define f where "f = zero_event\<lparr>ev_type := NV_EVENT_TYPE_TIMER, ev_handler := Some nv_mod_tick, ev_timeout_ms := 5000, ev_loop := True,
    ev_expire_time := ulong (t0 + 5000)\<rparr>"
  have s1: "nv_mod_event_loop_init t0 tick (sv_loop v) =
      Some (lower_timeout (ulong (t0 + 5000)) ((sv_loop v)\<lparr>l_mem := (l_mem (sv_loop v))(tick \<mapsto> f), l_timers_head := tick\<rparr>))" (is "_ = Some ?s1")
    using v by (simp add: nv_mod_event_loop_init_def put_event_def nv_loop_add_timer_def nv_loop_add_event_to_list_def ev_upd_live zero_event_def f_def)
  have frame: "l_mem (lower_timeout x s) = l_mem s" "l_timers_head (lower_timeout x s) = l_timers_head s" "l_calls (lower_timeout x s) = l_calls s" for x and s :: "core_handler nv_loop_t"
    by (simp_all add: lower_timeout_def)
  obtain s2 where s2: "nv_loop_add_timer t1 hb (heartbeat_ms (sv_ctx v))
      (put_event hb (zero_event\<lparr>ev_type := NV_EVENT_TYPE_TIMER, ev_handler := Some nv_core_heartbeat\<rparr>) ?s1) = Some s2"
    and st: "core_timers hb tick (ulong (t1 + heartbeat_ms (sv_ctx v))) (ulong (t0 + 5000)) s2" "tick_state tick hb True s2"
      "l_calls s2 = l_calls (sv_loop v)"
    using v by (simp add: put_event_def nv_loop_add_timer_def nv_loop_add_event_to_list_def ev_upd_live zero_event_def f_def frame
        core_timers_def tick_state_def)
  obtain v2 where "nv_core_health_init sock socket_ok send_ok wdt time t1 hb (v\<lparr>sv_loop := ?s1\<rparr>) = Some v2" "sv_loop v2 = s2" "opts (sv_ctx v2) = opts (sv_ctx v)"
    using health_loop[of "v\<lparr>sv_loop := ?s1\<rparr>" t1 hb s2 sock socket_ok send_ok wdt time] hb s2 by auto
  then show ?thesis using s1 st by auto
qed

lemma beat_passed:
  assumes "core_timers hb tick beat due s" "now < beat"
  shows "timers_loop call now hb s = timers_loop call now tick s"
proof -
  obtain e where "hb \<noteq> NULL" "l_mem s hb = Some e" "ev_next e = tick" "ev_expire_time e = beat"
    using assms(1) by (auto simp: core_timers_def)
  then show ?thesis using assms(2) by (subst timers_loop_unfold) simp
qed

lemma add_timer_front:
  assumes "ev \<noteq> NULL" "h \<noteq> NULL" "h \<noteq> ev" "l_timers_head s = h" "l_mem s ev = Some f" "l_mem s h = Some e"
  shows "nv_loop_add_timer now ev ms s = Some (lower_timeout (ulong (now + ms)) (s\<lparr>
    l_mem := (l_mem s)(ev \<mapsto> f\<lparr>ev_type := NV_EVENT_TYPE_TIMER, ev_timeout_ms := ms, ev_loop := True,
      ev_expire_time := ulong (now + ms), ev_next := h, ev_prev := NULL\<rparr>, h \<mapsto> e\<lparr>ev_prev := ev\<rparr>), l_timers_head := ev\<rparr>))"
  using assms by (simp add: nv_loop_add_timer_def nv_loop_add_event_to_list_def ev_upd_live)

lemma remove_front:
  assumes "ev \<noteq> NULL" "h \<noteq> NULL" "h \<noteq> ev" "l_mem s ev = Some f" "l_mem s h = Some e" "ev_prev f = NULL" "ev_next f = h"
  shows "nv_loop_remove_event_from_list k ev s =
    Some (h, s\<lparr>l_mem := (l_mem s)(h \<mapsto> e\<lparr>ev_prev := NULL\<rparr>, ev \<mapsto> f\<lparr>ev_next := NULL, ev_prev := NULL\<rparr>)\<rparr>)"
  using assms by (simp add: nv_loop_remove_event_from_list_def ev_upd_live)

lemma lower_timeout_frame:
  "l_mem (lower_timeout t s) = l_mem s" "l_timers_head (lower_timeout t s) = l_timers_head s" "l_calls (lower_timeout t s) = l_calls s"
  by (simp_all add: lower_timeout_def)

lemma tick_expires:
  assumes "core_timers hb tick beat due s" "tick_state tick hb True s"
  shows "\<exists>s'. expire_one (core_call c now) now tick s = Some s' \<and>
    core_timers hb tick beat (ulong (now + 5000)) s' \<and> tick_state tick NULL False s' \<and> l_calls s' = l_calls s @ [tick]"
proof -
  obtain e f where e: "tick \<noteq> NULL" "hb \<noteq> NULL" "hb \<noteq> tick" "l_timers_head s = hb" "l_mem s hb = Some e" "l_mem s tick = Some f"
    and p: "ev_next e = tick" "ev_expire_time e = beat" "ev_handler f = Some nv_mod_tick"
    using assms(1) unfolding core_timers_def by (elim conjE exE) (rule that; assumption)
  have l: "ev_loop f" using assms(2) e(6) by (simp add: tick_state_def)
  define f0 where "f0 = f\<lparr>ev_revents := NV_EVENT_TIMER, ev_trigger_count := ulong (ev_trigger_count f + 1), ev_last_trigger := now\<rparr>"
  define s0 where "s0 = s\<lparr>l_mem := (l_mem s)(tick \<mapsto> f0), l_calls := l_calls s @ [tick]\<rparr>"
  define s1 where "s1 = lower_timeout (ulong (now + 5000)) (s0\<lparr>
    l_mem := (l_mem s0)(tick \<mapsto> f0\<lparr>ev_type := NV_EVENT_TYPE_TIMER, ev_timeout_ms := 5000, ev_loop := True,
      ev_expire_time := ulong (now + 5000), ev_next := hb, ev_prev := NULL\<rparr>, hb \<mapsto> e\<lparr>ev_prev := tick\<rparr>), l_timers_head := tick\<rparr>)"
  have "nv_event_trigger (core_call c now) now tick NV_EVENT_TIMER s = nv_loop_add_timer now tick 5000 s0"
    using e p l by (simp add: nv_event_trigger_def core_call_def nv_mod_event_tick_def f0_def s0_def)
  then have trig: "nv_event_trigger (core_call c now) now tick NV_EVENT_TIMER s = Some s1"
    using add_timer_front[of tick hb s0 f0 e now 5000] e by (simp add: s1_def s0_def)
  obtain f1 e1 where m: "l_mem s1 tick = Some f1" "l_mem s1 hb = Some e1" "l_calls s1 = l_calls s @ [tick]"
    and q: "ev_next f1 = hb" "ev_prev f1 = NULL" "ev_expire_time f1 = ulong (now + 5000)" "ev_handler f1 = Some nv_mod_tick"
      "ev_next e1 = tick" "ev_expire_time e1 = beat"
    using e p by (simp add: s1_def lower_timeout_frame s0_def f0_def)
  have "nv_loop_remove_event_from_list (l_timers_head s1) tick (count_timer s1) = Some (hb, (count_timer s1)\<lparr>l_mem :=
      (l_mem s1)(hb \<mapsto> e1\<lparr>ev_prev := NULL\<rparr>, tick \<mapsto> f1\<lparr>ev_next := NULL, ev_prev := NULL\<rparr>)\<rparr>)"
    using remove_front[of tick hb "count_timer s1" f1 e1] e m q by (simp add: count_timer_def)
  then show ?thesis using e m q
    by (simp add: expire_one_def trig ev_upd_live core_timers_def tick_state_def count_timer_def)
qed

lemma core_next_timeout:
  assumes "core_timers hb tick beat due s"
  shows "\<exists>t. next_timeout_loop (l_mem s) (l_timers_head s) 0 = Some t"
proof -
  obtain e f where "l_mem s hb = Some e" "l_mem s tick = Some f" "tick \<noteq> NULL" "hb \<noteq> NULL" "l_timers_head s = hb"
    "ev_next e = tick" "ev_next f = NULL"
    using assms unfolding core_timers_def by (elim conjE exE) (rule that; assumption)
  then show ?thesis by (simp add: next_timeout_loop.simps)
qed

lemma tick_pass:
  assumes "core_timers hb tick beat due s" "tick_state tick hb True s" "due \<le> now" "now < beat"
  shows "\<exists>s'. nv_loop_process_timers (core_call c now) now s = Some s' \<and>
    core_timers hb tick beat (ulong (now + 5000)) s' \<and> tick_state tick NULL False s' \<and> l_calls s' = l_calls s @ [tick]"
proof -
  obtain s1 where s1: "expire_one (core_call c now) now tick s = Some s1" "core_timers hb tick beat (ulong (now + 5000)) s1"
    "tick_state tick NULL False s1" "l_calls s1 = l_calls s @ [tick]"
    using tick_expires[OF assms(1,2)] by blast
  obtain f where f: "l_mem s tick = Some f" "tick \<noteq> NULL" "ev_next f = NULL" "ev_expire_time f = due" "l_timers_head s = hb"
    using assms(1) unfolding core_timers_def by (elim conjE exE) (rule that; assumption)
  have "timers_loop (core_call c now) now hb s = Some s1"
    unfolding beat_passed[OF assms(1,4)] using f s1(1) assms(3) by (subst timers_loop_unfold, simp) (subst timers_loop_unfold, simp)
  moreover obtain t where "next_timeout_loop (l_mem s1) (l_timers_head s1) 0 = Some t" using core_next_timeout[OF s1(2)] by blast
  ultimately show ?thesis using s1 f
    by (intro exI[of _ "s1\<lparr>l_next_timeout := t\<rparr>"]) (simp add: nv_loop_process_timers_def core_timers_def tick_state_def)
qed

lemma tick_lost:
  assumes "core_timers hb tick beat due s" "tick_state tick NULL False s" "due \<le> now" "now < beat"
  shows "\<exists>s'. nv_loop_process_timers call now s = Some s' \<and> l_timers_head s' = NULL \<and> l_calls s' = l_calls s"
proof -
  obtain f where f: "l_mem s tick = Some f" "tick \<noteq> NULL" "ev_next f = NULL" "ev_expire_time f = due" "l_timers_head s = hb"
    "ev_handler f = Some nv_mod_tick"
    using assms(1) unfolding core_timers_def by (elim conjE exE) (rule that; assumption)
  have g: "\<not> ev_loop f" "ev_prev f = NULL" using assms(2) f(1) by (auto simp: tick_state_def)
  obtain s1 where s1: "expire_one call now tick s = Some s1" "l_timers_head s1 = NULL" "l_calls s1 = l_calls s"
    using f g by (simp add: expire_one_def nv_event_trigger_def nv_loop_remove_event_from_list_def ev_upd_live count_timer_def)
  have "timers_loop call now hb s = Some s1"
    unfolding beat_passed[OF assms(1,4)] using f s1(1) assms(3) by (subst timers_loop_unfold, simp) (subst timers_loop_unfold, simp)
  then show ?thesis using s1 f by (simp add: nv_loop_process_timers_def next_timeout_loop.simps)
qed

lemma no_timer_pass: "l_timers_head s = NULL \<Longrightarrow> nv_loop_process_timers call n s = Some (s\<lparr>l_next_timeout := 0\<rparr>)"
  by (simp add: nv_loop_process_timers_def timers_loop_unfold next_timeout_loop.simps)

text \<open>C40. The loop of the service starts with two timers, the tick of the modules and the heartbeat of the health
  part.  When two passes come after one and two tick periods and before the heartbeat is due, the tick is called once, its
  handler's request to be armed again is lost, the second pass unlinks the heartbeat with it, and no later pass calls
  anything: the heartbeat never fires.\<close>

theorem nv_core_heartbeat_never_fires:
  assumes "l_timers_head (sv_loop v) = NULL" "tick \<noteq> NULL" "hb \<noteq> NULL" "tick \<noteq> hb"
    and "heartbeat_interval_sec (opts (sv_ctx v)) > 0"
    and "t0 + 5000 \<le> n1" "n1 + 5000 \<le> n2" "n2 < t1 + heartbeat_ms (sv_ctx v)" "t1 + heartbeat_ms (sv_ctx v) < 2 ^ 64"
  shows "\<exists>s1 v2 s3 s4. nv_mod_event_loop_init t0 tick (sv_loop v) = Some s1 \<and>
    nv_core_health_init sock socket_ok send_ok wdt time t1 hb (v\<lparr>sv_loop := s1\<rparr>) = Some v2 \<and>
    nv_loop_process_timers (core_call (sv_ctx v2) n1) n1 (sv_loop v2) = Some s3 \<and>
    nv_loop_process_timers (core_call (sv_ctx v2) n2) n2 s3 = Some s4 \<and> l_calls s4 = l_calls (sv_loop v) @ [tick] \<and>
    (\<forall>n. nv_loop_process_timers (core_call (sv_ctx v2) n) n s4 = Some (s4\<lparr>l_next_timeout := 0\<rparr>))"
proof -
  let ?beat = "t1 + heartbeat_ms (sv_ctx v)"
  have u: "ulong ?beat = ?beat" "ulong (t0 + 5000) = t0 + 5000" "ulong (n1 + 5000) = n1 + 5000"
    using assms(6-9) by (simp_all add: ulong_def)
  obtain s1 v2 where i: "nv_mod_event_loop_init t0 tick (sv_loop v) = Some s1"
    "nv_core_health_init sock socket_ok send_ok wdt time t1 hb (v\<lparr>sv_loop := s1\<rparr>) = Some v2"
    "core_timers hb tick ?beat (t0 + 5000) (sv_loop v2)" "tick_state tick hb True (sv_loop v2)" "l_calls (sv_loop v2) = l_calls (sv_loop v)"
    using init_timers[OF assms(1-5), of t0 sock socket_ok send_ok wdt time t1] unfolding u by blast
  obtain s3 where s3: "nv_loop_process_timers (core_call (sv_ctx v2) n1) n1 (sv_loop v2) = Some s3"
    "core_timers hb tick ?beat (n1 + 5000) s3" "tick_state tick NULL False s3" "l_calls s3 = l_calls (sv_loop v2) @ [tick]"
    using tick_pass[OF i(3,4) assms(6), of "sv_ctx v2"] assms(7,8) unfolding u by auto
  obtain s4 where "nv_loop_process_timers (core_call (sv_ctx v2) n2) n2 s3 = Some s4" "l_timers_head s4 = NULL" "l_calls s4 = l_calls s3"
    using tick_lost[OF s3(2,3) assms(7,8), of "core_call (sv_ctx v2) n2"] by blast
  then show ?thesis using i s3
    by (intro exI[of _ s1] exI[of _ v2] exI[of _ s3] exI[of _ s4]) (simp add: no_timer_pass)
qed

definition sample_service :: service where
  "sample_service = \<lparr>sv_ctx = sample_ctx ''/p'',
     sv_loop = \<lparr>l_epoll_fd = 3, l_max_events = 64, l_state = NV_LOOP_INIT, l_epoll = [],
       l_timers_head = NULL, l_next_timeout = 0, l_idle_head = NULL, l_signals = [],
       l_stats = \<lparr>events_processed = 0, timers_processed = 0, signals_processed = 0, idle_events_processed = 0\<rparr>,
       l_signalfd_fd = 0, l_signalfd_ev = NULL, l_wakeup_inited = True, l_wakeup_bytes = 0,
       l_mem = Map.empty, l_calls = []\<rparr>, fatal_signum = 0,
     health_inited = False, g_systemd_notify = False, g_wdt_fd = -1, notified = [], published = [], exit_status = None\<rparr>"

theorem nv_core_heartbeat_never_fires_witness:
  "\<exists>s1 v2 s3 s4. nv_mod_event_loop_init 0 8 (sv_loop sample_service) = Some s1 \<and>
    nv_core_health_init None True True (-1) 1 0 16 (sample_service\<lparr>sv_loop := s1\<rparr>) = Some v2 \<and>
    nv_loop_process_timers (core_call (sv_ctx v2) 5000) 5000 (sv_loop v2) = Some s3 \<and>
    nv_loop_process_timers (core_call (sv_ctx v2) 10000) 10000 s3 = Some s4 \<and> l_calls s4 = l_calls (sv_loop sample_service) @ [8] \<and>
    (\<forall>n. nv_loop_process_timers (core_call (sv_ctx v2) n) n s4 = Some (s4\<lparr>l_next_timeout := 0\<rparr>))"
  by (rule nv_core_heartbeat_never_fires)
     (simp_all add: sample_service_def sample_ctx_def default_opts_def heartbeat_ms_def ulong_def)

section \<open>The size of the metrics\<close>

lemma dec_digits_length: "n < 10 ^ k \<Longrightarrow> 0 < k \<Longrightarrow> length (dec_digits n) \<le> k"
proof (induction n arbitrary: k rule: dec_digits.induct)
  case (1 n)
  show ?case
  proof (cases "n < 10")
    case True
    then show ?thesis using 1(3) by (simp add: dec_digits.simps[of n])
  next
    case False
    then obtain j where k: "k = Suc j" "0 < j" using 1(2,3) by (cases k; cases "k - 1") auto
    then have "n div 10 < 10 ^ j" using 1(2) by (simp add: less_mult_imp_div_less mult.commute)
    then show ?thesis using 1(1)[OF False, of j] k False by (simp add: dec_digits.simps[of n])
  qed
qed

lemma ulong_digits: "n < 2 ^ 64 \<Longrightarrow> length (dec_digits n) \<le> 20"
  by (rule dec_digits_length) simp_all

lemma metrics_fit:
  assumes "queued < 2 ^ 64" "dropped < 2 ^ 64" "st_uptime_sec st < 2 ^ 64" "st_loop_events st < 2 ^ 64" "st_loop_timers st < 2 ^ 64"
  shows "length (metrics_text queued dropped st) < 640"
  using assms[THEN ulong_digits] by (simp add: metrics_text_def)

end
