(* ===== verification/Nv_Net.thy ===== *)
theory Nv_Net
  imports Nv_Loop "HOL-Library.Monad_Syntax"
begin

text \<open>
  Sockets on the event loop (\<open>event/nv_tcp.c\<close>, \<open>event/nv_udp.c\<close>): connections, servers, clients, byte
  buffers and connection pools.  The state of the process holds the open descriptors, the allocated connections
  and the loop; a descriptor that is closed although it is not open is recorded.  The event embedded in a connection
  lives at the address of the connection in the memory of the loop.  What the system calls and the allocator
  return are arguments; \<open>None\<close> is an access to memory that is not allocated.  The two protocols share the
  descriptor and the life cycle of a listener, as the code does, and the theory proves both from one lemma.
\<close>

section \<open>Descriptors and connections\<close>

record nv_sock_t =
  socketfd :: int

datatype nv_tcp_state_t = NV_TCP_CLOSED | NV_TCP_LISTENING | NV_TCP_CONNECTING | NV_TCP_CONNECTED | NV_TCP_CLOSING
datatype nv_udp_state_t = NV_UDP_CLOSED | NV_UDP_BOUND | NV_UDP_CONNECTED | NV_UDP_MULTICAST

record nv_tcp_t = nv_sock_t +
  tcp_port :: int
  tcp_state :: nv_tcp_state_t

record nv_udp_t = nv_sock_t +
  dest_addr :: "(cstring \<times> int) option"
  udp_state :: nv_udp_state_t

record ('c, 'h) net =
  n_fds :: "int list"
  n_bad :: "int list"
  n_conns :: "'c store"
  n_loop :: "'h nv_loop_t"

text \<open>A descriptor that the kernel returns is not open.\<close>

definition kernel_socket :: "int \<Rightarrow> ('c, 'h) net \<Rightarrow> int \<times> ('c, 'h) net" where
  "kernel_socket fd n = (if fd \<ge> 0 \<and> fd \<notin> set (n_fds n) then (fd, n\<lparr>n_fds := fd # n_fds n\<rparr>) else (-1, n))"

definition kernel_close :: "int \<Rightarrow> ('c, 'h) net \<Rightarrow> ('c, 'h) net" where
  "kernel_close fd n =
     (if fd \<in> set (n_fds n) then n\<lparr>n_fds := remove1 fd (n_fds n)\<rparr> else n\<lparr>n_bad := n_bad n @ [fd]\<rparr>)"

text \<open>Allocation of a zeroed connection with its event, and its release.\<close>

definition conn_alloc :: "addr \<Rightarrow> 'c \<Rightarrow> ('c, 'h) net \<Rightarrow> ('c, 'h) net" where
  "conn_alloc p c n = n\<lparr>n_conns := (n_conns n)(p \<mapsto> c), n_loop := (n_loop n)\<lparr>l_mem := (l_mem (n_loop n))(p \<mapsto> zero_event)\<rparr>\<rparr>"

definition conn_free :: "addr \<Rightarrow> ('c, 'h) net \<Rightarrow> ('c, 'h) net" where
  "conn_free p n = n\<lparr>n_conns := store_free p (n_conns n), n_loop := (n_loop n)\<lparr>l_mem := store_free p (l_mem (n_loop n))\<rparr>\<rparr>"

definition conn_upd :: "addr \<Rightarrow> ('c \<Rightarrow> 'c) \<Rightarrow> ('c, 'h) net \<Rightarrow> ('c, 'h) net option" where
  "conn_upd p f n = map_option (\<lambda>m. n\<lparr>n_conns := m\<rparr>) (store_upd p f (n_conns n))"

section \<open>TCP connections\<close>

definition zero_tcp :: nv_tcp_t where
  "zero_tcp = \<lparr>socketfd = 0, tcp_port = 0, tcp_state = NV_TCP_CLOSED\<rparr>"

definition nv_tcp_init :: "int \<Rightarrow> nv_tcp_t \<Rightarrow> (nv_tcp_t, 'h) net \<Rightarrow> int \<times> nv_tcp_t \<times> (nv_tcp_t, 'h) net" where
  "nv_tcp_init fd tcp n =
     (let (fd, n) = kernel_socket fd n; tcp = tcp\<lparr>socketfd := fd\<rparr> in
      if fd < 0 then (-1, tcp, n) else (0, tcp\<lparr>tcp_state := NV_TCP_CLOSED\<rparr>, n))"

definition nv_tcp_bind :: "bool \<Rightarrow> int \<Rightarrow> nv_tcp_t \<Rightarrow> (nv_tcp_t, 'h) net \<Rightarrow> int \<times> nv_tcp_t \<times> (nv_tcp_t, 'h) net" where
  "nv_tcp_bind ok port tcp n =
     (if \<not> ok then (-1, tcp, kernel_close (socketfd tcp) n) else (0, tcp\<lparr>tcp_port := port\<rparr>, n))"

definition nv_tcp_listen :: "bool \<Rightarrow> nv_tcp_t \<Rightarrow> (nv_tcp_t, 'h) net \<Rightarrow> int \<times> nv_tcp_t \<times> (nv_tcp_t, 'h) net" where
  "nv_tcp_listen ok tcp n =
     (if \<not> ok then (-1, tcp, kernel_close (socketfd tcp) n) else (0, tcp\<lparr>tcp_state := NV_TCP_LISTENING\<rparr>, n))"

text \<open>\<open>p\<close> is the memory of the new connection, or NULL, and \<open>junk\<close> what it holds.\<close>

definition nv_tcp_accept :: "addr \<Rightarrow> nv_tcp_t \<Rightarrow> int \<Rightarrow> (nv_tcp_t, 'h) net \<Rightarrow> addr \<times> (nv_tcp_t, 'h) net" where
  "nv_tcp_accept p junk fd n =
     (if p = NULL then (NULL, n)
      else
        (let (fd, n) = kernel_socket fd n in
         if fd < 0 then (NULL, n) else (p, conn_alloc p (junk\<lparr>socketfd := fd, tcp_state := NV_TCP_CONNECTED\<rparr>) n)))"

definition nv_tcp_connect :: "bool \<Rightarrow> nv_tcp_t \<Rightarrow> (nv_tcp_t, 'h) net \<Rightarrow> int \<times> nv_tcp_t \<times> (nv_tcp_t, 'h) net" where
  "nv_tcp_connect ok tcp n =
     (let tcp = tcp\<lparr>tcp_state := NV_TCP_CONNECTING\<rparr> in
      if \<not> ok then (-1, tcp\<lparr>tcp_state := NV_TCP_CLOSED\<rparr>, kernel_close (socketfd tcp) n)
      else (0, tcp\<lparr>tcp_state := NV_TCP_CONNECTED\<rparr>, n))"

definition nv_tcp_close :: "nv_tcp_t \<Rightarrow> (nv_tcp_t, 'h) net \<Rightarrow> int \<times> nv_tcp_t \<times> (nv_tcp_t, 'h) net" where
  "nv_tcp_close tcp n =
     (let n = (if socketfd tcp \<noteq> -1 then kernel_close (socketfd tcp) n else n);
          tcp = (if socketfd tcp \<noteq> -1 then tcp\<lparr>socketfd := -1\<rparr> else tcp)
      in (0, tcp\<lparr>tcp_state := NV_TCP_CLOSED\<rparr>, n))"

section \<open>UDP sockets\<close>

definition zero_udp :: nv_udp_t where
  "zero_udp = \<lparr>socketfd = 0, dest_addr = None, udp_state = NV_UDP_CLOSED\<rparr>"

definition nv_udp_init :: "int \<Rightarrow> nv_udp_t \<Rightarrow> (nv_udp_t, 'h) net \<Rightarrow> int \<times> nv_udp_t \<times> (nv_udp_t, 'h) net" where
  "nv_udp_init fd udp n =
     (let (fd, n) = kernel_socket fd n in (if fd < 0 then -1 else 0, udp\<lparr>socketfd := fd\<rparr>, n))"

definition nv_udp_bind :: "bool \<Rightarrow> nv_udp_t \<Rightarrow> (nv_udp_t, 'h) net \<Rightarrow> int \<times> (nv_udp_t, 'h) net" where
  "nv_udp_bind ok udp n = (if \<not> ok then (-1, kernel_close (socketfd udp) n) else (0, n))"

definition nv_udp_connect :: "bool \<Rightarrow> cstring \<Rightarrow> int \<Rightarrow> nv_udp_t \<Rightarrow> int \<times> nv_udp_t" where
  "nv_udp_connect ok ip port udp =
     (if \<not> ok then (-1, udp) else (0, udp\<lparr>dest_addr := Some (ip, port), udp_state := NV_UDP_CONNECTED\<rparr>))"

text \<open>\<open>r\<close> is what the system call returns.\<close>

definition nv_udp_send :: "int \<Rightarrow> nv_udp_t \<Rightarrow> int" where
  "nv_udp_send r udp = (if udp_state udp = NV_UDP_CONNECTED then r else -1)"

definition nv_udp_recv :: "int \<Rightarrow> nv_udp_t \<Rightarrow> int" where
  "nv_udp_recv r udp = (if udp_state udp = NV_UDP_CONNECTED then r else -1)"

definition nv_udp_close :: "nv_udp_t \<Rightarrow> (nv_udp_t, 'h) net \<Rightarrow> int \<times> nv_udp_t \<times> (nv_udp_t, 'h) net" where
  "nv_udp_close udp n =
     (let n = (if socketfd udp \<noteq> -1 then kernel_close (socketfd udp) n else n);
          udp = (if socketfd udp \<noteq> -1 then udp\<lparr>socketfd := -1\<rparr> else udp)
      in (0, udp\<lparr>udp_state := NV_UDP_CLOSED\<rparr>, n))"

section \<open>Listeners\<close>

text \<open>The steps that the servers of the two protocols share.  Creation: the listener with its descriptor, or
  \<open>-1\<close> after its memory has been released again; the pointer to it stays in the server.\<close>

definition conn_create :: "addr \<Rightarrow> 'c \<Rightarrow> (int \<Rightarrow> 'c \<Rightarrow> 'c) \<Rightarrow> int \<Rightarrow> bool \<Rightarrow> ('c, 'h) net \<Rightarrow> int \<times> ('c, 'h) net" where
  "conn_create p zero set_fd fd bind_ok n =
     (if p = NULL then (-1, n)
      else
        (let (fd, n) = kernel_socket fd n; n = conn_alloc p (set_fd fd zero) n in
         if fd = -1 then (-1, conn_free p n)
         else if \<not> bind_ok then (-1, conn_free p (kernel_close fd n))
         else (0, n)))"

text \<open>The read event is filled in without a handler and registered for input.\<close>

definition listener_register :: "addr \<Rightarrow> int \<Rightarrow> bool \<Rightarrow> ('c, 'h) net \<Rightarrow> (int \<times> ('c, 'h) net) option" where
  "listener_register p fd add_ok n =
     (let ev = zero_event\<lparr>ev_fd := fd, ev_type := NV_EVENT_TYPE_IO, ev_priority := NV_EVENT_PRIO_NORMAL\<rparr>;
          l = (n_loop n)\<lparr>l_mem := (l_mem (n_loop n))(p \<mapsto> ev)\<rparr>
      in case nv_loop_add_event add_ok p 1 l of None \<Rightarrow> None
         | Some (rc, l) \<Rightarrow> Some (if rc \<noteq> 0 then -1 else 0, n\<lparr>n_loop := l\<rparr>))"

definition listener_stop :: "addr \<Rightarrow> ('c nv_sock_t_scheme \<Rightarrow> 'c nv_sock_t_scheme) \<Rightarrow> ('c nv_sock_t_scheme, 'h) net \<Rightarrow>
    ('c nv_sock_t_scheme, 'h) net option" where
  "listener_stop p closed n =
     (if p = NULL then Some n
      else do {
        c \<leftarrow> n_conns n p;
        e \<leftarrow> l_mem (n_loop n) p;
        l \<leftarrow> (if ev_active e then do { (r, l) \<leftarrow> nv_loop_del_event p (n_loop n); nv_event_cleanup p l } else Some (n_loop n));
        n \<leftarrow> (if socketfd c \<noteq> -1
             then conn_upd p (\<lambda>c. closed (c\<lparr>socketfd := -1\<rparr>)) (kernel_close (socketfd c) (n\<lparr>n_loop := l\<rparr>))
             else Some (n\<lparr>n_loop := l\<rparr>));
        Some (conn_free p n) })"

section \<open>Servers\<close>

definition SOMAXCONN :: int where "SOMAXCONN = 4096"

record nv_tcp_server_t =
  ts_listener :: addr
  ts_port :: int
  ts_backlog :: int
  ts_max_connections :: int

definition zero_tcp_server :: nv_tcp_server_t where
  "zero_tcp_server = \<lparr>ts_listener = NULL, ts_port = 0, ts_backlog = 0, ts_max_connections = 0\<rparr>"

definition nv_tcp_server_create ::
    "addr \<Rightarrow> int \<Rightarrow> bool \<Rightarrow> int \<Rightarrow> (nv_tcp_t, 'h) net \<Rightarrow> int \<times> nv_tcp_server_t \<times> (nv_tcp_t, 'h) net" where
  "nv_tcp_server_create p fd bind_ok port n =
     (let s = zero_tcp_server\<lparr>ts_port := port, ts_backlog := SOMAXCONN, ts_max_connections := 1000, ts_listener := p\<rparr>;
          (rc, n) = conn_create p zero_tcp (\<lambda>fd c. c\<lparr>socketfd := fd\<rparr>) fd bind_ok n
      in (rc, s, n))"

definition nv_tcp_server_start :: "bool \<Rightarrow> bool \<Rightarrow> nv_tcp_server_t \<Rightarrow> (nv_tcp_t, 'h) net \<Rightarrow> (int \<times> (nv_tcp_t, 'h) net) option" where
  "nv_tcp_server_start listen_ok add_ok s n =
     (if ts_listener s = NULL then Some (-1, n)
      else do {
        c \<leftarrow> n_conns n (ts_listener s);
        if socketfd c = -1 then Some (-1, n)
        else if \<not> listen_ok then Some (-1, n)
        else do {
          n \<leftarrow> conn_upd (ts_listener s) (\<lambda>c. c\<lparr>tcp_state := NV_TCP_LISTENING\<rparr>) n;
          listener_register (ts_listener s) (socketfd c) add_ok n } })"

definition nv_tcp_server_stop :: "nv_tcp_server_t \<Rightarrow> (nv_tcp_t, 'h) net \<Rightarrow> (int \<times> nv_tcp_server_t \<times> (nv_tcp_t, 'h) net) option" where
  "nv_tcp_server_stop s n =
     map_option (\<lambda>n. (0, s\<lparr>ts_listener := NULL\<rparr>, n)) (listener_stop (ts_listener s) (\<lambda>c. c\<lparr>tcp_state := NV_TCP_CLOSED\<rparr>) n)"

definition nv_tcp_server_destroy :: "nv_tcp_server_t \<Rightarrow> (nv_tcp_t, 'h) net \<Rightarrow> (nv_tcp_server_t \<times> (nv_tcp_t, 'h) net) option" where
  "nv_tcp_server_destroy s n = map_option (\<lambda>(_, _, n). (zero_tcp_server, n)) (nv_tcp_server_stop s n)"

record nv_udp_server_t =
  us_listener :: addr
  us_port :: int
  us_max_clients :: int

definition zero_udp_server :: nv_udp_server_t where
  "zero_udp_server = \<lparr>us_listener = NULL, us_port = 0, us_max_clients = 0\<rparr>"

definition nv_udp_server_create ::
    "addr \<Rightarrow> int \<Rightarrow> bool \<Rightarrow> int \<Rightarrow> (nv_udp_t, 'h) net \<Rightarrow> int \<times> nv_udp_server_t \<times> (nv_udp_t, 'h) net" where
  "nv_udp_server_create p fd bind_ok port n =
     (let s = zero_udp_server\<lparr>us_port := port, us_max_clients := 1000, us_listener := p\<rparr>;
          (rc, n) = conn_create p zero_udp (\<lambda>fd c. c\<lparr>socketfd := fd\<rparr>) fd bind_ok n
      in (rc, s, n))"

definition nv_udp_server_start :: "bool \<Rightarrow> nv_udp_server_t \<Rightarrow> (nv_udp_t, 'h) net \<Rightarrow> (int \<times> (nv_udp_t, 'h) net) option" where
  "nv_udp_server_start add_ok s n =
     (if us_listener s = NULL then Some (-1, n)
      else do {
        c \<leftarrow> n_conns n (us_listener s);
        if socketfd c = -1 then Some (-1, n)
        else do {
          n \<leftarrow> conn_upd (us_listener s) (\<lambda>c. c\<lparr>udp_state := NV_UDP_BOUND\<rparr>) n;
          listener_register (us_listener s) (socketfd c) add_ok n } })"

definition nv_udp_server_stop :: "nv_udp_server_t \<Rightarrow> (nv_udp_t, 'h) net \<Rightarrow> (int \<times> nv_udp_server_t \<times> (nv_udp_t, 'h) net) option" where
  "nv_udp_server_stop s n =
     map_option (\<lambda>n. (0, s\<lparr>us_listener := NULL\<rparr>, n)) (listener_stop (us_listener s) (\<lambda>c. c\<lparr>udp_state := NV_UDP_CLOSED\<rparr>) n)"

definition nv_udp_server_destroy :: "nv_udp_server_t \<Rightarrow> (nv_udp_t, 'h) net \<Rightarrow> (nv_udp_server_t \<times> (nv_udp_t, 'h) net) option" where
  "nv_udp_server_destroy s n = map_option (\<lambda>(_, _, n). (zero_udp_server, n)) (nv_udp_server_stop s n)"

section \<open>Clients\<close>

record nv_client_t =
  c_connection :: addr
  c_server_ip :: "cstring option"
  c_server_port :: int
  c_timeout_ms :: int

definition nv_tcp_client_create :: nv_client_t where
  "nv_tcp_client_create = \<lparr>c_connection = NULL, c_server_ip = None, c_server_port = 0, c_timeout_ms = 5000\<rparr>"

definition nv_udp_client_create :: nv_client_t where
  "nv_udp_client_create = \<lparr>c_connection = NULL, c_server_ip = None, c_server_port = 0, c_timeout_ms = 5000\<rparr>"

text \<open>\<open>pton_ok\<close> and \<open>connect_ok\<close> are the results of the conversion of the address and of \<open>connect\<close>,
  \<open>dup\<close> that of copying the address.\<close>

definition nv_tcp_client_connect ::
    "addr \<Rightarrow> int \<Rightarrow> bool \<Rightarrow> bool \<Rightarrow> cstring option \<Rightarrow> int \<Rightarrow> nv_client_t \<Rightarrow> (nv_tcp_t, 'h) net \<Rightarrow> int \<times> nv_client_t \<times> (nv_tcp_t, 'h) net" where
  "nv_tcp_client_connect p fd pton_ok connect_ok dup port cl n =
     (let cl = cl\<lparr>c_connection := p\<rparr> in
      case conn_create p zero_tcp (\<lambda>fd c. c\<lparr>socketfd := fd, tcp_state := NV_TCP_CONNECTED\<rparr>) fd (pton_ok \<and> connect_ok) n of (rc, n) \<Rightarrow>
        if rc \<noteq> 0 then (-1, cl, n) else (0, cl\<lparr>c_server_ip := dup, c_server_port := port\<rparr>, n))"

definition nv_udp_client_connect ::
    "addr \<Rightarrow> int \<Rightarrow> bool \<Rightarrow> cstring option \<Rightarrow> cstring \<Rightarrow> int \<Rightarrow> nv_client_t \<Rightarrow> (nv_udp_t, 'h) net \<Rightarrow> int \<times> nv_client_t \<times> (nv_udp_t, 'h) net" where
  "nv_udp_client_connect p fd pton_ok dup ip port cl n =
     (let cl = cl\<lparr>c_connection := p\<rparr> in
      case conn_create p zero_udp (\<lambda>fd c. c\<lparr>socketfd := fd, dest_addr := Some (ip, port), udp_state := NV_UDP_CONNECTED\<rparr>) fd pton_ok n of (rc, n) \<Rightarrow>
        if rc \<noteq> 0 then (-1, cl, n) else (0, cl\<lparr>c_server_ip := dup, c_server_port := port\<rparr>, n))"

definition client_release :: "addr \<Rightarrow> ('c nv_sock_t_scheme \<Rightarrow> 'c nv_sock_t_scheme) \<Rightarrow> ('c nv_sock_t_scheme, 'h) net \<Rightarrow>
    ('c nv_sock_t_scheme, 'h) net option" where
  "client_release p closed n =
     (if p = NULL then Some n
      else do {
        c \<leftarrow> n_conns n p;
        n \<leftarrow> (if socketfd c \<noteq> -1 then conn_upd p (\<lambda>c. c\<lparr>socketfd := -1\<rparr>) (kernel_close (socketfd c) n) else Some n);
        n \<leftarrow> conn_upd p closed n;
        Some (conn_free p n) })"

definition nv_tcp_client_disconnect :: "nv_client_t \<Rightarrow> (nv_tcp_t, 'h) net \<Rightarrow> (int \<times> nv_client_t \<times> (nv_tcp_t, 'h) net) option" where
  "nv_tcp_client_disconnect cl n =
     map_option (\<lambda>n. (0, cl\<lparr>c_connection := NULL, c_server_ip := None\<rparr>, n))
       (client_release (c_connection cl) (\<lambda>c. c\<lparr>tcp_state := NV_TCP_CLOSED\<rparr>) n)"

definition nv_udp_client_disconnect :: "nv_client_t \<Rightarrow> (nv_udp_t, 'h) net \<Rightarrow> (int \<times> nv_client_t \<times> (nv_udp_t, 'h) net) option" where
  "nv_udp_client_disconnect cl n =
     map_option (\<lambda>n. (0, cl\<lparr>c_connection := NULL, c_server_ip := None\<rparr>, n))
       (client_release (c_connection cl) (\<lambda>c. c\<lparr>udp_state := NV_UDP_CLOSED\<rparr>) n)"

section \<open>The life of a connection\<close>

definition registered_open :: "('c, 'h) net \<Rightarrow> bool" where
  "registered_open n \<longleftrightarrow> (\<forall>x \<in> set (l_epoll (n_loop n)). fst x \<in> set (n_fds n))"

lemma conn_create_ok:
  assumes "conn_create p zero f fd ok n = (0, n')"
  shows "p \<noteq> NULL \<and> fd \<ge> 0 \<and> fd \<notin> set (n_fds n) \<and> n' = conn_alloc p (f fd zero) (n\<lparr>n_fds := fd # n_fds n\<rparr>)"
  using assms by (auto simp: conn_create_def kernel_socket_def Let_def split: if_splits)

lemma conn_create_fail:
  assumes "conn_create p zero f fd ok n = (rc, n')" "rc \<noteq> 0" "n_conns n p = None"
  shows "n_conns n' = n_conns n \<and> n_fds n' = n_fds n \<and> n_bad n' = n_bad n"
  using assms
  by (auto simp: conn_create_def kernel_socket_def kernel_close_def conn_free_def conn_alloc_def store_free_def Let_def fun_eq_iff split: if_splits)

text \<open>A listener whose event is registered with its own descriptor, or not at all.\<close>

definition listening :: "addr \<Rightarrow> int \<Rightarrow> ('c nv_sock_t_scheme, 'h) net \<Rightarrow> bool" where
  "listening p fd n \<longleftrightarrow> p \<noteq> NULL \<and> fd \<ge> 0 \<and> (\<exists>c e. n_conns n p = Some c \<and> socketfd c = fd \<and> l_mem (n_loop n) p = Some e \<and>
     ev_next e = NULL \<and> ev_prev e = NULL \<and> (ev_active e \<longrightarrow> l_epoll_fd (n_loop n) \<noteq> -1 \<and> ev_fd e = fd) \<and>
     (\<not> ev_active e \<longrightarrow> (\<forall>x \<in> set (l_epoll (n_loop n)). fst x \<noteq> fd)))"

lemma event_removed:
  assumes "l_mem l p = Some e" "p \<noteq> NULL" "ev_next e = NULL" "ev_prev e = NULL" "l_epoll_fd l \<noteq> -1" "ev_active e" "ev_fd e \<ge> 0"
  shows "\<exists>r l1 l2. nv_loop_del_event p l = Some (r, l1) \<and> nv_event_cleanup p l1 = Some l2 \<and>
           l_epoll l2 = filter (\<lambda>x. fst x \<noteq> ev_fd e) (l_epoll l)"
  using assms
  by (simp add: nv_loop_del_event_def nv_event_cleanup_def ev_upd_live case_prod_beta')

lemma closed_listener:
  assumes "n_conns m p = Some c" "socketfd c = fd" "p \<noteq> NULL" "n_fds m = fd # fds"
  shows "conn_upd p f (kernel_close fd m) = Some (m\<lparr>n_fds := fds, n_conns := (n_conns m)(p \<mapsto> f c)\<rparr>)"
  using assms by (simp add: conn_upd_def kernel_close_def store_upd_def)

lemma listener_stopped:
  assumes "listening p fd n" "n_fds n = fd # fds"
  shows "\<exists>n'. listener_stop p closed n = Some n' \<and> n_fds n' = fds \<and> n_conns n' = (n_conns n)(p := None) \<and> n_bad n' = n_bad n \<and>
           l_epoll (n_loop n') = filter (\<lambda>x. fst x \<noteq> fd) (l_epoll (n_loop n))"
proof -
  obtain c e where c: "p \<noteq> NULL" "fd \<ge> 0" "n_conns n p = Some c" "socketfd c = fd" "l_mem (n_loop n) p = Some e"
    "ev_next e = NULL" "ev_prev e = NULL"
    and act: "ev_active e \<longrightarrow> l_epoll_fd (n_loop n) \<noteq> -1 \<and> ev_fd e = fd" "\<not> ev_active e \<longrightarrow> (\<forall>x \<in> set (l_epoll (n_loop n)). fst x \<noteq> fd)"
    using assms(1) by (auto simp: listening_def)
  obtain l where l: "(if ev_active e then do { (r, l) \<leftarrow> nv_loop_del_event p (n_loop n); nv_event_cleanup p l } else Some (n_loop n)) = Some l"
    "l_epoll l = filter (\<lambda>x. fst x \<noteq> fd) (l_epoll (n_loop n))"
  proof (cases "ev_active e")
    case True
    then show ?thesis using event_removed[OF c(5,1,6,7)] act(1) c(2) that by auto
  next
    case False
    then show ?thesis using act(2) that[of "n_loop n"] by (simp add: filter_True)
  qed
  have "conn_upd p (\<lambda>c. closed (c\<lparr>socketfd := -1\<rparr>)) (kernel_close fd (n\<lparr>n_loop := l\<rparr>)) =
      Some (n\<lparr>n_loop := l, n_fds := fds, n_conns := (n_conns n)(p \<mapsto> closed (c\<lparr>socketfd := -1\<rparr>))\<rparr>)"
    using closed_listener[of "n\<lparr>n_loop := l\<rparr>" p c fd fds] c assms(2) by simp
  then show ?thesis using c l by (simp add: listener_stop_def conn_free_def store_free_def)
qed

lemma listener_registered:
  assumes "conn_upd p g (conn_alloc p c (n\<lparr>n_fds := fd # n_fds n\<rparr>)) = Some n1" "listener_register p fd add_ok n1 = Some (rc, n2)"
    and "socketfd (g c) = fd" "p \<noteq> NULL" "fd \<ge> 0" "fd \<notin> set (n_fds n)" "registered_open n"
  shows "listening p fd n2 \<and> n_fds n2 = fd # n_fds n \<and> n_conns n2 = (n_conns n)(p \<mapsto> g c) \<and> n_bad n2 = n_bad n \<and>
    filter (\<lambda>x. fst x \<noteq> fd) (l_epoll (n_loop n2)) = l_epoll (n_loop n)"
proof -
  have n1: "n1 = (conn_alloc p (g c) (n\<lparr>n_fds := fd # n_fds n\<rparr>))" using assms(1,4) by (auto simp: conn_upd_def store_upd_def conn_alloc_def)
  have "\<forall>x \<in> set (l_epoll (n_loop n)). fst x \<noteq> fd" using assms(6,7) by (auto simp: registered_open_def)
  then show ?thesis using assms(2-5)
    by (auto simp: n1 listener_register_def conn_alloc_def nv_loop_add_event_def ev_upd_live Let_def listening_def zero_event_def filter_id_conv
        split: if_splits option.splits)
qed

lemma conn_allocated:
  assumes "socketfd c = fd" "p \<noteq> NULL" "fd \<ge> 0" "fd \<notin> set (n_fds n)" "registered_open n"
  shows "listening p fd (conn_alloc p c (n\<lparr>n_fds := fd # n_fds n\<rparr>)) \<and> filter (\<lambda>x. fst x \<noteq> fd) (l_epoll (n_loop n)) = l_epoll (n_loop n)"
  using assms by (auto simp: listening_def conn_alloc_def zero_event_def registered_open_def filter_id_conv)

lemma listener_cycle:
  assumes "listening p fd n2" "n_fds n2 = fd # n_fds n" "n_conns n2 = (n_conns n)(p \<mapsto> c)" "n_bad n2 = n_bad n" "n_conns n p = None"
    and "filter (\<lambda>x. fst x \<noteq> fd) (l_epoll (n_loop n2)) = l_epoll (n_loop n)"
  shows "\<exists>n3. listener_stop p closed n2 = Some n3 \<and> n_fds n3 = n_fds n \<and> n_conns n3 = n_conns n \<and> n_bad n3 = n_bad n \<and>
    l_epoll (n_loop n3) = l_epoll (n_loop n)"
  using listener_stopped[OF assms(1,2), of closed] assms(3-6) by (auto simp: fun_upd_idem)


lemma nv_udp_server_leaves_nothing:
  assumes "n_conns n p = None" "registered_open n" "nv_udp_server_create p fd bind_ok port n = (0, s, n1)"
    and "nv_udp_server_start add_ok s n1 = Some (rc, n2)"
  shows "\<exists>s' n3. nv_udp_server_stop s n2 = Some (0, s', n3) \<and> us_listener s' = NULL \<and> n_fds n3 = n_fds n \<and>
    n_conns n3 = n_conns n \<and> n_bad n3 = n_bad n \<and> l_epoll (n_loop n3) = l_epoll (n_loop n)"
proof -
  define c where "c = zero_udp\<lparr>socketfd := fd\<rparr>"
  have "conn_create p zero_udp (\<lambda>fd c. c\<lparr>socketfd := fd\<rparr>) fd bind_ok n = (0, n1)" and s: "us_listener s = p"
    using assms(3) by (auto simp: nv_udp_server_create_def Let_def split: prod.splits)
  from conn_create_ok[OF this(1)] have p: "p \<noteq> NULL" "fd \<ge> 0" "fd \<notin> set (n_fds n)" "n1 = conn_alloc p c (n\<lparr>n_fds := fd # n_fds n\<rparr>)"
    by (auto simp: c_def)
  have live: "n_conns n1 p = Some c" "socketfd c = fd" by (simp_all add: p(4) conn_alloc_def c_def)
  obtain m where m: "conn_upd p (\<lambda>c. c\<lparr>udp_state := NV_UDP_BOUND\<rparr>) n1 = Some m" "listener_register p fd add_ok m = Some (rc, n2)"
    using assms(4) p live s by (auto simp: nv_udp_server_start_def split: option.splits bind_splits)
  have "listening p fd n2 \<and> n_fds n2 = fd # n_fds n \<and> (\<exists>c. n_conns n2 = (n_conns n)(p \<mapsto> c)) \<and> n_bad n2 = n_bad n \<and>
    filter (\<lambda>x. fst x \<noteq> fd) (l_epoll (n_loop n2)) = l_epoll (n_loop n)"
    using listener_registered[OF m(1)[unfolded p(4)] m(2) _ p(1-3) assms(2)] live(2) by auto
  then obtain n3 where "listener_stop p (\<lambda>c. c\<lparr>udp_state := NV_UDP_CLOSED\<rparr>) n2 = Some n3" "n_fds n3 = n_fds n" "n_conns n3 = n_conns n"
    "n_bad n3 = n_bad n" "l_epoll (n_loop n3) = l_epoll (n_loop n)"
    using listener_cycle[of p fd n2 n] assms(1) by blast
  then show ?thesis by (simp add: nv_udp_server_stop_def s)
qed

lemma client_released:
  assumes "n_conns n p = None" "conn_create p zero f fd ok n = (0, n1)" "\<And>c. socketfd (f fd c) = fd"
  shows "\<exists>n2. client_release p closed n1 = Some n2 \<and> n_fds n2 = n_fds n \<and> n_conns n2 = n_conns n \<and> n_bad n2 = n_bad n"
proof -
  have p: "p \<noteq> NULL" "fd \<ge> 0" "n1 = conn_alloc p (f fd zero) (n\<lparr>n_fds := fd # n_fds n\<rparr>)" using conn_create_ok[OF assms(2)] by auto
  have "n_conns n1 p = Some (f fd zero)" "n_fds n1 = fd # n_fds n" "n_bad n1 = n_bad n" "n_conns n1 = (n_conns n)(p \<mapsto> f fd zero)"
    by (simp_all add: p(3) conn_alloc_def)
  note n1 = this closed_listener[OF this(1) _ p(1) this(2), of "\<lambda>c. c\<lparr>socketfd := -1\<rparr>"]
  show ?thesis using n1 p(1,2) assms(1,3)
    by (simp add: client_release_def conn_free_def conn_upd_def[of p closed] store_upd_def store_free_def fun_upd_idem)
qed

lemma nv_tcp_client_leaves_nothing:
  assumes "n_conns n p = None" "nv_tcp_client_connect p fd pton_ok connect_ok dup port cl n = (0, cl', n1)"
  shows "\<exists>cl2 n2. nv_tcp_client_disconnect cl' n1 = Some (0, cl2, n2) \<and> c_connection cl2 = NULL \<and> n_fds n2 = n_fds n \<and>
    n_conns n2 = n_conns n \<and> n_bad n2 = n_bad n"
proof -
  let ?f = "\<lambda>fd c. c\<lparr>socketfd := fd, tcp_state := NV_TCP_CONNECTED\<rparr>"
  have "conn_create p zero_tcp ?f fd (pton_ok \<and> connect_ok) n = (0, n1)" "c_connection cl' = p"
    using assms(2) by (auto simp: nv_tcp_client_connect_def Let_def split: prod.splits if_splits)
  with client_released[OF assms(1) this(1), of "\<lambda>c. c\<lparr>tcp_state := NV_TCP_CLOSED\<rparr>"] show ?thesis
    by (auto simp: nv_tcp_client_disconnect_def)
qed

lemma nv_udp_client_leaves_nothing:
  assumes "n_conns n p = None" "nv_udp_client_connect p fd pton_ok dup ip port cl n = (0, cl', n1)"
  shows "\<exists>cl2 n2. nv_udp_client_disconnect cl' n1 = Some (0, cl2, n2) \<and> c_connection cl2 = NULL \<and> n_fds n2 = n_fds n \<and>
    n_conns n2 = n_conns n \<and> n_bad n2 = n_bad n"
proof -
  let ?f = "\<lambda>fd c. c\<lparr>socketfd := fd, dest_addr := Some (ip, port), udp_state := NV_UDP_CONNECTED\<rparr>"
  have "conn_create p zero_udp ?f fd pton_ok n = (0, n1)" "c_connection cl' = p"
    using assms(2) by (auto simp: nv_udp_client_connect_def Let_def split: prod.splits if_splits)
  with client_released[OF assms(1) this(1), of "\<lambda>c. c\<lparr>udp_state := NV_UDP_CLOSED\<rparr>"] show ?thesis
    by (auto simp: nv_udp_client_disconnect_def)
qed

text \<open>A connection that could not be made is not forgotten: when the attempt fails after the memory has been
  allocated, the memory is released but the client keeps the pointer, and disconnecting reads freed memory.\<close>

theorem nv_tcp_failed_connect_dangles:
  assumes "n_conns n p = None" "p \<noteq> NULL" "nv_tcp_client_connect p fd pton_ok connect_ok dup port cl n = (-1, cl', n1)"
  shows "nv_tcp_client_disconnect cl' n1 = None"
proof -
  obtain rc m where rc: "conn_create p zero_tcp (\<lambda>fd c. c\<lparr>socketfd := fd, tcp_state := NV_TCP_CONNECTED\<rparr>) fd (pton_ok \<and> connect_ok) n = (rc, m)"
    by force
  have "rc \<noteq> 0" "m = n1" "c_connection cl' = p" using assms(3) rc by (auto simp: nv_tcp_client_connect_def Let_def split: if_splits)
  then show ?thesis using conn_create_fail[OF rc _ assms(1)] assms(1,2) by (simp add: nv_tcp_client_disconnect_def client_release_def)
qed

lemma nv_tcp_failed_bind_closes_twice:
  assumes "distinct (n_fds n)" "socketfd tcp = fd" "fd \<in> set (n_fds n)" "nv_tcp_bind False port tcp n = (rc, tcp', n')" "fd \<noteq> -1"
  shows "\<exists>t m. nv_tcp_close tcp' n' = (0, t, m) \<and> n_bad m = n_bad n @ [fd]"
  using assms by (auto simp: nv_tcp_bind_def nv_tcp_close_def kernel_close_def)

text \<open>A started TCP server never accepts a connection: the event of its listener is registered without a handler,
  so however often the kernel reports the listener ready, no handler is called and nothing is accepted.\<close>

theorem nv_tcp_server_never_accepts:
  assumes "nv_tcp_server_create p fd bind_ok port n = (0, s, n1)" "nv_tcp_server_start True True s n1 = Some (0, n2)"
    and "\<forall>x \<in> set ready. snd x = p"
  shows "\<exists>l. nv_loop_process_io_events call now ready (n_loop n2) = Some l \<and> l_calls l = l_calls (n_loop n) \<and> l_epoll l = l_epoll (n_loop n2)"
proof -
  have idle: "\<exists>l'. nv_loop_process_io_events call now ready l = Some l' \<and> l_calls l' = l_calls l \<and> l_epoll l' = l_epoll l"
    if "\<forall>x \<in> set ready. snd x = p" "p \<noteq> NULL" "map_option ev_handler (l_mem l p) = Some None" for l
    using that
  proof (induction ready arbitrary: l)
    case Nil
    then show ?case by simp
  next
    case (Cons x ready)
    then obtain e where "l_mem l p = Some e" "ev_handler e = None" "x = (fst x, p)" by (cases x) auto
    then show ?case using Cons.IH[of "count_event l"] Cons.IH[of l] Cons.prems
      by (cases x) (auto simp: nv_event_trigger_def count_event_def)
  qed
  have "conn_create p zero_tcp (\<lambda>fd c. c\<lparr>socketfd := fd\<rparr>) fd bind_ok n = (0, n1)" and s: "ts_listener s = p"
    using assms(1) by (auto simp: nv_tcp_server_create_def Let_def split: prod.splits)
  from conn_create_ok[OF this(1)] have p: "p \<noteq> NULL" "fd \<ge> 0" "n1 = conn_alloc p (zero_tcp\<lparr>socketfd := fd\<rparr>) (n\<lparr>n_fds := fd # n_fds n\<rparr>)" by auto
  have "map_option ev_handler (l_mem (n_loop n2) p) = Some None \<and> l_calls (n_loop n2) = l_calls (n_loop n)"
    using assms(2) p s
    by (auto simp: nv_tcp_server_start_def conn_alloc_def conn_upd_def store_upd_def listener_register_def nv_loop_add_event_def ev_upd_live zero_event_def Let_def
        split: if_splits option.splits)
  then show ?thesis using idle[OF assms(3) p(1), of "n_loop n2"] by auto
qed

section \<open>Examples\<close>

definition sample_net :: "(nv_tcp_t, nat) net" where
  "sample_net = \<lparr>n_fds = [3, 0], n_bad = [], n_conns = Map.empty,
     n_loop = \<lparr>l_epoll_fd = 3, l_max_events = 64, l_state = NV_LOOP_INIT, l_epoll = [(0, 1, 40)], l_timers_head = NULL, l_next_timeout = 0,
       l_idle_head = NULL, l_signals = [],
       l_stats = \<lparr>events_processed = 0, timers_processed = 0, signals_processed = 0, idle_events_processed = 0\<rparr>,
       l_signalfd_fd = -1, l_signalfd_ev = NULL, l_wakeup_inited = True, l_wakeup_bytes = 0, l_mem = Map.empty, l_calls = []\<rparr>\<rparr>"

lemma sample_server:
  "\<exists>s n1 n2. nv_tcp_server_create 48 5 True 80 sample_net = (0, s, n1) \<and> nv_tcp_server_start True True s n1 = Some (0, n2)"
  by (simp add: nv_tcp_server_create_def conn_create_def kernel_socket_def sample_net_def Let_def zero_tcp_def zero_tcp_server_def
      nv_tcp_server_start_def conn_alloc_def conn_upd_def store_upd_def listener_register_def nv_loop_add_event_def ev_upd_live)


theorem nv_tcp_server_never_accepts_witness:
  "\<exists>s n1 n2 l. nv_tcp_server_create 48 5 True 80 sample_net = (0, s, n1) \<and> nv_tcp_server_start True True s n1 = Some (0, n2) \<and>
     nv_loop_process_io_events (\<lambda>_ _. Some) 0 [(1, 48), (1, 48)] (n_loop n2) = Some l \<and> l_calls l = []"
proof -
  obtain s n1 n2 where s: "nv_tcp_server_create 48 5 True 80 sample_net = (0, s, n1)" "nv_tcp_server_start True True s n1 = Some (0, n2)"
    using sample_server by blast
  have "l_calls (n_loop sample_net) = []" by (simp add: sample_net_def)
  with nv_tcp_server_never_accepts[OF s, of "[(1, 48), (1, 48)]" "\<lambda>_ _. Some" 0] s show ?thesis by auto
qed

theorem nv_tcp_failed_connect_dangles_witness:
  "\<exists>cl n. nv_tcp_client_connect 48 5 True False None 80 nv_tcp_client_create sample_net = (-1, cl, n) \<and> nv_tcp_client_disconnect cl n = None"
proof -
  obtain cl n where c: "nv_tcp_client_connect 48 5 True False None 80 nv_tcp_client_create sample_net = (-1, cl, n)"
    by (simp add: nv_tcp_client_connect_def conn_create_def kernel_socket_def sample_net_def Let_def)
  have "n_conns sample_net 48 = None" by (simp add: sample_net_def)
  with nv_tcp_failed_connect_dangles[OF this _ c] c show ?thesis by auto
qed

end
