(* ===== verification/Nv_TimerTask.thy ===== *)
theory Nv_TimerTask
  imports Nv_Interfaces
begin

text \<open>
  Timers on descriptors (\<open>base/sys/nv_timer_task.c\<close>): the table of timers of a manager, the descriptors the kernel
  has open for it and its epoll set, which holds for each descriptor the index of its slot.  What the system calls
  return is an argument.  Callbacks are values of any type; \<open>call\<close> says what they do to the manager, as a
  callback may create and cancel timers.
\<close>

section \<open>State\<close>

datatype nv_timer_kind_t = NV_TIMER_ONESHOT | NV_TIMER_PERIODIC

record 'h nv_timer_t =
  tm_fd :: int
  tm_callback :: "'h option"
  tm_kind :: nv_timer_kind_t

record 'h nv_timer_manager_t =
  tm_timers :: "'h nv_timer_t list"
  tm_size :: nat
  tm_running :: bool
  tm_epoll :: "(int \<times> nat) list"
  tm_open :: "int list"
  tm_calls :: "'h list"

definition zero_timer :: "'h nv_timer_t" where
  "zero_timer = \<lparr>tm_fd = 0, tm_callback = None, tm_kind = NV_TIMER_ONESHOT\<rparr>"

definition kernel_timerfd_close :: "int \<Rightarrow> 'h nv_timer_manager_t \<Rightarrow> 'h nv_timer_manager_t" where
  "kernel_timerfd_close fd m = m\<lparr>tm_open := remove1 fd (tm_open m), tm_epoll := filter (\<lambda>x. fst x \<noteq> fd) (tm_epoll m)\<rparr>"

definition set_timer :: "nat \<Rightarrow> 'h nv_timer_t \<Rightarrow> 'h nv_timer_manager_t \<Rightarrow> 'h nv_timer_manager_t" where
  "set_timer i t m = m\<lparr>tm_timers := (tm_timers m)[i := t]\<rparr>"

section \<open>Operations\<close>

text \<open>\<open>None\<close>: one of the two allocations or \<open>epoll_create1\<close> fails.\<close>

definition nv_timer_manager_init :: "bool \<Rightarrow> bool \<Rightarrow> bool \<Rightarrow> nat \<Rightarrow> 'h nv_timer_manager_t option" where
  "nv_timer_manager_init malloc_ok epoll_ok calloc_ok capacity =
     (if malloc_ok \<and> epoll_ok \<and> calloc_ok
      then Some \<lparr>tm_timers = replicate capacity zero_timer, tm_size = 0, tm_running = False, tm_epoll = [], tm_open = [], tm_calls = []\<rparr>
      else None)"

fun free_from :: "nat \<Rightarrow> 'h nv_timer_t list \<Rightarrow> nat option" where
  "free_from i [] = None"
| "free_from i (t # ts) = (if tm_fd t \<le> 0 then Some i else free_from (Suc i) ts)"

definition nv_timer_manager_index_free :: "'h nv_timer_manager_t \<Rightarrow> nat option" where
  "nv_timer_manager_index_free m = free_from 0 (tm_timers m)"

text \<open>\<open>fd\<close> is what \<open>timerfd_create\<close> returns, a descriptor that is not open; \<open>periodic\<close> tells whether
  an interval is given.\<close>

definition nv_timer_manager_create_timer ::
    "int \<Rightarrow> bool \<Rightarrow> bool \<Rightarrow> bool \<Rightarrow> 'h \<Rightarrow> 'h nv_timer_manager_t \<Rightarrow> int \<times> 'h nv_timer_manager_t" where
  "nv_timer_manager_create_timer fd arm_ok ctl_ok periodic callback m =
     (case nv_timer_manager_index_free m of None \<Rightarrow> (-1, m)
      | Some idx \<Rightarrow>
         if fd < 0 \<or> fd \<in> set (tm_open m) then (-1, m)
         else if \<not> arm_ok then (-1, m)
         else
           (let t = \<lparr>tm_fd = fd, tm_callback = Some callback, tm_kind = if periodic then NV_TIMER_PERIODIC else NV_TIMER_ONESHOT\<rparr>;
                m = set_timer idx t (m\<lparr>tm_open := fd # tm_open m\<rparr>)
            in if \<not> ctl_ok then (-1, set_timer idx (t\<lparr>tm_fd := -1\<rparr>) (kernel_timerfd_close fd m))
               else (fd, m\<lparr>tm_epoll := (fd, idx) # tm_epoll m, tm_size := max (tm_size m) (Suc idx)\<rparr>)))"

fun index_of_fd :: "int \<Rightarrow> nat \<Rightarrow> 'h nv_timer_t list \<Rightarrow> nat option" where
  "index_of_fd fd i [] = None"
| "index_of_fd fd i (t # ts) = (if tm_fd t = fd then Some i else index_of_fd fd (Suc i) ts)"

definition nv_timer_manager_cancel :: "int \<Rightarrow> 'h nv_timer_manager_t \<Rightarrow> int \<times> 'h nv_timer_manager_t" where
  "nv_timer_manager_cancel fd m =
     (if fd \<le> 0 then (-1, m)
      else case index_of_fd fd 0 (tm_timers m) of None \<Rightarrow> (-1, m)
        | Some i \<Rightarrow> (0, set_timer i \<lparr>tm_fd = -1, tm_callback = None, tm_kind = NV_TIMER_ONESHOT\<rparr> (kernel_timerfd_close fd m)))"

text \<open>\<open>rc\<close> is the result of arming the timer again.\<close>

definition nv_timer_manager_modify :: "int \<Rightarrow> int \<Rightarrow> bool \<Rightarrow> 'h nv_timer_manager_t \<Rightarrow> int \<times> 'h nv_timer_manager_t" where
  "nv_timer_manager_modify fd rc periodic m =
     (if fd \<le> 0 then (-1, m)
      else case index_of_fd fd 0 (tm_timers m) of None \<Rightarrow> (-1, m)
        | Some i \<Rightarrow>
            (rc, if rc = 0
                 then set_timer i ((tm_timers m ! i)\<lparr>tm_kind := if periodic then NV_TIMER_PERIODIC else NV_TIMER_ONESHOT\<rparr>) m
                 else m))"

text \<open>The events that \<open>epoll_wait\<close> returns: the index stored with each, and whether reading its descriptor succeeds.\<close>

definition process_event :: "('h \<Rightarrow> 'h nv_timer_manager_t \<Rightarrow> 'h nv_timer_manager_t) \<Rightarrow> nat \<times> bool \<Rightarrow> 'h nv_timer_manager_t \<Rightarrow> 'h nv_timer_manager_t" where
  "process_event call ev m =
     (if fst ev \<ge> length (tm_timers m) \<or> tm_fd (tm_timers m ! fst ev) \<le> 0 then m
      else
        (let t = tm_timers m ! fst ev in
         if \<not> snd ev then m
         else
           (let m = (case tm_callback t of None \<Rightarrow> m | Some h \<Rightarrow> call h (m\<lparr>tm_calls := tm_calls m @ [h]\<rparr>))
            in if tm_kind t = NV_TIMER_ONESHOT then snd (nv_timer_manager_cancel (tm_fd t) m) else m)))"

text \<open>\<open>None\<close> is a failing wait, and \<open>Some None\<close> one that a signal interrupts.\<close>

definition nv_timer_manager_process_once ::
    "('h \<Rightarrow> 'h nv_timer_manager_t \<Rightarrow> 'h nv_timer_manager_t) \<Rightarrow> (nat \<times> bool) list option option \<Rightarrow> 'h nv_timer_manager_t \<Rightarrow>
     int \<times> 'h nv_timer_manager_t" where
  "nv_timer_manager_process_once call evs m =
     (case evs of None \<Rightarrow> (-1, m) | Some None \<Rightarrow> (0, m) | Some (Some evs) \<Rightarrow> (int (length evs), fold (process_event call) evs m))"

text \<open>The loop over the successive waits; \<open>None\<close> when it still runs at their end.\<close>

fun run_loop :: "('h \<Rightarrow> 'h nv_timer_manager_t \<Rightarrow> 'h nv_timer_manager_t) \<Rightarrow> (nat \<times> bool) list option option list \<Rightarrow>
    'h nv_timer_manager_t \<Rightarrow> (int \<times> 'h nv_timer_manager_t) option" where
  "run_loop call [] m = (if tm_running m then None else Some (0, m))"
| "run_loop call (w # ws) m =
     (if tm_running m
      then (case nv_timer_manager_process_once call w m of (rc, m) \<Rightarrow> if rc < 0 then Some (rc, m) else run_loop call ws m)
      else Some (0, m))"

definition nv_timer_manager_run :: "('h \<Rightarrow> 'h nv_timer_manager_t \<Rightarrow> 'h nv_timer_manager_t) \<Rightarrow> (nat \<times> bool) list option option list \<Rightarrow>
    'h nv_timer_manager_t \<Rightarrow> (int \<times> 'h nv_timer_manager_t) option" where
  "nv_timer_manager_run call ws m = run_loop call ws (m\<lparr>tm_running := True\<rparr>)"

definition nv_timer_manager_stop :: "'h nv_timer_manager_t \<Rightarrow> 'h nv_timer_manager_t" where
  "nv_timer_manager_stop m = m\<lparr>tm_running := False\<rparr>"

text \<open>Every slot with a descriptor is closed before the manager is released; the result is what stays open.\<close>

definition nv_timer_manager_destroy :: "'h nv_timer_manager_t \<Rightarrow> int list" where
  "nv_timer_manager_destroy m = fold (\<lambda>t fds. if tm_fd t > 0 then remove1 (tm_fd t) fds else fds) (tm_timers m) (tm_open m)"

section \<open>Slots, descriptors and registrations agree\<close>

definition live_timers :: "'h nv_timer_t list \<Rightarrow> (int \<times> nat) set" where
  "live_timers ts = {(fd, i). i < length ts \<and> fd = tm_fd (ts ! i) \<and> fd > 0}"

definition tm_inv :: "'h nv_timer_manager_t \<Rightarrow> bool" where
  "tm_inv m \<longleftrightarrow> set (tm_epoll m) = live_timers (tm_timers m) \<and> inj_on fst (live_timers (tm_timers m)) \<and>
     set (tm_open m) = fst ` live_timers (tm_timers m) \<and> distinct (tm_open m)"

lemma live_update:
  assumes "i < length ts"
  shows "live_timers (ts[i := t]) = {x \<in> live_timers ts. snd x \<noteq> i} \<union> (if tm_fd t > 0 then {(tm_fd t, i)} else {})"
  using assms by (auto simp: live_timers_def nth_list_update)

lemma free_from_spec: "free_from k ts = Some i \<Longrightarrow> k \<le> i \<and> i - k < length ts \<and> tm_fd (ts ! (i - k)) \<le> 0"
  by (induction ts arbitrary: k) (fastforce simp: nth_Cons' split: if_splits)+

lemma index_of_fd_spec: "index_of_fd fd k ts = Some i \<Longrightarrow> k \<le> i \<and> i - k < length ts \<and> tm_fd (ts ! (i - k)) = fd"
  by (induction ts arbitrary: k) (fastforce simp: nth_Cons' split: if_splits)+

lemma index_of_fd_None: "index_of_fd fd k ts = None \<longleftrightarrow> (\<forall>t \<in> set ts. tm_fd t \<noteq> fd)"
  by (induction ts arbitrary: k) auto

lemma cancel_inv:
  assumes "tm_inv m"
  shows "tm_inv (snd (nv_timer_manager_cancel fd m))"
proof (cases "fd \<le> 0 \<or> index_of_fd fd 0 (tm_timers m) = None")
  case True
  then show ?thesis using assms by (auto simp: nv_timer_manager_cancel_def)
next
  case False
  then obtain i where i: "index_of_fd fd 0 (tm_timers m) = Some i" by auto
  define L where "L = live_timers (tm_timers m)"
  have ii: "i < length (tm_timers m)" "tm_fd (tm_timers m ! i) = fd" "fd > 0" using index_of_fd_spec[OF i] False by auto
  have inv: "set (tm_epoll m) = L" "inj_on fst L" "set (tm_open m) = fst ` L" "distinct (tm_open m)" using assms by (auto simp: tm_inv_def L_def)
  have mem: "(fd, i) \<in> L" using ii by (simp add: L_def live_timers_def)
  have only: "(fd, j) \<in> L \<longleftrightarrow> j = i" for j using inj_onD[OF inv(2), of "(fd, j)" "(fd, i)"] mem by auto
  have idx: "(f, i) \<in> L \<longleftrightarrow> f = fd" for f using ii by (auto simp: L_def live_timers_def)
  have L': "{x \<in> L. snd x \<noteq> i} = L - {(fd, i)}" "{x \<in> L. fst x \<noteq> fd} = L - {(fd, i)}" using only idx by (auto simp: set_eq_iff)
  have "f \<in> fst ` (L - {(fd, i)}) \<longleftrightarrow> f \<in> fst ` L - {fd}" for f using only by (force simp: image_iff)
  then have "fst ` (L - {(fd, i)}) = fst ` L - {fd}" by blast
  then show ?thesis using i False inv L'
    by (simp add: tm_inv_def nv_timer_manager_cancel_def set_timer_def kernel_timerfd_close_def live_update[OF ii(1)] L_def[symmetric]
        inj_on_diff set_filter)
qed

lemma create_inv:
  assumes "tm_inv m" "fd \<noteq> 0"
  shows "tm_inv (snd (nv_timer_manager_create_timer fd arm_ok ctl_ok periodic h m))"
proof (cases "nv_timer_manager_index_free m = None \<or> fd < 0 \<or> fd \<in> set (tm_open m) \<or> \<not> arm_ok")
  case True
  then show ?thesis using assms(1) by (auto simp: nv_timer_manager_create_timer_def split: option.split)
next
  case False
  then obtain i where i: "nv_timer_manager_index_free m = Some i" by auto
  define L where "L = live_timers (tm_timers m)"
  have ii: "i < length (tm_timers m)" "tm_fd (tm_timers m ! i) \<le> 0"
    using free_from_spec[of 0 "tm_timers m" i] i by (auto simp: nv_timer_manager_index_free_def)
  have inv: "set (tm_epoll m) = L" "inj_on fst L" "set (tm_open m) = fst ` L" "distinct (tm_open m)" using assms(1) by (auto simp: tm_inv_def L_def)
  have L': "{x \<in> L. snd x \<noteq> i} = L" using ii by (auto simp: L_def live_timers_def)
  have new: "fd > 0" "fd \<notin> fst ` L" using False assms(2) inv(3) by auto
  then have keep: "filter (\<lambda>x. fst x \<noteq> fd) (tm_epoll m) = tm_epoll m" using inv(1) by (auto simp: filter_id_conv)
  show ?thesis
  proof (cases ctl_ok)
    case True
    have "inj_on fst (insert (fd, i) L)" using inv(2) new(2) by (auto simp: inj_on_def image_iff)
    then show ?thesis using True False i inv new
      by (simp add: tm_inv_def nv_timer_manager_create_timer_def set_timer_def live_update[OF ii(1)] L_def[symmetric] L' Let_def)
  next
    case False
    then show ?thesis using \<open>\<not> (_ \<or> _)\<close> i inv keep new
      by (simp add: tm_inv_def nv_timer_manager_create_timer_def set_timer_def kernel_timerfd_close_def live_update ii(1) L_def[symmetric] L' Let_def)
  qed
qed

lemma modify_inv: "tm_inv m \<Longrightarrow> tm_inv (snd (nv_timer_manager_modify fd rc periodic m))"
proof -
  assume inv: "tm_inv m"
  have "live_timers ((tm_timers m)[i := (tm_timers m ! i)\<lparr>tm_kind := k\<rparr>]) = live_timers (tm_timers m)" for i k
    by (cases "i < length (tm_timers m)") (auto simp: live_timers_def nth_list_update)
  then show ?thesis using inv by (simp add: nv_timer_manager_modify_def set_timer_def tm_inv_def split: option.split)
qed

lemma init_inv_tm: "nv_timer_manager_init a b c n = Some m \<Longrightarrow> tm_inv m"
proof -
  assume "nv_timer_manager_init a b c n = Some m"
  moreover have "live_timers (replicate n zero_timer) = {}" by (auto simp: live_timers_def zero_timer_def)
  ultimately show "tm_inv m" by (auto simp: nv_timer_manager_init_def tm_inv_def split: if_splits)
qed

section \<open>Runs of a manager\<close>

text \<open>What a client and a callback can ask for; \<open>prog\<close> gives the requests of each callback.\<close>

datatype 'h timer_request = Create_timer int bool bool bool 'h | Cancel_timer int | Modify_timer int int bool

fun serve :: "'h timer_request \<Rightarrow> 'h nv_timer_manager_t \<Rightarrow> 'h nv_timer_manager_t" where
  "serve (Create_timer fd arm_ok ctl_ok periodic h) m = snd (nv_timer_manager_create_timer fd arm_ok ctl_ok periodic h m)"
| "serve (Cancel_timer fd) m = snd (nv_timer_manager_cancel fd m)"
| "serve (Modify_timer fd rc periodic) m = snd (nv_timer_manager_modify fd rc periodic m)"

fun positive :: "'h timer_request \<Rightarrow> bool" where
  "positive (Create_timer fd arm_ok ctl_ok periodic h) \<longleftrightarrow> fd \<noteq> 0"
| "positive _ \<longleftrightarrow> True"

definition run_callback :: "('h \<Rightarrow> 'h timer_request list) \<Rightarrow> 'h \<Rightarrow> 'h nv_timer_manager_t \<Rightarrow> 'h nv_timer_manager_t" where
  "run_callback prog h m = fold serve (prog h) m"

datatype 'h timer_event = Request "'h timer_request" | Wait "(nat \<times> bool) list option option"

fun timer_step :: "('h \<Rightarrow> 'h timer_request list) \<Rightarrow> 'h timer_event \<Rightarrow> 'h nv_timer_manager_t \<Rightarrow> 'h nv_timer_manager_t" where
  "timer_step prog (Request r) m = serve r m"
| "timer_step prog (Wait evs) m = snd (nv_timer_manager_process_once (run_callback prog) evs m)"

lemma serve_inv: "tm_inv m \<Longrightarrow> positive r \<Longrightarrow> tm_inv (serve r m)"
  by (cases r) (simp_all add: create_inv cancel_inv modify_inv)

lemma serves_inv: "tm_inv m \<Longrightarrow> \<forall>r \<in> set rs. positive r \<Longrightarrow> tm_inv (fold serve rs m)"
  by (induction rs arbitrary: m) (auto simp: serve_inv)

lemma calls_inv: "tm_inv (m\<lparr>tm_calls := cs\<rparr>) = tm_inv m"
  by (simp add: tm_inv_def)

lemma event_inv:
  assumes "tm_inv m" "\<forall>h. \<forall>r \<in> set (prog h). positive r"
  shows "tm_inv (process_event (run_callback prog) ev m)"
  using assms by (simp add: process_event_def Let_def run_callback_def cancel_inv serves_inv calls_inv split: option.split)

lemma step_inv_tm:
  assumes "tm_inv m" "\<forall>h. \<forall>r \<in> set (prog h). positive r" "\<forall>r. st = Request r \<longrightarrow> positive r"
  shows "tm_inv (timer_step prog st m)"
proof (cases st)
  case (Request r)
  then show ?thesis using assms by (simp add: serve_inv)
next
  case (Wait evs)
  have "tm_inv (fold (process_event (run_callback prog)) es m)" for es
    using assms(1) by (induction es arbitrary: m) (auto intro: event_inv[OF _ assms(2)])
  then show ?thesis using Wait assms(1) by (simp add: nv_timer_manager_process_once_def split: option.split)
qed

lemma closing_all:
  "distinct fds \<Longrightarrow> set (fold (\<lambda>t fds. if tm_fd t > 0 then remove1 (tm_fd t) fds else fds) ts fds) = set fds - {tm_fd t |t. t \<in> set ts \<and> tm_fd t > 0}"
proof (induction ts arbitrary: fds)
  case Nil
  then show ?case by simp
next
  case (Cons t ts)
  then show ?case using Cons.IH[of "remove1 (tm_fd t) fds"] Cons.IH[of fds] by auto
qed

lemma destroy_closes: "tm_inv m \<Longrightarrow> nv_timer_manager_destroy m = []"
proof -
  assume inv: "tm_inv m"
  have "fst ` live_timers (tm_timers m) = {tm_fd t |t. t \<in> set (tm_timers m) \<and> tm_fd t > 0}"
    by (force simp: live_timers_def in_set_conv_nth image_iff)
  then have "set (nv_timer_manager_destroy m) = {}"
    using inv closing_all[of "tm_open m" "tm_timers m"] by (simp add: tm_inv_def nv_timer_manager_destroy_def)
  then show ?thesis by simp
qed


section \<open>One round of events\<close>

lemma index_of_live:
  assumes "tm_inv m" "i < length (tm_timers m)" "tm_fd (tm_timers m ! i) > 0"
  shows "index_of_fd (tm_fd (tm_timers m ! i)) 0 (tm_timers m) = Some i"
proof -
  let ?fd = "tm_fd (tm_timers m ! i)"
  have "index_of_fd ?fd 0 (tm_timers m) \<noteq> None" using assms(2) by (auto simp: index_of_fd_None)
  then obtain j where j: "index_of_fd ?fd 0 (tm_timers m) = Some j" by auto
  then have "(?fd, j) \<in> live_timers (tm_timers m)" "(?fd, i) \<in> live_timers (tm_timers m)"
    using index_of_fd_spec[OF j] assms(2,3) by (auto simp: live_timers_def)
  then show ?thesis using j assms(1) inj_onD[of fst "live_timers (tm_timers m)" "(?fd, j)" "(?fd, i)"] by (auto simp: tm_inv_def)
qed

definition dead_timer :: "'h nv_timer_t" where
  "dead_timer = \<lparr>tm_fd = -1, tm_callback = None, tm_kind = NV_TIMER_ONESHOT\<rparr>"

definition after_event :: "'h nv_timer_t \<Rightarrow> 'h nv_timer_t" where
  "after_event t = (if tm_kind t = NV_TIMER_ONESHOT then dead_timer else t)"

lemma quiet_event:
  assumes "tm_inv m" "i < length (tm_timers m)" "tm_fd (tm_timers m ! i) > 0" "tm_callback (tm_timers m ! i) = Some h"
  shows "tm_inv (process_event (\<lambda>_ m. m) (i, True) m) \<and> tm_calls (process_event (\<lambda>_ m. m) (i, True) m) = tm_calls m @ [h] \<and>
    tm_timers (process_event (\<lambda>_ m. m) (i, True) m) = (tm_timers m)[i := after_event (tm_timers m ! i)]"
proof -
  let ?m = "m\<lparr>tm_calls := tm_calls m @ [h]\<rparr>"
  have inv: "tm_inv ?m" using assms(1) by (simp add: calls_inv)
  have "index_of_fd (tm_fd (tm_timers m ! i)) 0 (tm_timers ?m) = Some i" using index_of_live[OF assms(1-3)] by simp
  then show ?thesis using assms(2-4) cancel_inv[OF inv, of "tm_fd (tm_timers m ! i)"] inv
    by (auto simp: process_event_def Let_def nv_timer_manager_cancel_def set_timer_def kernel_timerfd_close_def after_event_def dead_timer_def
        split: if_splits)
qed

text \<open>One round calls every timer whose event is reported, once and in the order of the reports, when the callbacks
  leave the manager alone; afterwards the one-shot timers among them are gone, and every other slot is as it was.\<close>

theorem nv_timer_manager_round:
  assumes "tm_inv m" "distinct is" "\<forall>i \<in> set is. i < length (tm_timers m) \<and> tm_fd (tm_timers m ! i) > 0 \<and> tm_callback (tm_timers m ! i) = Some (h i)"
    and "nv_timer_manager_process_once (\<lambda>_ m. m) (Some (Some (map (\<lambda>i. (i, True)) is))) m = (n, m')"
  shows "n = int (length is) \<and> tm_calls m' = tm_calls m @ map h is \<and>
    tm_timers m' = map (\<lambda>i. if i \<in> set is then after_event (tm_timers m ! i) else tm_timers m ! i) [0..<length (tm_timers m)]"
proof -
  have "tm_calls (fold (process_event (\<lambda>_ m. m)) (map (\<lambda>i. (i, True)) is) m) = tm_calls m @ map h is \<and>
    tm_timers (fold (process_event (\<lambda>_ m. m)) (map (\<lambda>i. (i, True)) is) m) =
      map (\<lambda>i. if i \<in> set is then after_event (tm_timers m ! i) else tm_timers m ! i) [0..<length (tm_timers m)]"
    using assms(1-3)
  proof (induction "is" arbitrary: m)
    case Nil
    then show ?case by (simp add: map_nth)
  next
    case (Cons i js)
    define m1 where "m1 = process_event (\<lambda>_ m. m) (i, True) m"
    have m1: "tm_inv m1" "tm_calls m1 = tm_calls m @ [h i]" "tm_timers m1 = (tm_timers m)[i := after_event (tm_timers m ! i)]"
      using quiet_event[OF Cons.prems(1), of i "h i"] Cons.prems(3) by (auto simp: m1_def)
    have "\<forall>j \<in> set js. j < length (tm_timers m1) \<and> tm_fd (tm_timers m1 ! j) > 0 \<and> tm_callback (tm_timers m1 ! j) = Some (h j)"
      using Cons.prems(2,3) by (auto simp: m1(3) nth_list_update)
    then have "tm_calls (fold (process_event (\<lambda>_ m. m)) (map (\<lambda>i. (i, True)) js) m1) = tm_calls m1 @ map h js \<and>
      tm_timers (fold (process_event (\<lambda>_ m. m)) (map (\<lambda>i. (i, True)) js) m1) =
        map (\<lambda>i. if i \<in> set js then after_event (tm_timers m1 ! i) else tm_timers m1 ! i) [0..<length (tm_timers m1)]"
      using Cons.IH[OF m1(1)] Cons.prems(2) by simp
    moreover have "i < length (tm_timers m)" using Cons.prems(3) by simp
    ultimately show ?case using Cons.prems(2) by (auto simp: m1_def[symmetric] m1(2,3) nth_list_update)
  qed
  then show ?thesis using assms(4) by (auto simp: nv_timer_manager_process_once_def)
qed

text \<open>A one-shot timer cannot replace itself from its callback: when the callback cancels it and creates a new timer,
  the kernel hands out the same descriptor again, and the round then cancels the new timer, because it
  remembers the timer to cancel by its descriptor.\<close>

theorem nv_timer_oneshot_replacement_cancelled:
  assumes "tm_inv m" "i < length (tm_timers m)" "tm_fd (tm_timers m ! i) = fd" "fd > 0" "tm_kind (tm_timers m ! i) = NV_TIMER_ONESHOT"
    and "tm_callback (tm_timers m ! i) = Some h" "prog h = [Cancel_timer fd, Create_timer fd True True periodic h']"
  shows "fd \<notin> set (tm_open (process_event (run_callback prog) (i, True) m))"
proof -
  define m1 where "m1 = run_callback prog h (m\<lparr>tm_calls := tm_calls m @ [h]\<rparr>)"
  have "tm_inv m1" using assms(1,4,7) by (auto simp: m1_def run_callback_def intro!: serve_inv create_inv cancel_inv simp: calls_inv)
  then have inv: "tm_inv (snd (nv_timer_manager_cancel fd m1))" by (rule cancel_inv)
  have "fd \<notin> set (tm_open (snd (nv_timer_manager_cancel fd m1)))"
  proof (cases "index_of_fd fd 0 (tm_timers m1)")
    case None
    then have "fd \<notin> set (tm_open m1)"
      using \<open>tm_inv m1\<close> by (auto simp: tm_inv_def live_timers_def index_of_fd_None)
    then show ?thesis using None by (simp add: nv_timer_manager_cancel_def)
  next
    case (Some j)
    have "distinct (tm_open m1)" using \<open>tm_inv m1\<close> by (simp add: tm_inv_def)
    then show ?thesis using Some assms(4) by (simp add: nv_timer_manager_cancel_def set_timer_def kernel_timerfd_close_def)
  qed
  then show ?thesis using assms(2-6) by (simp add: process_event_def Let_def m1_def)
qed

section \<open>Examples\<close>

definition sample_manager :: "nat nv_timer_manager_t" where
  "sample_manager = \<lparr>tm_timers = [\<lparr>tm_fd = 5, tm_callback = Some 1, tm_kind = NV_TIMER_ONESHOT\<rparr>, zero_timer,
       \<lparr>tm_fd = 7, tm_callback = Some 2, tm_kind = NV_TIMER_PERIODIC\<rparr>],
     tm_size = 3, tm_running = False, tm_epoll = [(7, 2), (5, 0)], tm_open = [7, 5], tm_calls = []\<rparr>"

lemma sample_manager_inv: "tm_inv sample_manager"
proof -
  have "live_timers (tm_timers sample_manager) = {(5, 0), (7, 2)}"
    by (auto simp: sample_manager_def live_timers_def zero_timer_def nth_Cons' split: if_splits)
  then show ?thesis unfolding tm_inv_def by (simp add: sample_manager_def insert_commute)
qed


theorem nv_timer_manager_round_witness:
  "\<exists>m. nv_timer_manager_process_once (\<lambda>_ m. m) (Some (Some (map (\<lambda>i. (i, True)) [2, 0]))) sample_manager = (2, m) \<and>
     tm_calls m = [2, 1] \<and> map tm_fd (tm_timers m) = [-1, 0, 7]"
proof -
  obtain n m where m: "nv_timer_manager_process_once (\<lambda>_ m. m) (Some (Some (map (\<lambda>i. (i, True)) [2, 0]))) sample_manager = (n, m)" by force
  show ?thesis using nv_timer_manager_round[OF sample_manager_inv, of "[2, 0]" "\<lambda>i. if i = 0 then 1 else 2" n m] m
    by (simp add: sample_manager_def after_event_def dead_timer_def zero_timer_def)
qed

theorem nv_timer_oneshot_replacement_cancelled_witness:
  "5 \<notin> set (tm_open (process_event (run_callback (\<lambda>h. [Cancel_timer 5, Create_timer 5 True True True h])) (0, True) sample_manager))"
  using nv_timer_oneshot_replacement_cancelled[OF sample_manager_inv, of 0 5 1 "\<lambda>h. [Cancel_timer 5, Create_timer 5 True True True h]" True 1]
  by (simp add: sample_manager_def)

end
