(* ===== verification/Nv_Typing.thy ===== *)
theory Nv_Typing
  imports Nv_Config
begin

text \<open>
  The types of the options.  The model keeps the C integers of \<open>nv_core_opts_t\<close> as mathematical
  integers; here is the range of each of them, and that parsing the command line, loading a file, and reloading keep
  every option in the range of its C type, whatever the command line and the files contain.
\<close>

definition int32 :: "int \<Rightarrow> bool" where "int32 v \<longleftrightarrow> - (2 ^ 31) \<le> v \<and> v < 2 ^ 31"
definition int64 :: "int \<Rightarrow> bool" where "int64 v \<longleftrightarrow> - (2 ^ 63) \<le> v \<and> v < 2 ^ 63"
definition flag :: "int \<Rightarrow> bool" where "flag v \<longleftrightarrow> v = 0 \<or> v = 1"

definition opts_typed :: "nv_core_opts_t \<Rightarrow> bool" where
  "opts_typed op \<longleftrightarrow>
     flag (daemon op) \<and> flag (foreground op) \<and> flag (use_syslog op) \<and> NV_LOG_LEVEL_DEBUG \<le> log_level op \<and> log_level op \<le> NV_LOG_LEVEL_FATAL \<and>
     int32 (worker_threads op) \<and> int32 (worker_connections op) \<and> int32 (worker_processes op) \<and> flag (worker_respawn op) \<and>
     int32 (heartbeat_interval_sec op) \<and> int32 (shutdown_timeout_sec op) \<and> (flag (systemd_notify op) \<or> systemd_notify op = NV_CORE_SYSTEMD_AUTO) \<and>
     int32 (max_open_files op) \<and> int64 (core_limit op) \<and> flag (telnet_enable op) \<and> int32 (telnet_port op) \<and>
     flag (loadlib_allow_absolute op) \<and> flag (watchdog_enable op) \<and> int32 (log_rotate_max_mb op) \<and> int32 (log_rotate_keep op) \<and>
     flag (metrics_publish op) \<and> flag (opt_help op) \<and> flag (opt_version op)"

lemma to_int_int32: "int32 (to_int v)"
  by (simp add: int32_def to_int_def)

lemma clamp_int64: "int64 (max (- (2 ^ 63)) (min (2 ^ 63 - 1) v))"
  by (simp add: int64_def)

lemma strtol_int64: "int64 (c_strtol s)"
  unfolding c_strtol_def Let_def by (rule clamp_int64)

lemma get_i_typed: "int32 d \<Longrightarrow> int32 (get_i i sec key d)"
  by (simp add: get_i_def nv_ini_get_int_def to_int_int32 split: option.split)

lemma get_64_typed: "int64 d \<Longrightarrow> int64 (nv_ini_get_int64 i sec key d)"
  by (simp add: nv_ini_get_int64_def strtol_int64 split: option.split)

lemma flag_simps: "flag 0" "flag 1"
  by (simp_all add: flag_def)

lemma int32_1: "int32 1"
  by (simp add: int32_def)

lemma get_b_typed: "flag d \<Longrightarrow> flag (get_b i sec key d)"
  by (simp add: get_b_def nv_ini_get_bool_def flag_simps split: option.split)

section \<open>The sections of the file\<close>

abbreviation typed :: "nv_core_ctx_t \<Rightarrow> bool" where "typed c \<equiv> opts_typed (opts c)"

lemma let_typed: "typed c \<Longrightarrow> (\<And>c. typed c \<Longrightarrow> typed (f c)) \<Longrightarrow> typed (Let c f)"
  by simp

lemma with_key_typed: "typed c \<Longrightarrow> (typed c \<Longrightarrow> typed (f c)) \<Longrightarrow> typed (with_key i sec key f c)"
  by (simp add: with_key_def)

lemma with_str_typed: "typed c \<Longrightarrow> (\<And>v. typed c \<Longrightarrow> typed (f v c)) \<Longrightarrow> typed (with_str i sec key f c)"
  by (simp add: with_str_def split: option.split)

lemmas typed_intros = let_typed with_key_typed with_str_typed
lemmas typed_simps = opts_typed_def get_i_typed get_b_typed get_64_typed flag_simps parse_log_level_range Let_def

lemma load_loadlib_typed: "typed c \<Longrightarrow> typed (load_loadlib sd i c)"
  by (simp add: load_loadlib_def typed_simps with_key_def split: option.split)

lemma load_worker_typed: "typed c \<Longrightarrow> typed (load_worker i c)"
  unfolding load_worker_def
  by (intro typed_intros) (simp_all add: typed_simps with_key_def)

lemma load_daemon_typed: "typed c \<Longrightarrow> typed (load_daemon sd i c)"
  unfolding load_daemon_def
  by (intro typed_intros) (simp_all add: typed_simps)

lemma load_cli_typed: "typed c \<Longrightarrow> typed (load_cli sd i c)"
  unfolding load_cli_def
  by (intro typed_intros) (simp_all add: typed_simps)

lemma load_watchdog_typed: "typed c \<Longrightarrow> typed (load_watchdog sd i c)"
  unfolding load_watchdog_def
  by (intro typed_intros) (simp_all add: typed_simps)

lemma load_log_typed: "typed c \<Longrightarrow> typed (load_log sd i c)"
  unfolding load_log_def
  by (intro typed_intros) (simp_all add: typed_simps split: option.split)

lemma load_metrics_typed: "typed c \<Longrightarrow> typed (load_metrics sd i c)"
  unfolding load_metrics_def
  by (intro typed_intros) (simp_all add: typed_simps)

lemma load_rotate_typed: "typed c \<Longrightarrow> typed (load_rotate i c)"
  unfolding load_rotate_def
  by (intro typed_intros) (simp_all add: typed_simps int32_1)

lemma load_main_typed: "typed c \<Longrightarrow> typed (load_main sd i c)"
  unfolding load_main_def
  by (intro typed_intros) (simp_all add: typed_simps split: option.split)

lemma load_config_typed:
  assumes "typed c"
  shows "typed (snd (nv_core_load_config sd alloc_ok contents c))"
proof -
  have rest: "typed c \<Longrightarrow> typed (load_rest sd i c)" for i c
    by (simp add: load_rest_def load_main_typed load_log_typed load_worker_typed load_daemon_typed load_cli_typed load_watchdog_typed
        load_rotate_typed load_metrics_typed)
  have parsed: "typed c \<Longrightarrow> typed (snd (nv_core_loadlibs_parse_config sd ok contents c))" for ok contents c
    using parse_config_frame[OF prod.collapse[symmetric], of sd ok contents c] by simp
  show ?thesis
  proof (cases "config_file (opts c) = None \<or> nv_ini_load (\<lambda>_. alloc_ok) contents = None")
    case True
    then show ?thesis using assms by (auto simp: nv_core_load_config_def Let_def)
  next
    case False
    then obtain i where i: "nv_ini_load (\<lambda>_. alloc_ok) contents = Some i" by auto
    define c1 where "c1 = load_loadlib sd (Some i) (c\<lparr>ini := Some i\<rparr>)"
    obtain rc c2 where c2: "nv_core_loadlibs_parse_config sd alloc_ok contents c1 = (rc, c2)" by force
    have "typed c1" using assms by (simp add: c1_def load_loadlib_typed)
    then have "typed c2" using parsed[of c1 alloc_ok contents] c2 by simp
    then show ?thesis using assms False i c2 rest by (simp add: nv_core_load_config_def Let_def c1_def)
  qed
qed

lemma reload_typed:
  assumes "typed c"
  shows "typed (snd (nv_core_reload_config sd alloc_ok contents c))"
proof -
  have "typed d \<Longrightarrow> typed (nv_core_opts_snapshot_restore (nv_core_opts_snapshot_save c) d)" for d
    using assms by (simp add: nv_core_opts_snapshot_restore_def nv_core_opts_snapshot_save_def opts_typed_def Let_def)
  then show ?thesis using load_config_typed[OF assms, of sd alloc_ok contents]
    by (auto simp: nv_core_reload_config_def Let_def split: prod.splits)
qed

lemma apply_opts_typed: "opts_typed op \<Longrightarrow> opts_typed (snd (apply_opts os op))"
proof (induction os arbitrary: op)
  case Nil
  then show ?case by simp
next
  case (Cons x os)
  have "opts_typed op'" if "apply_opt x op = Some op'" for op'
    using that Cons.prems by (auto simp: apply_opt_def opts_typed_def flag_simps split: prod.splits if_splits)
  then show ?case using Cons by (simp split: option.split)
qed

lemma default_typed: "opts_typed default_opts"
  by (simp add: opts_typed_def default_opts_def flag_simps int32_def int64_def log_levels)



end
