(* ===== verification/Nv_Buffer.thy ===== *)
theory Nv_Buffer
  imports Nv_Event Nv_Interfaces
begin

text \<open>
  The byte buffers of the TCP and UDP parts (\<open>event/nv_tcp.c\<close>, \<open>event/nv_udp.c\<close>) and their connection pools.  A
  buffer is its allocated memory with the number of bytes in use and the capacity, all sizes wrapping at 64 bits;
  \<open>junk\<close> is what freshly allocated memory holds, and \<open>None\<close> an access outside the allocated memory.  The two
  protocols have the same code; each is modelled, and both are shown to be byte streams.
\<close>

section \<open>Buffers\<close>

record nv_buffer_t =
  bf_data :: "byte list"
  bf_size :: nat
  bf_capacity :: nat

text \<open>\<open>malloc\<close> and \<open>realloc\<close> of \<open>n\<close> bytes; a grown block keeps its contents.\<close>

definition malloc_bytes :: "(nat \<Rightarrow> byte) \<Rightarrow> nat \<Rightarrow> byte list" where
  "malloc_bytes junk n = map junk [0..<n]"

definition realloc_bytes :: "(nat \<Rightarrow> byte) \<Rightarrow> nat \<Rightarrow> byte list \<Rightarrow> byte list" where
  "realloc_bytes junk n d = take n d @ map junk [length d..<n]"

text \<open>\<open>memcpy\<close> to offset \<open>i\<close> of a block.\<close>

definition copy_bytes :: "nat \<Rightarrow> byte list \<Rightarrow> byte list \<Rightarrow> byte list option" where
  "copy_bytes i xs d = (if i + length xs \<le> length d then Some (take i d @ xs @ drop (i + length xs) d) else None)"

definition nv_tcp_buffer_create :: "bool \<Rightarrow> (nat \<Rightarrow> byte) \<Rightarrow> nat \<Rightarrow> nv_buffer_t option" where
  "nv_tcp_buffer_create ok junk initial_size =
     (if \<not> ok then None else Some \<lparr>bf_data = malloc_bytes junk initial_size, bf_size = 0, bf_capacity = initial_size\<rparr>)"

definition grown_capacity :: "nat \<Rightarrow> nat \<Rightarrow> nat" where
  "grown_capacity cap need = (let new_capacity = ulong (cap * 2) in if new_capacity < need then need else new_capacity)"

definition ensure_room :: "bool \<Rightarrow> (nat \<Rightarrow> byte) \<Rightarrow> nat \<Rightarrow> nv_buffer_t \<Rightarrow> nv_buffer_t option" where
  "ensure_room ok junk need b =
     (if need > bf_capacity b
      then (let cap = grown_capacity (bf_capacity b) need in
            if \<not> ok then None else Some (b\<lparr>bf_data := realloc_bytes junk cap (bf_data b), bf_capacity := cap\<rparr>))
      else Some b)"

definition nv_tcp_buffer_write :: "bool \<Rightarrow> (nat \<Rightarrow> byte) \<Rightarrow> byte list \<Rightarrow> nv_buffer_t \<Rightarrow> (int \<times> nv_buffer_t) option" where
  "nv_tcp_buffer_write ok junk xs b =
     (let need = ulong (bf_size b + length xs) in
      case ensure_room ok junk need b of None \<Rightarrow> Some (-1, b)
      | Some b \<Rightarrow> map_option (\<lambda>d. (0, b\<lparr>bf_data := d, bf_size := need\<rparr>)) (copy_bytes (bf_size b) xs (bf_data b)))"

text \<open>The bytes read and the buffer after the move of the rest to the front; the returned \<open>int\<close> is their number.\<close>

definition nv_tcp_buffer_read :: "nat \<Rightarrow> nv_buffer_t \<Rightarrow> byte list \<times> nv_buffer_t" where
  "nv_tcp_buffer_read len b =
     (let len = min len (bf_size b); rest = bf_size b - len in
      if len = 0 then ([], b)
      else (take len (bf_data b),
            b\<lparr>bf_data := take rest (drop len (bf_data b)) @ drop rest (bf_data b), bf_size := rest\<rparr>))"

definition nv_udp_buffer_create :: "bool \<Rightarrow> (nat \<Rightarrow> byte) \<Rightarrow> nat \<Rightarrow> nv_buffer_t option" where
  "nv_udp_buffer_create ok junk initial_size =
     (if \<not> ok then None else Some \<lparr>bf_data = malloc_bytes junk initial_size, bf_size = 0, bf_capacity = initial_size\<rparr>)"

definition nv_udp_buffer_write :: "bool \<Rightarrow> (nat \<Rightarrow> byte) \<Rightarrow> byte list \<Rightarrow> nv_buffer_t \<Rightarrow> (int \<times> nv_buffer_t) option" where
  "nv_udp_buffer_write ok junk xs b =
     (let need = ulong (bf_size b + length xs) in
      case ensure_room ok junk need b of None \<Rightarrow> Some (-1, b)
      | Some b \<Rightarrow> map_option (\<lambda>d. (0, b\<lparr>bf_data := d, bf_size := need\<rparr>)) (copy_bytes (bf_size b) xs (bf_data b)))"

definition nv_udp_buffer_read :: "nat \<Rightarrow> nv_buffer_t \<Rightarrow> byte list \<times> nv_buffer_t" where
  "nv_udp_buffer_read len b =
     (let len = min len (bf_size b); rest = bf_size b - len in
      if len = 0 then ([], b)
      else (take len (bf_data b),
            b\<lparr>bf_data := take rest (drop len (bf_data b)) @ drop rest (bf_data b), bf_size := rest\<rparr>))"

section \<open>Connection pools\<close>

text \<open>\<open>p_live\<close> tells whether the array behind the pointer is allocated, \<open>pool_array\<close> is NULL or its contents.\<close>

record nv_conn_pool_t =
  pool_array :: "nat list option"
  p_live :: bool
  p_max :: int
  p_current :: int
  p_free :: int

definition nv_tcp_pool_create :: "nat list option \<Rightarrow> bool \<Rightarrow> int \<Rightarrow> nv_conn_pool_t \<Rightarrow> int \<times> nv_conn_pool_t" where
  "nv_tcp_pool_create mem mutex_ok max_conns pool =
     (let pool = pool\<lparr>pool_array := mem, p_live := (mem \<noteq> None)\<rparr> in
      if mem = None then (-1, pool)
      else
        (let pool = pool\<lparr>p_max := max_conns, p_current := 0, p_free := max_conns\<rparr> in
         if \<not> mutex_ok then (-1, pool\<lparr>p_live := False\<rparr>) else (0, pool)))"

definition nv_tcp_pool_destroy :: "nv_conn_pool_t \<Rightarrow> nv_conn_pool_t option" where
  "nv_tcp_pool_destroy pool =
     (if pool_array pool \<noteq> None \<and> \<not> p_live pool then None
      else Some (pool\<lparr>pool_array := None, p_live := False, p_max := 0, p_current := 0, p_free := 0\<rparr>))"

definition nv_tcp_pool_return_connection :: "nat \<Rightarrow> nv_conn_pool_t \<Rightarrow> (int \<times> nv_conn_pool_t) option" where
  "nv_tcp_pool_return_connection conn pool =
     (if conn = 0 then Some (-1, pool)
      else if p_free pool > 0
      then (case pool_array pool of None \<Rightarrow> None
            | Some xs \<Rightarrow>
               if p_live pool \<and> nat (p_free pool - 1) < length xs
               then Some (0, pool\<lparr>pool_array := Some (xs[nat (p_free pool - 1) := conn]), p_free := p_free pool - 1, p_current := p_current pool + 1\<rparr>)
               else None)
      else Some (-1, pool))"

definition nv_udp_pool_create :: "nat list option \<Rightarrow> bool \<Rightarrow> int \<Rightarrow> nv_conn_pool_t \<Rightarrow> int \<times> nv_conn_pool_t" where
  "nv_udp_pool_create mem mutex_ok max_conns pool =
     (let pool = pool\<lparr>pool_array := mem, p_live := (mem \<noteq> None)\<rparr> in
      if mem = None then (-1, pool)
      else
        (let pool = pool\<lparr>p_max := max_conns, p_current := 0, p_free := max_conns\<rparr> in
         if \<not> mutex_ok then (-1, pool\<lparr>p_live := False\<rparr>) else (0, pool)))"

definition nv_udp_pool_destroy :: "nv_conn_pool_t \<Rightarrow> nv_conn_pool_t option" where
  "nv_udp_pool_destroy pool =
     (if pool_array pool \<noteq> None \<and> \<not> p_live pool then None
      else Some (pool\<lparr>pool_array := None, p_live := False, p_max := 0, p_current := 0, p_free := 0\<rparr>))"

definition nv_udp_pool_return_connection :: "nat \<Rightarrow> nv_conn_pool_t \<Rightarrow> (int \<times> nv_conn_pool_t) option" where
  "nv_udp_pool_return_connection conn pool =
     (if conn = 0 then Some (-1, pool)
      else if p_free pool > 0
      then (case pool_array pool of None \<Rightarrow> None
            | Some xs \<Rightarrow>
               if p_live pool \<and> nat (p_free pool - 1) < length xs
               then Some (0, pool\<lparr>pool_array := Some (xs[nat (p_free pool - 1) := conn]), p_free := p_free pool - 1, p_current := p_current pool + 1\<rparr>)
               else None)
      else Some (-1, pool))"

section \<open>Buffers are byte streams\<close>

definition buffer_rep :: "nv_buffer_t \<Rightarrow> byte list \<Rightarrow> bool" where
  "buffer_rep b xs \<longleftrightarrow> bf_size b \<le> bf_capacity b \<and> length (bf_data b) = bf_capacity b \<and> bf_capacity b < 2 ^ 64 \<and> xs = take (bf_size b) (bf_data b)"

lemma ulong_id: "n < 2 ^ 64 \<Longrightarrow> ulong n = n"
  by (simp add: ulong_def)

lemma grown_capacity_bounds: "need < 2 ^ 64 \<Longrightarrow> need \<le> grown_capacity cap need \<and> grown_capacity cap need < 2 ^ 64"
  by (auto simp: grown_capacity_def ulong_def Let_def)

lemma length_realloc: "length d \<le> n \<Longrightarrow> length (realloc_bytes junk n d) = n \<and> take (length d) (realloc_bytes junk n d) = d"
  by (simp add: realloc_bytes_def)

lemma copy_bytes_take: "copy_bytes i xs d = Some d' \<Longrightarrow> length d' = length d \<and> take (i + length xs) d' = take i d @ xs"
  by (auto simp: copy_bytes_def split: if_splits)

lemma ensure_room_rep:
  assumes "buffer_rep b xs" "ensure_room ok junk need b = Some b1" "need < 2 ^ 64"
  shows "bf_size b1 = bf_size b \<and> take (bf_size b) (bf_data b1) = xs \<and> length (bf_data b1) = bf_capacity b1 \<and>
    bf_capacity b1 < 2 ^ 64 \<and> need \<le> bf_capacity b1"
proof (cases "need > bf_capacity b")
  case True
  define cap where "cap = grown_capacity (bf_capacity b) need"
  have cap: "need \<le> cap" "cap < 2 ^ 64" using grown_capacity_bounds[OF assms(3)] by (auto simp: cap_def)
  have b1: "b1 = b\<lparr>bf_data := realloc_bytes junk cap (bf_data b), bf_capacity := cap\<rparr>"
    using assms(2) True by (auto simp: ensure_room_def cap_def Let_def split: if_splits)
  have rep: "bf_size b \<le> bf_capacity b" "length (bf_data b) = bf_capacity b" "xs = take (bf_size b) (bf_data b)"
    using assms(1) by (auto simp: buffer_rep_def)
  have "take (bf_size b) (realloc_bytes junk cap (bf_data b)) = xs" using rep True cap by (simp add: realloc_bytes_def)
  then show ?thesis using b1 cap rep True length_realloc[of "bf_data b" cap junk] by simp
next
  case False
  then show ?thesis using assms by (auto simp: ensure_room_def buffer_rep_def)
qed

lemma buffer_write_rep:
  assumes "buffer_rep b xs" "nv_tcp_buffer_write ok junk ys b = Some (0, b')"
  shows "buffer_rep b' (xs @ ys)"
proof -
  define need where "need = ulong (bf_size b + length ys)"
  have need: "need < 2 ^ 64" by (simp add: need_def ulong_def)
  obtain b1 d where d: "ensure_room ok junk need b = Some b1" "copy_bytes (bf_size b1) ys (bf_data b1) = Some d"
    "b' = b1\<lparr>bf_data := d, bf_size := need\<rparr>"
    using assms(2) by (auto simp: nv_tcp_buffer_write_def Let_def need_def[symmetric] split: option.splits)
  note b1 = ensure_room_rep[OF assms(1) d(1) need]
  have fit: "bf_size b + length ys \<le> bf_capacity b1" using d(2) b1 by (auto simp: copy_bytes_def split: if_splits)
  then have "need = bf_size b + length ys" using b1 by (simp add: need_def ulong_def)
  then show ?thesis using copy_bytes_take[OF d(2)] b1 fit by (simp add: buffer_rep_def d(3))
qed

lemma buffer_write_succeeds:
  assumes "buffer_rep b xs" "bf_size b + length ys < 2 ^ 64"
  shows "\<exists>b'. nv_tcp_buffer_write True junk ys b = Some (0, b')"
proof -
  have need: "ulong (bf_size b + length ys) = bf_size b + length ys" using assms(2) by (rule ulong_id)
  obtain b1 where b1: "ensure_room True junk (bf_size b + length ys) b = Some b1"
    by (cases "ensure_room True junk (bf_size b + length ys) b") (auto simp: ensure_room_def Let_def split: if_splits)
  then show ?thesis using ensure_room_rep[OF assms(1) b1 assms(2)] by (simp add: nv_tcp_buffer_write_def need Let_def copy_bytes_def)
qed

lemma buffer_read_rep:
  assumes "buffer_rep b xs" "nv_tcp_buffer_read n b = (ys, b')"
  shows "ys = take n xs \<and> buffer_rep b' (drop n xs)"
proof (cases "n = 0 \<or> bf_size b = 0")
  case True
  then show ?thesis using assms by (auto simp: nv_tcp_buffer_read_def buffer_rep_def)
next
  case False
  define k where "k = min n (bf_size b)"
  have "k \<noteq> 0" using False by (simp add: k_def)
  then have r: "ys = take k (bf_data b)" "b' = b\<lparr>bf_data := take (bf_size b - k) (drop k (bf_data b)) @ drop (bf_size b - k) (bf_data b), bf_size := bf_size b - k\<rparr>"
    using assms(2) by (simp_all add: nv_tcp_buffer_read_def k_def[symmetric] Let_def)
  have xs: "xs = take (bf_size b) (bf_data b)" "bf_size b \<le> length (bf_data b)" "k \<le> bf_size b" using assms(1) by (auto simp: buffer_rep_def k_def)
  have "take n xs = take k (bf_data b)" "drop n xs = take (bf_size b - k) (drop k (bf_data b))"
    using xs by (auto simp: k_def min_def drop_take)
  moreover obtain rest where "bf_size b = k + rest" using xs(3) by (metis le_Suc_ex)
  ultimately show ?thesis using assms(1) xs(2) by (auto simp: r buffer_rep_def min_def)
qed

text \<open>The stream operations of the two protocols: a write that is refused is not part of a run.\<close>

definition stream_write :: "(byte list \<Rightarrow> nv_buffer_t \<Rightarrow> (int \<times> nv_buffer_t) option) \<Rightarrow> byte list \<Rightarrow> nv_buffer_t \<Rightarrow> nv_buffer_t option" where
  "stream_write wr xs b = (case wr xs b of Some (rc, b') \<Rightarrow> if rc = 0 then Some b' else None | None \<Rightarrow> None)"

lemma udp_is_tcp: "nv_udp_buffer_write = nv_tcp_buffer_write" "nv_udp_buffer_read = nv_tcp_buffer_read" "nv_udp_buffer_create = nv_tcp_buffer_create"
  by (simp_all add: fun_eq_iff nv_udp_buffer_write_def nv_tcp_buffer_write_def nv_udp_buffer_read_def nv_tcp_buffer_read_def
      nv_udp_buffer_create_def nv_tcp_buffer_create_def)

interpretation tcp_buf: byte_stream buffer_rep "stream_write (nv_tcp_buffer_write ok junk)" nv_tcp_buffer_read
  for ok junk
  by unfold_locales (auto simp: stream_write_def buffer_write_rep buffer_read_rep split: option.splits if_splits)

interpretation udp_buf: byte_stream buffer_rep "stream_write (nv_udp_buffer_write ok junk)" nv_udp_buffer_read
  for ok junk
  unfolding udp_is_tcp by (rule tcp_buf.byte_stream_axioms)

interpretation tcp_stream: bounded_stream buffer_rep "stream_write (nv_tcp_buffer_write True junk)" nv_tcp_buffer_read "2 ^ 64"
  for junk
proof unfold_locales
  fix b and xs ys :: "byte list"
  assume rep: "buffer_rep b xs" and "length xs + length ys < 2 ^ 64"
  then have "bf_size b + length ys < 2 ^ 64" by (auto simp: buffer_rep_def)
  from buffer_write_succeeds[OF rep this, of junk] show "\<exists>b'. stream_write (nv_tcp_buffer_write True junk) ys b = Some b'"
    by (auto simp: stream_write_def)
qed

interpretation udp_stream: bounded_stream buffer_rep "stream_write (nv_udp_buffer_write True junk)" nv_udp_buffer_read "2 ^ 64"
  for junk
  unfolding udp_is_tcp by (rule tcp_stream.bounded_stream_axioms)

lemma empty_buffer: "nv_tcp_buffer_create ok junk initial = Some b \<Longrightarrow> initial < 2 ^ 64 \<Longrightarrow> buffer_rep b []"
  by (auto simp: nv_tcp_buffer_create_def buffer_rep_def malloc_bytes_def split: if_splits)

text \<open>C19. A TCP buffer is a byte stream: from an empty buffer, whatever blocks are written and whatever
  numbers of bytes are read in between, no access is outside the memory, no write fails as long as memory is granted and
  the total stays below the range of a size, each read delivers the next bytes that were written, and the bytes that
  came out followed by those still in the buffer are exactly the bytes that went in, in order.\<close>

theorem nv_tcp_buffer_is_stream:
  assumes "nv_tcp_buffer_create ok junk initial = Some b" "initial < 2 ^ 64" "length (stream_input ops) < 2 ^ 64"
  shows "\<exists>out b'. stream_run (stream_write (nv_tcp_buffer_write True junk')) nv_tcp_buffer_read ops b = Some (out, b') \<and>
    stream_spec ops [] = (out, take (bf_size b') (bf_data b')) \<and> stream_input ops = out @ take (bf_size b') (bf_data b')"
proof -
  note rep = empty_buffer[OF assms(1,2)]
  obtain out b' rest where r: "stream_run (stream_write (nv_tcp_buffer_write True junk')) nv_tcp_buffer_read ops b = Some (out, b')"
    "stream_spec ops [] = (out, rest)" "buffer_rep b' rest"
    using tcp_stream.run_exact[OF rep, of ops junk'] assms(3) by auto
  with tcp_buf.run_conserved[OF rep r(1)] show ?thesis by (auto simp: buffer_rep_def)
qed

theorem nv_tcp_buffer_is_stream_witness:
  "\<exists>b b'. nv_tcp_buffer_create True (\<lambda>_. 0) 2 = Some b \<and>
     stream_run (stream_write (nv_tcp_buffer_write True (\<lambda>_. 0))) nv_tcp_buffer_read [Put [1, 2, 3], Get 2, Put [4, 5], Get 1] b = Some ([1, 2, 3], b') \<and>
     take (bf_size b') (bf_data b') = [4, 5]"
proof -
  obtain b where b: "nv_tcp_buffer_create True (\<lambda>_. 0) 2 = Some b" by (simp add: nv_tcp_buffer_create_def)
  show ?thesis using nv_tcp_buffer_is_stream[OF b, of "[Put [1, 2, 3], Get 2, Put [4, 5], Get 1]" "\<lambda>_. 0"] b by auto
qed

text \<open>The sum of the sizes is not checked for wrapping, so a block whose size makes it wrap is copied past the end.\<close>

lemma nv_tcp_buffer_write_wraps:
  assumes "buffer_rep b xs" "2 ^ 64 \<le> bf_size b + length ys" "ulong (bf_size b + length ys) \<le> bf_capacity b"
  shows "nv_tcp_buffer_write ok junk ys b = None"
proof -
  have "\<not> bf_size b + length ys \<le> length (bf_data b)" using assms(1,2) by (simp add: buffer_rep_def)
  then show ?thesis using assms(3) by (simp add: nv_tcp_buffer_write_def ensure_room_def copy_bytes_def Let_def)
qed

section \<open>Pools\<close>

definition pool_inv :: "nv_conn_pool_t \<Rightarrow> bool" where
  "pool_inv pool \<longleftrightarrow> p_live pool \<and> 0 \<le> p_free pool \<and> 0 \<le> p_current pool \<and> p_free pool + p_current pool = p_max pool \<and>
     (\<exists>xs. pool_array pool = Some xs \<and> int (length xs) = p_max pool)"

fun return_all :: "nat list \<Rightarrow> nv_conn_pool_t \<Rightarrow> nv_conn_pool_t option" where
  "return_all [] pool = Some pool"
| "return_all (c # cs) pool =
     (case nv_tcp_pool_return_connection c pool of Some (rc, pool) \<Rightarrow> if rc = 0 then return_all cs pool else None | None \<Rightarrow> None)"

text \<open>A pool takes as many connections as it was created for, stores them from the end of its array, and refuses the
  next one.\<close>

lemma return_all_stores:
  assumes "pool_inv pool" "\<forall>c \<in> set cs. c \<noteq> 0" "int (length cs) \<le> p_free pool" "pool_array pool = Some xs"
  shows "\<exists>pool'. return_all cs pool = Some pool' \<and> pool_inv pool' \<and> p_free pool' = p_free pool - int (length cs) \<and>
    pool_array pool' = Some (take (nat (p_free pool) - length cs) xs @ rev cs @ drop (nat (p_free pool)) xs)"
  using assms
proof (induction cs arbitrary: pool xs)
  case Nil
  then show ?case by simp
next
  case (Cons c cs)
  define k where "k = nat (p_free pool) - 1"
  have k: "p_free pool > 0" "nat (p_free pool - 1) = k" "k < length xs" "nat (p_free pool) = Suc k" "length cs \<le> k"
    using Cons.prems by (auto simp: k_def pool_inv_def)
  let ?p = "pool\<lparr>pool_array := Some (xs[k := c]), p_free := p_free pool - 1, p_current := p_current pool + 1\<rparr>"
  have "nv_tcp_pool_return_connection c pool = Some (0, ?p)"
    using Cons.prems k by (simp add: nv_tcp_pool_return_connection_def pool_inv_def)
  moreover have "pool_inv ?p" using Cons.prems k by (auto simp: pool_inv_def)
  moreover have "\<forall>c \<in> set cs. c \<noteq> 0" "int (length cs) \<le> p_free ?p" using Cons.prems by auto
  ultimately obtain pool' where "return_all (c # cs) pool = Some pool'" "pool_inv pool'" "p_free pool' = p_free ?p - int (length cs)"
    "pool_array pool' = Some (take (nat (p_free ?p) - length cs) (xs[k := c]) @ rev cs @ drop (nat (p_free ?p)) (xs[k := c]))"
    using Cons.IH[of ?p "xs[k := c]"] by auto
  moreover have "take (k - length cs) (xs[k := c]) @ rev cs @ drop k (xs[k := c]) = take (k - length cs) xs @ rev (c # cs) @ drop (Suc k) xs"
    using k(3) by (simp add: take_update_cancel drop_update_swap Cons_nth_drop_Suc[symmetric])
  ultimately show ?case using Cons.prems k by simp
qed

end
