(* ===== verification/Nv_Business.thy ===== *)
theory Nv_Business
  imports Nv_Service Nv_Buffer Nv_Threads
begin

text \<open>
  The business modules that are set up before the main loop and torn down after it (\<open>core/runtime/nv_core.c\<close>,
  \<open>core/runtime/nv_core_modules.c\<close>) and the registration of the signals with the loop
  (\<open>core/runtime/nv_core_startup.c\<close>), on top of the models of the loop, the signals, the thread pool, the connection
  pools and the consoles.
  What the system calls answer is a record of arguments; the message queue is present or not.  \<open>bz_destroyed\<close> is
  the thread pool as its destruction hands it to the join of its threads.
\<close>

section \<open>State\<close>

datatype core_signal = on_core_signal

record business =
  bz_sv :: service
  bz_sig :: "core_signal signals"
  bz_threads :: "nat tp_system option"
  bz_destroyed :: "nat tp_system option"
  bz_mq :: bool
  g_tcp_pool :: nv_conn_pool_t
  g_udp_pool :: nv_conn_pool_t
  bz_cli :: cli_world
  bz_ctl :: ctl_server
  bz_telnet :: telnet_server

text \<open>The answers to the calls of the initialisation: the loop, the signal descriptor and the memory of its event, the
  thread pool, the message queue, the pools of connections, and the three consoles.\<close>

record business_env =
  be_epoll :: int
  be_events :: bool
  be_pipe :: bool
  be_sfd :: "int \<Rightarrow> int"
  be_sig_ev :: addr
  be_sig_add :: bool
  be_threads :: bool
  be_ring :: "nat list"
  be_mq :: bool
  be_tcp :: "nat list option \<times> bool"
  be_udp :: "nat list option \<times> bool"
  be_cli :: bool
  be_ctl :: "int \<times> bool \<times> bool \<times> bool"
  be_telnet :: telnet_os
  be_clock :: nat

text \<open>The addresses of the static events: the tick, the heartbeat and the idle event.\<close>

record statics =
  g_mod_tick_ev :: addr
  heartbeat_ev :: addr
  g_idle_ev :: addr

definition bz_ctx :: "business \<Rightarrow> nv_core_ctx_t" where
  "bz_ctx z = sv_ctx (bz_sv z)"

definition bz_loop :: "business \<Rightarrow> core_handler nv_loop_t" where
  "bz_loop z = sv_loop (bz_sv z)"

definition set_loop :: "core_handler nv_loop_t \<Rightarrow> business \<Rightarrow> business" where
  "set_loop l z = z\<lparr>bz_sv := (bz_sv z)\<lparr>sv_loop := l\<rparr>\<rparr>"

definition set_phase :: "nv_core_phase_t \<Rightarrow> business \<Rightarrow> business" where
  "set_phase ph z = z\<lparr>bz_sv := upd_sv (\<lambda>c. c\<lparr>phase := ph\<rparr>) (bz_sv z)\<rparr>"

section \<open>Business modules\<close>

definition nv_core_signals_register_loop :: "business_env \<Rightarrow> business \<Rightarrow> (int \<times> business) option" where
  "nv_core_signals_register_loop env z =
     (case nv_signal_init (be_sfd env) (bz_sig z) of (rc, s) \<Rightarrow>
      if rc \<noteq> 0 then Some (NV_ERROR, z\<lparr>bz_sig := s\<rparr>)
      else (case register_all (be_sfd env) (map (\<lambda>n. (n, on_core_signal)) [SIGINT, SIGTERM, SIGHUP, SIGUSR1]) s of (rc, s) \<Rightarrow>
        if rc \<noteq> 0 then Some (NV_ERROR, z\<lparr>bz_sig := s\<rparr>)
        else
          (let s = (if worker_processes (opts (bz_ctx z)) > 1
                    then snd (nv_signal_register (be_sfd env) SIGCHLD (Some on_core_signal) s) else s)
           in case nv_loop_attach_signalfd nv_signalfd (be_sig_ev env) (be_sig_add env) (nv_signal_fd s) (bz_loop z) of None \<Rightarrow> None
              | Some (rc, l) \<Rightarrow> Some (if rc \<noteq> 0 then NV_ERROR else NV_OK, set_loop l (z\<lparr>bz_sig := s\<rparr>)))))"

definition nv_mod_network_loop_init :: "business_env \<Rightarrow> business \<Rightarrow> int \<times> business" where
  "nv_mod_network_loop_init env z =
     (let maxc = max 16 (worker_connections (opts (bz_ctx z))) in
      (NV_OK, z\<lparr>g_tcp_pool := snd (nv_tcp_pool_create (fst (be_tcp env)) (snd (be_tcp env)) maxc (g_tcp_pool z)),
                g_udp_pool := snd (nv_udp_pool_create (fst (be_udp env)) (snd (be_udp env)) maxc (g_udp_pool z))\<rparr>))"

text \<open>\<open>None\<close>: an array that has been freed is freed again.\<close>

definition nv_mod_network_loop_cleanup :: "business \<Rightarrow> business option" where
  "nv_mod_network_loop_cleanup z = do {
     t \<leftarrow> nv_tcp_pool_destroy (g_tcp_pool z);
     u \<leftarrow> nv_udp_pool_destroy (g_udp_pool z);
     Some (z\<lparr>g_tcp_pool := t, g_udp_pool := u\<rparr>) }"

definition nv_core_modules_init :: "statics \<Rightarrow> business_env \<Rightarrow> business \<Rightarrow> (int \<times> business) option" where
  "nv_core_modules_init st env z = do {
     l \<leftarrow> nv_mod_event_loop_init (be_clock env) (g_mod_tick_ev st) (bz_loop z);
     Some (nv_mod_network_loop_init env (set_loop l z)) }"

definition nv_core_modules_cleanup :: "statics \<Rightarrow> business \<Rightarrow> business option" where
  "nv_core_modules_cleanup st z = do {
     z \<leftarrow> nv_mod_network_loop_cleanup z;
     l \<leftarrow> nv_mod_event_loop_cleanup (g_mod_tick_ev st) (bz_loop z);
     Some (set_loop l z) }"

text \<open>The part of the initialisation behind the thread pool.\<close>

definition init_consoles :: "business_env \<Rightarrow> business \<Rightarrow> business" where
  "init_consoles env z =
     (let z = z\<lparr>bz_cli := nv_core_cli_init (be_cli env) (bz_cli z)\<rparr>; c = bz_ctx z in
      if \<not> is_master c \<and> (worker_processes (opts c) \<le> 1 \<or> worker_id c = 1)
      then (case be_ctl env of (sfd, bind_ok, listen_ok, add_ok) \<Rightarrow>
              z\<lparr>bz_ctl := snd (nv_core_ctl_init sfd bind_ok listen_ok add_ok c (bz_ctl z)),
                bz_telnet := snd (nv_core_telnet_init (be_telnet env) c (bz_telnet z))\<rparr>)
      else z)"

definition nv_core_business_init :: "statics \<Rightarrow> business_env \<Rightarrow> business \<Rightarrow> (int \<times> business) option" where
  "nv_core_business_init st env z =
     (let z = set_phase NV_CORE_PHASE_BUSINESS z in
      case nv_loop_init (worker_connections (opts (bz_ctx z))) (be_epoll env) (be_events env) (be_pipe env) (bz_loop z) of (rc, l) \<Rightarrow>
      (let z = set_loop l z in
       if rc \<noteq> NV_OK then Some (NV_ERROR, z)
       else do {
         (rc, z) \<leftarrow> nv_core_signals_register_loop env z;
         if rc \<noteq> NV_OK then Some (NV_ERROR, z)
         else
           (let z = z\<lparr>bz_threads := nv_threadpool_create (worker_threads (opts (bz_ctx z))) 256 (be_threads env) (be_ring env)\<rparr> in
            if bz_threads z = None then Some (NV_ERROR, z)
            else do {
              (rc, z) \<leftarrow> nv_core_modules_init st env (z\<lparr>bz_mq := be_mq env\<rparr>);
              if rc \<noteq> NV_OK then Some (NV_ERROR, z) else Some (NV_OK, init_consoles env z) }) }))"

text \<open>\<open>sock\<close>, \<open>socket_ok\<close> and \<open>send_ok\<close> belong to the notification of systemd.\<close>

definition nv_core_business_cleanup :: "statics \<Rightarrow> cstring option \<Rightarrow> bool \<Rightarrow> bool \<Rightarrow> business \<Rightarrow> business option" where
  "nv_core_business_cleanup st sock socket_ok send_ok z = do {
     v \<leftarrow> nv_core_health_cleanup sock socket_ok send_ok (heartbeat_ev st) (bz_sv z);
     let z = z\<lparr>bz_sv := v\<rparr>;
     z \<leftarrow> nv_core_modules_cleanup st (z\<lparr>bz_telnet := nv_core_telnet_cleanup (bz_telnet z), bz_ctl := nv_core_ctl_cleanup (bz_ctl z),
                                      bz_cli := nv_core_cli_cleanup (bz_cli z)\<rparr>);
     let z = z\<lparr>bz_sig := nv_signal_shutdown (bz_sig z), bz_mq := False,
               bz_destroyed := map_option (nv_threadpool_destroy NV_TP_SHUTDOWN_GRACEFUL) (bz_threads z), bz_threads := None\<rparr>;
     l \<leftarrow> nv_loop_cleanup (bz_loop z);
     Some (set_loop l z) }"

section \<open>Releasing the loop\<close>

text \<open>Cleaning up a list of events that are not registered with epoll touches no other event.\<close>

lemma cleanup_first:
  assumes rep: "ev_list (l_mem s) p (a # vs)" and e: "l_mem s a = Some e" "\<not> ev_active e"
  shows "\<exists>m. nv_event_cleanup a s = Some (s\<lparr>l_mem := m\<rparr>) \<and> ev_list m (ev_next e) vs \<and>
    (\<forall>b. b \<notin> set (a # vs) \<longrightarrow> m b = l_mem s b) \<and> (\<forall>b. b \<noteq> a \<longrightarrow> map_option ev_active (m b) = map_option ev_active (l_mem s b))"
proof -
  obtain l where seg: "dseg ev_prev ev_next (l_mem s) NULL p ([] @ a # vs) l NULL" using rep by (auto simp: ev_list_def)
  have prev: "ev_prev e = NULL" and a: "a \<noteq> NULL" "p = a" using seg e by auto
  have nxt: "ev_next e = hd0 vs" using ev_list_next[of "l_mem s" p "[]" a vs e] rep e by simp
  have avs: "a \<notin> set vs" using ev_list_distinct[OF rep] by simp
  define m1 where "m1 = upd_at (ev_next e) (\<lambda>n. n\<lparr>ev_prev := NULL\<rparr>) (l_mem s)"
  have m1: "ev_list m1 (ev_next e) vs"
    using evl.unlink(1)[OF seg e(1)] prev by (simp add: ev_list_def m1_def upd_at_def)
  have na: "ev_next e \<noteq> a" using nxt avs a(1) by (cases vs) auto
  have live: "ev_next e = NULL \<or> l_mem s (ev_next e) \<noteq> None"
    using nxt ev_list_live[OF rep] by (cases vs) auto
  define e' where "e' = e\<lparr>ev_next := NULL, ev_prev := NULL, ev_fd := -1, ev_events := 0, ev_revents := 0, ev_active := False, ev_handler := None\<rparr>"
  have m1a: "m1 a = Some e" using na e(1) by (simp add: m1_def upd_at_apply)
  have b0: "(if ev_loop e \<and> ev_active e \<and> ev_fd e \<ge> 0 then map_option snd (nv_loop_del_event a s) else Some s) = Some s"
    using e(2) by simp
  have b1: "(if ev_next e \<noteq> NULL then ev_upd (ev_next e) (\<lambda>n. n\<lparr>ev_prev := ev_prev e\<rparr>) s else Some s) = Some (s\<lparr>l_mem := m1\<rparr>)"
    unfolding prev m1_def by (rule ev_upd_at[OF live])
  have m1s: "l_mem (s\<lparr>l_mem := m1\<rparr>) a = Some e" using m1a by simp
  have "nv_event_cleanup a s = Some (s\<lparr>l_mem := m1(a \<mapsto> e')\<rparr>)"
    unfolding nv_event_cleanup_def e(1) bind.bind_lunit b0 b1 m1s using prev a(1) m1a by (simp add: ev_upd_live e'_def)
  moreover have "ev_list (m1(a \<mapsto> e')) (ev_next e) vs" by (rule ev_list_view[OF m1]) (use avs in auto)
  moreover have "m1 b = l_mem s b" if "b \<notin> set (a # vs)" for b
    using that nxt by (cases vs) (auto simp: m1_def upd_at_apply upd_at_def)
  moreover have "map_option ev_active (m1 b) = map_option ev_active (l_mem s b)" for b
    by (cases "l_mem s b") (auto simp: m1_def upd_at_apply)
  ultimately show ?thesis by (intro exI[of _ "m1(a \<mapsto> e')"]) auto
qed

definition idle_events :: "addr list \<Rightarrow> 'h nv_event_ext_t store \<Rightarrow> bool" where
  "idle_events as h \<longleftrightarrow> (\<forall>a \<in> set as. \<forall>e. h a = Some e \<longrightarrow> \<not> ev_active e)"

lemma cleanup_list:
  "ev_list (l_mem s) p as \<Longrightarrow> idle_events as (l_mem s) \<Longrightarrow>
     \<exists>m. cleanup_loop p s = Some (s\<lparr>l_mem := m\<rparr>) \<and> (\<forall>b. b \<notin> set as \<longrightarrow> m b = l_mem s b)"
proof (induction as arbitrary: s p)
  case Nil
  then show ?case by (auto simp: ev_list_def cleanup_loop.simps intro!: exI[of _ "l_mem s"])
next
  case (Cons a vs)
  obtain e where e: "l_mem s a = Some e" "a \<noteq> NULL" "p = a"
    using ev_list_live[OF Cons.prems(1), of a] ev_list_head[OF Cons.prems(1)] by auto
  have avs: "a \<notin> set vs" using ev_list_distinct[OF Cons.prems(1)] by simp
  have ina: "\<not> ev_active e" using Cons.prems(2) e(1) by (simp add: idle_events_def)
  obtain m where m: "nv_event_cleanup a s = Some (s\<lparr>l_mem := m\<rparr>)" "ev_list m (ev_next e) vs" "\<forall>b. b \<notin> set (a # vs) \<longrightarrow> m b = l_mem s b"
    "\<forall>b. b \<noteq> a \<longrightarrow> map_option ev_active (m b) = map_option ev_active (l_mem s b)"
    using cleanup_first[OF Cons.prems(1) e(1) ina] by blast
  have "idle_events vs m" unfolding idle_events_def
  proof (intro ballI allI impI)
    fix b f assume b: "b \<in> set vs" "m b = Some f"
    then have "map_option ev_active (l_mem s b) = Some (ev_active f)" using m(4) avs by (metis option.simps(9))
    then show "\<not> ev_active f" using Cons.prems(2) b(1) by (auto simp: idle_events_def)
  qed
  with Cons.IH[of "s\<lparr>l_mem := m\<rparr>" "ev_next e"] m(2) obtain m' where
    "cleanup_loop (ev_next e) (s\<lparr>l_mem := m\<rparr>) = Some (s\<lparr>l_mem := m'\<rparr>)" "\<forall>b. b \<notin> set vs \<longrightarrow> m' b = m b" by auto
  then show ?case using e m(1,3) by (intro exI[of _ m']) (simp add: cleanup_loop.simps)
qed

text \<open>A loop whose lists are well formed and whose signal event, if any, is allocated.\<close>

definition loop_wf :: "addr list \<Rightarrow> addr list \<Rightarrow> 'h nv_loop_t \<Rightarrow> bool" where
  "loop_wf ts is l \<longleftrightarrow> ev_list (l_mem l) (l_timers_head l) ts \<and> ev_list (l_mem l) (l_idle_head l) is \<and> set ts \<inter> set is = {} \<and>
     idle_events (ts @ is) (l_mem l) \<and> l_signals l = [] \<and>
     (l_signalfd_ev l \<noteq> NULL \<longrightarrow> l_signalfd_ev l \<notin> set (ts @ is) \<and> l_mem l (l_signalfd_ev l) \<noteq> None)"

definition loop_released :: "'h nv_loop_t \<Rightarrow> bool" where
  "loop_released l \<longleftrightarrow> l_state l = NV_LOOP_STOPPED \<and> l_epoll_fd l = -1 \<and> l_epoll l = [] \<and> l_signalfd_ev l = NULL"

lemma stop_frame [simp]:
  "l_mem (nv_loop_stop l) = l_mem l" "l_timers_head (nv_loop_stop l) = l_timers_head l" "l_idle_head (nv_loop_stop l) = l_idle_head l"
  "l_signals (nv_loop_stop l) = l_signals l" "l_signalfd_ev (nv_loop_stop l) = l_signalfd_ev l"
  by (simp_all add: nv_loop_stop_def nv_loop_wakeup_def)

lemma detach_released:
  assumes "l_signalfd_ev l \<noteq> NULL \<longrightarrow> l_mem l (l_signalfd_ev l) \<noteq> None"
  shows "\<exists>l'. nv_loop_detach_signalfd l = Some l' \<and> l_signalfd_ev l' = NULL \<and> l_signals l' = l_signals l"
  using assms by (auto simp: nv_loop_detach_signalfd_def nv_loop_del_event_def ev_upd_live Let_def)

lemma cleanup_released:
  assumes "loop_wf ts is l"
  shows "\<exists>l'. nv_loop_cleanup l = Some l' \<and> loop_released l'"
proof -
  define s where "s = (if l_state l = NV_LOOP_RUNNING then nv_loop_stop l else l)"
  have s: "l_mem s = l_mem l" "l_timers_head s = l_timers_head l" "l_idle_head s = l_idle_head l" "l_signals s = []" "l_signalfd_ev s = l_signalfd_ev l"
    using assms by (auto simp: s_def loop_wf_def)
  obtain m where m: "cleanup_loop (l_timers_head s) s = Some (s\<lparr>l_mem := m\<rparr>)" "\<forall>b. b \<notin> set ts \<longrightarrow> m b = l_mem s b"
    using cleanup_list[of s "l_timers_head s" ts] assms s by (auto simp: loop_wf_def idle_events_def)
  have same: "m b = l_mem l b" if "b \<in> set is" for b using that m(2) assms s(1) by (auto simp: loop_wf_def)
  have "ev_list m (l_idle_head l) is" by (rule ev_list_view[of "l_mem l"]) (use assms same in \<open>auto simp: loop_wf_def\<close>)
  moreover have "idle_events is m" using assms same by (auto simp: loop_wf_def idle_events_def)
  ultimately obtain m' where m': "cleanup_loop (l_idle_head s) (s\<lparr>l_mem := m\<rparr>) = Some (s\<lparr>l_mem := m'\<rparr>)" "\<forall>b. b \<notin> set is \<longrightarrow> m' b = m b"
    using cleanup_list[of "s\<lparr>l_mem := m\<rparr>" "l_idle_head s" "is"] s by auto
  have "l_signalfd_ev (s\<lparr>l_mem := m'\<rparr>) \<noteq> NULL \<longrightarrow> m' (l_signalfd_ev (s\<lparr>l_mem := m'\<rparr>)) \<noteq> None"
    using assms m(2) m'(2) s by (auto simp: loop_wf_def)
  then obtain l' where l': "nv_loop_detach_signalfd (s\<lparr>l_mem := m'\<rparr>) = Some l'" "l_signalfd_ev l' = NULL" "l_signals l' = []"
    using detach_released[of "s\<lparr>l_mem := m'\<rparr>"] s(4) by auto
  then show ?thesis using m(1) m'(1) by (simp add: nv_loop_cleanup_def s_def[symmetric] Let_def loop_released_def)
qed

section \<open>Timers and idle events of a well-formed loop\<close>

lemma push_list:
  assumes rep: "ev_list (l_mem s) p as" and a: "a \<noteq> NULL" "a \<notin> set as" "l_mem s a = Some e"
  shows "\<exists>m. nv_loop_add_event_to_list p a s = Some (a, s\<lparr>l_mem := m\<rparr>) \<and> ev_list m a (a # as) \<and>
    (\<forall>b. b \<notin> set (a # as) \<longrightarrow> m b = l_mem s b) \<and> (\<forall>b. map_option ev_active (m b) = map_option ev_active (l_mem s b)) \<and>
    (\<forall>b. map_option body (m b) = map_option body (l_mem s b))"
proof -
  define h where "h = (l_mem s)(a \<mapsto> e\<lparr>ev_next := p, ev_prev := NULL\<rparr>)"
  define m where "m = upd_at p (\<lambda>e. e\<lparr>ev_prev := a\<rparr>) h"
  have p: "p = hd0 as" by (rule ev_list_head[OF rep])
  have live: "p = NULL \<or> h p \<noteq> None" using p ev_list_live[OF rep] by (cases as) (auto simp: h_def)
  have pa: "p \<noteq> a" using p a(1,2) by (cases as) auto
  have add: "nv_loop_add_event_to_list p a s = Some (a, s\<lparr>l_mem := m\<rparr>)"
    using ev_upd_at[of p "s\<lparr>l_mem := h\<rparr>" "\<lambda>e. e\<lparr>ev_prev := a\<rparr>"] live a(1,3)
    by (simp add: nv_loop_add_event_to_list_def ev_upd_live h_def[symmetric] m_def[symmetric])
  obtain l where seg: "dseg ev_prev ev_next (l_mem s) NULL p as l NULL" using rep by (auto simp: ev_list_def)
  have "dseg ev_prev ev_next h NULL p as l NULL" by (rule evl.dseg_frame[OF seg]) (use a(2) in \<open>auto simp: h_def\<close>)
  then have "\<exists>l. dseg ev_prev ev_next m a p as l NULL"
    using evl.unlink_right[of h NULL p as l a] ev_list_distinct[OF rep] by (auto simp: m_def)
  then have "ev_list m a (a # as)" using pa a(1) by (auto simp: ev_list_def m_def h_def upd_at_apply)
  moreover have "m b = l_mem s b" if "b \<notin> set (a # as)" for b
    using that p by (cases as) (auto simp: m_def h_def upd_at_apply upd_at_def)
  moreover have "map_option ev_active (m b) = map_option ev_active (l_mem s b)" "map_option body (m b) = map_option body (l_mem s b)" for b
    using a(3) by (cases "l_mem s b"; auto simp: m_def h_def upd_at_apply body_def)+
  ultimately show ?thesis using add by blast
qed

lemma idle_events_cong:
  assumes "idle_events as h" "\<And>b. b \<in> set as \<Longrightarrow> map_option ev_active (h' b) = map_option ev_active (h b)"
  shows "idle_events as h'"
  unfolding idle_events_def
proof (intro ballI allI impI)
  fix a e assume "a \<in> set as" "h' a = Some e"
  then have "map_option ev_active (h a) = Some (ev_active e)" using assms(2)[of a] by simp
  then show "\<not> ev_active e" using assms(1) \<open>a \<in> set as\<close> by (auto simp: idle_events_def)
qed

lemma loop_wfI:
  assumes "loop_wf ts is l" "ev_list (l_mem l') (l_timers_head l') ts'" "ev_list (l_mem l') (l_idle_head l') is'"
    and "set ts' \<inter> set is' = {}" "idle_events (ts' @ is') (l_mem l')" "l_signals l' = l_signals l" "l_signalfd_ev l' = l_signalfd_ev l"
    and "l_signalfd_ev l \<noteq> NULL \<longrightarrow> l_signalfd_ev l \<notin> set (ts' @ is') \<and> l_mem l' (l_signalfd_ev l) \<noteq> None"
  shows "loop_wf ts' is' l'"
  using assms by (simp add: loop_wf_def)

definition same_loop :: "'h nv_loop_t \<Rightarrow> 'h nv_loop_t \<Rightarrow> bool" where
  "same_loop l l' \<longleftrightarrow> l_state l' = l_state l \<and> l_epoll_fd l' = l_epoll_fd l \<and> l_signalfd_ev l' = l_signalfd_ev l \<and>
     l_signalfd_fd l' = l_signalfd_fd l \<and> l_signals l' = l_signals l"

lemma add_timer_wf:
  assumes wf: "loop_wf ts is l" and a: "a \<noteq> NULL" "a \<notin> set (ts @ is)" "a \<noteq> l_signalfd_ev l" "l_mem l a = Some e" "\<not> ev_active e"
  shows "\<exists>l'. nv_loop_add_timer now a ms l = Some l' \<and> loop_wf (a # ts) is l' \<and> same_loop l l' \<and> l_idle_head l' = l_idle_head l \<and>
    (\<forall>b. b \<notin> set (a # ts) \<longrightarrow> l_mem l' b = l_mem l b) \<and> expiry (l_mem l') a = ulong (now + ms) \<and>
    (\<forall>b \<in> set ts. expiry (l_mem l') b = expiry (l_mem l) b)"
proof -
  define e' where "e' = e\<lparr>ev_type := NV_EVENT_TYPE_TIMER, ev_timeout_ms := ms, ev_loop := True, ev_expire_time := ulong (now + ms)\<rparr>"
  define s where "s = l\<lparr>l_mem := (l_mem l)(a \<mapsto> e')\<rparr>"
  have upd: "ev_upd a (\<lambda>e. e\<lparr>ev_type := NV_EVENT_TYPE_TIMER, ev_timeout_ms := ms, ev_loop := True, ev_expire_time := ulong (now + ms)\<rparr>) l = Some s"
    using a(1,4) by (simp add: ev_upd_live s_def e'_def)
  have lists: "ev_list (l_mem s) (l_timers_head s) ts"
    by (rule ev_list_view[of "l_mem l"]) (use wf a(2) in \<open>auto simp: loop_wf_def s_def\<close>)
  obtain m where m: "nv_loop_add_event_to_list (l_timers_head s) a s = Some (a, s\<lparr>l_mem := m\<rparr>)" "ev_list m a (a # ts)"
    "\<forall>b. b \<notin> set (a # ts) \<longrightarrow> m b = l_mem s b" "\<forall>b. map_option ev_active (m b) = map_option ev_active (l_mem s b)"
    "\<forall>b. map_option body (m b) = map_option body (l_mem s b)"
    using push_list[OF lists a(1), of e'] a(2) by (auto simp: s_def)
  define l' where "l' = lower_timeout (ulong (now + ms)) (s\<lparr>l_mem := m, l_timers_head := a\<rparr>)"
  have add: "nv_loop_add_timer now a ms l = Some l'"
    unfolding nv_loop_add_timer_def upd bind.bind_lunit m(1) by (simp add: l'_def)
  have l': "l_mem l' = m" "l_timers_head l' = a" "l_idle_head l' = l_idle_head l" "same_loop l l'"
    by (auto simp: l'_def s_def lower_timeout_def same_loop_def)
  have act: "map_option ev_active (m b) = map_option ev_active (l_mem l b)" for b using m(4) a(4) by (simp add: s_def e'_def)
  have others: "m b = l_mem l b" if "b \<notin> set (a # ts)" for b using m(3) that by (simp add: s_def)
  have out: "b \<notin> set (a # ts)" if "b \<in> set is" for b using wf a(2) that by (auto simp: loop_wf_def)
  have "loop_wf (a # ts) is l'"
  proof (rule loop_wfI[OF wf])
    show "ev_list (l_mem l') (l_timers_head l') (a # ts)" using m(2) l' by simp
    show "ev_list (l_mem l') (l_idle_head l') is" unfolding l'(1,3)
      by (rule ev_list_view[of "l_mem l"]) (use wf others[OF out] in \<open>simp_all add: loop_wf_def\<close>)
    show "idle_events ((a # ts) @ is) (l_mem l')" unfolding l'(1)
      by (rule idle_events_cong[OF _ act]) (use wf a(4,5) in \<open>auto simp: loop_wf_def idle_events_def\<close>)
    show "l_signalfd_ev l \<noteq> NULL \<longrightarrow> l_signalfd_ev l \<notin> set ((a # ts) @ is) \<and> l_mem l' (l_signalfd_ev l) \<noteq> None"
      using wf a(3) others l'(1) by (auto simp: loop_wf_def)
  qed (use wf a(2) l'(4) in \<open>auto simp: loop_wf_def same_loop_def\<close>)
  moreover have "expiry m b = expiry (l_mem s) b" for b by (rule body_cong) (simp add: m(5))
  moreover have "expiry (l_mem s) a = ulong (now + ms)" "\<forall>b \<in> set ts. expiry (l_mem s) b = expiry (l_mem l) b"
    using a(2) by (auto simp: s_def e'_def expiry_def)
  ultimately show ?thesis using add l' others by auto
qed

lemma add_idle_wf:
  assumes wf: "loop_wf ts [] l" and a: "a \<noteq> NULL" "a \<notin> set ts" "a \<noteq> l_signalfd_ev l" "l_mem l a = Some e" "\<not> ev_active e"
  shows "\<exists>l' e'. nv_loop_add_idle a l = Some l' \<and> loop_wf ts [a] l' \<and> same_loop l l' \<and> l_mem l' = (l_mem l)(a \<mapsto> e') \<and>
    ev_handler e' = ev_handler e \<and> ev_loop e' \<and> l_idle_head l' = a"
proof -
  define e' where "e' = e\<lparr>ev_type := NV_EVENT_TYPE_IDLE, ev_loop := True, ev_next := NULL, ev_prev := NULL\<rparr>"
  define l' where "l' = l\<lparr>l_mem := (l_mem l)(a \<mapsto> e'), l_idle_head := a\<rparr>"
  have head: "l_idle_head l = NULL" using wf by (auto simp: loop_wf_def ev_list_def)
  have add: "nv_loop_add_idle a l = Some l'"
    using a(1,4) head by (simp add: nv_loop_add_idle_def nv_loop_add_event_to_list_def ev_upd_live l'_def e'_def)
  have "loop_wf ts [a] l'"
  proof (rule loop_wfI[OF wf])
    show "ev_list (l_mem l') (l_timers_head l') ts"
      by (rule ev_list_view[of "l_mem l"]) (use wf a(2) in \<open>auto simp: loop_wf_def l'_def\<close>)
    show "ev_list (l_mem l') (l_idle_head l') [a]" using a(1) by (simp add: ev_list_def l'_def e'_def)
    show "idle_events (ts @ [a]) (l_mem l')" using wf a by (auto simp: loop_wf_def idle_events_def l'_def e'_def)
    show "l_signalfd_ev l \<noteq> NULL \<longrightarrow> l_signalfd_ev l \<notin> set (ts @ [a]) \<and> l_mem l' (l_signalfd_ev l) \<noteq> None"
      using wf a(3) by (auto simp: loop_wf_def l'_def)
  qed (use a(2) in \<open>auto simp: l'_def\<close>)
  then show ?thesis using add by (intro exI[of _ l'] exI[of _ e']) (simp add: l'_def e'_def same_loop_def)
qed

lemma del_timer_wf:
  assumes wf: "loop_wf (us @ a # vs) is l"
  shows "\<exists>l'. nv_loop_del_timer a l = Some l' \<and> loop_wf (us @ vs) is l' \<and> same_loop l l'"
proof -
  have rep: "ev_list (l_mem l) (l_timers_head l) (us @ a # vs)" using wf by (simp add: loop_wf_def)
  obtain e where e: "l_mem l a = Some e" and a0: "a \<noteq> NULL" using ev_list_live[OF rep, of a] by auto
  obtain k where seg: "dseg ev_prev ev_next (l_mem l) NULL (l_timers_head l) (us @ a # vs) k NULL" using rep by (auto simp: ev_list_def)
  note un = evl.unlink[OF seg e]
  define e' where "e' = e\<lparr>ev_next := NULL, ev_prev := NULL, ev_loop := False\<rparr>"
  define h where "h = upd_at (ev_next e) (\<lambda>n. n\<lparr>ev_prev := ev_prev e\<rparr>) (upd_at (ev_prev e) (\<lambda>n. n\<lparr>ev_next := ev_next e\<rparr>) (l_mem l))"
  define l' where "l' = l\<lparr>l_mem := h(a \<mapsto> e'), l_timers_head := if us = [] then ev_next e else l_timers_head l\<rparr>"
  have del: "nv_loop_del_timer a l = Some l'"
    using a0 by (simp add: nv_loop_del_timer_def remove_eq[OF rep e] ev_upd_live l'_def e'_def h_def)
  have aus: "a \<notin> set (us @ vs)" using ev_list_distinct[OF rep] by simp
  have others: "h b = l_mem l b" if "b \<notin> set (us @ vs)" for b
    using that un(4,5) by (auto simp: h_def upd_at_apply upd_at_def)
  have act: "map_option ev_active ((h(a \<mapsto> e')) b) = map_option ev_active (l_mem l b)" for b
    using e by (cases "l_mem l b") (auto simp: h_def e'_def upd_at_apply)
  have "loop_wf (us @ vs) is l'"
  proof (rule loop_wfI[OF wf])
    have "ev_list h (if us = [] then ev_next e else l_timers_head l) (us @ vs)" using un(1) by (simp add: ev_list_def h_def)
    then have "ev_list (h(a \<mapsto> e')) (if us = [] then ev_next e else l_timers_head l) (us @ vs)"
      by (rule ev_list_view) (use aus in auto)
    then show "ev_list (l_mem l') (l_timers_head l') (us @ vs)" by (simp add: l'_def)
    have out: "(h(a \<mapsto> e')) b = l_mem l b" if "b \<in> set is" for b using wf that others by (auto simp: loop_wf_def)
    show "ev_list (l_mem l') (l_idle_head l') is" unfolding l'_def
      by simp (rule ev_list_view[of "l_mem l"], use wf out in \<open>simp_all add: loop_wf_def\<close>)
    show "idle_events ((us @ vs) @ is) (l_mem l')" unfolding l'_def
      by simp (rule idle_events_cong[OF _ act], use wf in \<open>auto simp: loop_wf_def idle_events_def\<close>)
    show "l_signalfd_ev l \<noteq> NULL \<longrightarrow> l_signalfd_ev l \<notin> set ((us @ vs) @ is) \<and> l_mem l' (l_signalfd_ev l) \<noteq> None"
      using wf others by (auto simp: loop_wf_def l'_def)
  qed (use wf in \<open>auto simp: loop_wf_def l'_def\<close>)
  then show ?thesis using del by (auto simp: l'_def same_loop_def)
qed

text \<open>A timer that was never armed: the removal sets the head of the list to its next pointer, NULL.\<close>

lemma del_unlinked_wf:
  assumes wf: "loop_wf [] is l" and a: "a \<noteq> NULL" "a \<notin> set is" "a \<noteq> l_signalfd_ev l" "l_mem l a = Some e" "ev_next e = NULL" "ev_prev e = NULL"
  shows "\<exists>l'. nv_loop_del_timer a l = Some l' \<and> loop_wf [] is l' \<and> same_loop l l'"
proof -
  define l' where "l' = l\<lparr>l_mem := (l_mem l)(a \<mapsto> e\<lparr>ev_next := NULL, ev_prev := NULL, ev_loop := False\<rparr>), l_timers_head := NULL\<rparr>"
  have "nv_loop_del_timer a l = Some l'"
    using a by (simp add: nv_loop_del_timer_def nv_loop_remove_event_from_list_def ev_upd_live l'_def)
  moreover have "loop_wf [] is l'"
  proof (rule loop_wfI[OF wf])
    show "ev_list (l_mem l') (l_idle_head l') is"
      by (rule ev_list_view[of "l_mem l"]) (use wf a(2) in \<open>auto simp: loop_wf_def l'_def\<close>)
    show "idle_events ([] @ is) (l_mem l')" using wf a(2) by (auto simp: loop_wf_def idle_events_def l'_def)
  qed (use wf a(3) in \<open>auto simp: loop_wf_def l'_def ev_list_def\<close>)
  ultimately show ?thesis by (auto simp: l'_def same_loop_def)
qed

section \<open>Releasing the modules\<close>

definition telnet_ok :: "telnet_server \<Rightarrow> bool" where
  "telnet_ok t \<longleftrightarrow> telnet_inited t \<or> telnet_listen_fd t < 0"

definition ctl_ok :: "ctl_server \<Rightarrow> bool" where
  "ctl_ok c \<longleftrightarrow> ctl_inited c \<or> ctl_listen_fd c < 0"

definition pool_ok :: "nv_conn_pool_t \<Rightarrow> bool" where
  "pool_ok p \<longleftrightarrow> pool_array p = None \<or> p_live p"

lemma remove_sessions:
  "g_telnet_sessions (fold nv_telnet_sess_remove xs t) = filter (\<lambda>(j, _). j \<notin> set xs) (g_telnet_sessions t) \<and>
   telnet_inited (fold nv_telnet_sess_remove xs t) = telnet_inited t \<and> telnet_listen_fd (fold nv_telnet_sess_remove xs t) = telnet_listen_fd t"
proof (induction xs arbitrary: t)
  case Nil
  then show ?case by (simp add: filter_True)
next
  case (Cons i xs)
  have "g_telnet_sessions (nv_telnet_sess_remove i t) = filter (\<lambda>(j, _). j \<noteq> i) (g_telnet_sessions t)"
    by (auto simp: nv_telnet_sess_remove_def map_of_eq_None_iff image_iff split: option.split intro!: filter_True[symmetric])
  moreover have "telnet_inited (nv_telnet_sess_remove i t) = telnet_inited t" "telnet_listen_fd (nv_telnet_sess_remove i t) = telnet_listen_fd t"
    by (simp_all add: nv_telnet_sess_remove_def split: option.split)
  ultimately show ?case using Cons[of "nv_telnet_sess_remove i t"] by (auto intro!: filter_cong)
qed

lemma telnet_down:
  assumes "telnet_ok t"
  shows "g_telnet_sessions (nv_core_telnet_cleanup t) = [] \<and> telnet_listen_fd (nv_core_telnet_cleanup t) < 0 \<and> \<not> telnet_inited (nv_core_telnet_cleanup t)"
proof -
  define u where "u = fold nv_telnet_sess_remove (map fst (g_telnet_sessions t)) t"
  have u: "g_telnet_sessions u = []" "telnet_inited u = telnet_inited t" "telnet_listen_fd u = telnet_listen_fd t"
    using remove_sessions[of "map fst (g_telnet_sessions t)" t] by (simp_all add: u_def filter_empty_conv image_iff) force
  show ?thesis unfolding nv_core_telnet_cleanup_def Let_def u_def[symmetric]
    using u assms by (auto simp: telnet_ok_def)
qed

lemma ctl_down: "ctl_ok c \<Longrightarrow> ctl_listen_fd (nv_core_ctl_cleanup c) < 0 \<and> \<not> ctl_inited (nv_core_ctl_cleanup c)"
  by (auto simp: ctl_ok_def nv_core_ctl_cleanup_def)

lemma pool_down:
  "pool_ok p \<Longrightarrow> \<exists>q. nv_tcp_pool_destroy p = Some q \<and> pool_array q = None"
  "pool_ok p \<Longrightarrow> \<exists>q. nv_udp_pool_destroy p = Some q \<and> pool_array q = None"
  by (auto simp: pool_ok_def nv_tcp_pool_destroy_def nv_udp_pool_destroy_def)

text \<open>A process whose modules can be torn down, and what it looks like afterwards.\<close>

definition timers_known :: "statics \<Rightarrow> addr list \<Rightarrow> addr list \<Rightarrow> service \<Rightarrow> bool" where
  "timers_known st ts is v \<longleftrightarrow> loop_wf ts is (sv_loop v) \<and> g_mod_tick_ev st \<noteq> NULL \<and> heartbeat_ev st \<noteq> g_mod_tick_ev st \<and>
     (if health_inited v \<and> heartbeat_interval_sec (opts (sv_ctx v)) > 0 then ts = [heartbeat_ev st, g_mod_tick_ev st]
      else ts = [g_mod_tick_ev st] \<or>
        ts = [] \<and> g_mod_tick_ev st \<notin> set is \<and> g_mod_tick_ev st \<noteq> l_signalfd_ev (sv_loop v) \<and>
          (\<exists>e. l_mem (sv_loop v) (g_mod_tick_ev st) = Some e \<and> ev_next e = NULL \<and> ev_prev e = NULL))"

definition business_up :: "statics \<Rightarrow> addr list \<Rightarrow> addr list \<Rightarrow> business \<Rightarrow> bool" where
  "business_up st ts is z \<longleftrightarrow> timers_known st ts is (bz_sv z) \<and> (health_inited (bz_sv z) \<or> g_wdt_fd (bz_sv z) < 0) \<and>
     pool_ok (g_tcp_pool z) \<and> pool_ok (g_udp_pool z) \<and> ctl_ok (bz_ctl z) \<and> telnet_ok (bz_telnet z)"

definition business_clean :: "business \<Rightarrow> bool" where
  "business_clean z \<longleftrightarrow> loop_released (bz_loop z) \<and> bz_threads z = None \<and> \<not> bz_mq z \<and>
     pool_array (g_tcp_pool z) = None \<and> pool_array (g_udp_pool z) = None \<and>
     g_signalfd (bz_sig z) = -1 \<and> g_slots (bz_sig z) = zero_slots \<and> g_cli_cmds (bz_cli z) = [] \<and>
     ctl_listen_fd (bz_ctl z) < 0 \<and> telnet_listen_fd (bz_telnet z) < 0 \<and> g_telnet_sessions (bz_telnet z) = [] \<and>
     \<not> health_inited (bz_sv z) \<and> g_wdt_fd (bz_sv z) < 0"

lemma notify_frame2:
  "health_inited (snd (nv_core_systemd_notify sock socket_ok send_ok state v)) = health_inited v"
  "fatal_signum (snd (nv_core_systemd_notify sock socket_ok send_ok state v)) = fatal_signum v"
  "exit_status (snd (nv_core_systemd_notify sock socket_ok send_ok state v)) = exit_status v"
  "g_wdt_fd (snd (nv_core_systemd_notify sock socket_ok send_ok state v)) = g_wdt_fd v"
  by (simp_all add: nv_core_systemd_notify_def split: prod.split)

lemma health_down:
  assumes "timers_known st ts is v" "health_inited v \<or> g_wdt_fd v < 0"
  shows "\<exists>v' ts'. nv_core_health_cleanup sock socket_ok send_ok (heartbeat_ev st) v = Some v' \<and> timers_known st ts' is v' \<and>
    \<not> health_inited v' \<and> g_wdt_fd v' < 0 \<and> sv_ctx v' = sv_ctx v"
proof (cases "health_inited v")
  case False
  then show ?thesis using assms by (auto simp: nv_core_health_cleanup_def)
next
  case True
  define u where "u = (if g_systemd_notify v then snd (nv_core_systemd_notify sock socket_ok send_ok ''STOPPING=1'' v) else v)"
  have u: "sv_loop u = sv_loop v" "sv_ctx u = sv_ctx v" by (simp_all add: u_def notify_frame)
  have close: "sv_loop (nv_watchdog_close w) = sv_loop w" "sv_ctx (nv_watchdog_close w) = sv_ctx w" "g_wdt_fd (nv_watchdog_close w) < 0" for w
    by (simp_all add: nv_watchdog_close_def)
  show ?thesis
  proof (cases "heartbeat_interval_sec (opts (sv_ctx v)) > 0")
    case beat: True
    then have "loop_wf ([] @ heartbeat_ev st # [g_mod_tick_ev st]) is (sv_loop v)" using assms(1) True by (auto simp: timers_known_def)
    from del_timer_wf[OF this] obtain l where l: "nv_loop_del_timer (heartbeat_ev st) (sv_loop v) = Some l" "loop_wf [g_mod_tick_ev st] is l"
      by auto
    define v' where "v' = (nv_watchdog_close (u\<lparr>sv_loop := l\<rparr>))\<lparr>health_inited := False, g_systemd_notify := False\<rparr>"
    have "nv_core_health_cleanup sock socket_ok send_ok (heartbeat_ev st) v = Some v'"
      unfolding nv_core_health_cleanup_def Let_def u_def[symmetric] using True beat l(1) u by (simp add: v'_def)
    moreover have "timers_known st [g_mod_tick_ev st] is v'" using l(2) assms(1) by (simp add: timers_known_def v'_def close)
    ultimately show ?thesis by (intro exI[of _ v'] exI[of _ "[g_mod_tick_ev st]"]) (simp add: v'_def close u)
  next
    case False
    define v' where "v' = (nv_watchdog_close (u\<lparr>sv_loop := sv_loop u\<rparr>))\<lparr>health_inited := False, g_systemd_notify := False\<rparr>"
    have "nv_core_health_cleanup sock socket_ok send_ok (heartbeat_ev st) v = Some v'"
      unfolding nv_core_health_cleanup_def Let_def u_def[symmetric] using True False u by (simp add: v'_def)
    moreover have "timers_known st ts is v'" using False assms(1) by (simp add: timers_known_def v'_def close u)
    ultimately show ?thesis by (intro exI[of _ v'] exI[of _ ts]) (simp add: v'_def close u)
  qed
qed

lemma modules_down:
  assumes "timers_known st ts is (bz_sv z)" "\<not> health_inited (bz_sv z)" "pool_ok (g_tcp_pool z)" "pool_ok (g_udp_pool z)"
  shows "\<exists>l t u. nv_core_modules_cleanup st z = Some (set_loop l (z\<lparr>g_tcp_pool := t, g_udp_pool := u\<rparr>)) \<and> loop_wf [] is l \<and>
    pool_array t = None \<and> pool_array u = None"
proof -
  obtain t u where pools: "nv_tcp_pool_destroy (g_tcp_pool z) = Some t" "pool_array t = None"
    "nv_udp_pool_destroy (g_udp_pool z) = Some u" "pool_array u = None" using pool_down assms(3,4) by metis
  have wf: "loop_wf ts is (bz_loop z)" using assms(1) by (simp add: timers_known_def bz_loop_def)
  have tick: "ts = [g_mod_tick_ev st] \<or> ts = [] \<and> g_mod_tick_ev st \<notin> set is \<and> g_mod_tick_ev st \<noteq> l_signalfd_ev (bz_loop z) \<and>
      (\<exists>e. l_mem (bz_loop z) (g_mod_tick_ev st) = Some e \<and> ev_next e = NULL \<and> ev_prev e = NULL)" "g_mod_tick_ev st \<noteq> NULL"
    using assms(1,2) by (auto simp: timers_known_def bz_loop_def)
  obtain l where "nv_loop_del_timer (g_mod_tick_ev st) (bz_loop z) = Some l" "loop_wf [] is l"
    using tick(1)
  proof
    assume "ts = [g_mod_tick_ev st]"
    then show thesis using del_timer_wf[of "[]" "g_mod_tick_ev st" "[]" "is" "bz_loop z"] wf that by auto
  next
    assume t: "ts = [] \<and> g_mod_tick_ev st \<notin> set is \<and> g_mod_tick_ev st \<noteq> l_signalfd_ev (bz_loop z) \<and>
      (\<exists>e. l_mem (bz_loop z) (g_mod_tick_ev st) = Some e \<and> ev_next e = NULL \<and> ev_prev e = NULL)"
    then show thesis using del_unlinked_wf[of "is" "bz_loop z" "g_mod_tick_ev st"] wf tick(2) that by auto
  qed
  then show ?thesis using pools
    by (auto simp: nv_core_modules_cleanup_def nv_mod_network_loop_cleanup_def nv_mod_event_loop_cleanup_def bz_loop_def)
qed

lemma cleanup_clean:
  assumes "business_up st ts is z"
  shows "\<exists>z'. nv_core_business_cleanup st sock socket_ok send_ok z = Some z' \<and> business_clean z' \<and> bz_ctx z' = bz_ctx z \<and>
    bz_destroyed z' = map_option (nv_threadpool_destroy NV_TP_SHUTDOWN_GRACEFUL) (bz_threads z)"
proof -
  obtain v ts' where v: "nv_core_health_cleanup sock socket_ok send_ok (heartbeat_ev st) (bz_sv z) = Some v" "timers_known st ts' is v"
    "\<not> health_inited v" "g_wdt_fd v < 0" "sv_ctx v = sv_ctx (bz_sv z)"
    using health_down[of st ts "is" "bz_sv z" sock socket_ok send_ok] assms by (auto simp: business_up_def)
  define y where "y = z\<lparr>bz_sv := v, bz_telnet := nv_core_telnet_cleanup (bz_telnet z), bz_ctl := nv_core_ctl_cleanup (bz_ctl z),
    bz_cli := nv_core_cli_cleanup (bz_cli z)\<rparr>"
  obtain l t u where m: "nv_core_modules_cleanup st y = Some (set_loop l (y\<lparr>g_tcp_pool := t, g_udp_pool := u\<rparr>))" "loop_wf [] is l"
    "pool_array t = None" "pool_array u = None"
    using modules_down[of st ts' "is" y] v assms by (auto simp: y_def business_up_def)
  obtain l' where l': "nv_loop_cleanup l = Some l'" "loop_released l'" using cleanup_released[OF m(2)] by blast
  have run: "nv_core_business_cleanup st sock socket_ok send_ok z =
      Some (set_loop l' ((set_loop l (y\<lparr>g_tcp_pool := t, g_udp_pool := u\<rparr>))\<lparr>bz_sig := nv_signal_shutdown (bz_sig z), bz_mq := False,
        bz_destroyed := map_option (nv_threadpool_destroy NV_TP_SHUTDOWN_GRACEFUL) (bz_threads z), bz_threads := None\<rparr>))"
    unfolding nv_core_business_cleanup_def v(1) bind.bind_lunit Let_def
    using m(1) l'(1) by (simp add: y_def set_loop_def bz_loop_def)
  have "telnet_ok (bz_telnet z)" "ctl_ok (bz_ctl z)" using assms by (simp_all add: business_up_def)
  note down = telnet_down[OF this(1)] ctl_down[OF this(2)]
  show ?thesis unfolding run
    using down m(3,4) l'(2) v by (simp add: business_clean_def set_loop_def bz_loop_def bz_ctx_def y_def nv_core_cli_cleanup_def
        nv_signal_shutdown_def kernel_unblock_def)
qed

section \<open>Setting up the modules\<close>

definition fresh_business :: "statics \<Rightarrow> business_env \<Rightarrow> business \<Rightarrow> bool" where
  "fresh_business st env z \<longleftrightarrow> distinct [NULL, g_mod_tick_ev st, heartbeat_ev st, g_idle_ev st] \<and>
     be_sig_ev env \<notin> {g_mod_tick_ev st, heartbeat_ev st, g_idle_ev st} \<and>
     l_mem (bz_loop z) (g_mod_tick_ev st) = Some zero_event \<and> bz_sig z = no_signals \<and> bz_threads z = None \<and>
     \<not> health_inited (bz_sv z) \<and> g_wdt_fd (bz_sv z) < 0 \<and> fatal_signum (bz_sv z) = 0 \<and> exit_status (bz_sv z) = None \<and>
     pool_array (g_tcp_pool z) = None \<and> pool_array (g_udp_pool z) = None \<and> ctl_ok (bz_ctl z) \<and> telnet_ok (bz_telnet z)"

lemma attach_wf:
  assumes "loop_wf [] [] l" "l_signalfd_ev l = NULL"
  shows "\<exists>rc l'. nv_loop_attach_signalfd nv_signalfd p ok fd l = Some (rc, l') \<and> loop_wf [] [] l' \<and> l_signalfd_ev l' \<in> {NULL, p} \<and>
    (\<forall>b. b \<noteq> p \<longrightarrow> l_mem l' b = l_mem l b) \<and> l_state l' = l_state l \<and>
    (rc = 0 \<longrightarrow> p \<noteq> NULL \<and> l_signalfd_ev l' = p \<and> l_signalfd_fd l' = fd \<and> fd \<ge> 0 \<and>
       (\<exists>e. l_mem l' p = Some e \<and> ev_handler e = Some nv_signalfd \<and> ev_loop e))"
proof -
  have heads: "l_timers_head l = NULL" "l_idle_head l = NULL" "l_signals l = []" using assms(1) by (auto simp: loop_wf_def ev_list_def)
  have wf: "loop_wf [] [] l' \<longleftrightarrow> l_timers_head l' = NULL \<and> l_idle_head l' = NULL \<and> l_signals l' = [] \<and>
      (l_signalfd_ev l' \<noteq> NULL \<longrightarrow> l_mem l' (l_signalfd_ev l') \<noteq> None)" for l' :: "core_handler nv_loop_t"
    by (auto simp: loop_wf_def ev_list_def idle_events_def)
  show ?thesis
  proof (cases "fd < 0 \<or> l_epoll_fd l < 0")
    case True
    then show ?thesis using assms by (simp add: nv_loop_attach_signalfd_def)
  next
    case False
    show ?thesis
    proof (cases "p = NULL \<or> \<not> ok")
      case True
      then show ?thesis using False assms(2) heads
        by (auto simp: nv_loop_attach_signalfd_def nv_loop_add_event_def ev_upd_live wf store_free_def Let_def)
    next
      case ok: False
      then show ?thesis using False assms(2) heads
        by (simp add: nv_loop_attach_signalfd_def nv_loop_add_event_def ev_upd_live wf Let_def)
    qed
  qed
qed

lemma loop_init_wf:
  assumes "nv_loop_init n fd malloc_ok pipe_ok l = (rc, l')"
  shows "loop_wf [] [] l' \<and> l_signalfd_ev l' = NULL \<and> l_mem l' = l_mem l \<and> l_state l' = NV_LOOP_INIT"
  using assms by (auto simp: nv_loop_init_def loop_wf_def ev_list_def idle_events_def Let_def split: if_splits)

lemma pool_created:
  "mutex_ok \<Longrightarrow> pool_ok (snd (nv_tcp_pool_create mem mutex_ok maxc p))"
  "mutex_ok \<Longrightarrow> pool_ok (snd (nv_udp_pool_create mem mutex_ok maxc p))"
  by (auto simp: pool_ok_def nv_tcp_pool_create_def nv_udp_pool_create_def Let_def)

lemma ctl_init_ok: "ctl_ok c \<Longrightarrow> ctl_ok (snd (nv_core_ctl_init sfd bind_ok listen_ok add_ok ctx c))"
  by (auto simp: nv_core_ctl_init_def ctl_ok_def)

lemma telnet_init_ok: "telnet_ok t \<Longrightarrow> telnet_ok (snd (nv_core_telnet_init os ctx t))"
  unfolding nv_core_telnet_init_def telnet_ok_def by (simp split del: if_split split: if_splits) auto

lemma consoles_ok:
  assumes "ctl_ok (bz_ctl z)" "telnet_ok (bz_telnet z)"
  shows "ctl_ok (bz_ctl (init_consoles env z)) \<and> telnet_ok (bz_telnet (init_consoles env z)) \<and> bz_sv (init_consoles env z) = bz_sv z \<and>
    bz_sig (init_consoles env z) = bz_sig z \<and> bz_threads (init_consoles env z) = bz_threads z \<and>
    g_tcp_pool (init_consoles env z) = g_tcp_pool z \<and> g_udp_pool (init_consoles env z) = g_udp_pool z"
  using assms by (simp add: init_consoles_def Let_def ctl_init_ok telnet_init_ok split: prod.split)

text \<open>What the registration of the signals leaves.\<close>

definition core_regs :: "(int \<times> core_signal) list" where
  "core_regs = map (\<lambda>n. (n, on_core_signal)) [SIGINT, SIGTERM, SIGHUP, SIGUSR1]"

definition signal_ready :: "business_env \<Rightarrow> business \<Rightarrow> bool" where
  "signal_ready env z \<longleftrightarrow> be_sig_ev env \<noteq> NULL \<and> l_signalfd_ev (bz_loop z) = be_sig_ev env \<and>
     l_signalfd_fd (bz_loop z) = nv_signal_fd (bz_sig z) \<and> nv_signal_fd (bz_sig z) \<ge> 0 \<and>
     (\<exists>e. l_mem (bz_loop z) (be_sig_ev env) = Some e \<and> ev_handler e = Some nv_signalfd \<and> ev_loop e) \<and>
     (worker_processes (opts (bz_ctx z)) \<le> 1 \<longrightarrow> register_all (be_sfd env) core_regs no_signals = (0, bz_sig z))"

text \<open>The first registration would have initialised the table as well.\<close>

lemma register_after_init:
  assumes "nv_signal_init sfd s = (0, s1)" "\<not> g_inited s" "0 < n" "n < NSIG"
  shows "register_all sfd ((n, h) # xs) s1 = register_all sfd ((n, h) # xs) s"
proof -
  have "g_inited s1" using assms by (auto simp: nv_signal_init_def split: prod.splits if_splits)
  then have "nv_signal_register sfd n (Some h) s1 = nv_signal_register sfd n (Some h) s"
    using assms by (simp add: nv_signal_register_def)
  then show ?thesis by simp
qed

lemma set_loop_simps [simp]:
  "bz_loop (set_loop l z) = l" "bz_ctx (set_loop l z) = bz_ctx z" "bz_sig (set_loop l z) = bz_sig z"
  "bz_loop (z\<lparr>bz_sig := s\<rparr>) = bz_loop z" "bz_ctx (z\<lparr>bz_sig := s\<rparr>) = bz_ctx z"
  by (simp_all add: set_loop_def bz_loop_def bz_ctx_def)

lemma register_up:
  assumes "loop_wf [] [] (bz_loop z)" "l_signalfd_ev (bz_loop z) = NULL" "bz_sig z = no_signals"
  shows "\<exists>rc s l. nv_core_signals_register_loop env z = Some (rc, set_loop l (z\<lparr>bz_sig := s\<rparr>)) \<and> loop_wf [] [] l \<and>
    l_signalfd_ev l \<in> {NULL, be_sig_ev env} \<and> (\<forall>b. b \<noteq> be_sig_ev env \<longrightarrow> l_mem l b = l_mem (bz_loop z) b) \<and> l_state l = l_state (bz_loop z) \<and>
    (rc = NV_OK \<longrightarrow> signal_ready env (set_loop l (z\<lparr>bz_sig := s\<rparr>)))"
proof -
  obtain rc s where i: "nv_signal_init (be_sfd env) (bz_sig z) = (rc, s)" by force
  obtain rc' s' where r: "register_all (be_sfd env) core_regs s = (rc', s')" by force
  have same: "z\<lparr>bz_sig := x\<rparr> = set_loop (bz_loop z) (z\<lparr>bz_sig := x\<rparr>)" for x by (simp add: set_loop_def bz_loop_def)
  define s2 where "s2 = (if worker_processes (opts (bz_ctx z)) > 1 then snd (nv_signal_register (be_sfd env) SIGCHLD (Some on_core_signal) s') else s')"
  obtain rc2 l where l: "nv_loop_attach_signalfd nv_signalfd (be_sig_ev env) (be_sig_add env) (nv_signal_fd s2) (bz_loop z) = Some (rc2, l)" "loop_wf [] [] l"
    "l_signalfd_ev l \<in> {NULL, be_sig_ev env}" "\<forall>b. b \<noteq> be_sig_ev env \<longrightarrow> l_mem l b = l_mem (bz_loop z) b" "l_state l = l_state (bz_loop z)"
    "rc2 = 0 \<longrightarrow> be_sig_ev env \<noteq> NULL \<and> l_signalfd_ev l = be_sig_ev env \<and> l_signalfd_fd l = nv_signal_fd s2 \<and> nv_signal_fd s2 \<ge> 0 \<and>
       (\<exists>e. l_mem l (be_sig_ev env) = Some e \<and> ev_handler e = Some nv_signalfd \<and> ev_loop e)"
    using attach_wf[OF assms(1,2), of "be_sig_ev env" "be_sig_add env" "nv_signal_fd s2"] by blast
  have def': "nv_core_signals_register_loop env z = (if rc \<noteq> 0 then Some (NV_ERROR, z\<lparr>bz_sig := s\<rparr>) else if rc' \<noteq> 0 then Some (NV_ERROR, z\<lparr>bz_sig := s'\<rparr>)
      else Some (if rc2 \<noteq> 0 then NV_ERROR else NV_OK, set_loop l (z\<lparr>bz_sig := s2\<rparr>)))"
    unfolding nv_core_signals_register_loop_def i core_regs_def[symmetric] r prod.case Let_def s2_def[symmetric] l(1) option.case ..
  show ?thesis
  proof (cases "rc \<noteq> 0 \<or> rc' \<noteq> 0")
    case True
    then obtain x where "nv_core_signals_register_loop env z = Some (NV_ERROR, set_loop (bz_loop z) (z\<lparr>bz_sig := x\<rparr>))"
      unfolding def' same[symmetric] by (cases "rc \<noteq> 0") auto
    then show ?thesis using assms by (auto simp: NV_OK_def NV_ERROR_def)
  next
    case False
    have "\<not> g_inited (no_signals :: core_signal signals)" by (simp add: no_signals_def)
    then have "register_all (be_sfd env) core_regs no_signals = (0, s')"
      using register_after_init[of "be_sfd env" "bz_sig z" s] i r False assms(3) by (simp add: core_regs_def SIGINT_def NSIG_def del: register_all.simps)
    then have "rc2 = 0 \<longrightarrow> signal_ready env (set_loop l (z\<lparr>bz_sig := s2\<rparr>))" using l(6) by (auto simp: signal_ready_def s2_def)
    then show ?thesis using False l(2-5) unfolding def' by (auto simp: NV_OK_def NV_ERROR_def)
  qed
qed

lemma module_timer:
  assumes "loop_wf [] [] l" "tick \<noteq> NULL" "tick \<noteq> l_signalfd_ev l"
  shows "\<exists>l'. nv_mod_event_loop_init now tick l = Some l' \<and> loop_wf [tick] [] l' \<and> same_loop l l' \<and>
    (\<forall>b. b \<noteq> tick \<longrightarrow> l_mem l' b = l_mem l b) \<and> expiry (l_mem l') tick = ulong (now + 5000)"
proof -
  define e where "e = zero_event\<lparr>ev_type := NV_EVENT_TYPE_TIMER, ev_handler := Some nv_mod_tick\<rparr>"
  have "loop_wf [] [] (put_event tick e l)"
    by (rule loop_wfI[OF assms(1)]) (use assms in \<open>auto simp: loop_wf_def ev_list_def idle_events_def put_event_def\<close>)
  moreover have "same_loop l (put_event tick e l)" "l_mem (put_event tick e l) = (l_mem l)(tick \<mapsto> e)" "\<not> ev_active e"
    by (simp_all add: same_loop_def put_event_def e_def zero_event_def)
  ultimately show ?thesis using add_timer_wf[of "[]" "[]" "put_event tick e l" tick e now 5000] assms(2,3)
    by (auto simp: nv_mod_event_loop_init_def e_def[symmetric] same_loop_def)
qed

text \<open>The process before the modules are set up.\<close>

definition bare :: "statics \<Rightarrow> business \<Rightarrow> bool" where
  "bare st z \<longleftrightarrow> loop_wf [] [] (bz_loop z) \<and> l_mem (bz_loop z) (g_mod_tick_ev st) = Some zero_event \<and> g_mod_tick_ev st \<noteq> NULL \<and>
     heartbeat_ev st \<noteq> g_mod_tick_ev st \<and> g_mod_tick_ev st \<noteq> l_signalfd_ev (bz_loop z) \<and> \<not> health_inited (bz_sv z) \<and> g_wdt_fd (bz_sv z) < 0 \<and>
     fatal_signum (bz_sv z) = 0 \<and> exit_status (bz_sv z) = None \<and> pool_array (g_tcp_pool z) = None \<and> pool_array (g_udp_pool z) = None \<and>
     ctl_ok (bz_ctl z) \<and> telnet_ok (bz_telnet z)"

lemma bare_up: "bare st z \<Longrightarrow> business_up st [] [] z"
  by (auto simp: bare_def business_up_def timers_known_def pool_ok_def bz_loop_def zero_event_def)

lemma bare_set_loop:
  assumes "bare st z" "loop_wf [] [] l" "l_mem l (g_mod_tick_ev st) = Some zero_event" "g_mod_tick_ev st \<noteq> l_signalfd_ev l"
  shows "bare st (set_loop l (z\<lparr>bz_sig := s\<rparr>))"
  using assms by (simp add: bare_def set_loop_def bz_loop_def)

lemma fresh_bare:
  assumes fresh: "fresh_business st env z" and l: "nv_loop_init n fd malloc_ok pipe_ok (bz_loop z) = (rc, l)"
  shows "bare st (set_loop l (set_phase ph z)) \<and> bz_sig (set_loop l (set_phase ph z)) = no_signals \<and> l_signalfd_ev l = NULL \<and> l_state l = NV_LOOP_INIT"
  using fresh loop_init_wf[OF l]
  by (auto simp: fresh_business_def bare_def set_loop_def set_phase_def bz_loop_def upd_sv_def)

lemma modules_up:
  assumes bare: "bare st z" and mutex: "snd (be_tcp env)" "snd (be_udp env)"
  shows "\<exists>z'. nv_core_modules_init st env z = Some (NV_OK, z') \<and> business_up st [g_mod_tick_ev st] [] (init_consoles env z') \<and>
    bz_ctx z' = bz_ctx z \<and> health_inited (bz_sv z') = health_inited (bz_sv z) \<and> fatal_signum (bz_sv z') = fatal_signum (bz_sv z) \<and>
    exit_status (bz_sv z') = exit_status (bz_sv z) \<and> bz_sig z' = bz_sig z \<and> same_loop (bz_loop z) (bz_loop z') \<and>
    bz_ctl z' = bz_ctl z \<and> bz_telnet z' = bz_telnet z \<and> (\<forall>b. b \<noteq> g_mod_tick_ev st \<longrightarrow> l_mem (bz_loop z') b = l_mem (bz_loop z) b) \<and>
    expiry (l_mem (bz_loop z')) (g_mod_tick_ev st) = ulong (be_clock env + 5000)"
proof -
  note b = bare[unfolded bare_def]
  obtain l where l: "nv_mod_event_loop_init (be_clock env) (g_mod_tick_ev st) (bz_loop z) = Some l" "loop_wf [g_mod_tick_ev st] [] l"
    "same_loop (bz_loop z) l" "\<forall>b. b \<noteq> g_mod_tick_ev st \<longrightarrow> l_mem l b = l_mem (bz_loop z) b"
    "expiry (l_mem l) (g_mod_tick_ev st) = ulong (be_clock env + 5000)"
    using module_timer[of "bz_loop z" "g_mod_tick_ev st" "be_clock env"] b by blast
  define z' where "z' = snd (nv_mod_network_loop_init env (set_loop l z))"
  have z': "bz_sv z' = (bz_sv z)\<lparr>sv_loop := l\<rparr>" "bz_loop z' = l" "bz_sig z' = bz_sig z" "bz_ctl z' = bz_ctl z" "bz_telnet z' = bz_telnet z"
    "pool_ok (g_tcp_pool z')" "pool_ok (g_udp_pool z')"
    using mutex by (simp_all add: z'_def nv_mod_network_loop_init_def Let_def set_loop_def bz_loop_def pool_created)
  have "nv_core_modules_init st env z = Some (NV_OK, z')"
    using l(1) by (simp add: nv_core_modules_init_def z'_def nv_mod_network_loop_init_def Let_def)
  moreover have "business_up st [g_mod_tick_ev st] [] (init_consoles env z')"
    using consoles_ok[of z' env] z' b l(2) by (simp add: business_up_def timers_known_def)
  ultimately show ?thesis using z' l by (intro exI[of _ z']) (simp add: bz_ctx_def)
qed

text \<open>The initialisation returns whatever the calls answer, and leaves a process that can be torn down.\<close>

lemma init_up:
  assumes fresh: "fresh_business st env z" and mutex: "snd (be_tcp env)" "snd (be_udp env)"
  shows "\<exists>rc z' ts. nv_core_business_init st env z = Some (rc, z') \<and> business_up st ts [] z' \<and>
    bz_ctx z' = (bz_ctx z)\<lparr>phase := NV_CORE_PHASE_BUSINESS\<rparr> \<and> fatal_signum (bz_sv z') = 0 \<and> exit_status (bz_sv z') = None \<and>
    (rc = NV_OK \<or> rc = NV_ERROR) \<and>
    (rc = NV_OK \<longrightarrow> ts = [g_mod_tick_ev st] \<and> signal_ready env z' \<and> l_state (bz_loop z') = NV_LOOP_INIT \<and> \<not> health_inited (bz_sv z') \<and>
       expiry (l_mem (bz_loop z')) (g_mod_tick_ev st) = ulong (be_clock env + 5000))"
    (is "\<exists>rc z' ts. _ \<and> ?ok rc z' ts")
proof -
  let ?tick = "g_mod_tick_ev st"
  have failed: "?thesis" if "nv_core_business_init st env z = Some (NV_ERROR, y)" "bare st y" "bz_ctx y = (bz_ctx z)\<lparr>phase := NV_CORE_PHASE_BUSINESS\<rparr>" for y
    by (rule exI[of _ NV_ERROR], rule exI[of _ y], rule exI[of _ "[]"])
       (use that bare_up[OF that(2)] in \<open>auto simp: bare_def NV_OK_def NV_ERROR_def\<close>)
  define z0 where "z0 = set_phase NV_CORE_PHASE_BUSINESS z"
  have c0: "bz_ctx z0 = (bz_ctx z)\<lparr>phase := NV_CORE_PHASE_BUSINESS\<rparr>" "bz_loop z0 = bz_loop z"
    by (simp_all add: z0_def set_phase_def bz_ctx_def bz_loop_def upd_sv_def)
  obtain rc l where l: "nv_loop_init (worker_connections (opts (bz_ctx z0))) (be_epoll env) (be_events env) (be_pipe env) (bz_loop z0) = (rc, l)" by force
  define z1 where "z1 = set_loop l z0"
  have z1: "bare st z1" "bz_sig z1 = no_signals" "l_signalfd_ev (bz_loop z1) = NULL" "l_state (bz_loop z1) = NV_LOOP_INIT" "bz_ctx z1 = bz_ctx z0"
    using fresh_bare[OF fresh, of "worker_connections (opts (bz_ctx z0))" "be_epoll env" "be_events env" "be_pipe env" rc l] l c0(2)
    by (simp_all add: z1_def z0_def)
  obtain rc2 s l2 where r: "nv_core_signals_register_loop env z1 = Some (rc2, set_loop l2 (z1\<lparr>bz_sig := s\<rparr>))" "loop_wf [] [] l2"
    "l_signalfd_ev l2 \<in> {NULL, be_sig_ev env}" "\<forall>b. b \<noteq> be_sig_ev env \<longrightarrow> l_mem l2 b = l_mem (bz_loop z1) b" "l_state l2 = l_state (bz_loop z1)"
    "rc2 = NV_OK \<longrightarrow> signal_ready env (set_loop l2 (z1\<lparr>bz_sig := s\<rparr>))"
    using register_up[of z1 env] z1(1-3) by (auto simp: bare_def)
  define z2 where "z2 = set_loop l2 (z1\<lparr>bz_sig := s\<rparr>)"
  have tick: "be_sig_ev env \<noteq> ?tick" using fresh by (simp add: fresh_business_def)
  have z2: "bare st z2" "bz_ctx z2 = bz_ctx z0" unfolding z2_def
    by (rule bare_set_loop[OF z1(1)]) (use r tick z1 in \<open>auto simp: bare_def\<close>)
  define z3 where "z3 = z2\<lparr>bz_threads := nv_threadpool_create (worker_threads (opts (bz_ctx z2))) 256 (be_threads env) (be_ring env)\<rparr>"
  have z3: "bare st z3" "bz_ctx z3 = bz_ctx z0" using z2 by (simp_all add: z3_def bare_def bz_loop_def bz_ctx_def)
  define z4 where "z4 = z3\<lparr>bz_mq := be_mq env\<rparr>"
  have z4: "bare st z4" "bz_ctx z4 = bz_ctx z0" using z3 by (simp_all add: z4_def bare_def bz_loop_def bz_ctx_def)
  obtain z5 where z5: "nv_core_modules_init st env z4 = Some (NV_OK, z5)" "business_up st [?tick] [] (init_consoles env z5)"
    "bz_ctx z5 = bz_ctx z4" "health_inited (bz_sv z5) = health_inited (bz_sv z4)" "fatal_signum (bz_sv z5) = fatal_signum (bz_sv z4)"
    "exit_status (bz_sv z5) = exit_status (bz_sv z4)" "bz_sig z5 = bz_sig z4" "same_loop (bz_loop z4) (bz_loop z5)"
    "bz_ctl z5 = bz_ctl z4" "bz_telnet z5 = bz_telnet z4" "\<forall>b. b \<noteq> ?tick \<longrightarrow> l_mem (bz_loop z5) b = l_mem (bz_loop z4) b"
    "expiry (l_mem (bz_loop z5)) ?tick = ulong (be_clock env + 5000)"
    using modules_up[OF z4(1) mutex] by blast
  have run: "nv_core_business_init st env z = (if rc \<noteq> NV_OK then Some (NV_ERROR, z1) else if rc2 \<noteq> NV_OK then Some (NV_ERROR, z2)
      else if bz_threads z3 = None then Some (NV_ERROR, z3) else Some (NV_OK, init_consoles env z5))"
    unfolding nv_core_business_init_def Let_def z0_def[symmetric] l prod.case z1_def[symmetric] r(1) bind.bind_lunit z2_def[symmetric]
      z3_def[symmetric] z4_def[symmetric] z5(1) by simp
  consider "rc \<noteq> NV_OK" | "rc = NV_OK" "rc2 \<noteq> NV_OK" | "rc = NV_OK" "rc2 = NV_OK" "bz_threads z3 = None" | "rc = NV_OK" "rc2 = NV_OK" "bz_threads z3 \<noteq> None"
    by blast
  then show ?thesis
  proof cases
    case 4
    then have "signal_ready env z2" using r(6) by (simp add: z2_def)
    moreover have eq: "bz_loop z4 = bz_loop z2" "bz_sig z4 = bz_sig z2" by (simp_all add: z4_def z3_def bz_loop_def)
    moreover have con: "bz_loop (init_consoles env z5) = bz_loop z5" "bz_ctx (init_consoles env z5) = bz_ctx z5" "bz_sig (init_consoles env z5) = bz_sig z5"
      "bz_sv (init_consoles env z5) = bz_sv z5"
      using consoles_ok[of z5 env] z5(8-10) z4(1) by (simp_all add: bare_def bz_loop_def bz_ctx_def)
    ultimately have "signal_ready env (init_consoles env z5)"
      using z5(3,7,8,11) z4(2) z2(2) tick by (simp add: signal_ready_def same_loop_def)
    moreover have "l_state (bz_loop z5) = NV_LOOP_INIT" using z5(8) eq r(5) z1(4) by (simp add: same_loop_def z2_def)
    ultimately show ?thesis using run 4 z5 con z4 c0 by (auto simp: bare_def)
  qed (use failed run z1 z2 z3 c0 in auto)
qed


text \<open>A pool whose mutex could not be initialised is only skipped by the initialisation; the cleanup frees its array again.\<close>

lemma nv_mod_network_frees_twice:
  assumes "be_tcp env = (Some xs, False)"
  shows "nv_mod_network_loop_cleanup (snd (nv_mod_network_loop_init env z)) = None"
  using assms by (simp add: nv_mod_network_loop_cleanup_def nv_mod_network_loop_init_def nv_tcp_pool_create_def nv_tcp_pool_destroy_def Let_def)

section \<open>An initialisation that succeeds\<close>

lemma signals_registered:
  assumes reg: "register_all (be_sfd env) core_regs no_signals = (0, s)" and z: "bz_sig z = no_signals" "worker_processes (opts (bz_ctx z)) \<le> 1"
    and l: "l_signalfd_ev (bz_loop z) = NULL" "l_epoll_fd (bz_loop z) \<ge> 0" and env: "be_sig_ev env \<noteq> NULL" "be_sig_add env"
  shows "\<exists>l. nv_core_signals_register_loop env z = Some (NV_OK, set_loop l (z\<lparr>bz_sig := s\<rparr>))"
proof -
  obtain rc s0 where i: "nv_signal_init (be_sfd env) no_signals = (rc, s0 :: core_signal signals)" by force
  have n: "\<not> g_inited (no_signals :: core_signal signals)" by (simp add: no_signals_def)
  have "rc = 0"
  proof (rule ccontr)
    assume "rc \<noteq> 0"
    then have "fst (register_all (be_sfd env) core_regs no_signals) = -1"
      using i n by (simp add: core_regs_def nv_signal_register_def SIGINT_def NSIG_def)
    then show False using reg by simp
  qed
  then have "register_all (be_sfd env) core_regs s0 = (0, s)"
    using register_after_init[of "be_sfd env" no_signals s0] i n reg by (simp add: core_regs_def SIGINT_def NSIG_def del: register_all.simps)
  moreover have "nv_signal_fd s \<ge> 0" using registered(4)[OF reg, of SIGINT] by (simp add: nv_signal_fd_def core_regs_def)
  then obtain l where "nv_loop_attach_signalfd nv_signalfd (be_sig_ev env) (be_sig_add env) (nv_signal_fd s) (bz_loop z) = Some (0, l)"
    using l env by (simp add: nv_loop_attach_signalfd_def nv_loop_add_event_def ev_upd_live Let_def)
  ultimately show ?thesis using i \<open>rc = 0\<close> z unfolding nv_core_signals_register_loop_def core_regs_def[symmetric] by (auto simp: Let_def)
qed

text \<open>The initialisation succeeds when the system grants what it asks for.\<close>

lemma init_succeeds:
  assumes fresh: "fresh_business st env z" and mutex: "snd (be_tcp env)" "snd (be_udp env)"
    and grants: "be_epoll env \<ge> 0" "be_events env" "be_sig_ev env \<noteq> NULL" "be_sig_add env" "be_threads env"
      "register_all (be_sfd env) core_regs no_signals = (0, s)"
    and opts: "worker_processes (opts (bz_ctx z)) \<le> 1" "worker_threads (opts (bz_ctx z)) > 0"
  shows "\<exists>z'. nv_core_business_init st env z = Some (NV_OK, z') \<and> bz_threads z' \<noteq> None"
proof -
  define z0 where "z0 = set_phase NV_CORE_PHASE_BUSINESS z"
  have z0: "bz_loop z0 = bz_loop z" "opts (bz_ctx z0) = opts (bz_ctx z)" by (simp_all add: z0_def set_phase_def bz_loop_def bz_ctx_def upd_sv_def)
  obtain l where l: "nv_loop_init (worker_connections (opts (bz_ctx z0))) (be_epoll env) (be_events env) (be_pipe env) (bz_loop z0) = (NV_OK, l)" "l_epoll_fd l = be_epoll env"
    using grants(1,2) by (simp add: nv_loop_init_def Let_def NV_OK_def)
  define z1 where "z1 = set_loop l z0"
  have z1: "bare st z1" "bz_sig z1 = no_signals" "l_signalfd_ev (bz_loop z1) = NULL" "l_epoll_fd (bz_loop z1) \<ge> 0" "worker_processes (opts (bz_ctx z1)) \<le> 1"
    using fresh_bare[OF fresh l(1)[unfolded z0(1)], of NV_CORE_PHASE_BUSINESS] l(2) grants(1) opts(1) z0 by (simp_all add: z1_def z0_def)
  obtain l2 where r: "nv_core_signals_register_loop env z1 = Some (NV_OK, set_loop l2 (z1\<lparr>bz_sig := s\<rparr>))"
    using signals_registered[OF grants(6) z1(2,5,3,4) grants(3,4)] by blast
  have "loop_wf [] [] (bz_loop z1)" using z1(1) by (simp add: bare_def)
  from register_up[OF this z1(3,2), of env] r have l2: "loop_wf [] [] l2" "l_signalfd_ev l2 \<in> {NULL, be_sig_ev env}"
    "\<forall>b. b \<noteq> be_sig_ev env \<longrightarrow> l_mem l2 b = l_mem (bz_loop z1) b" by (auto dest: arg_cong[of _ _ bz_loop])
  define z2 where "z2 = set_loop l2 (z1\<lparr>bz_sig := s\<rparr>)"
  have tick: "be_sig_ev env \<noteq> g_mod_tick_ev st" using fresh by (simp add: fresh_business_def)
  have z2: "bare st z2" unfolding z2_def by (rule bare_set_loop[OF z1(1)]) (use l2 tick z1(1) in \<open>auto simp: bare_def\<close>)
  define t where "t = nv_threadpool_create (worker_threads (opts (bz_ctx z2))) 256 (be_threads env) (be_ring env)"
  have t: "t \<noteq> None" using opts(2) grants(5) z0(2) by (simp add: t_def nv_threadpool_create_def z2_def z1_def)
  define z3 where "z3 = z2\<lparr>bz_threads := t, bz_mq := be_mq env\<rparr>"
  have "bare st z3" using z2 by (simp add: z3_def bare_def bz_loop_def)
  from modules_up[OF this mutex] obtain z4 where z4: "nv_core_modules_init st env z3 = Some (NV_OK, z4)" "ctl_ok (bz_ctl z4)" "telnet_ok (bz_telnet z4)"
    using z2 by (auto simp: z3_def bare_def)
  have th: "bz_threads z4 = t" using z4(1) by (auto simp: nv_core_modules_init_def nv_mod_network_loop_init_def Let_def set_loop_def z3_def split: Option.bind_splits)
  have "nv_core_business_init st env z = Some (NV_OK, init_consoles env z4)"
    unfolding nv_core_business_init_def Let_def z0_def[symmetric] l(1) prod.case z1_def[symmetric] r bind.bind_lunit z2_def[symmetric]
    using t z4(1) by (auto simp: t_def[symmetric] z3_def)
  then show ?thesis using th t consoles_ok[OF z4(2,3), of env] by simp
qed

definition sample_statics :: statics where
  "sample_statics = \<lparr>g_mod_tick_ev = 16, heartbeat_ev = 32, g_idle_ev = 48\<rparr>"

definition sample_business_env :: business_env where
  "sample_business_env = \<lparr>be_epoll = 4, be_events = True, be_pipe = True, be_sfd = (\<lambda>fd. if fd < 0 then 5 else fd), be_sig_ev = 64, be_sig_add = True,
     be_threads = True, be_ring = replicate 256 0, be_mq = True, be_tcp = (Some (replicate 128 0), True), be_udp = (None, True), be_cli = True,
     be_ctl = (6, True, True, True), be_telnet = \<lparr>os_socket = 7, os_pton = True, os_bind = False, os_listen = True, os_add = True\<rparr>, be_clock = 100\<rparr>"

definition no_business :: "nv_core_ctx_t \<Rightarrow> business" where
  "no_business c = \<lparr>bz_sv = sample_service\<lparr>sv_ctx := c, sv_loop := (sv_loop sample_service)\<lparr>l_mem := [16 \<mapsto> zero_event]\<rparr>\<rparr>, bz_sig = no_signals,
     bz_threads = None, bz_destroyed = None, bz_mq = False,
     g_tcp_pool = \<lparr>pool_array = None, p_live = False, p_max = 0, p_current = 0, p_free = 0\<rparr>,
     g_udp_pool = \<lparr>pool_array = None, p_live = False, p_max = 0, p_current = 0, p_free = 0\<rparr>,
     bz_cli = \<lparr>g_cli_cmds = [], g_cli_interactive = False, g_cli_inited = False, w_ctx = c\<rparr>, bz_ctl = \<lparr>ctl_inited = False, ctl_listen_fd = -1\<rparr>,
     bz_telnet = \<lparr>telnet_inited = False, telnet_listen_fd = -1, g_telnet_sessions = [], closed_fds = []\<rparr>\<rparr>"

lemma no_business_fresh: "fresh_business sample_statics sample_business_env (no_business c)"
  by (simp add: fresh_business_def sample_statics_def sample_business_env_def no_business_def sample_service_def bz_loop_def ctl_ok_def telnet_ok_def)


end
