(* ===== verification/Nv_Run.thy ===== *)
theory Nv_Run
  imports Nv_Business
begin

text \<open>
  The main loop with the handlers of the core and the entry point of the daemon (\<open>core/runtime/nv_core_run.c\<close>): from the
  command line through startup, the launch of workers, the business modules and the loop to the shutdown, for every
  answer of the environment.
\<close>

section \<open>The main loop\<close>

text \<open>A round: the signals that arrive while the loop waits, what the wait returns, the monotonic clock and the time, what
  reading the signal descriptor returns, and the answers that a reload gets.\<close>

record core_round =
  rd_signals :: "int list"
  rd_wait :: wait_result
  rd_ms :: nat
  rd_time :: nat
  rd_reads :: "int list"
  rd_strdup :: "cstring \<Rightarrow> cstring option"
  rd_alloc :: bool
  rd_config :: "cstring option"

text \<open>The handler of the signal descriptor.\<close>

definition signal_event :: "core_round \<Rightarrow> business \<Rightarrow> business" where
  "signal_event r z =
     (case nv_signal_dispatch (\<lambda>h n v. nv_core_on_signal (rd_time r) n v) (rd_reads r) (l_signalfd_fd (bz_loop z)) (bz_sv z, bz_sig z) of
        (v, s) \<Rightarrow> z\<lparr>bz_sig := s, bz_sv := v\<lparr>sv_loop := nv_loop_signalfd_handler (\<lambda>_. sv_loop v) (bz_loop z)\<rparr>\<rparr>)"

fun core_io :: "core_round \<Rightarrow> (nat \<times> addr) list \<Rightarrow> business \<Rightarrow> business option" where
  "core_io r [] z = Some z"
| "core_io r ((e, p) # evs) z = do {
     l \<leftarrow> nv_loop_process_io_events (core_call (bz_ctx z) (rd_ms r)) (rd_ms r) [(e, p)] (bz_loop z);
     let z = set_loop l z;
     core_io r evs (if p \<noteq> NULL \<and> revents_of e \<noteq> 0 \<and> p = l_signalfd_ev l then signal_event r z else z) }"

text \<open>One turn of the loop of \<open>nv_loop_run\<close> with the handlers of the core.  The idle list holds the event of the core; what a
  heartbeat sends and publishes is left out here.\<close>

definition core_turn :: "core_round \<Rightarrow> (nat \<times> addr) list \<Rightarrow> business \<Rightarrow> business option" where
  "core_turn r evs z = do {
     z \<leftarrow> core_io r evs z;
     l \<leftarrow> nv_loop_process_timers (core_call (bz_ctx z) (rd_ms r)) (rd_ms r) (bz_loop z);
     l \<leftarrow> nv_loop_process_idle_events (core_call (bz_ctx z) (rd_ms r)) (rd_ms r) (nv_loop_process_signals l);
     let z = set_loop l z;
     Some (if l_idle_head l \<noteq> NULL
           then z\<lparr>bz_sv := nv_core_idle_handler (rd_strdup r) (rd_alloc r) (rd_config r) (rd_time r) (bz_sv z)\<rparr> else z) }"

text \<open>The rounds, until the loop is stopped or the process exits; \<open>None\<close> when the loop still runs at their end.\<close>

fun core_rounds :: "core_round list \<Rightarrow> business \<Rightarrow> business option" where
  "core_rounds [] z = (if l_state (bz_loop z) = NV_LOOP_RUNNING \<and> exit_status (bz_sv z) = None then None else Some z)"
| "core_rounds (r # rs) z =
     (if l_state (bz_loop z) \<noteq> NV_LOOP_RUNNING \<or> exit_status (bz_sv z) \<noteq> None then Some z
      else
        (let z = z\<lparr>bz_sig := fold kernel_signal (rd_signals r) (bz_sig z)\<rparr> in
         case rd_wait r of
           Interrupted \<Rightarrow> core_rounds rs z
         | WaitError \<Rightarrow> Some z
         | Ready evs \<Rightarrow> Option.bind (core_turn r evs z) (core_rounds rs)))"

text \<open>\<open>he\<close> holds the answers to the initialisation of the health module: the notification socket and the two
  calls on it, the watchdog device, the time and the clock.\<close>

record health_env =
  he_sock :: "cstring option"
  he_socket :: bool
  he_send :: bool
  he_wdt :: int
  he_time :: nat
  he_ms :: nat

definition nv_core_run_loop :: "statics \<Rightarrow> health_env \<Rightarrow> core_round list \<Rightarrow> business \<Rightarrow> (int \<times> business) option" where
  "nv_core_run_loop st he rounds z = do {
     let z = set_phase NV_CORE_PHASE_LOOP z;
     l \<leftarrow> nv_loop_add_idle (g_idle_ev st)
            (put_event (g_idle_ev st) (zero_event\<lparr>ev_type := NV_EVENT_TYPE_IDLE, ev_handler := Some nv_core_idle\<rparr>) (bz_loop z));
     v \<leftarrow> nv_core_health_init (he_sock he) (he_socket he) (he_send he) (he_wdt he) (he_time he) (he_ms he) (heartbeat_ev st)
            ((bz_sv z)\<lparr>sv_loop := l\<rparr>);
     let z = z\<lparr>bz_sv := v\<rparr>;
     (rc, z) \<leftarrow> (if l_state (bz_loop z) = NV_LOOP_RUNNING then Some (-1, z)
                  else map_option (Pair 0) (core_rounds rounds (set_loop ((bz_loop z)\<lparr>l_state := NV_LOOP_RUNNING\<rparr>) z)));
     if exit_status (bz_sv z) = None \<and> fatal_signum (bz_sv z) \<noteq> 0 then Some (NV_ERROR, z\<lparr>bz_sv := nv_core_handle_fatal (bz_sv z)\<rparr>) else Some (rc, z) }"

section \<open>The entry point\<close>

text \<open>The hooks of the application, \<open>None\<close> where they are NULL.\<close>

record hooks =
  on_business_init :: "(business \<Rightarrow> int \<times> business) option"
  on_business_cleanup :: "(business \<Rightarrow> business) option"
  on_before_restart :: "(business \<Rightarrow> int \<times> business) option"

text \<open>All answers of the environment to a run.  \<open>re_child\<close> is the index of the fork whose child this process is, if it is one.\<close>

record run_env =
  re_statics :: statics
  re_argv_alloc :: bool
  re_argv_dup :: "cstring \<Rightarrow> cstring option"
  re_startup :: startup_env
  re_child :: "nat option"
  re_sfd :: "int \<Rightarrow> int"
  re_forks :: "nat \<Rightarrow> int"
  re_supervision :: "supervision_round list"
  re_stops :: "nat \<Rightarrow> int list \<times> int list"
  re_business :: business_env
  re_health :: health_env
  re_rounds :: "core_round list"
  re_exec :: bool
  re_tries :: "cstring \<Rightarrow> nat \<Rightarrow> int"

record core_run =
  cr_proc :: process
  cr_sys :: system
  cr_bz :: business
  cr_master :: master
  g_saved_argv :: "cstring option list"

datatype run_result = Returns int | Executes "cstring list" | Exits int

definition nv_core_free_saved_argv :: "core_run \<Rightarrow> core_run" where
  "nv_core_free_saved_argv r = r\<lparr>g_saved_argv := []\<rparr>"

definition nv_core_save_argv :: "bool \<Rightarrow> (cstring \<Rightarrow> cstring option) \<Rightarrow> cstring list \<Rightarrow> core_run \<Rightarrow> core_run" where
  "nv_core_save_argv alloc_ok dup argv r = r\<lparr>g_saved_argv := if alloc_ok then map dup argv else []\<rparr>"

definition bz_enter :: "nv_core_ctx_t \<Rightarrow> business \<Rightarrow> business" where
  "bz_enter c z = z\<lparr>bz_sv := (bz_sv z)\<lparr>sv_ctx := c\<rparr>\<rparr>"

text \<open>Shutdown, release of the saved arguments and return.\<close>

definition leave :: "run_env \<Rightarrow> int \<Rightarrow> core_run \<Rightarrow> (run_result \<times> core_run) option" where
  "leave env rc r =
     map_option (\<lambda>(p, s). (Returns rc, nv_core_free_saved_argv (r\<lparr>cr_proc := p, cr_sys := s\<rparr>)))
       (nv_core_shutdown (re_tries env) (cr_proc r) (cr_sys r))"

definition put_business :: "business \<Rightarrow> core_run \<Rightarrow> core_run" where
  "put_business z r = r\<lparr>cr_bz := z, cr_proc := (cr_proc r)\<lparr>pr_ctx := bz_ctx z\<rparr>\<rparr>"

text \<open>The end of a run that was asked to restart: the program is executed again with the saved arguments, or with the ones
  it got when they could not be saved.\<close>

definition re_execute :: "run_env \<Rightarrow> cstring list \<Rightarrow> core_run \<Rightarrow> (run_result \<times> core_run) option" where
  "re_execute env argv r = do {
     (p, s) \<leftarrow> nv_core_shutdown (re_tries env) (cr_proc r) (cr_sys r);
     let r = r\<lparr>cr_proc := p, cr_sys := s\<rparr>;
     let args = (if g_saved_argv r \<noteq> [] then map the (takeWhile (\<lambda>a. a \<noteq> None) (g_saved_argv r)) else argv);
     Some (if args \<noteq> [] \<and> re_exec env then (Executes args, r) else (Returns NV_ERROR, nv_core_free_saved_argv r)) }"

definition finish_run :: "run_env \<Rightarrow> hooks \<Rightarrow> cstring list \<Rightarrow> business \<Rightarrow> core_run \<Rightarrow> (run_result \<times> core_run) option" where
  "finish_run env hk argv z r =
     (if restart (bz_ctx z)
      then (case on_before_restart hk of None \<Rightarrow> re_execute env argv (put_business z r)
            | Some f \<Rightarrow>
               (case f z of (rc, z) \<Rightarrow>
                  if rc \<noteq> NV_OK
                  then leave env NV_OK (put_business (z\<lparr>bz_sv := upd_sv (\<lambda>c. c\<lparr>restart := False\<rparr>) (bz_sv z)\<rparr>) r)
                  else re_execute env argv (put_business z r)))
      else leave env NV_OK (put_business z r))"

text \<open>From the business modules on.\<close>

definition run_business :: "run_env \<Rightarrow> hooks \<Rightarrow> cstring list \<Rightarrow> core_run \<Rightarrow> (run_result \<times> core_run) option" where
  "run_business env hk argv r =
     (let st = re_statics env; he = re_health env; z = bz_enter (pr_ctx (cr_proc r)) (cr_bz r);
          clean = nv_core_business_cleanup st (he_sock he) (he_socket he) (he_send he)
      in do {
        (rc, z) \<leftarrow> (case on_business_init hk of Some f \<Rightarrow> Some (f z) | None \<Rightarrow> nv_core_business_init st (re_business env) z);
        if rc \<noteq> NV_OK then do { z \<leftarrow> clean z; leave env NV_ERROR (put_business z r) }
        else do {
          (_, z) \<leftarrow> nv_core_run_loop st he (re_rounds env) z;
          case exit_status (bz_sv z) of Some n \<Rightarrow> Some (Exits n, put_business z r)
          | None \<Rightarrow> do {
              z \<leftarrow> (case on_business_cleanup hk of Some f \<Rightarrow> Some (f z) | None \<Rightarrow> clean z);
              finish_run env hk argv z r } } })"

text \<open>The launch of workers as this process sees it.\<close>

definition run_launch :: "run_env \<Rightarrow> core_run \<Rightarrow> (int \<times> core_run) option" where
  "run_launch env r =
     (let c = pr_ctx (cr_proc r) in
      case re_child env of
        Some i \<Rightarrow> (case launched_worker i c of (rc, c) \<Rightarrow> Some (rc, r\<lparr>cr_proc := (cr_proc r)\<lparr>pr_ctx := c\<rparr>\<rparr>))
      | None \<Rightarrow> map_option (\<lambda>(rc, c, m). (rc, r\<lparr>cr_proc := (cr_proc r)\<lparr>pr_ctx := c\<rparr>, cr_master := m\<rparr>))
                  (nv_core_workers_launch (re_sfd env) (re_forks env) (re_supervision env) (re_stops env) c (cr_master r)))"

definition nv_core_run :: "run_env \<Rightarrow> hooks \<Rightarrow> cstring list \<Rightarrow> core_run \<Rightarrow> (run_result \<times> core_run) option" where
  "nv_core_run env hk argv r =
     (let r = nv_core_save_argv (re_argv_alloc env) (re_argv_dup env) argv r in
      case nv_core_parse_args argv (pr_ctx (cr_proc r)) of (rc, c) \<Rightarrow>
      (let r = r\<lparr>cr_proc := (cr_proc r)\<lparr>pr_ctx := c\<rparr>\<rparr> in
       if rc = NV_DECLINED then Some (Returns 0, nv_core_free_saved_argv r)
       else if rc \<noteq> NV_OK then Some (Returns NV_ERROR, nv_core_free_saved_argv r)
       else
         (case nv_core_startup_init (re_startup env) (cr_proc r) (cr_sys r) of (rc, p, s) \<Rightarrow>
          (let r = r\<lparr>cr_proc := p, cr_sys := s\<rparr> in
           if rc \<noteq> NV_OK then leave env NV_ERROR r
           else do {
             (rc, r) \<leftarrow> run_launch env r;
             if rc = NV_DECLINED then leave env NV_OK r
             else if rc \<noteq> NV_OK then leave env NV_ERROR r
             else run_business env hk argv r }))))"

section \<open>Turns of the loop\<close>

lemma same_loop_trans: "same_loop a b \<Longrightarrow> same_loop b c \<Longrightarrow> same_loop a c"
  by (simp add: same_loop_def)

lemma timers_quiet:
  assumes "loop_wf ts is l" "\<forall>t \<in> set ts. now < expiry (l_mem l) t"
  shows "\<exists>n. nv_loop_process_timers call now l = Some (l\<lparr>l_next_timeout := n\<rparr>)"
proof -
  have rep: "ev_list (l_mem l) (l_timers_head l) ts" using assms(1) by (simp add: loop_wf_def)
  then have "sseg ev_next (l_mem l) (l_timers_head l) ts NULL" by (auto simp: ev_list_def dest: dseg_sseg)
  from timers_loop_unexpired[OF this assms(2)] next_timeout_loop_fold[OF rep, of 0] show ?thesis
    by (simp add: nv_loop_process_timers_def) blast
qed

text \<open>An event of the core: its handler and its loop are set.\<close>

definition live_event :: "core_handler \<Rightarrow> addr \<Rightarrow> core_handler nv_loop_t \<Rightarrow> bool" where
  "live_event h p l \<longleftrightarrow> (\<exists>e. l_mem l p = Some e \<and> ev_handler e = Some h \<and> ev_loop e)"

text \<open>The update of an event by a call of its handler keeps everything the loop relies on.\<close>

lemma touched_wf:
  assumes "loop_wf ts is l" "l_mem l p = Some e" "view e' = view e" "ev_active e' = ev_active e"
    and "l' = l\<lparr>l_mem := (l_mem l)(p \<mapsto> e'), l_calls := cs, l_stats := x\<rparr>"
  shows "loop_wf ts is l' \<and> same_loop l l' \<and> (\<forall>b. map_option view (l_mem l' b) = map_option view (l_mem l b))"
proof -
  have views: "map_option view (l_mem l' b) = map_option view (l_mem l b)" for b using assms(2,3,5) by simp
  have "loop_wf ts is l'"
  proof (rule loop_wfI[OF assms(1)])
    show "ev_list (l_mem l') (l_timers_head l') ts" "ev_list (l_mem l') (l_idle_head l') is"
      by (rule ev_list_view[of "l_mem l"]; use assms(1,5) views in \<open>simp add: loop_wf_def\<close>)+
    show "idle_events (ts @ is) (l_mem l')"
      by (rule idle_events_cong[of _ "l_mem l"]) (use assms in \<open>auto simp: loop_wf_def\<close>)
  qed (use assms(1,5) in \<open>auto simp: loop_wf_def\<close>)
  then show ?thesis using views assms(5) by (simp add: same_loop_def)
qed

lemma live_view: "map_option view (l_mem l' p) = map_option view (l_mem l p) \<Longrightarrow> live_event h p l' = live_event h p l"
  by (cases "l_mem l p"; cases "l_mem l' p") (auto simp: live_event_def view_def body_def)

lemma expiry_view: "map_option view (h' p) = map_option view (h p) \<Longrightarrow> expiry h' p = expiry h p"
  by (rule body_cong(2)) (rule view_body)

definition loop_keeps :: "addr list \<Rightarrow> addr list \<Rightarrow> core_handler nv_loop_t \<Rightarrow> core_handler nv_loop_t \<Rightarrow> bool" where
  "loop_keeps ts is l l' \<longleftrightarrow> loop_wf ts is l' \<and> same_loop l l' \<and> l_idle_head l' = l_idle_head l \<and>
     (\<forall>b. map_option view (l_mem l' b) = map_option view (l_mem l b))"

lemma keeps_live: "loop_keeps ts is l l' \<Longrightarrow> live_event h p l' = live_event h p l"
  by (rule live_view) (simp add: loop_keeps_def)

lemma keeps_expiry: "loop_keeps ts is l l' \<Longrightarrow> expiry (l_mem l') p = expiry (l_mem l) p"
  by (rule expiry_view) (simp add: loop_keeps_def)

lemma loop_keeps_trans: "loop_keeps ts is a b \<Longrightarrow> loop_keeps ts is b c \<Longrightarrow> loop_keeps ts is a c"
  by (simp add: loop_keeps_def same_loop_def)

lemma trigger_kept:
  assumes "loop_wf ts is l" "live_event h p l" "h = nv_core_idle \<or> h = nv_signalfd"
  shows "\<exists>l'. nv_event_trigger (core_call c ms) now p ev l = Some l' \<and> loop_keeps ts is l l' \<and> l_stats l' = l_stats l"
proof -
  obtain e where e: "l_mem l p = Some e" "ev_handler e = Some h" "ev_loop e" using assms(2) by (auto simp: live_event_def)
  define e' where "e' = e\<lparr>ev_revents := ev, ev_trigger_count := ulong (ev_trigger_count e + 1), ev_last_trigger := now\<rparr>"
  define l' where "l' = l\<lparr>l_mem := (l_mem l)(p \<mapsto> e'), l_calls := l_calls l @ [p], l_stats := l_stats l\<rparr>"
  have "nv_event_trigger (core_call c ms) now p ev l = Some l'"
    using e assms(3) by (auto simp: nv_event_trigger_def core_call_def Let_def l'_def e'_def)
  moreover have "loop_wf ts is l' \<and> same_loop l l' \<and> (\<forall>b. map_option view (l_mem l' b) = map_option view (l_mem l b))"
    by (rule touched_wf[OF assms(1) e(1) _ _ l'_def]) (simp_all add: e'_def view_def body_def)
  ultimately show ?thesis by (auto simp: l'_def loop_keeps_def)
qed

lemma counted_kept: "loop_wf ts is l \<Longrightarrow> loop_keeps ts is l (l\<lparr>l_stats := x\<rparr>)" "loop_wf ts is l \<Longrightarrow> loop_keeps ts is l (l\<lparr>l_next_timeout := n\<rparr>)"
  by (simp_all add: loop_keeps_def loop_wf_def same_loop_def)

lemma idle_kept:
  assumes wf: "loop_wf ts [p] l" and live: "live_event nv_core_idle p l"
  shows "\<exists>l'. nv_loop_process_idle_events (core_call c ms) now l = Some l' \<and> loop_keeps ts [p] l l'"
proof -
  have p: "l_idle_head l = p" "p \<noteq> NULL" and nxt: "map_option ev_next (l_mem l p) = Some NULL"
    using wf by (auto simp: loop_wf_def ev_list_def split: option.splits)
  obtain l1 where l1: "nv_event_trigger (core_call c ms) now p NV_EVENT_IDLE l = Some l1" "loop_keeps ts [p] l l1"
    using trigger_kept[OF wf live] by blast
  obtain e where e: "l_mem l p = Some e" "ev_next e = NULL" using nxt by auto
  have "nv_loop_process_idle_events (core_call c ms) now l = Some (count_idle l1)"
    using p e l1(1) by (simp add: nv_loop_process_idle_events_def idle_loop.simps)
  moreover have "loop_keeps ts [p] l1 (count_idle l1)"
    using l1(2) unfolding count_idle_def by (intro counted_kept) (simp add: loop_keeps_def)
  ultimately show ?thesis using loop_keeps_trans[OF l1(2)] by blast
qed

lemma turn_tail:
  assumes io: "core_io r evs z0 = Some z" and wf: "loop_wf ts [p] (bz_loop z)" and live: "live_event nv_core_idle p (bz_loop z)"
    and due: "\<forall>t \<in> set ts. rd_ms r < expiry (l_mem (bz_loop z)) t"
  shows "\<exists>l. loop_keeps ts [p] (bz_loop z) l \<and> core_turn r evs z0 =
    Some ((set_loop l z)\<lparr>bz_sv := nv_core_idle_handler (rd_strdup r) (rd_alloc r) (rd_config r) (rd_time r) ((bz_sv z)\<lparr>sv_loop := l\<rparr>)\<rparr>)"
proof -
  obtain n where n: "nv_loop_process_timers (core_call (bz_ctx z) (rd_ms r)) (rd_ms r) (bz_loop z) = Some ((bz_loop z)\<lparr>l_next_timeout := n\<rparr>)"
    using timers_quiet[OF wf due] by blast
  define l1 where "l1 = (bz_loop z)\<lparr>l_next_timeout := n\<rparr>"
  have k1: "loop_keeps ts [p] (bz_loop z) l1" unfolding l1_def by (rule counted_kept[OF wf])
  have "loop_wf ts [p] l1" "live_event nv_core_idle p l1" using k1 live keeps_live[OF k1] by (simp_all add: loop_keeps_def)
  then obtain l where l: "nv_loop_process_idle_events (core_call (bz_ctx z) (rd_ms r)) (rd_ms r) l1 = Some l" "loop_keeps ts [p] l1 l"
    using idle_kept by blast
  have "l_idle_head l = p" "p \<noteq> NULL" using l(2) by (auto simp: loop_keeps_def loop_wf_def ev_list_def split: option.splits)
  then have "core_turn r evs z0 =
      Some ((set_loop l z)\<lparr>bz_sv := nv_core_idle_handler (rd_strdup r) (rd_alloc r) (rd_config r) (rd_time r) ((bz_sv z)\<lparr>sv_loop := l\<rparr>)\<rparr>)"
    using io n l(1) by (simp add: core_turn_def nv_loop_process_signals_def l1_def set_loop_def)
  then show ?thesis using loop_keeps_trans[OF k1 l(2)] by blast
qed

text \<open>A process that serves: everything is set up, the loop runs, and no timer is due before \<open>due\<close>.\<close>

definition serving :: "statics \<Rightarrow> business_env \<Rightarrow> nat \<Rightarrow> addr list \<Rightarrow> business \<Rightarrow> bool" where
  "serving st env due ts z \<longleftrightarrow> business_up st ts [g_idle_ev st] z \<and> ts \<noteq> [] \<and> signal_ready env z \<and>
     live_event nv_core_idle (g_idle_ev st) (bz_loop z) \<and> l_state (bz_loop z) = NV_LOOP_RUNNING \<and>
     (\<forall>t \<in> set ts. due \<le> expiry (l_mem (bz_loop z)) t) \<and> fatal_signum (bz_sv z) = 0 \<and> exit_status (bz_sv z) = None \<and>
     \<not> quit (bz_ctx z) \<and> \<not> reload (bz_ctx z) \<and> shutdown_started_at (bz_ctx z) = 0 \<and> worker_processes (opts (bz_ctx z)) \<le> 1"

lemma keeps_up:
  assumes "business_up st ts is z" "ts \<noteq> []" "loop_wf ts is l" "sv_loop v = l" "health_inited v = health_inited (bz_sv z)"
    "g_wdt_fd v = g_wdt_fd (bz_sv z)" "opts (sv_ctx v) = opts (bz_ctx z)"
  shows "business_up st ts is (z\<lparr>bz_sv := v\<rparr>)"
  using assms by (auto simp: business_up_def timers_known_def bz_ctx_def)

lemma ready_keeps:
  assumes "signal_ready env z" "same_loop (bz_loop z) l" "\<forall>b. map_option view (l_mem l b) = map_option view (l_mem (bz_loop z) b)"
  shows "signal_ready env (set_loop l z)"
proof -
  have "live_event nv_signalfd (be_sig_ev env) l = live_event nv_signalfd (be_sig_ev env) (bz_loop z)" using assms(3) live_view by blast
  then show ?thesis using assms(1,2) by (auto simp: signal_ready_def same_loop_def live_event_def)
qed

lemma serving_keeps:
  assumes "serving st env due ts z" "loop_keeps ts [g_idle_ev st] (bz_loop z) l"
  shows "serving st env due ts (set_loop l z)"
proof -
  have "business_up st ts [g_idle_ev st] (set_loop l z)" unfolding set_loop_def
    by (rule keeps_up) (use assms in \<open>auto simp: serving_def loop_keeps_def bz_ctx_def\<close>)
  moreover have "signal_ready env (set_loop l z)" using assms ready_keeps by (auto simp: serving_def loop_keeps_def)
  moreover have "live_event nv_core_idle (g_idle_ev st) l" using assms(1) keeps_live[OF assms(2)] by (simp add: serving_def)
  ultimately show ?thesis using assms keeps_expiry[OF assms(2)]
    by (simp add: serving_def loop_keeps_def same_loop_def) (simp add: set_loop_def)
qed

lemma idle_handler_quiet:
  "\<not> quit (sv_ctx v) \<Longrightarrow> \<not> reload (sv_ctx v) \<Longrightarrow> fatal_signum v = 0 \<Longrightarrow> nv_core_idle_handler sd alloc_ok contents now v = v"
  by (simp add: nv_core_idle_handler_def nv_core_check_shutdown_timeout_def Let_def)

definition quiet_round :: "nat \<Rightarrow> core_round \<Rightarrow> bool" where
  "quiet_round due r \<longleftrightarrow> rd_signals r = [] \<and> (rd_wait r = Interrupted \<or> rd_wait r = Ready []) \<and> rd_ms r < due"

lemma quiet_rounds:
  "serving st env due ts z \<Longrightarrow> \<forall>r \<in> set rs. quiet_round due r \<Longrightarrow>
     \<exists>z'. serving st env due ts z' \<and> core_rounds (rs @ rest) z = core_rounds rest z' \<and> bz_ctx z' = bz_ctx z \<and> bz_threads z' = bz_threads z"
proof (induction rs arbitrary: z)
  case Nil
  then show ?case by auto
next
  case (Cons r rs)
  note sv = Cons.prems(1)[unfolded serving_def]
  have go: "l_state (bz_loop z) = NV_LOOP_RUNNING" "exit_status (bz_sv z) = None" "z\<lparr>bz_sig := bz_sig z\<rparr> = z" using sv by auto
  have r: "rd_signals r = []" "rd_wait r = Interrupted \<or> rd_wait r = Ready []" "rd_ms r < due"
    using Cons.prems(2) by (auto simp: quiet_round_def)
  from r(2) show ?case
  proof
    assume "rd_wait r = Interrupted"
    then show ?case using Cons.IH[OF Cons.prems(1)] Cons.prems(2) go r(1) by simp
  next
    assume w: "rd_wait r = Ready []"
    have wf: "loop_wf ts [g_idle_ev st] (bz_loop z)" using sv by (auto simp: business_up_def timers_known_def bz_loop_def)
    obtain l where l: "loop_keeps ts [g_idle_ev st] (bz_loop z) l" "core_turn r [] z = Some ((set_loop l z)\<lparr>bz_sv :=
        nv_core_idle_handler (rd_strdup r) (rd_alloc r) (rd_config r) (rd_time r) ((bz_sv z)\<lparr>sv_loop := l\<rparr>)\<rparr>)"
      using turn_tail[of r "[]" z z ts "g_idle_ev st"] wf sv r(3) by fastforce
    have "nv_core_idle_handler (rd_strdup r) (rd_alloc r) (rd_config r) (rd_time r) ((bz_sv z)\<lparr>sv_loop := l\<rparr>) = (bz_sv z)\<lparr>sv_loop := l\<rparr>"
      by (rule idle_handler_quiet) (use sv in \<open>simp_all add: bz_ctx_def\<close>)
    then have turn: "core_turn r [] z = Some (set_loop l z)" using l(2) by (simp add: set_loop_def)
    have "serving st env due ts (set_loop l z)" by (rule serving_keeps[OF Cons.prems(1) l(1)])
    from Cons.IH[OF this] show ?case using Cons.prems(2) go w r(1) turn by (auto simp: set_loop_def bz_ctx_def)
  qed
qed

section \<open>A signal ends the loop\<close>

lemma revents_in: "revents_of 1 \<noteq> 0"
  by code_simp

lemma stop_dispatched:
  assumes "register_all sfd core_regs no_signals = (0, s)" "n = SIGINT \<or> n = SIGTERM"
  shows "\<exists>s'. nv_signal_dispatch call [n] (nv_signal_fd s) (v, kernel_signal n s) = (call on_core_signal n v, s')"
proof -
  have n: "n \<in> fst ` set core_regs" using assms(2) by (auto simp: core_regs_def)
  note r = registered[OF assms(1) n]
  have h: "the (map_of (rev core_regs) n) = on_core_signal" by (cases "the (map_of (rev core_regs) n)") simp
  have k: "kernel_signal n s = s\<lparr>sig_pending := [n]\<rparr>" using r by (simp add: kernel_signal_def)
  obtain ps where "dispatch_loop call [n] (v, s\<lparr>sig_pending := [n]\<rparr>) = (fold (\<lambda>n. call on_core_signal n) [n] v, s\<lparr>sig_pending := [n], sig_pending := ps\<rparr>)"
    using dispatch_reads[of "[n]" "s\<lparr>sig_pending := [n]\<rparr>" "\<lambda>_. on_core_signal" call v] r h by (auto simp: nv_signal_find_handler_def)
  then show ?thesis using r(4) by (simp add: nv_signal_dispatch_def k nv_signal_fd_def)
qed

definition stop_round :: "business_env \<Rightarrow> nat \<Rightarrow> core_round \<Rightarrow> bool" where
  "stop_round env due r \<longleftrightarrow> (\<exists>n. (n = SIGINT \<or> n = SIGTERM) \<and> rd_signals r = [n] \<and> rd_reads r = [n]) \<and>
     rd_wait r = Ready [(1, be_sig_ev env)] \<and> rd_ms r < due"

lemma stop_kept:
  assumes "loop_wf ts is l" "l_state l = NV_LOOP_RUNNING"
  shows "loop_wf ts is ((nv_loop_stop l)\<lparr>l_stats := x\<rparr>) \<and> l_state (nv_loop_stop l) = NV_LOOP_STOPPING"
  using assms by (simp add: loop_wf_def) (simp add: nv_loop_stop_def nv_loop_wakeup_def)

text \<open>The descriptor is read, the handler asks the process to quit and stops the loop.\<close>

lemma stop_io:
  assumes sv: "serving st env due ts z" and r: "rd_reads r = [n]" "n = SIGINT \<or> n = SIGTERM"
  shows "\<exists>z1. core_io r [(1, be_sig_ev env)] (z\<lparr>bz_sig := kernel_signal n (bz_sig z)\<rparr>) = Some z1 \<and> business_up st ts [g_idle_ev st] z1 \<and>
    l_state (bz_loop z1) = NV_LOOP_STOPPING \<and> live_event nv_core_idle (g_idle_ev st) (bz_loop z1) \<and>
    (\<forall>t. expiry (l_mem (bz_loop z1)) t = expiry (l_mem (bz_loop z)) t) \<and> fatal_signum (bz_sv z1) = 0 \<and> exit_status (bz_sv z1) = None \<and>
    bz_ctx z1 = (bz_ctx z)\<lparr>quit := True, shutdown_started_at := rd_time r\<rparr> \<and> bz_threads z1 = bz_threads z"
proof -
  let ?sg = "be_sig_ev env"
  note s = sv[unfolded serving_def]
  have rd: "?sg \<noteq> NULL" "l_signalfd_ev (bz_loop z) = ?sg" "l_signalfd_fd (bz_loop z) = nv_signal_fd (bz_sig z)" "nv_signal_fd (bz_sig z) \<ge> 0"
    "live_event nv_signalfd ?sg (bz_loop z)" "register_all (be_sfd env) core_regs no_signals = (0, bz_sig z)"
    using s by (auto simp: signal_ready_def live_event_def)
  have wf: "loop_wf ts [g_idle_ev st] (bz_loop z)" using s by (auto simp: business_up_def timers_known_def bz_loop_def)
  define y where "y = z\<lparr>bz_sig := kernel_signal n (bz_sig z)\<rparr>"
  have y: "bz_loop y = bz_loop z" "bz_ctx y = bz_ctx z" by (simp_all add: y_def)
  obtain l1 where l1: "nv_event_trigger (core_call (bz_ctx z) (rd_ms r)) (rd_ms r) ?sg (revents_of 1) (bz_loop z) = Some l1"
    "loop_keeps ts [g_idle_ev st] (bz_loop z) l1" using trigger_kept[OF wf rd(5)] by blast
  define l2 where "l2 = count_event l1"
  have k2: "loop_keeps ts [g_idle_ev st] (bz_loop z) l2" unfolding l2_def count_event_def
    by (rule loop_keeps_trans[OF l1(2) counted_kept(1)]) (use l1(2) in \<open>simp add: loop_keeps_def\<close>)
  have io: "nv_loop_process_io_events (core_call (bz_ctx z) (rd_ms r)) (rd_ms r) [(1, ?sg)] (bz_loop z) = Some l2"
    using l1(1) rd(1) revents_in by (simp add: l2_def)
  have l2: "l_signalfd_ev l2 = ?sg" "l_signalfd_fd l2 = nv_signal_fd (bz_sig z)" "l_state l2 = NV_LOOP_RUNNING" "loop_wf ts [g_idle_ev st] l2"
    using k2 rd s by (auto simp: loop_keeps_def same_loop_def)
  define v where "v = nv_core_on_signal (rd_time r) n ((bz_sv z)\<lparr>sv_loop := l2\<rparr>)"
  obtain s' where d: "nv_signal_dispatch (\<lambda>h n v. nv_core_on_signal (rd_time r) n v) [n] (nv_signal_fd (bz_sig z))
      ((bz_sv z)\<lparr>sv_loop := l2\<rparr>, kernel_signal n (bz_sig z)) = (v, s')"
    using stop_dispatched[OF rd(6) r(2), of "\<lambda>h n v. nv_core_on_signal (rd_time r) n v" "(bz_sv z)\<lparr>sv_loop := l2\<rparr>"] by (auto simp: v_def)
  have v: "sv_loop v = nv_loop_stop l2" "sv_ctx v = (bz_ctx z)\<lparr>quit := True, shutdown_started_at := rd_time r\<rparr>" "fatal_signum v = 0"
    "exit_status v = None" "health_inited v = health_inited (bz_sv z)" "g_wdt_fd v = g_wdt_fd (bz_sv z)"
    using r(2) s by (auto simp: v_def nv_core_on_signal_def upd_sv_def begin_shutdown_def bz_ctx_def)
  define l3 where "l3 = nv_loop_signalfd_handler (\<lambda>_. sv_loop v) l2"
  define z1 where "z1 = z\<lparr>bz_sig := s', bz_sv := v\<lparr>sv_loop := l3\<rparr>\<rparr>"
  have "signal_event r (set_loop l2 y) = z1"
    using d r(1) l2(2) by (simp add: signal_event_def set_loop_def y_def bz_loop_def z1_def l3_def)
  then have run: "core_io r [(1, ?sg)] y = Some z1" using io y rd(1) revents_in l2(1) by simp
  obtain x where l3: "l3 = (nv_loop_stop l2)\<lparr>l_stats := x\<rparr>" using rd(4) l2(2) v(1) by (simp add: l3_def nv_loop_signalfd_handler_def Let_def)
  note st = stop_kept[OF l2(4,3), of x]
  have "business_up st ts [g_idle_ev st] (z\<lparr>bz_sv := v\<lparr>sv_loop := l3\<rparr>\<rparr>)"
    by (rule keeps_up) (use s v st l3 in \<open>auto simp: bz_ctx_def\<close>)
  then have "business_up st ts [g_idle_ev st] z1" by (simp add: z1_def business_up_def)
  moreover have "live_event nv_core_idle (g_idle_ev st) l3" using keeps_live[OF k2] s by (simp add: l3 live_event_def)
  moreover have "expiry (l_mem l3) t = expiry (l_mem (bz_loop z)) t" for t using keeps_expiry[OF k2, of t] by (simp add: l3)
  ultimately show ?thesis using run v st l3 by (intro exI[of _ z1]) (simp add: z1_def y_def bz_loop_def bz_ctx_def)
qed

lemma idle_handler_quitting:
  assumes "quit (sv_ctx v)" "shutdown_started_at (sv_ctx v) = now" "\<not> reload (sv_ctx v)" "fatal_signum v = 0" "exit_status v = None"
  shows "nv_core_idle_handler sd alloc_ok contents now v = v"
  using assms by (simp add: nv_core_idle_handler_def nv_core_check_shutdown_timeout_def begin_shutdown_def Let_def)

lemma stop_rounds:
  assumes sv: "serving st env due ts z" and r: "stop_round env due r"
  shows "\<exists>z'. core_rounds (r # rest) z = Some z' \<and> business_up st ts [g_idle_ev st] z' \<and> exit_status (bz_sv z') = None \<and> fatal_signum (bz_sv z') = 0 \<and>
    bz_ctx z' = (bz_ctx z)\<lparr>quit := True, shutdown_started_at := rd_time r\<rparr> \<and> bz_threads z' = bz_threads z"
proof -
  obtain n where n: "n = SIGINT \<or> n = SIGTERM" "rd_signals r = [n]" "rd_reads r = [n]" "rd_wait r = Ready [(1, be_sig_ev env)]" "rd_ms r < due"
    using r by (auto simp: stop_round_def)
  note s = sv[unfolded serving_def]
  obtain z1 where z1: "core_io r [(1, be_sig_ev env)] (z\<lparr>bz_sig := kernel_signal n (bz_sig z)\<rparr>) = Some z1" "business_up st ts [g_idle_ev st] z1"
    "l_state (bz_loop z1) = NV_LOOP_STOPPING" "live_event nv_core_idle (g_idle_ev st) (bz_loop z1)"
    "\<forall>t. expiry (l_mem (bz_loop z1)) t = expiry (l_mem (bz_loop z)) t" "fatal_signum (bz_sv z1) = 0" "exit_status (bz_sv z1) = None"
    "bz_ctx z1 = (bz_ctx z)\<lparr>quit := True, shutdown_started_at := rd_time r\<rparr>" "bz_threads z1 = bz_threads z"
    using stop_io[OF sv n(3,1)] by blast
  have wf: "loop_wf ts [g_idle_ev st] (bz_loop z1)" using z1(2) by (simp add: business_up_def timers_known_def bz_loop_def)
  have "\<forall>t \<in> set ts. rd_ms r < expiry (l_mem (bz_loop z1)) t" using z1(5) s n(5) by auto
  from turn_tail[OF z1(1) wf z1(4) this] obtain l where l: "loop_keeps ts [g_idle_ev st] (bz_loop z1) l"
    "core_turn r [(1, be_sig_ev env)] (z\<lparr>bz_sig := kernel_signal n (bz_sig z)\<rparr>) = Some ((set_loop l z1)\<lparr>bz_sv :=
        nv_core_idle_handler (rd_strdup r) (rd_alloc r) (rd_config r) (rd_time r) ((bz_sv z1)\<lparr>sv_loop := l\<rparr>)\<rparr>)" by blast
  have "nv_core_idle_handler (rd_strdup r) (rd_alloc r) (rd_config r) (rd_time r) ((bz_sv z1)\<lparr>sv_loop := l\<rparr>) = (bz_sv z1)\<lparr>sv_loop := l\<rparr>"
    by (rule idle_handler_quitting) (use z1 s in \<open>simp_all add: bz_ctx_def\<close>)
  then have turn: "core_turn r [(1, be_sig_ev env)] (z\<lparr>bz_sig := kernel_signal n (bz_sig z)\<rparr>) = Some (set_loop l z1)" using l(2) by (simp add: set_loop_def)
  have "l_state l = NV_LOOP_STOPPING" using l(1) z1(3) by (simp add: loop_keeps_def same_loop_def)
  then have "core_rounds rest (set_loop l z1) = Some (set_loop l z1)" by (cases rest) simp_all
  then have "core_rounds (r # rest) z = Some (set_loop l z1)" using turn n(2,4) s by simp
  moreover have "business_up st ts [g_idle_ev st] (set_loop l z1)" unfolding set_loop_def
    by (rule keeps_up) (use z1(2) s l(1) in \<open>auto simp: loop_keeps_def bz_ctx_def\<close>)
  moreover have "bz_ctx (set_loop l z1) = bz_ctx z1" "exit_status (bz_sv (set_loop l z1)) = exit_status (bz_sv z1)"
    "fatal_signum (bz_sv (set_loop l z1)) = fatal_signum (bz_sv z1)" "bz_threads (set_loop l z1) = bz_threads z1" by (simp_all add: set_loop_def bz_ctx_def)
  ultimately show ?thesis using z1(6-9) by metis
qed

lemma put_wf:
  assumes "loop_wf ts is l" "p \<notin> set (ts @ is)" "p \<noteq> l_signalfd_ev l"
  shows "loop_wf ts is (put_event p e l)"
proof (rule loop_wfI[OF assms(1)])
  show "ev_list (l_mem (put_event p e l)) (l_timers_head (put_event p e l)) ts" "ev_list (l_mem (put_event p e l)) (l_idle_head (put_event p e l)) is"
    by (rule ev_list_view[of "l_mem l"]; use assms in \<open>auto simp: loop_wf_def put_event_def\<close>)+
  show "idle_events (ts @ is) (l_mem (put_event p e l))" using assms by (auto simp: loop_wf_def idle_events_def put_event_def)
qed (use assms in \<open>auto simp: loop_wf_def put_event_def\<close>)

text \<open>Entering the loop: the idle event and the heartbeat are added.\<close>

lemma health_up:
  assumes wf: "loop_wf [tick] is (sv_loop v)" and hb: "hb \<noteq> NULL" "hb \<notin> set (tick # is)" "hb \<noteq> l_signalfd_ev (sv_loop v)" and h: "\<not> health_inited v"
  shows "\<exists>v' ts. nv_core_health_init sock socket_ok send_ok wdt time now hb v = Some v' \<and> loop_wf ts is (sv_loop v') \<and> health_inited v' \<and>
    ts = (if heartbeat_interval_sec (opts (sv_ctx v)) > 0 then [hb, tick] else [tick]) \<and> same_loop (sv_loop v) (sv_loop v') \<and>
    (\<forall>b. b \<noteq> hb \<and> b \<noteq> tick \<longrightarrow> l_mem (sv_loop v') b = l_mem (sv_loop v) b) \<and> expiry (l_mem (sv_loop v')) tick = expiry (l_mem (sv_loop v)) tick \<and>
    (heartbeat_interval_sec (opts (sv_ctx v)) > 0 \<longrightarrow> expiry (l_mem (sv_loop v')) hb = ulong (now + heartbeat_ms (sv_ctx v))) \<and>
    sv_ctx v' = (sv_ctx v)\<lparr>started_at := time\<rparr> \<and> fatal_signum v' = fatal_signum v \<and> exit_status v' = exit_status v"
proof -
  define v1 where "v1 = upd_sv (\<lambda>c. c\<lparr>started_at := time\<rparr>) v"
  define v2 where "v2 = v1\<lparr>g_systemd_notify := if systemd_notify (opts (sv_ctx v1)) = NV_CORE_SYSTEMD_AUTO then sock \<noteq> None
    else systemd_notify (opts (sv_ctx v1)) \<noteq> 0\<rparr>"
  define v3 where "v3 = (if g_systemd_notify v2 then snd (nv_core_systemd_notify sock socket_ok send_ok ''READY=1'' v2) else v2)"
  define v4 where "v4 = (if watchdog_enable (opts (sv_ctx v1)) \<noteq> 0 \<and> watchdog_device (opts (sv_ctx v1)) \<notin> {None, Some ''''}
    then snd (nv_watchdog_open wdt v3) else v3)"
  have "sv_loop v1 = sv_loop v" "sv_ctx v1 = (sv_ctx v)\<lparr>started_at := time\<rparr>" "fatal_signum v1 = fatal_signum v" "exit_status v1 = exit_status v"
    by (simp_all add: v1_def upd_sv_def)
  moreover have "sv_loop v2 = sv_loop v1" "sv_ctx v2 = sv_ctx v1" "fatal_signum v2 = fatal_signum v1" "exit_status v2 = exit_status v1" by (simp_all add: v2_def)
  moreover have "sv_loop v3 = sv_loop v2" "sv_ctx v3 = sv_ctx v2" "fatal_signum v3 = fatal_signum v2" "exit_status v3 = exit_status v2"
    by (simp_all add: v3_def notify_frame notify_frame2)
  moreover have "sv_loop v4 = sv_loop v3" "sv_ctx v4 = sv_ctx v3" "fatal_signum v4 = fatal_signum v3" "exit_status v4 = exit_status v3"
    by (simp_all add: v4_def nv_watchdog_open_def)
  ultimately have v4: "sv_loop v4 = sv_loop v" "sv_ctx v4 = (sv_ctx v)\<lparr>started_at := time\<rparr>" "fatal_signum v4 = fatal_signum v" "exit_status v4 = exit_status v"
    "opts (sv_ctx v1) = opts (sv_ctx v)" "heartbeat_ms (sv_ctx v4) = heartbeat_ms (sv_ctx v)" by (simp_all add: heartbeat_ms_def)
  note unf = nv_core_health_init_def Let_def v1_def[symmetric] v2_def[symmetric] v3_def[symmetric] v4_def[symmetric]
  show ?thesis
  proof (cases "heartbeat_interval_sec (opts (sv_ctx v)) > 0")
    case True
    define e where "e = zero_event\<lparr>ev_type := NV_EVENT_TYPE_TIMER, ev_handler := Some nv_core_heartbeat\<rparr>"
    have "loop_wf [tick] is (put_event hb e (sv_loop v))"
      by (rule put_wf[OF wf]) (use hb in auto)
    from add_timer_wf[OF this, of hb e now "heartbeat_ms (sv_ctx v)"] hb obtain l where
      l: "nv_loop_add_timer now hb (heartbeat_ms (sv_ctx v)) (put_event hb e (sv_loop v)) = Some l" "loop_wf [hb, tick] is l"
        "same_loop (put_event hb e (sv_loop v)) l" "\<forall>b. b \<notin> set [hb, tick] \<longrightarrow> l_mem l b = l_mem (put_event hb e (sv_loop v)) b"
        "expiry (l_mem l) hb = ulong (now + heartbeat_ms (sv_ctx v))" "expiry (l_mem l) tick = expiry (l_mem (put_event hb e (sv_loop v))) tick"
      by (auto simp: put_event_def e_def zero_event_def)
    have "nv_core_health_init sock socket_ok send_ok wdt time now hb v = Some (v4\<lparr>sv_loop := l, health_inited := True\<rparr>)"
      unfolding unf using True l(1) v4 by (simp add: e_def)
    then show ?thesis using l(2-) v4 True hb(2) by (simp add: put_event_def same_loop_def expiry_def)
  next
    case False
    then have "nv_core_health_init sock socket_ok send_ok wdt time now hb v = Some (v4\<lparr>health_inited := True\<rparr>)"
      unfolding unf using v4 by simp
    then show ?thesis using wf v4 False by (simp add: same_loop_def)
  qed
qed

lemma idle_entered:
  assumes wf: "loop_wf ts [] l" and p: "p \<noteq> NULL" "p \<notin> set ts" "p \<noteq> l_signalfd_ev l"
  shows "\<exists>l'. nv_loop_add_idle p (put_event p (zero_event\<lparr>ev_type := NV_EVENT_TYPE_IDLE, ev_handler := Some nv_core_idle\<rparr>) l) = Some l' \<and>
    loop_wf ts [p] l' \<and> same_loop l l' \<and> (\<forall>b. b \<noteq> p \<longrightarrow> l_mem l' b = l_mem l b) \<and> live_event nv_core_idle p l'"
proof -
  define e where "e = zero_event\<lparr>ev_type := NV_EVENT_TYPE_IDLE, ev_handler := Some nv_core_idle\<rparr>"
  have "loop_wf ts [] (put_event p e l)" by (rule put_wf[OF wf]) (use p in auto)
  from add_idle_wf[OF this, of p e] p show ?thesis unfolding e_def[symmetric]
    by (auto simp: put_event_def same_loop_def live_event_def e_def zero_event_def)
qed

text \<open>What the process is like when the first round begins.\<close>

definition ready_to_run :: "statics \<Rightarrow> business_env \<Rightarrow> business \<Rightarrow> bool" where
  "ready_to_run st env z \<longleftrightarrow> business_up st [g_mod_tick_ev st] [] z \<and> signal_ready env z \<and> \<not> health_inited (bz_sv z) \<and>
     l_state (bz_loop z) = NV_LOOP_INIT \<and> distinct [NULL, g_mod_tick_ev st, heartbeat_ev st, g_idle_ev st] \<and>
     be_sig_ev env \<notin> {g_mod_tick_ev st, heartbeat_ev st, g_idle_ev st} \<and> fatal_signum (bz_sv z) = 0 \<and> exit_status (bz_sv z) = None \<and>
     \<not> quit (bz_ctx z) \<and> \<not> reload (bz_ctx z) \<and> shutdown_started_at (bz_ctx z) = 0 \<and> worker_processes (opts (bz_ctx z)) \<le> 1"

lemma up_after_health:
  assumes "business_up st us js z" "loop_wf ts is l" "health_inited v" "sv_loop v = l"
    and "ts = (if heartbeat_interval_sec (opts (sv_ctx v)) > 0 then [heartbeat_ev st, g_mod_tick_ev st] else [g_mod_tick_ev st])"
  shows "business_up st ts is (z\<lparr>bz_sv := v\<rparr>)"
  using assms by (simp add: business_up_def timers_known_def)

lemma loop_entered:
  assumes ready: "ready_to_run st env z"
    and due: "due \<le> expiry (l_mem (bz_loop z)) (g_mod_tick_ev st)" "due \<le> ulong (he_ms he + heartbeat_ms (bz_ctx z))"
  shows "\<exists>z2 ts. serving st env due ts z2 \<and> bz_ctx z2 = (bz_ctx z)\<lparr>phase := NV_CORE_PHASE_LOOP, started_at := he_time he\<rparr> \<and> bz_threads z2 = bz_threads z \<and>
    (\<forall>rounds z'. core_rounds rounds z2 = Some z' \<and> fatal_signum (bz_sv z') = 0 \<longrightarrow> nv_core_run_loop st he rounds z = Some (0, z'))"
proof -
  let ?tick = "g_mod_tick_ev st" and ?hb = "heartbeat_ev st" and ?idle = "g_idle_ev st"
  note rd = ready[unfolded ready_to_run_def]
  define z0 where "z0 = set_phase NV_CORE_PHASE_LOOP z"
  have z0: "bz_loop z0 = bz_loop z" "bz_ctx z0 = (bz_ctx z)\<lparr>phase := NV_CORE_PHASE_LOOP\<rparr>" "bz_threads z0 = bz_threads z" "bz_sig z0 = bz_sig z"
    by (simp_all add: z0_def set_phase_def bz_loop_def bz_ctx_def upd_sv_def)
  have wf: "loop_wf [?tick] [] (bz_loop z)" using rd by (simp add: business_up_def timers_known_def bz_loop_def)
  have sg: "l_signalfd_ev (bz_loop z) = be_sig_ev env" using rd by (simp add: signal_ready_def)
  obtain l where l: "nv_loop_add_idle ?idle (put_event ?idle (zero_event\<lparr>ev_type := NV_EVENT_TYPE_IDLE, ev_handler := Some nv_core_idle\<rparr>) (bz_loop z)) = Some l"
    "loop_wf [?tick] [?idle] l" "same_loop (bz_loop z) l" "\<forall>b. b \<noteq> ?idle \<longrightarrow> l_mem l b = l_mem (bz_loop z) b" "live_event nv_core_idle ?idle l"
    using idle_entered[OF wf, of ?idle] rd sg by auto
  define v0 where "v0 = (bz_sv z0)\<lparr>sv_loop := l\<rparr>"
  have v0: "sv_loop v0 = l" "sv_ctx v0 = bz_ctx z0" "fatal_signum v0 = 0" "exit_status v0 = None" "\<not> health_inited v0"
    using rd by (simp_all add: v0_def z0_def set_phase_def upd_sv_def bz_ctx_def)
  have hb: "?hb \<noteq> NULL" "?hb \<notin> set [?tick, ?idle]" "?hb \<noteq> l_signalfd_ev (sv_loop v0)" using rd sg l(3) v0(1) by (auto simp: same_loop_def)
  obtain v ts where v: "nv_core_health_init (he_sock he) (he_socket he) (he_send he) (he_wdt he) (he_time he) (he_ms he) ?hb v0 = Some v"
    "loop_wf ts [?idle] (sv_loop v)" "health_inited v" "ts = (if heartbeat_interval_sec (opts (sv_ctx v0)) > 0 then [?hb, ?tick] else [?tick])"
    "same_loop l (sv_loop v)" "\<forall>b. b \<noteq> ?hb \<and> b \<noteq> ?tick \<longrightarrow> l_mem (sv_loop v) b = l_mem l b" "expiry (l_mem (sv_loop v)) ?tick = expiry (l_mem l) ?tick"
    "heartbeat_interval_sec (opts (sv_ctx v0)) > 0 \<longrightarrow> expiry (l_mem (sv_loop v)) ?hb = ulong (he_ms he + heartbeat_ms (sv_ctx v0))"
    "sv_ctx v = (bz_ctx z0)\<lparr>started_at := he_time he\<rparr>" "fatal_signum v = 0" "exit_status v = None"
    using health_up[of ?tick "[?idle]" v0 ?hb "he_sock he" "he_socket he" "he_send he" "he_wdt he" "he_time he" "he_ms he"] l(2) hb v0 by auto
  define l2 where "l2 = (sv_loop v)\<lparr>l_state := NV_LOOP_RUNNING\<rparr>"
  define z2 where "z2 = z\<lparr>bz_sv := v\<lparr>sv_loop := l2\<rparr>\<rparr>"
  have z2: "bz_loop z2 = l2" "bz_ctx z2 = sv_ctx v" "bz_sig z2 = bz_sig z" by (simp_all add: z2_def bz_loop_def bz_ctx_def)
  have wf2: "loop_wf ts [?idle] l2" using v(2) by (simp add: l2_def loop_wf_def)
  have up: "business_up st ts [?idle] z2" unfolding z2_def
    by (rule up_after_health[where us = "[?tick]" and js = "[]"]) (use rd wf2 v(3,4,9) v0(2) in simp_all)
  have mem: "l_mem l2 ?idle = l_mem l ?idle" "l_mem l2 (be_sig_ev env) = l_mem (bz_loop z) (be_sig_ev env)" using rd v(6) l(4) by (auto simp: l2_def)
  have ready2: "signal_ready env z2" using rd l(3) v(5,9) mem(2) z0(2) z2 by (auto simp: signal_ready_def same_loop_def l2_def)
  have live: "live_event nv_core_idle ?idle l2" using l(5) mem(1) by (simp add: live_event_def)
  have ex: "\<forall>t \<in> set ts. due \<le> expiry (l_mem l2) t"
    using due v(4,7,8) v0(2) z0(2) l(4) rd by (auto simp: l2_def expiry_def heartbeat_ms_def)
  have "serving st env due ts z2" unfolding serving_def z2(1)
    using up ready2 live ex v(4,9-11) rd z0(2) z2(2) by (simp add: l2_def z2_def)
  moreover have "nv_core_run_loop st he rounds z = Some (0, z')" if "core_rounds rounds z2 = Some z'" "fatal_signum (bz_sv z') = 0" for rounds z'
  proof -
    have "l_state (sv_loop v) = NV_LOOP_INIT" using v(5) l(3) rd by (simp add: same_loop_def)
    moreover have "set_loop ((bz_loop (z0\<lparr>bz_sv := v\<rparr>))\<lparr>l_state := NV_LOOP_RUNNING\<rparr>) (z0\<lparr>bz_sv := v\<rparr>) = z2"
      by (simp add: z2_def l2_def set_loop_def bz_loop_def z0_def set_phase_def)
    ultimately show ?thesis using that l(1) v(1) z0(1) unfolding nv_core_run_loop_def Let_def z0_def[symmetric]
      by (simp add: v0_def bz_loop_def)
  qed
  ultimately show ?thesis using z0 z2 v(9) by (intro exI[of _ z2] exI[of _ ts]) (simp add: z2_def)
qed

lemma run_loop_stops:
  assumes "ready_to_run st env z"
    and "due \<le> expiry (l_mem (bz_loop z)) (g_mod_tick_ev st)" "due \<le> ulong (he_ms he + heartbeat_ms (bz_ctx z))"
    and "\<forall>r \<in> set qs. quiet_round due r" "stop_round env due r"
  shows "\<exists>z' ts. nv_core_run_loop st he (qs @ r # rest) z = Some (0, z') \<and> business_up st ts [g_idle_ev st] z' \<and> exit_status (bz_sv z') = None \<and>
    bz_ctx z' = (bz_ctx z)\<lparr>phase := NV_CORE_PHASE_LOOP, started_at := he_time he, quit := True, shutdown_started_at := rd_time r\<rparr> \<and>
    bz_threads z' = bz_threads z"
proof -
  obtain z2 ts where z2: "serving st env due ts z2" "bz_ctx z2 = (bz_ctx z)\<lparr>phase := NV_CORE_PHASE_LOOP, started_at := he_time he\<rparr>" "bz_threads z2 = bz_threads z"
    "\<forall>rounds z'. core_rounds rounds z2 = Some z' \<and> fatal_signum (bz_sv z') = 0 \<longrightarrow> nv_core_run_loop st he rounds z = Some (0, z')"
    using loop_entered[OF assms(1-3)] by blast
  obtain z3 where z3: "serving st env due ts z3" "core_rounds (qs @ r # rest) z2 = core_rounds (r # rest) z3" "bz_ctx z3 = bz_ctx z2" "bz_threads z3 = bz_threads z2"
    using quiet_rounds[OF z2(1) assms(4)] by blast
  obtain z' where "core_rounds (r # rest) z3 = Some z'" "business_up st ts [g_idle_ev st] z'" "exit_status (bz_sv z') = None" "fatal_signum (bz_sv z') = 0"
    "bz_ctx z' = (bz_ctx z3)\<lparr>quit := True, shutdown_started_at := rd_time r\<rparr>" "bz_threads z' = bz_threads z3"
    using stop_rounds[OF z3(1) assms(5)] by blast
  then show ?thesis using z2 z3 by (intro exI[of _ z'] exI[of _ ts]) simp
qed

section \<open>From start to end\<close>

definition no_hooks :: hooks where
  "no_hooks = \<lparr>on_business_init = None, on_business_cleanup = None, on_before_restart = None\<rparr>"

lemma shutdown_releases:
  assumes "phase (pr_ctx p) \<noteq> NV_CORE_PHASE_SHUTDOWN" "nv_core_pubsub_cleanup (pr_bus p) \<noteq> None"
  shows "\<exists>p' s'. nv_core_shutdown tries p s = Some (p', s') \<and> instance_lock_fd p' = None \<and> pid_fd p' = None \<and>
    phase (pr_ctx p') = NV_CORE_PHASE_NONE \<and> \<not> log_open p' \<and>
    (\<forall>key. instance_lock_fd p = Some key \<longrightarrow> abstract_names s' key = None) \<and>
    (\<forall>path. pid_file (opts (pr_ctx p)) = Some path \<longrightarrow> file_names s' path = None)"
proof -
  obtain bus where "nv_core_pubsub_cleanup (pr_bus p) = Some bus" using assms(2) by blast
  then show ?thesis using assms(1)
    by (cases "pid_fd p"; cases "pid_file (opts (pr_ctx p))"; cases "instance_lock_fd p")
       (simp_all add: nv_core_shutdown_def nv_core_loadlibs_unload_def nv_core_pidfile_remove_def nv_core_instance_lock_release_def
         upd_file_def upd_ctx_def split: prod.split)
qed

lemma business_run_stops:
  assumes new: "fresh_business (re_statics env) (re_business env) (cr_bz r)" "snd (be_tcp (re_business env))" "snd (be_udp (re_business env))"
    and init: "nv_core_business_init (re_statics env) (re_business env) (bz_enter (pr_ctx (cr_proc r)) (cr_bz r)) = Some (NV_OK, z)"
    and ctx: "\<not> quit (pr_ctx (cr_proc r))" "\<not> reload (pr_ctx (cr_proc r))" "\<not> restart (pr_ctx (cr_proc r))"
      "shutdown_started_at (pr_ctx (cr_proc r)) = 0" "worker_processes (opts (pr_ctx (cr_proc r))) \<le> 1"
    and rounds: "re_rounds env = qs @ q # rest" "\<forall>r \<in> set qs. quiet_round due r" "stop_round (re_business env) due q"
    and due: "due \<le> ulong (be_clock (re_business env) + 5000)" "due \<le> ulong (he_ms (re_health env) + heartbeat_ms (pr_ctx (cr_proc r)))"
  shows "\<exists>z' c. run_business env no_hooks argv r = leave env NV_OK (put_business z' r) \<and> business_clean z' \<and> bz_ctx z' = c \<and>
    opts c = opts (pr_ctx (cr_proc r)) \<and> phase c = NV_CORE_PHASE_LOOP \<and>
    bz_destroyed z' = map_option (nv_threadpool_destroy NV_TP_SHUTDOWN_GRACEFUL) (bz_threads z)"
proof -
  let ?st = "re_statics env" and ?be = "re_business env" and ?he = "re_health env" and ?c = "pr_ctx (cr_proc r)"
  define y where "y = bz_enter ?c (cr_bz r)"
  have y: "fresh_business ?st ?be y" "bz_ctx y = ?c" using new(1) by (simp_all add: y_def bz_enter_def fresh_business_def bz_loop_def bz_ctx_def)
  obtain ts where z: "business_up ?st ts [] z" "bz_ctx z = ?c\<lparr>phase := NV_CORE_PHASE_BUSINESS\<rparr>" "fatal_signum (bz_sv z) = 0" "exit_status (bz_sv z) = None"
    "ts = [g_mod_tick_ev ?st]" "signal_ready ?be z" "l_state (bz_loop z) = NV_LOOP_INIT" "\<not> health_inited (bz_sv z)"
    "expiry (l_mem (bz_loop z)) (g_mod_tick_ev ?st) = ulong (be_clock ?be + 5000)"
    using init_up[OF y(1) new(2,3)] init y(2) by (auto simp: y_def)
  have rdy: "ready_to_run ?st ?be z" using z new(1) ctx by (simp add: ready_to_run_def fresh_business_def)
  have d: "due \<le> expiry (l_mem (bz_loop z)) (g_mod_tick_ev ?st)" "due \<le> ulong (he_ms ?he + heartbeat_ms (bz_ctx z))"
    using due z(2,9) by (simp_all add: heartbeat_ms_def)
  obtain z1 ts' where z1:
    "nv_core_run_loop ?st ?he (qs @ q # rest) z = Some (0, z1)" "business_up ?st ts' [g_idle_ev ?st] z1" "exit_status (bz_sv z1) = None"
    "bz_ctx z1 = (bz_ctx z)\<lparr>phase := NV_CORE_PHASE_LOOP, started_at := he_time ?he, quit := True, shutdown_started_at := rd_time q\<rparr>"
    "bz_threads z1 = bz_threads z" using run_loop_stops[OF rdy d rounds(2,3), of rest] by blast
  obtain z2 where z2: "nv_core_business_cleanup ?st (he_sock ?he) (he_socket ?he) (he_send ?he) z1 = Some z2" "business_clean z2" "bz_ctx z2 = bz_ctx z1"
    "bz_destroyed z2 = map_option (nv_threadpool_destroy NV_TP_SHUTDOWN_GRACEFUL) (bz_threads z1)"
    using cleanup_clean[OF z1(2)] by blast
  have "run_business env no_hooks argv r = leave env NV_OK (put_business z2 r)"
    using init z1(1,3) z2(1,3) z1(4) z(2) ctx(3) rounds(1)
    by (simp add: run_business_def no_hooks_def Let_def finish_run_def)
  then show ?thesis using z2 z1(4,5) z(2) by (intro exI[of _ z2]) simp
qed

end
