(* ===== verification/Spec2Isabelle.thy ===== *)
theory Spec2Isabelle
  imports Nv_Secure Nv_Store Nv_Linear Nv_Hashed Nv_Heap Nv_Codec Nv_Digest Nv_Pool Nv_Ini Nv_Loop Nv_Threads Nv_LogRing Nv_Telnet Nv_PubSub Nv_Tree Nv_Service Nv_Net Nv_TimerTask Nv_Typing Nv_Run
begin

text \<open>
  A verification development of libnv, a C library for daemons: base containers and algorithms (\<open>src/src/base\<close>), an
  event loop with TCP and UDP servers on it (\<open>src/src/event\<close>), an asynchronous logger (\<open>src/src/log\<close>) and a daemon core
  (\<open>src/src/core\<close>) that reads a configuration, takes an instance lock, loads plugins, launches worker processes, runs the
  loop with its consoles, its publish/subscribe bus and its health timers, and shuts down.

  \<^bold>\<open>How the model is built.\<close>  Every definition is a translation of a C function and has its name where HOL allows it; a part
  of a long function that is a definition of its own is named after what it does.  Data structures are records with the
  fields of the C structures.  A function that changes a structure takes it and returns it updated, with the C return code;
  \<open>None\<close> stands for an access through NULL or through a freed pointer in the pointer structures, for a call that does
  not return where the text says so, and for a NULL result elsewhere.  What the operating system, the allocator or a plugin
  answers is an argument of the definition (the result of \<open>malloc\<close>, of \<open>strdup\<close>, of \<open>dlopen\<close>, the text of a file, the
  events of \<open>epoll_wait\<close>).  What the kernel keeps is explicit where a property depends on it: open descriptors
  (\<open>Nv_Net\<close>, \<open>Nv_TimerTask\<close>), blocked and waiting signals (\<open>Nv_Signal\<close>), children (\<open>Nv_Worker\<close>), abstract socket names,
  files and locks (\<open>Nv_Runtime\<close>).  C strings are character lists without the terminating NUL.  Integers are unbounded where
  the code cannot overflow, words where the code computes on bits, and naturals with the modulus written out where
  wrap-around matters (\<open>size_t\<close> in the memory pool and the connection buffers, \<open>unsigned long\<close> times in the loop,
  \<open>strtol\<close> in the ini reader).

  \<^bold>\<open>Concurrency.\<close>  The thread pool, the ring of the logger and the bus are step relations: a step is one critical section,
  or one atomic operation for the lock-free ring, and every interleaving of the steps of any number of threads is a run.
  Their properties hold in every reachable state (\<open>reach\<close> of \<open>Nv_Interfaces\<close>), by the locale \<open>step_invariant\<close>.  Many
  processes on one machine are a step relation as well (\<open>machine_step\<close> of \<open>Nv_Runtime\<close>).

  \<^bold>\<open>Loops.\<close>  Loops over data are recursive functions.  A walk over linked nodes, which a cycle or a dangling pointer would
  keep from ending, is a \<open>partial_function\<close>, and that it returns is proved.  Loops that wait for the environment
  (\<open>supervise_loop\<close>, \<open>run_loop\<close>, \<open>core_rounds\<close>) recurse over the list of answers they get, of any length, and give
  \<open>None\<close> when they still run at its end; no bound is chosen anywhere.

  \<^bold>\<open>Theories, sources and what is shown.\<close>
  \<^item> \<open>Nv_Prelude\<close>: return codes (\<open>base/core/nv_base.h\<close>), C strings, list and word facts.
  \<^item> \<open>Nv_Store\<close>: an explicit store of nodes, singly and doubly linked segments, and the locale \<open>dlinks\<close> of doubly linked
    lists, interpreted for the integer list and for the event lists.
  \<^item> \<open>Nv_Interfaces\<close>: the contracts that components implement: \<open>fifo\<close>, \<open>bounded_fifo\<close>, \<open>keyed_store\<close>, \<open>keyed_store_del\<close>,
    \<open>registry\<close>, \<open>step_invariant\<close>, \<open>byte_stream\<close> and \<open>bounded_stream\<close>.  Each is interpreted for the components that keep it.
  \<^item> \<open>Nv_Secure\<close>: \<open>base/sys/nv_secure.c\<close>; the constant-time comparisons decide equality.
  \<^item> \<open>Nv_Linear\<close>: \<open>nv_list.c\<close>, \<open>nv_queue.c\<close> and \<open>nv_stack.c\<close> of \<open>base/data\<close>, on the store; they refine lists.
  \<^item> \<open>Nv_Hashed\<close>: \<open>nv_dict.c\<close>, \<open>nv_hash_table.c\<close>, \<open>nv_set.c\<close> and \<open>nv_graph.c\<close>; they refine maps, sets and relations.
  \<^item> \<open>Nv_Heap\<close>: \<open>nv_heap.c\<close> and the locale \<open>max_priority_queue\<close> it implements; draining sorts.
  \<^item> \<open>Nv_Tree\<close>: \<open>nv_rb_tree.c\<close> with parent links on the store; insertion keeps the red-black invariants and returns exactly for
    new keys, the traversal sorts, the search finds.
  \<^item> \<open>Nv_Codec\<close>: \<open>nv_base64.c\<close> and \<open>nv_crc16.c\<close>; \<open>Nv_Digest\<close>: \<open>nv_hash.c\<close> and \<open>nv_md5.c\<close>.  Round trip, error detection,
    independence of the chunks of a file.
  \<^item> \<open>Nv_Pool\<close>: \<open>base/nv_pool.c\<close>; areas are disjoint and aligned, and the pool always validates.
  \<^item> \<open>Nv_Ini\<close>: \<open>base/nv_ini.c\<close>; the last assignment wins, and rendering round-trips.
  \<^item> \<open>Nv_Event\<close>, \<open>Nv_Loop\<close>: \<open>event/nv_event.c\<close> and \<open>event/nv_loop.c\<close>; what a pass over the timers fires, and how a timer that
    arms itself again is lost.
  \<^item> \<open>Nv_Net\<close>: \<open>event/nv_tcp.c\<close> and \<open>event/nv_udp.c\<close>, connections, servers and clients with their descriptors and
    registrations; \<open>Nv_Buffer\<close>: their buffers, which are byte streams, and connection pools.
  \<^item> \<open>Nv_Signal\<close>: \<open>base/ipc/nv_signal.c\<close>; registered signals are delivered.  \<open>Nv_TimerTask\<close>: \<open>base/sys/nv_timer_task.c\<close>;
    slots, descriptors and registrations agree.
  \<^item> \<open>Nv_Threads\<close>: \<open>base/sys/nv_thread_pool.c\<close>; tasks start once, in order, no wakeup is lost, a graceful end runs all tasks.
  \<^item> \<open>Nv_Log\<close>, \<open>Nv_LogRing\<close>: \<open>log/nv_log.c\<close>, settings and rotation, and the ring; lines leave in order, none is lost in the ring.
  \<^item> \<open>Nv_Options\<close>, \<open>Nv_Config\<close>, \<open>Nv_Typing\<close>: \<open>core/runtime/nv_core_args.c\<close> and \<open>core/runtime/nv_core_config.c\<close>, command line,
    configuration file, validation and reload; every option keeps the range of its C type.
  \<^item> \<open>Nv_Loadlib\<close>: \<open>core/loadlib/nv_core_loadlib.c\<close>; plugins are confined to their directory.
  \<^item> \<open>Nv_Cli\<close>, \<open>Nv_Telnet\<close>: \<open>core/cli\<close>, the registry of commands, control socket and telnet sessions; no command runs without a
    login, and the buffers are kept.  The locale \<open>session_invariant\<close> carries what every action of a session keeps.
  \<^item> \<open>Nv_PubSub\<close>: \<open>core/bus/nv_core_pubsub.c\<close>; after an unsubscription no handler runs, and remote clients get what they subscribed to.
  \<^item> \<open>Nv_Worker\<close>: \<open>core/runtime/nv_core_worker.c\<close>; the master waits for every child, and never hears the signals it blocks.
  \<^item> \<open>Nv_Runtime\<close>: \<open>core/runtime/nv_core_startup.c\<close>, \<open>core/runtime/nv_core_lock.c\<close>, \<open>base/core/nv_base.c\<close> and the shutdown of
    \<open>core/runtime/nv_core_run.c\<close>; one instance per lock.
  \<^item> \<open>Nv_Service\<close>: handlers of the core on the loop (\<open>core/runtime/nv_core_health.c\<close>, \<open>core/runtime/nv_core_modules.c\<close>,
    \<open>core/runtime/nv_core_run.c\<close>, \<open>base/sys/nv_watchdog.c\<close>); the heartbeat of the default configuration is lost.
  \<^item> \<open>Nv_Business\<close>: \<open>core/runtime/nv_core.c\<close>, setting up and tearing down what runs on the loop; everything is released.
  \<^item> \<open>Nv_Run\<close>: the entry point \<open>nv_core_run\<close> and the main loop with the handlers of the core.  The property that spans
    these parts is below: a daemon that is told to stop does.

  \<^bold>\<open>How the parts interact.\<close>  \<open>nv_core_run\<close> parses the command line (\<open>Nv_Options\<close>), starts up (\<open>Nv_Runtime\<close>, which loads the
  configuration by \<open>Nv_Config\<close> and \<open>Nv_Ini\<close>, takes the lock, and loads plugins by \<open>Nv_Loadlib\<close>), launches workers (\<open>Nv_Worker\<close>)
  or goes on alone, sets up loop, signals, threads, pools and consoles (\<open>Nv_Business\<close> on \<open>Nv_Loop\<close>, \<open>Nv_Signal\<close>, \<open>Nv_Threads\<close>,
  \<open>Nv_Buffer\<close>, \<open>Nv_Cli\<close>, \<open>Nv_Telnet\<close>), runs the loop (\<open>Nv_Service\<close>) and shuts down.  The models share the context
  \<open>nv_core_ctx_t\<close> of \<open>Nv_Options\<close>; the thread pool, the bus and the telnet sessions appear in a run as states, and their own
  runs are in their theories.

  \<^bold>\<open>Not modelled.\<close>
  \<^item> Text that is only printed: log lines, usage and status texts, the tombstone file, what a telnet session echoes.
  \<^item> Wrappers of single system calls: \<open>base/net\<close>, the shared memory, pipe, semaphore and message queue functions of \<open>base/ipc\<close>,
    the devices of \<open>base/hw\<close>, process and file helpers of \<open>base/sys\<close>, and socket options and multicast membership of TCP and UDP.  They keep no
    state of their own, and there is nothing to prove about them beyond what the kernel does.
  \<^item> Wrappers of cJSON, Mini-XML and SQLite (\<open>nv_json.c\<close>, \<open>nv_xml.c\<close>, \<open>nv_sqlite.c\<close>): what they do is what these third-party
    libraries do.
  \<^item> Hooks of the application other than those of \<open>nv_core_run\<close>, and the time a system call takes.
\<close>

section \<open>A daemon that is told to stop\<close>

text \<open>C1. A daemon stops when it is told to.  Let a process start (one process, no hooks, its business modules initialised), let
  its loop wait any number of times with nothing to do, and let SIGINT or SIGTERM arrive before the first timer is
  due.  Then the signal is read from the signal descriptor, the loop ends, whatever would have come after it,
  the entry point returns with success, the business modules are released, the thread pool has been told to finish its tasks,
  the instance lock and the PID file are gone and the saved arguments are freed.\<close>

theorem nv_core_stops_on_signal:
  assumes "nv_core_parse_args argv (pr_ctx (cr_proc r)) = (NV_OK, c)"
    and "nv_core_startup_init (re_startup env) ((cr_proc r)\<lparr>pr_ctx := c\<rparr>) (cr_sys r) = (NV_OK, p, s)"
    and "re_child env = None" "worker_processes (opts (pr_ctx p)) \<le> 1"
    and "fresh_business (re_statics env) (re_business env) (cr_bz r)" "snd (be_tcp (re_business env))" "snd (be_udp (re_business env))"
    and "nv_core_business_init (re_statics env) (re_business env)
           (bz_enter ((pr_ctx p)\<lparr>is_master := False, is_worker := False, worker_id := 0\<rparr>) (cr_bz r)) = Some (NV_OK, z)"
    and "\<not> quit (pr_ctx p)" "\<not> reload (pr_ctx p)" "\<not> restart (pr_ctx p)" "shutdown_started_at (pr_ctx p) = 0"
    and "re_rounds env = qs @ q # rest" "\<forall>r \<in> set qs. quiet_round due r" "stop_round (re_business env) due q"
    and "due \<le> ulong (be_clock (re_business env) + 5000)" "due \<le> ulong (he_ms (re_health env) + heartbeat_ms (pr_ctx p))"
    and "nv_core_pubsub_cleanup (pr_bus p) \<noteq> None"
  shows "\<exists>r'. nv_core_run env no_hooks argv r = Some (Returns NV_OK, r') \<and> business_clean (cr_bz r') \<and>
    bz_destroyed (cr_bz r') = map_option (nv_threadpool_destroy NV_TP_SHUTDOWN_GRACEFUL) (bz_threads z) \<and>
    instance_lock_fd (cr_proc r') = None \<and> (\<forall>key. instance_lock_fd p = Some key \<longrightarrow> abstract_names (cr_sys r') key = None) \<and>
    (\<forall>path. pid_file (opts (pr_ctx p)) = Some path \<longrightarrow> file_names (cr_sys r') path = None) \<and> g_saved_argv r' = []"
proof -
  define c1 where "c1 = (pr_ctx p)\<lparr>is_master := False, is_worker := False, worker_id := 0\<rparr>"
  define r1 where "r1 = (nv_core_save_argv (re_argv_alloc env) (re_argv_dup env) argv r)\<lparr>cr_proc := p\<lparr>pr_ctx := c1\<rparr>, cr_sys := s, cr_master := cr_master r\<rparr>"
  have r1: "cr_proc r1 = p\<lparr>pr_ctx := c1\<rparr>" "cr_sys r1 = s" "cr_bz r1 = cr_bz r" by (simp_all add: r1_def nv_core_save_argv_def)
  have run: "nv_core_run env no_hooks argv r = run_business env no_hooks argv r1"
    using assms(1-4) by (cases r) (simp add: nv_core_run_def run_launch_def nv_core_workers_launch_def nv_core_save_argv_def r1_def c1_def Let_def NV_OK_def NV_DECLINED_def)
  obtain z' where z': "run_business env no_hooks argv r1 = leave env NV_OK (put_business z' r1)" "business_clean z'" "opts (bz_ctx z') = opts (pr_ctx p)"
    "phase (bz_ctx z') = NV_CORE_PHASE_LOOP" "bz_destroyed z' = map_option (nv_threadpool_destroy NV_TP_SHUTDOWN_GRACEFUL) (bz_threads z)"
    using business_run_stops[of env r1 z qs q rest due argv] assms(4-17) r1 by (auto simp: c1_def heartbeat_ms_def)
  obtain p' s' where sh: "nv_core_shutdown (re_tries env) (p\<lparr>pr_ctx := bz_ctx z'\<rparr>) s = Some (p', s')" "instance_lock_fd p' = None"
    "\<forall>key. instance_lock_fd p = Some key \<longrightarrow> abstract_names s' key = None" "\<forall>path. pid_file (opts (pr_ctx p)) = Some path \<longrightarrow> file_names s' path = None"
    using shutdown_releases[of "p\<lparr>pr_ctx := bz_ctx z'\<rparr>" "re_tries env" s] assms(18) z'(3,4) by auto
  then show ?thesis using run z' r1 by (simp add: leave_def put_business_def nv_core_free_saved_argv_def)
qed

section \<open>A run\<close>

text \<open>The default daemon with a fresh machine: it waits twice, and SIGTERM arrives in the third round.\<close>

definition sample_round :: core_round where
  "sample_round = \<lparr>rd_signals = [], rd_wait = Ready [], rd_ms = 200, rd_time = 2, rd_reads = [], rd_strdup = Some, rd_alloc = True, rd_config = None\<rparr>"

definition sample_run_env :: run_env where
  "sample_run_env = \<lparr>re_statics = sample_statics, re_argv_alloc = True, re_argv_dup = Some, re_startup = plain_env, re_child = None,
     re_sfd = (\<lambda>fd. if fd < 0 then 5 else fd), re_forks = (\<lambda>_. -1), re_supervision = [], re_stops = (\<lambda>_. ([], [])),
     re_business = sample_business_env,
     re_health = \<lparr>he_sock = None, he_socket = True, he_send = True, he_wdt = -1, he_time = 1, he_ms = 100\<rparr>,
     re_rounds = [sample_round, sample_round\<lparr>rd_wait := Interrupted\<rparr>] @
       sample_round\<lparr>rd_signals := [SIGTERM], rd_reads := [SIGTERM], rd_wait := Ready [(1, 64)], rd_time := 3\<rparr> # [sample_round],
     re_exec = True, re_tries = (\<lambda>_ _. 0)\<rparr>"

definition sample_run :: core_run where
  "sample_run = \<lparr>cr_proc = plain_process ''a'' None 10, cr_sys = idle_system, cr_bz = no_business (sample_ctx ''/p''), cr_master = no_master, g_saved_argv = []\<rparr>"

definition sample_parsed :: nv_core_ctx_t where
  "sample_parsed = snd (nv_core_parse_args [''nvd''] (pr_ctx (cr_proc sample_run)))"

lemma run_parse: "nv_core_parse_args [''nvd''] (pr_ctx (cr_proc sample_run)) = (NV_OK, sample_parsed)"
  and sample_parsed_ctx: "opts sample_parsed = default_opts\<lparr>prog_name := Some ''nvd''\<rparr>" "\<not> quit sample_parsed" "\<not> reload sample_parsed" "\<not> restart sample_parsed"
    "shutdown_started_at sample_parsed = 0" "loadlibs sample_parsed = []" "\<not> loadlibs_loaded sample_parsed" "phase sample_parsed = NV_CORE_PHASE_NONE"
  by (simp_all add: sample_parsed_def nv_core_parse_args_def nv_core_set_defaults_def default_opts_def Let_def)

lemma run_prepare:
  "\<exists>p. prepare plain_env ((cr_proc sample_run)\<lparr>pr_ctx := sample_parsed\<rparr>) = (NV_OK, p) \<and> opts (pr_ctx p) = default_opts\<lparr>prog_name := Some ''nvd''\<rparr> \<and>
     \<not> quit (pr_ctx p) \<and> \<not> reload (pr_ctx p) \<and> \<not> restart (pr_ctx p) \<and> shutdown_started_at (pr_ctx p) = 0 \<and> loadlibs (pr_ctx p) = [] \<and>
     \<not> loadlibs_loaded (pr_ctx p)"
  by (simp add: prepare_def plain_env_def nv_core_load_config_def nv_ini_load_def nv_core_config_validate_def
      nv_core_log_init_def upd_ctx_def default_opts_def Let_def log_levels NV_OK_def sample_parsed_ctx)

lemma default_lock_key: "lock_key (Some ''libnv'') = ''libnv-libnv''"
  by code_simp

lemma run_start:
  "\<exists>p s. nv_core_startup_init plain_env ((cr_proc sample_run)\<lparr>pr_ctx := sample_parsed\<rparr>) idle_system = (NV_OK, p, s) \<and>
     opts (pr_ctx p) = default_opts\<lparr>prog_name := Some ''nvd''\<rparr> \<and> \<not> quit (pr_ctx p) \<and> \<not> reload (pr_ctx p) \<and> \<not> restart (pr_ctx p) \<and>
     shutdown_started_at (pr_ctx p) = 0 \<and> instance_lock_fd p = Some ''libnv-libnv'' \<and> nv_core_pubsub_cleanup (pr_bus p) \<noteq> None"
proof -
  obtain p where p: "prepare plain_env ((cr_proc sample_run)\<lparr>pr_ctx := sample_parsed\<rparr>) = (NV_OK, p)" "opts (pr_ctx p) = default_opts\<lparr>prog_name := Some ''nvd''\<rparr>"
    "\<not> quit (pr_ctx p)" "\<not> reload (pr_ctx p)" "\<not> restart (pr_ctx p)" "shutdown_started_at (pr_ctx p) = 0" "loadlibs (pr_ctx p) = []" "\<not> loadlibs_loaded (pr_ctx p)"
    using run_prepare by blast
  have base: "pr_base p = \<lparr>g_modules = [], inits = [], cleanups = []\<rparr>" "nv_core_pubsub_cleanup (pr_bus p) \<noteq> None"
    using prepare_frame[OF p(1)] by (simp_all add: sample_run_def plain_process_def nv_core_pubsub_cleanup_def)
  have lock: "lock_key (instance_lock (opts (pr_ctx p))) = ''libnv-libnv''" using p(2) default_lock_key by (simp add: default_opts_def)
  show ?thesis using p base lock
    by (simp add: nv_core_startup_init_def nv_core_instance_lock_acquire_def kernel_bind_def nv_core_pidfile_create_def kernel_open_def idle_system_def
        nv_core_loadlibs_load_def nv_base_init_def upd_ctx_def plain_env_def Let_def default_opts_def upd_file_def)
qed

lemma sample_registered: "\<exists>s. register_all (be_sfd sample_business_env) core_regs no_signals = (0, s)"
  by (simp add: sample_business_env_def core_regs_def SIGINT_def SIGTERM_def SIGHUP_def SIGUSR1_def nv_signal_register_def nv_signal_init_def
      nv_signal_update_fd_def no_signals_def NSIG_def kernel_block_def Let_def zero_slots_def NV_SIGNAL_SLOT_MAX_def numeral_eq_Suc)

lemma enter_fresh: "fresh_business st env (bz_enter c z) = fresh_business st env z" "bz_ctx (bz_enter c z) = c"
  by (simp_all add: fresh_business_def bz_enter_def bz_loop_def bz_ctx_def)

theorem nv_core_stops_on_signal_witness:
  "\<exists>r'. nv_core_run sample_run_env no_hooks [''nvd''] sample_run = Some (Returns NV_OK, r') \<and> business_clean (cr_bz r') \<and>
     abstract_names (cr_sys r') ''libnv-libnv'' = None \<and> file_names (cr_sys r') ''/var/run/nv.pid'' = None"
proof -
  obtain p s where p: "nv_core_startup_init plain_env ((cr_proc sample_run)\<lparr>pr_ctx := sample_parsed\<rparr>) idle_system = (NV_OK, p, s)"
    "opts (pr_ctx p) = default_opts\<lparr>prog_name := Some ''nvd''\<rparr>" "\<not> quit (pr_ctx p)" "\<not> reload (pr_ctx p)" "\<not> restart (pr_ctx p)"
    "shutdown_started_at (pr_ctx p) = 0" "instance_lock_fd p = Some ''libnv-libnv''" "nv_core_pubsub_cleanup (pr_bus p) \<noteq> None"
    using run_start by blast
  define c where "c = (pr_ctx p)\<lparr>is_master := False, is_worker := False, worker_id := 0\<rparr>"
  obtain sg where sg: "register_all (be_sfd sample_business_env) core_regs no_signals = (0, sg)" using sample_registered by blast
  have fresh: "fresh_business sample_statics sample_business_env (cr_bz sample_run)" by (simp add: sample_run_def no_business_fresh)
  have mutex: "snd (be_tcp sample_business_env)" "snd (be_udp sample_business_env)" by (simp_all add: sample_business_env_def)
  have "\<exists>z. nv_core_business_init sample_statics sample_business_env (bz_enter c (cr_bz sample_run)) = Some (NV_OK, z) \<and> bz_threads z \<noteq> None"
    by (rule init_succeeds[OF _ mutex _ _ _ _ _ sg]) (use fresh p(2) in \<open>simp_all add: enter_fresh sample_business_env_def c_def default_opts_def\<close>)
  then obtain z where z: "nv_core_business_init sample_statics sample_business_env (bz_enter c (cr_bz sample_run)) = Some (NV_OK, z)" by blast
  have env: "re_statics sample_run_env = sample_statics" "re_business sample_run_env = sample_business_env" "re_startup sample_run_env = plain_env"
    "re_child sample_run_env = None" "cr_sys sample_run = idle_system" by (simp_all add: sample_run_env_def sample_run_def)
  have small: "ulong n = n" if "n < 100000" for n using that by (simp add: ulong_id)
  show ?thesis
    using nv_core_stops_on_signal[OF run_parse, of sample_run_env p s z "[sample_round, sample_round\<lparr>rd_wait := Interrupted\<rparr>]"
        "sample_round\<lparr>rd_signals := [SIGTERM], rd_reads := [SIGTERM], rd_wait := Ready [(1, 64)], rd_time := 3\<rparr>" "[sample_round]" 5000]
      p z fresh mutex unfolding env c_def
    by (simp add: sample_run_env_def quiet_round_def stop_round_def sample_round_def sample_business_env_def default_opts_def heartbeat_ms_def small) blast
qed

end
